(* ===== verification/Prelude.thy ===== *)
theory Prelude
  imports Main "HOL-Library.Word"
begin

text \<open>
  Shared vocabulary of the scubed3 development: the widths of the C integer types, the ways a
  C function of the program can fail to return a value, the sequencing of fallible steps, and
  the two memory primitives (reading a slice of a buffer, copying bytes into a buffer) that
  every component which touches a macroblock is written with, together with the generic facts
  about them that the component theories rely on.
\<close>

unbundle bit_operations_syntax

section \<open>C integer types\<close>

type_synonym u8 = "8 word"
type_synonym u16 = "16 word"
type_synonym u32 = "32 word"
type_synonym u64 = "64 word"

type_synonym bytes = "u8 list"

section \<open>Failures\<close>

text \<open>
  \<^item> \<open>Assert\<close>: a failed \<^verbatim>\<open>assert\<close> (the build never defines NDEBUG, so the process aborts);
  \<^item> \<open>Fatal\<close>: the macro FATAL of verbose.h, which prints and calls \<^verbatim>\<open>exit(EXIT_FAILURE)\<close>;
  \<^item> \<open>Ecch\<close>: an exception of the setjmp/longjmp based exception system of ecch.h;
  \<^item> \<open>Diverges\<close>: a pointer walk that never reaches the end of its list.
\<close>

datatype error = Assert string | Fatal string | Ecch string | Diverges

type_synonym 'a res = "error + 'a"

section \<open>Sequencing\<close>

definition rbind :: "'a res \<Rightarrow> ('a \<Rightarrow> 'b res) \<Rightarrow> 'b res" where
  "rbind m f = (case m of Inl e \<Rightarrow> Inl e | Inr x \<Rightarrow> f x)"

definition asserting :: "bool \<Rightarrow> string \<Rightarrow> 'a res \<Rightarrow> 'a res" where
  "asserting c msg k = (if c then k else Inl (Assert msg))"

definition fatal_if :: "bool \<Rightarrow> string \<Rightarrow> 'a res \<Rightarrow> 'a res" where
  "fatal_if c msg k = (if c then Inl (Fatal msg) else k)"

definition throw_if :: "bool \<Rightarrow> string \<Rightarrow> 'a res \<Rightarrow> 'a res" where
  "throw_if c msg k = (if c then Inl (Ecch msg) else k)"

named_theorems res_simps \<open>inversion of successful fallible computations\<close>
named_theorems mem_simps \<open>reading back what was copied into a buffer\<close>

lemma rbind_Inl [simp]: "rbind (Inl e) f = Inl e"
  by (simp add: rbind_def)

lemma rbind_Inr [simp]: "rbind (Inr x) f = f x"
  by (simp add: rbind_def)

lemma rbind_eq_Inr [res_simps]: "rbind m f = Inr y \<longleftrightarrow> (\<exists>x. m = Inr x \<and> f x = Inr y)"
  by (cases m) auto

lemma asserting_True [simp]: "asserting True msg k = k"
  by (simp add: asserting_def)

lemma asserting_False [simp]: "asserting False msg k = Inl (Assert msg)"
  by (simp add: asserting_def)

lemma asserting_eq_Inr [res_simps]: "asserting c msg k = Inr y \<longleftrightarrow> c \<and> k = Inr y"
  by (simp add: asserting_def)

lemma fatal_if_True [simp]: "fatal_if True msg k = Inl (Fatal msg)"
  by (simp add: fatal_if_def)

lemma fatal_if_False [simp]: "fatal_if False msg k = k"
  by (simp add: fatal_if_def)

lemma fatal_if_eq_Inr [res_simps]: "fatal_if c msg k = Inr y \<longleftrightarrow> \<not> c \<and> k = Inr y"
  by (simp add: fatal_if_def)

lemma throw_if_True [simp]: "throw_if True msg k = Inl (Ecch msg)"
  by (simp add: throw_if_def)

lemma throw_if_False [simp]: "throw_if False msg k = k"
  by (simp add: throw_if_def)

lemma throw_if_eq_Inr [res_simps]: "throw_if c msg k = Inr y \<longleftrightarrow> \<not> c \<and> k = Inr y"
  by (simp add: throw_if_def)

lemma rbind_cong [fundef_cong]:
  "m = m' \<Longrightarrow> (\<And>x. m' = Inr x \<Longrightarrow> f x = f' x) \<Longrightarrow> rbind m f = rbind m' f'"
  by (cases m') auto

lemma asserting_cong [fundef_cong]:
  "c = c' \<Longrightarrow> msg = msg' \<Longrightarrow> (c' \<Longrightarrow> k = k') \<Longrightarrow> asserting c msg k = asserting c' msg' k'"
  by (simp add: asserting_def)

lemma fatal_if_cong [fundef_cong]:
  "c = c' \<Longrightarrow> msg = msg' \<Longrightarrow> (\<not> c' \<Longrightarrow> k = k') \<Longrightarrow> fatal_if c msg k = fatal_if c' msg' k'"
  by (simp add: fatal_if_def)

text \<open>The result of a loop that may not end.\<close>

definition ends :: "'a option \<Rightarrow> 'a res" where
  "ends m = (case m of None \<Rightarrow> Inl Diverges | Some x \<Rightarrow> Inr x)"

text \<open>A counted loop whose body can fail.\<close>

fun rfold :: "('a \<Rightarrow> 's \<Rightarrow> 's res) \<Rightarrow> 'a list \<Rightarrow> 's \<Rightarrow> 's res" where
  "rfold f [] s = Inr s"
| "rfold f (x # xs) s = rbind (f x s) (rfold f xs)"

lemma rfold_append: "rfold f (xs @ ys) s = rbind (rfold f xs s) (rfold f ys)"
proof (induction xs arbitrary: s)
  case (Cons x xs)
  show ?case by (cases "f x s") (simp_all add: Cons.IH)
qed simp

section \<open>Buffers\<close>

text \<open>
  \<open>bslice off n b\<close> is what \<^verbatim>\<open>memcpy(_, b + off, n)\<close> reads and \<open>blit off d b\<close> is the buffer
  after \<^verbatim>\<open>memcpy(b + off, d, length d)\<close>. Both are meant for accesses inside the buffer; the
  operations that use them carry the bound.
\<close>

definition bslice :: "nat \<Rightarrow> nat \<Rightarrow> 'a list \<Rightarrow> 'a list" where
  "bslice off n b = take n (drop off b)"

definition blit :: "nat \<Rightarrow> 'a list \<Rightarrow> 'a list \<Rightarrow> 'a list" where
  "blit off d b = take off b @ d @ drop (off + length d) b"

lemma length_bslice [simp]: "length (bslice off n b) = min n (length b - off)"
  by (simp add: bslice_def)

lemma length_blit: "off + length d \<le> length b \<Longrightarrow> length (blit off d b) = length b"
  by (simp add: blit_def)

lemma nth_bslice [simp]: "i < n \<Longrightarrow> off + n \<le> length b \<Longrightarrow> bslice off n b ! i = b ! (off + i)"
  by (simp add: bslice_def)

lemma nth_blit:
  assumes "off + length d \<le> length b" "i < length b"
  shows "blit off d b ! i = (if off \<le> i \<and> i < off + length d then d ! (i - off) else b ! i)"
  using assms by (auto simp: blit_def nth_append min_def)

lemma bslice_eq_nthI:
  assumes "off + n \<le> length b" "off' + n \<le> length b'" "\<And>i. i < n \<Longrightarrow> b ! (off + i) = b' ! (off' + i)"
  shows "bslice off n b = bslice off' n b'"
  using assms by (intro nth_equalityI) auto

lemma bslice_blit_same [mem_simps]:
  "off + length d \<le> length b \<Longrightarrow> n = length d \<Longrightarrow> bslice off n (blit off d b) = d"
  by (simp add: bslice_def blit_def)

lemma bslice_blit_disjoint [mem_simps]:
  assumes "off + length d \<le> length b" "a + n \<le> length b" "a + n \<le> off \<or> off + length d \<le> a"
  shows "bslice a n (blit off d b) = bslice a n b"
  using assms by (intro bslice_eq_nthI) (auto simp: length_blit nth_blit)

lemma bslice_bslice: "a + n \<le> m \<Longrightarrow> bslice a n (bslice off m b) = bslice (off + a) n b"
  by (simp add: bslice_def drop_take min_def add.commute)

lemma bslice_full [simp]: "length b = n \<Longrightarrow> bslice 0 n b = b"
  by (simp add: bslice_def)

lemma bslice_append_adjacent: "bslice off m b @ bslice (off + m) n b = bslice off (m + n) b"
  by (simp add: bslice_def take_add add.commute)

lemma list_update_conv_blit:
  assumes "i < length b" shows "b[i := x] = blit i [x] b"
  using assms by (simp add: blit_def upd_conv_take_nth_drop)

lemma blit_blit_adjacent:
  assumes "off + length d + length e \<le> length b"
  shows "blit (off + length d) e (blit off d b) = blit off (d @ e) b"
  using assms by (simp add: blit_def ac_simps)

lemma fold_list_update:
  assumes "n \<le> length xs"
  shows "fold (\<lambda>i xs. xs[i := f i]) [0..<n] xs = map f [0..<n] @ drop n xs"
  using assms
proof (induction n)
  case (Suc n)
  then have "drop n xs = xs ! n # drop (Suc n) xs"
    by (simp add: Cons_nth_drop_Suc)
  with Suc show ?case by (simp add: list_update_append)
qed simp

subsection \<open>Several copies into one buffer\<close>

fun blits :: "(nat \<times> 'a list) list \<Rightarrow> 'a list \<Rightarrow> 'a list" where
  "blits [] b = b"
| "blits ((off, d) # ws) b = blit off d (blits ws b)"

definition fits :: "nat \<Rightarrow> (nat \<times> 'a list) list \<Rightarrow> bool" where
  "fits n ws \<longleftrightarrow> (\<forall>(off, d) \<in> set ws. off + length d \<le> n)"

definition clear_of :: "nat \<Rightarrow> nat \<Rightarrow> (nat \<times> 'a list) list \<Rightarrow> bool" where
  "clear_of a n ws \<longleftrightarrow> (\<forall>(off, d) \<in> set ws. a + n \<le> off \<or> off + length d \<le> a)"

fun apart :: "(nat \<times> 'a list) list \<Rightarrow> bool" where
  "apart [] = True"
| "apart ((off, d) # ws) = (clear_of off (length d) ws \<and> apart ws)"

lemma fits_simps [simp]: "fits n []" "fits n ((off, d) # ws) \<longleftrightarrow> off + length d \<le> n \<and> fits n ws"
  by (simp_all add: fits_def)

lemma fits_mono: "fits n ws \<Longrightarrow> n \<le> m \<Longrightarrow> fits m ws"
  by (auto simp: fits_def)

lemma clear_of_simps [simp]:
  "clear_of a n []" "clear_of a n ((off, d) # ws) \<longleftrightarrow> (a + n \<le> off \<or> off + length d \<le> a) \<and> clear_of a n ws"
  by (simp_all add: clear_of_def)

lemma length_blits: "fits (length b) ws \<Longrightarrow> length (blits ws b) = length b"
  by (induction ws) (auto simp: length_blit)

lemma bslice_blits_outside:
  "fits (length b) ws \<Longrightarrow> clear_of a n ws \<Longrightarrow> a + n \<le> length b \<Longrightarrow> bslice a n (blits ws b) = bslice a n b"
  by (induction ws) (auto simp: length_blits bslice_blit_disjoint)

lemma bslice_blits:
  "fits (length b) ws \<Longrightarrow> apart ws \<Longrightarrow> (off, d) \<in> set ws \<Longrightarrow> bslice off (length d) (blits ws b) = d"
proof (induction ws)
  case (Cons w ws)
  obtain o' d' where w: "w = (o', d')" by (cases w)
  show ?case
  proof (cases "(off, d) = w")
    case True
    with Cons.prems w show ?thesis by (simp add: bslice_blit_same length_blits)
  next
    case False
    with Cons.prems have mem: "(off, d) \<in> set ws" by simp
    with Cons.prems w have "off + length d \<le> o' \<or> o' + length d' \<le> off" "off + length d \<le> length b"
      by (auto simp: clear_of_def fits_def)
    with Cons mem w show ?thesis by (simp add: bslice_blit_disjoint length_blits)
  qed
qed simp

section \<open>Arithmetic and words\<close>

lemma div_mod_add_small:
  assumes "(a :: nat) mod m + k < m"
  shows "(a + k) div m = a div m" "(a + k) mod m = a mod m + k"
proof -
  have eq: "a + k = (a mod m + k) + m * (a div m)" by simp
  have "m \<noteq> 0" using assms by auto
  then have "((a mod m + k) + m * (a div m)) div m = a div m + (a mod m + k) div m"
    by (rule div_mult_self2)
  then show "(a + k) div m = a div m" using assms by (subst eq) (simp only: div_less add_0_right)
  show "(a + k) mod m = a mod m + k" using assms by (subst eq) (simp only: mod_mult_self2 mod_less)
qed

lemma unat_less_exp: "unat (w :: 'a::len word) < 2 ^ LENGTH('a)"
  by (rule unsigned_less)

lemma blit_blit_same:
  "off + length d \<le> length b \<Longrightarrow> length d' = length d \<Longrightarrow> blit off d (blit off d' b) = blit off d b"
  by (simp add: blit_def)

lemma blit_self: "off + n \<le> length b \<Longrightarrow> blit off (bslice off n b) b = b"
  by (simp add: blit_def bslice_def min_def)
     (metis add.commute append_take_drop_id drop_drop)

lemma unat_of_nat_small: "n < 2 ^ LENGTH('a) \<Longrightarrow> unat (of_nat n :: 'a::len word) = n"
  by (simp add: unat_of_nat)

lemma unat_add_one: "w \<noteq> - 1 \<Longrightarrow> unat (w + 1 :: 'a::len word) = Suc (unat w)"
  by (metis add.commute unatSuc add_eq_0_iff2)

end
