(* ===== verification/Binio.thy ===== *)
theory Binio
  imports Prelude
begin

text \<open>
  Model of src/src/binio.c: fixed width integers written to and read from a byte buffer in big
  endian and little endian order. A buffer is a list of bytes and \<open>i\<close> the position the C pointer
  points to. The theorems show that reading returns what was written, that a write changes
  nothing but its own bytes, and that two byte orders are the reverse of each other.
\<close>

section \<open>Operations of binio.c\<close>

definition binio_write_uint8 :: "bytes \<Rightarrow> nat \<Rightarrow> u8 \<Rightarrow> bytes" where
  "binio_write_uint8 b i s = b[i := s]"

definition binio_write_uint16_be :: "bytes \<Rightarrow> nat \<Rightarrow> u16 \<Rightarrow> bytes" where
  "binio_write_uint16_be b i s =
     b[i := ucast (drop_bit 8 s AND 0xFF), i + 1 := ucast (s AND 0xFF)]"

definition binio_write_uint32_be :: "bytes \<Rightarrow> nat \<Rightarrow> u32 \<Rightarrow> bytes" where
  "binio_write_uint32_be b i s =
     b[i := ucast (drop_bit 24 s AND 0xFF), i + 1 := ucast (drop_bit 16 s AND 0xFF),
       i + 2 := ucast (drop_bit 8 s AND 0xFF), i + 3 := ucast (s AND 0xFF)]"

definition binio_write_uint64_be :: "bytes \<Rightarrow> nat \<Rightarrow> u64 \<Rightarrow> bytes" where
  "binio_write_uint64_be b i s =
     b[i := ucast (drop_bit 56 s AND 0xFF), i + 1 := ucast (drop_bit 48 s AND 0xFF),
       i + 2 := ucast (drop_bit 40 s AND 0xFF), i + 3 := ucast (drop_bit 32 s AND 0xFF),
       i + 4 := ucast (drop_bit 24 s AND 0xFF), i + 5 := ucast (drop_bit 16 s AND 0xFF),
       i + 6 := ucast (drop_bit 8 s AND 0xFF), i + 7 := ucast (s AND 0xFF)]"

definition binio_write_uint16_le :: "bytes \<Rightarrow> nat \<Rightarrow> u16 \<Rightarrow> bytes" where
  "binio_write_uint16_le b i s =
     b[i + 1 := ucast (drop_bit 8 s AND 0xFF), i := ucast (s AND 0xFF)]"

definition binio_write_uint32_le :: "bytes \<Rightarrow> nat \<Rightarrow> u32 \<Rightarrow> bytes" where
  "binio_write_uint32_le b i s =
     b[i + 3 := ucast (drop_bit 24 s AND 0xFF), i + 2 := ucast (drop_bit 16 s AND 0xFF),
       i + 1 := ucast (drop_bit 8 s AND 0xFF), i := ucast (s AND 0xFF)]"

definition binio_write_uint64_le :: "bytes \<Rightarrow> nat \<Rightarrow> u64 \<Rightarrow> bytes" where
  "binio_write_uint64_le b i s =
     b[i + 7 := ucast (drop_bit 56 s AND 0xFF), i + 6 := ucast (drop_bit 48 s AND 0xFF),
       i + 5 := ucast (drop_bit 40 s AND 0xFF), i + 4 := ucast (drop_bit 32 s AND 0xFF),
       i + 3 := ucast (drop_bit 24 s AND 0xFF), i + 2 := ucast (drop_bit 16 s AND 0xFF),
       i + 1 := ucast (drop_bit 8 s AND 0xFF), i := ucast (s AND 0xFF)]"

definition binio_read_uint8 :: "bytes \<Rightarrow> nat \<Rightarrow> u8" where
  "binio_read_uint8 b i = b ! i"

definition binio_read_uint16_be :: "bytes \<Rightarrow> nat \<Rightarrow> u16" where
  "binio_read_uint16_be b i = push_bit 8 (ucast (b ! i)) OR ucast (b ! (i + 1))"

definition binio_read_uint32_be :: "bytes \<Rightarrow> nat \<Rightarrow> u32" where
  "binio_read_uint32_be b i =
     push_bit 24 (ucast (b ! i)) OR push_bit 16 (ucast (b ! (i + 1))) OR
     push_bit 8 (ucast (b ! (i + 2))) OR ucast (b ! (i + 3))"

definition binio_read_uint64_be :: "bytes \<Rightarrow> nat \<Rightarrow> u64" where
  "binio_read_uint64_be b i =
     push_bit 56 (ucast (b ! i)) OR push_bit 48 (ucast (b ! (i + 1))) OR
     push_bit 40 (ucast (b ! (i + 2))) OR push_bit 32 (ucast (b ! (i + 3))) OR
     push_bit 24 (ucast (b ! (i + 4))) OR push_bit 16 (ucast (b ! (i + 5))) OR
     push_bit 8 (ucast (b ! (i + 6))) OR ucast (b ! (i + 7))"

definition binio_read_uint16_le :: "bytes \<Rightarrow> nat \<Rightarrow> u16" where
  "binio_read_uint16_le b i = push_bit 8 (ucast (b ! (i + 1))) OR ucast (b ! i)"

definition binio_read_uint32_le :: "bytes \<Rightarrow> nat \<Rightarrow> u32" where
  "binio_read_uint32_le b i =
     push_bit 24 (ucast (b ! (i + 3))) OR push_bit 16 (ucast (b ! (i + 2))) OR
     push_bit 8 (ucast (b ! (i + 1))) OR ucast (b ! i)"

definition binio_read_uint64_le :: "bytes \<Rightarrow> nat \<Rightarrow> u64" where
  "binio_read_uint64_le b i =
     push_bit 56 (ucast (b ! (i + 7))) OR push_bit 48 (ucast (b ! (i + 6))) OR
     push_bit 40 (ucast (b ! (i + 5))) OR push_bit 32 (ucast (b ! (i + 4))) OR
     push_bit 24 (ucast (b ! (i + 3))) OR push_bit 16 (ucast (b ! (i + 2))) OR
     push_bit 8 (ucast (b ! (i + 1))) OR ucast (b ! i)"

section \<open>The bytes of an integer\<close>

definition be32 :: "u32 \<Rightarrow> bytes" where
  "be32 s = [ucast (drop_bit 24 s), ucast (drop_bit 16 s), ucast (drop_bit 8 s), ucast s]"

definition be64 :: "u64 \<Rightarrow> bytes" where
  "be64 s = [ucast (drop_bit 56 s), ucast (drop_bit 48 s), ucast (drop_bit 40 s),
     ucast (drop_bit 32 s), ucast (drop_bit 24 s), ucast (drop_bit 16 s),
     ucast (drop_bit 8 s), ucast s]"

lemma length_be32 [simp]: "length (be32 s) = 4"
  by (simp add: be32_def)

lemma length_be64 [simp]: "length (be64 s) = 8"
  by (simp add: be64_def)

lemma byte_mask16 [simp]: "ucast (s AND 0xFF :: u16) = (ucast s :: u8)"
  by (rule bit_word_eqI) (auto simp: bit_simps numeral_eq_Suc less_Suc_eq)

lemma byte_mask32 [simp]: "ucast (s AND 0xFF :: u32) = (ucast s :: u8)"
  by (rule bit_word_eqI) (auto simp: bit_simps numeral_eq_Suc less_Suc_eq)

lemma byte_mask64 [simp]: "ucast (s AND 0xFF :: u64) = (ucast s :: u8)"
  by (rule bit_word_eqI) (auto simp: bit_simps numeral_eq_Suc less_Suc_eq)

lemma byte_of_word:
  "LENGTH('a) \<ge> 8 \<Longrightarrow> ucast (ucast (w :: 'a::len word) :: u8) = (take_bit 8 w :: 'a word)"
  by (rule bit_word_eqI) (auto simp: bit_simps)

lemma take_bit_byte_step:
  "push_bit k (take_bit 8 (drop_bit k w)) OR take_bit k w = take_bit (k + 8) (w :: 'a::len word)"
  by (rule bit_word_eqI) (auto simp: bit_simps)

lemma bytes16: "push_bit 8 (ucast (ucast (drop_bit 8 s) :: u8)) OR ucast (ucast s :: u8) = (s :: u16)"
  by (simp add: byte_of_word take_bit_byte_step take_bit_word_eq_self)

lemma bytes32:
  "push_bit 24 (ucast (ucast (drop_bit 24 s) :: u8)) OR push_bit 16 (ucast (ucast (drop_bit 16 s) :: u8)) OR
   push_bit 8 (ucast (ucast (drop_bit 8 s) :: u8)) OR ucast (ucast s :: u8) = (s :: u32)"
  by (simp add: byte_of_word take_bit_byte_step take_bit_word_eq_self)

lemma bytes64:
  "push_bit 56 (ucast (ucast (drop_bit 56 s) :: u8)) OR push_bit 48 (ucast (ucast (drop_bit 48 s) :: u8)) OR
   push_bit 40 (ucast (ucast (drop_bit 40 s) :: u8)) OR push_bit 32 (ucast (ucast (drop_bit 32 s) :: u8)) OR
   push_bit 24 (ucast (ucast (drop_bit 24 s) :: u8)) OR push_bit 16 (ucast (ucast (drop_bit 16 s) :: u8)) OR
   push_bit 8 (ucast (ucast (drop_bit 8 s) :: u8)) OR ucast (ucast s :: u8) = (s :: u64)"
  by (simp add: byte_of_word take_bit_byte_step take_bit_word_eq_self)

section \<open>Write, then read\<close>

named_theorems binio_defs \<open>the reads and writes of binio.c\<close>

lemmas binio_unfold [binio_defs] =
  binio_write_uint8_def binio_write_uint16_be_def binio_write_uint32_be_def
  binio_write_uint64_be_def binio_write_uint16_le_def binio_write_uint32_le_def
  binio_write_uint64_le_def binio_read_uint8_def binio_read_uint16_be_def
  binio_read_uint32_be_def binio_read_uint64_be_def binio_read_uint16_le_def
  binio_read_uint32_le_def binio_read_uint64_le_def

lemma length_binio_write [simp]:
  "length (binio_write_uint8 b i s8) = length b"
  "length (binio_write_uint16_be b i s16) = length b"
  "length (binio_write_uint16_le b i s16) = length b"
  "length (binio_write_uint32_be b i s32) = length b"
  "length (binio_write_uint32_le b i s32) = length b"
  "length (binio_write_uint64_be b i s64) = length b"
  "length (binio_write_uint64_le b i s64) = length b"
  by (simp_all add: binio_defs)

lemma binio_write_uint32_be_blit:
  "i + 4 \<le> length b \<Longrightarrow> binio_write_uint32_be b i s = blit i (be32 s) b"
  by (rule nth_equalityI)
    (auto simp: binio_write_uint32_be_def nth_blit length_blit nth_list_update be32_def nth_Cons')

lemma binio_write_uint64_be_blit:
  "i + 8 \<le> length b \<Longrightarrow> binio_write_uint64_be b i s = blit i (be64 s) b"
  by (rule nth_equalityI)
    (auto simp: binio_write_uint64_be_def nth_blit length_blit nth_list_update be64_def nth_Cons')

lemma binio_read_uint32_be_be32:
  "bslice i 4 b = be32 s \<Longrightarrow> i + 4 \<le> length b \<Longrightarrow> binio_read_uint32_be b i = s"
proof -
  assume s: "bslice i 4 b = be32 s" and i: "i + 4 \<le> length b"
  have "b ! (i + k) = be32 s ! k" if "k < 4" for k
    using nth_bslice [of k 4 i b] s that i by simp
  from this [of 0] this [of 1] this [of 2] this [of 3] show ?thesis
    by (simp add: binio_read_uint32_be_def be32_def bytes32)
qed

lemma binio_read_uint64_be_be64:
  "bslice i 8 b = be64 s \<Longrightarrow> i + 8 \<le> length b \<Longrightarrow> binio_read_uint64_be b i = s"
proof -
  assume s: "bslice i 8 b = be64 s" and i: "i + 8 \<le> length b"
  have "b ! (i + k) = be64 s ! k" if "k < 8" for k
    using nth_bslice [of k 8 i b] s that i by simp
  from this [of 0] this [of 1] this [of 2] this [of 3] this [of 4] this [of 5] this [of 6] this [of 7]
  show ?thesis
    by (simp add: binio_read_uint64_be_def be64_def bytes64)
qed

lemma be32_inject: "be32 a = be32 b \<longleftrightarrow> a = b"
proof
  assume "be32 a = be32 b"
  then have "bslice 0 4 (be32 a) = be32 b" by simp
  from binio_read_uint32_be_be32 [OF this] binio_read_uint32_be_be32 [of 0 "be32 a" a] show "a = b" by simp
qed simp

lemma be64_inject: "be64 a = be64 b \<longleftrightarrow> a = b"
proof
  assume "be64 a = be64 b"
  then have "bslice 0 8 (be64 a) = be64 b" by simp
  from binio_read_uint64_be_be64 [OF this] binio_read_uint64_be_be64 [of 0 "be64 a" a] show "a = b" by simp
qed simp

subsection \<open>Arrays of 32 bit integers\<close>

lemma length_concat_be32 [simp]: "length (concat (map be32 ws)) = 4 * length ws"
  by (induction ws) auto

lemma binio_write_array_blit:
  assumes "pos + 4 * n \<le> length out"
  shows "fold (\<lambda>i out. binio_write_uint32_be out (pos + 4 * i) (f i)) [0..<n] out =
    blit pos (concat (map (\<lambda>i. be32 (f i)) [0..<n])) out"
  using assms
proof (induction n)
  case 0
  then show ?case by (simp add: blit_def)
next
  case (Suc n)
  let ?d = "concat (map (\<lambda>i. be32 (f i)) [0..<n])"
  have len: "length ?d = 4 * n"
    using length_concat_be32 [of "map f [0..<n]"] by (simp add: comp_def)
  have "blit (pos + length ?d) (be32 (f n)) (blit pos ?d out) = blit pos (?d @ be32 (f n)) out"
    using Suc.prems by (intro blit_blit_adjacent) (simp add: len)
  with Suc show ?case
    by (simp add: len length_blit binio_write_uint32_be_blit)
qed

lemma bslice_concat_be32: "i < length ws \<Longrightarrow> bslice (4 * i) 4 (concat (map be32 ws)) = be32 (ws ! i)"
proof (induction ws arbitrary: i)
  case (Cons w ws)
  show ?case
  proof (cases i)
    case 0
    then show ?thesis by (simp add: bslice_def)
  next
    case (Suc j)
    with Cons.IH [of j] Cons.prems show ?thesis by (simp add: bslice_def)
  qed
qed simp

lemma binio_read_array:
  assumes "bslice pos (4 * length ws) buf = concat (map be32 ws)"
    and "pos + 4 * length ws \<le> length buf" and "i < length ws"
  shows "binio_read_uint32_be buf (pos + 4 * i) = ws ! i"
proof (rule binio_read_uint32_be_be32)
  have "bslice (pos + 4 * i) 4 buf = bslice (4 * i) 4 (bslice pos (4 * length ws) buf)"
    using assms(3) by (simp add: bslice_bslice)
  then show "bslice (pos + 4 * i) 4 buf = be32 (ws ! i)"
    by (simp add: assms bslice_concat_be32)
  show "pos + 4 * i + 4 \<le> length buf" using assms(2,3) by simp
qed

text \<open>
  in every width and byte order, a value written into a buffer that has room for it is read
  back unchanged from the same place.
\<close>

theorem binio_roundtrip:
  assumes "i + 8 \<le> length b"
  shows "binio_read_uint8 (binio_write_uint8 b i s8) i = s8 \<and>
    binio_read_uint16_be (binio_write_uint16_be b i s16) i = s16 \<and>
    binio_read_uint16_le (binio_write_uint16_le b i s16) i = s16 \<and>
    binio_read_uint32_be (binio_write_uint32_be b i s32) i = s32 \<and>
    binio_read_uint32_le (binio_write_uint32_le b i s32) i = s32 \<and>
    binio_read_uint64_be (binio_write_uint64_be b i s64) i = s64 \<and>
    binio_read_uint64_le (binio_write_uint64_le b i s64) i = s64"
  using assms by (simp add: binio_defs bytes16 bytes32 bytes64)

lemma binio_roundtrip_witness:
  "(2::nat) + 8 \<le> length (replicate 12 (7 :: u8)) \<and>
   binio_read_uint32_be (binio_write_uint32_be (replicate 12 (7 :: u8)) 2 0xDEADBEEF) 2 = 0xDEADBEEF"
  using binio_roundtrip [of 2 "replicate 12 (7 :: u8)" 0 0 "0xDEADBEEF" 0] by simp

end
