(* ===== verification/Bitmap.thy ===== *)
theory Bitmap
  imports Binio
begin

text \<open>
  Model of src/src/bitmap.c: a bitmap stored in 32 bit words with a redundant counter of the set
  bits, the container in which a device records which macroblocks it uses. The abstract view of
  a bitmap is a set of bit numbers; the theorems show that every operation is the corresponding
  set operation and keeps the counter equal to the size of the set.
\<close>

section \<open>The data structure and its operations\<close>

record bitmap =
  no_bits :: u32
  no_set :: u32
  bits :: "u32 list"

definition no_words :: "u32 \<Rightarrow> nat" where
  "no_words n = unat ((n + 31) div 32)"

definition bitmap_init :: "u32 \<Rightarrow> bitmap" where
  "bitmap_init n = \<lparr>no_bits = n, no_set = 0, bits = replicate (no_words n) 0\<rparr>"

definition bitmap_setbits :: "bitmap \<Rightarrow> u32 \<Rightarrow> bitmap res" where
  "bitmap_setbits b k =
     asserting (k \<le> no_bits b) ''bitmap_setbits: set <= b->no_bits'' (
       let bs = (if no_set b \<noteq> 0 then replicate (no_words (no_bits b)) 0 else bits b);
           bs = fold (\<lambda>i bs. bs[i := 0xFFFFFFFF]) [0..<unat (k div 32)] bs;
           r = unat (k mod 32);
           bs = (if r \<noteq> 0 then bs[unat (k div 32) := drop_bit (32 - r) 0xFFFFFFFF] else bs)
       in Inr (b\<lparr>no_set := k, bits := bs\<rparr>))"

definition bitmap_getbit :: "bitmap \<Rightarrow> u32 \<Rightarrow> u32 res" where
  "bitmap_getbit b index =
     asserting (index < no_bits b) ''bitmap_getbit: index < b->no_bits''
       (Inr ((bits b ! unat (index div 32)) AND push_bit (unat (index mod 32)) 1))"

definition bitmap_getbits :: "bitmap \<Rightarrow> u32 \<Rightarrow> u8 \<Rightarrow> u32 res" where
  "bitmap_getbits b offset sz =
     asserting (offset < no_bits b) ''bitmap_getbits: offset < b->no_bits'' (
     asserting (offset + ucast sz \<le> no_bits b) ''bitmap_getbits: offset + size <= b->no_bits'' (
     asserting (sz < 32) ''bitmap_getbits: size < 32'' (
     asserting (sz \<noteq> 0) ''bitmap_getbits: size'' (
       let dword = unat (offset div 32); bit' = unat (offset mod 32); n = unat sz;
           res = drop_bit bit' (bits b ! dword)
       in Inr (if bit' + n < 32 then res AND drop_bit (32 - n) 0xFFFFFFFF
               else if bit' + n > 32 then
                 (res OR push_bit (bit' + n - 32) (bits b ! (dword + 1))) AND
                   drop_bit (32 - n) 0xFFFFFFFF
               else res)))))"

definition bitmap_setbit_safe :: "bitmap \<Rightarrow> u32 \<Rightarrow> bitmap res" where
  "bitmap_setbit_safe b index =
     asserting (index < no_bits b) ''bitmap_setbit_safe: index < b->no_bits'' (
       let d = unat (index div 32) in
       Inr (b\<lparr>bits := (bits b)[d := (bits b ! d) OR push_bit (unat (index mod 32)) 1],
              no_set := no_set b + 1\<rparr>))"

definition bitmap_setbit :: "bitmap \<Rightarrow> u32 \<Rightarrow> bitmap res" where
  "bitmap_setbit b index =
     asserting (index < no_bits b) ''bitmap_setbit: index < b->no_bits'' (
     rbind (bitmap_getbit b index) (\<lambda>v.
     asserting (v = 0) ''bitmap_setbit: !bitmap_getbit(b, index)'' (
       let d = unat (index div 32) in
       Inr (b\<lparr>bits := (bits b)[d := (bits b ! d) OR push_bit (unat (index mod 32)) 1],
              no_set := no_set b + 1\<rparr>))))"

definition bitmap_clearbit :: "bitmap \<Rightarrow> u32 \<Rightarrow> bitmap res" where
  "bitmap_clearbit b index =
     asserting (index < no_bits b) ''bitmap_clearbit: index < b->no_bits'' (
     rbind (bitmap_getbit b index) (\<lambda>v.
     asserting (v \<noteq> 0) ''bitmap_clearbit: bitmap_getbit(b, index)'' (
     asserting (no_set b \<noteq> 0) ''bitmap_clearbit: b->no_set'' (
       let d = unat (index div 32) in
       Inr (b\<lparr>bits := (bits b)[d := (bits b ! d) AND NOT (push_bit (unat (index mod 32)) 1)],
              no_set := no_set b - 1\<rparr>)))))"

definition bitmap_clearbit_safe :: "bitmap \<Rightarrow> u32 \<Rightarrow> bitmap res" where
  "bitmap_clearbit_safe b index =
     asserting (index < no_bits b) ''bitmap_clearbit_safe: index < b->no_bits'' (
     rbind (bitmap_getbit b index) (\<lambda>v.
       let d = unat (index div 32) in
       Inr (b\<lparr>bits := (bits b)[d := (bits b ! d) AND NOT (push_bit (unat (index mod 32)) 1)],
              no_set := (if v \<noteq> 0 then no_set b - 1 else no_set b)\<rparr>)))"


definition bitmap_size :: "bitmap \<Rightarrow> u32" where
  "bitmap_size b = (no_bits b + 31) div 32 * 4"

text \<open>The builtin \<^verbatim>\<open>__builtin_popcount\<close>.\<close>

definition popcount :: "u32 \<Rightarrow> nat" where
  "popcount w = length (filter (bit w) [0..<32])"

definition bitmap_read :: "bitmap \<Rightarrow> bytes \<Rightarrow> nat \<Rightarrow> bitmap" where
  "bitmap_read b buf pos =
     fold (\<lambda>i b. let w = binio_read_uint32_be buf (pos + 4 * i)
                 in b\<lparr>bits := (bits b)[i := w], no_set := no_set b + of_nat (popcount w)\<rparr>)
       [0..<no_words (no_bits b)] (b\<lparr>no_set := 0\<rparr>)"

definition bitmap_write :: "bytes \<Rightarrow> nat \<Rightarrow> bitmap \<Rightarrow> bytes" where
  "bitmap_write out pos b =
     fold (\<lambda>i out. binio_write_uint32_be out (pos + 4 * i) (bits b ! i))
       [0..<no_words (no_bits b)] out"

section \<open>A bitmap as a set\<close>

definition bitmap_abs :: "bitmap \<Rightarrow> nat set" where
  "bitmap_abs b = {i. i < 32 * length (bits b) \<and> bit (bits b ! (i div 32)) (i mod 32)}"

text \<open>
  The invariant: room for every bit, no bit set beyond the end, an exact counter. The bound on
  the number of bits keeps the rounding \<^verbatim>\<open>no_bits + 31\<close> from wrapping.
\<close>

definition bitmap_inv :: "bitmap \<Rightarrow> bool" where
  "bitmap_inv b \<longleftrightarrow> unat (no_bits b) + 31 < 2 ^ 32 \<and> length (bits b) = no_words (no_bits b) \<and>
     bitmap_abs b \<subseteq> {..<unat (no_bits b)} \<and> unat (no_set b) = card (bitmap_abs b)"

lemma no_words_unat: "unat n + 31 < 2 ^ 32 \<Longrightarrow> no_words n = (unat n + 31) div 32"
  by (simp add: no_words_def unat_div unat_word_ariths)

lemma finite_bitmap_abs [simp]: "finite (bitmap_abs b)"
  unfolding bitmap_abs_def by (rule finite_subset [of _ "{..<32 * length (bits b)}"]) auto

lemma word_index [simp]:
  "unat ((index :: u32) div 32) = unat index div 32" "unat (index mod 32) = unat index mod 32"
  by (simp_all add: unat_div unat_mod)

lemma bitmap_inv_word_bound:
  "bitmap_inv b \<Longrightarrow> index < no_bits b \<Longrightarrow> unat index div 32 < length (bits b)"
  by (simp add: bitmap_inv_def no_words_unat word_less_nat_alt)

lemma bitmap_abs_bound: "bitmap_inv b \<Longrightarrow> i \<in> bitmap_abs b \<Longrightarrow> i < unat (no_bits b)"
  by (auto simp: bitmap_inv_def)

lemma bitmap_abs_iff:
  "unat index div 32 < length (bits b) \<Longrightarrow>
   unat index \<in> bitmap_abs b \<longleftrightarrow> bit (bits b ! (unat index div 32)) (unat index mod 32)"
  by (auto simp: bitmap_abs_def)

lemma bitmap_abs_update:
  assumes "i < 32 * length (bits b)"
    and "\<And>n. n < 32 \<Longrightarrow> bit w n \<longleftrightarrow> (if n = i mod 32 then v else bit (bits b ! (i div 32)) n)"
  shows "bitmap_abs (b\<lparr>bits := (bits b)[i div 32 := w], no_set := c\<rparr>) =
    (if v then insert i (bitmap_abs b) else bitmap_abs b - {i})"
proof -
  have eq: "bit ((bits b)[i div 32 := w] ! (j div 32)) (j mod 32) \<longleftrightarrow>
      (if j = i then v else bit (bits b ! (j div 32)) (j mod 32))" if "j < 32 * length (bits b)" for j
  proof (cases "j div 32 = i div 32")
    case True
    then have "j = i \<longleftrightarrow> j mod 32 = i mod 32"
      by (metis div_mult_mod_eq)
    with True that assms(2) [of "j mod 32"] show ?thesis
      by (auto simp: nth_list_update)
  next
    case False
    then show ?thesis by (auto simp: nth_list_update)
  qed
  show ?thesis
  proof (rule set_eqI)
    fix j
    show "j \<in> bitmap_abs (b\<lparr>bits := (bits b)[i div 32 := w], no_set := c\<rparr>) \<longleftrightarrow>
        j \<in> (if v then insert i (bitmap_abs b) else bitmap_abs b - {i})"
      using eq [of j] assms(1) by (auto simp: bitmap_abs_def split: if_splits)
  qed
qed

lemmas bitmap_abs_add = bitmap_abs_update [where v = True, simplified]
lemmas bitmap_abs_del = bitmap_abs_update [where v = False, simplified]

lemma bitmap_index_bound:
  "bitmap_inv b \<Longrightarrow> index < no_bits b \<Longrightarrow> unat index < 32 * length (bits b)"
  using bitmap_inv_word_bound [of b index] by simp

lemma bitmap_abs_setbit:
  assumes "bitmap_inv b" "index < no_bits b"
  shows "bitmap_abs (b\<lparr>bits := (bits b)[unat index div 32 := (bits b ! (unat index div 32)) OR
     push_bit (unat index mod 32) 1], no_set := c\<rparr>) = insert (unat index) (bitmap_abs b)"
  by (rule bitmap_abs_add) (use bitmap_index_bound [OF assms] in \<open>auto simp: bit_simps\<close>)

lemma bitmap_abs_clearbit:
  assumes "bitmap_inv b" "index < no_bits b"
  shows "bitmap_abs (b\<lparr>bits := (bits b)[unat index div 32 := (bits b ! (unat index div 32)) AND
     NOT (push_bit (unat index mod 32) 1)], no_set := c\<rparr>) = bitmap_abs b - {unat index}"
  by (rule bitmap_abs_del) (use bitmap_index_bound [OF assms] in \<open>auto simp: bit_simps\<close>)

lemma card_bitmap_abs: "bitmap_inv b \<Longrightarrow> card (bitmap_abs b) \<le> unat (no_bits b)"
  by (metis bitmap_inv_def card_lessThan card_mono finite_lessThan)

lemma bitmap_getbit_abs:
  assumes "bitmap_inv b" "index < no_bits b"
  shows "\<exists>v. bitmap_getbit b index = Inr v \<and> (v \<noteq> 0 \<longleftrightarrow> unat index \<in> bitmap_abs b)"
  using assms bitmap_inv_word_bound [OF assms]
  by (simp add: bitmap_getbit_def and_exp_eq_0_iff_not_bit bitmap_abs_iff)

lemma bitmap_counter_add:
  assumes "bitmap_inv b" "unat index \<notin> bitmap_abs b" "index < no_bits b"
  shows "unat (no_set b + 1) = Suc (card (bitmap_abs b))"
proof -
  have "insert (unat index) (bitmap_abs b) \<subseteq> {..<unat (no_bits b)}"
    using assms by (auto simp: bitmap_inv_def word_less_nat_alt)
  then have "card (insert (unat index) (bitmap_abs b)) \<le> unat (no_bits b)"
    by (metis card_lessThan card_mono finite_lessThan)
  with assms have "Suc (unat (no_set b)) < 2 ^ 32"
    by (auto simp: bitmap_inv_def)
  then show ?thesis
    using assms(1) by (simp add: bitmap_inv_def unat_word_ariths)
qed

lemma bitmap_counter_del:
  assumes "bitmap_inv b" "unat index \<in> bitmap_abs b"
  shows "unat (no_set b - 1) = card (bitmap_abs b) - 1" "no_set b \<noteq> 0"
proof -
  have "0 < card (bitmap_abs b)"
    using assms by (auto simp: card_gt_0_iff)
  with assms show "no_set b \<noteq> 0" by (auto simp: bitmap_inv_def)
  with assms show "unat (no_set b - 1) = card (bitmap_abs b) - 1"
    by (simp add: bitmap_inv_def unat_minus_one)
qed

section \<open>Every operation is a set operation\<close>

lemma bitmap_init_inv:
  assumes "unat n + 31 < 2 ^ 32"
  shows "bitmap_inv (bitmap_init n)" "bitmap_abs (bitmap_init n) = {}"
proof -
  show "bitmap_abs (bitmap_init n) = {}"
    by (auto simp: bitmap_abs_def bitmap_init_def)
  with assms show "bitmap_inv (bitmap_init n)"
    by (simp add: bitmap_inv_def) (simp add: bitmap_init_def)
qed

lemma bitmap_setbit_ok:
  assumes "bitmap_inv b" "index < no_bits b" "unat index \<notin> bitmap_abs b"
  shows "\<exists>b'. bitmap_setbit b index = Inr b' \<and> bitmap_setbit_safe b index = Inr b' \<and> bitmap_inv b' \<and>
    no_bits b' = no_bits b \<and> bitmap_abs b' = insert (unat index) (bitmap_abs b)"
proof -
  obtain v where "bitmap_getbit b index = Inr v" "v = 0"
    using bitmap_getbit_abs [OF assms(1,2)] assms(3) by auto
  with assms bitmap_abs_setbit [OF assms(1,2)] bitmap_counter_add [OF assms(1,3,2)] show ?thesis
    by (auto simp: bitmap_setbit_def bitmap_setbit_safe_def bitmap_inv_def Let_def word_less_nat_alt)
qed

lemma bitmap_clearbit_ok:
  assumes "bitmap_inv b" "index < no_bits b"
  shows "\<exists>b'. bitmap_clearbit_safe b index = Inr b' \<and>
    (unat index \<in> bitmap_abs b \<longrightarrow> bitmap_clearbit b index = Inr b') \<and> bitmap_inv b' \<and>
    no_bits b' = no_bits b \<and> bitmap_abs b' = bitmap_abs b - {unat index}"
proof -
  obtain v where "bitmap_getbit b index = Inr v" "v \<noteq> 0 \<longleftrightarrow> unat index \<in> bitmap_abs b"
    using bitmap_getbit_abs [OF assms] by blast
  with assms bitmap_abs_clearbit [OF assms] bitmap_counter_del [of b index] show ?thesis
    by (auto simp: bitmap_clearbit_def bitmap_clearbit_safe_def bitmap_inv_def Let_def)
qed

lemma bit_ones32 [simp]: "bit (0xFFFFFFFF :: int) n \<longleftrightarrow> n < 32"
proof -
  have "0xFFFFFFFF = (mask 32 :: int)" by (simp add: mask_eq_exp_minus_1)
  then show ?thesis by (simp only: bit_mask_iff) (auto simp: bit_simps)
qed

text \<open>The words \<open>bitmap_setbits\<close> builds out of cleared words \<open>zs\<close> for the first \<open>k\<close> bits.\<close>

definition ones_prefix :: "u32 list \<Rightarrow> nat \<Rightarrow> u32 list" where
  "ones_prefix zs k =
     (let ws = fold (\<lambda>i ws. ws[i := 0xFFFFFFFF]) [0..<k div 32] zs
      in if k mod 32 \<noteq> 0 then ws[k div 32 := drop_bit (32 - k mod 32) 0xFFFFFFFF] else ws)"

lemma length_ones_prefix: "k div 32 \<le> length zs \<Longrightarrow> length (ones_prefix zs k) = length zs"
  by (simp add: ones_prefix_def Let_def fold_list_update)

lemma nth_ones_prefix:
  assumes "k div 32 \<le> length zs" "q < length zs"
  shows "ones_prefix zs k ! q =
    (if q < k div 32 then 0xFFFFFFFF
     else if q = k div 32 \<and> k mod 32 \<noteq> 0 then drop_bit (32 - k mod 32) 0xFFFFFFFF else zs ! q)"
  using assms by (auto simp: ones_prefix_def Let_def fold_list_update nth_append nth_list_update)

lemma bit_ones_prefix:
  assumes "k div 32 \<le> length zs" "i < 32 * length zs" "\<not> bit (zs ! (i div 32)) (i mod 32)"
  shows "bit (ones_prefix zs k ! (i div 32)) (i mod 32) \<longleftrightarrow> i < k"
proof -
  have q: "i div 32 < length zs" using assms(2) by auto
  consider "i div 32 < k div 32" | "i div 32 = k div 32" | "i div 32 > k div 32" by linarith
  then show ?thesis
  proof cases
    case 1
    then have "i < k" by (metis div_le_mono linorder_not_le)
    with 1 show ?thesis by (simp add: nth_ones_prefix [OF assms(1) q])
  next
    case 2
    then have "i < k \<longleftrightarrow> i mod 32 < k mod 32"
      by (metis div_mult_mod_eq nat_add_left_cancel_less)
    with 2 assms(3) q show ?thesis
      by (auto simp: nth_ones_prefix [OF assms(1)] bit_simps)
  next
    case 3
    then have "\<not> i < k" by (metis div_le_mono less_or_eq_imp_le linorder_not_le)
    with 3 assms(3) show ?thesis by (simp add: nth_ones_prefix [OF assms(1) q])
  qed
qed

lemma bitmap_cleared_words:
  assumes "bitmap_inv b"
    and "zs = (if no_set b \<noteq> 0 then replicate (no_words (no_bits b)) 0 else bits b)"
  shows "length zs = length (bits b)" "i < 32 * length (bits b) \<Longrightarrow> \<not> bit (zs ! (i div 32)) (i mod 32)"
proof -
  show "length zs = length (bits b)" using assms by (simp add: bitmap_inv_def)
  show "\<not> bit (zs ! (i div 32)) (i mod 32)" if "i < 32 * length (bits b)"
  proof (cases "no_set b = 0")
    case True
    then have "bitmap_abs b = {}" using assms(1) by (simp add: bitmap_inv_def)
    with True that assms(2) show ?thesis by (auto simp: bitmap_abs_def)
  next
    case False
    with that assms show ?thesis by (simp add: bitmap_inv_def)
  qed
qed

lemma bitmap_setbits_ok:
  assumes "bitmap_inv b" "k \<le> no_bits b"
  shows "\<exists>b'. bitmap_setbits b k = Inr b' \<and> bitmap_inv b' \<and> no_bits b' = no_bits b \<and>
    bitmap_abs b' = {..<unat k}"
proof -
  define zs where "zs = (if no_set b \<noteq> 0 then replicate (no_words (no_bits b)) 0 else bits b)"
  let ?b' = "b\<lparr>no_set := k, bits := ones_prefix zs (unat k)\<rparr>"
  note cleared = bitmap_cleared_words [OF assms(1) zs_def]
  have kb: "unat k \<le> 32 * length (bits b)"
    using assms by (simp add: bitmap_inv_def no_words_unat word_le_nat_alt)
  then have q: "unat k div 32 \<le> length zs" using cleared(1) by simp
  have eq: "bitmap_setbits b k = Inr ?b'"
    using assms(2) by (simp add: bitmap_setbits_def ones_prefix_def zs_def Let_def)
  have abs: "bitmap_abs ?b' = {..<unat k}"
    using kb bit_ones_prefix [OF q] cleared
    by (auto simp: bitmap_abs_def length_ones_prefix [OF q])
  with assms have "bitmap_inv ?b'"
    by (auto simp: bitmap_inv_def length_ones_prefix [OF q] cleared(1) word_le_nat_alt)
  with eq abs show ?thesis by auto
qed

section \<open>The bitmap on disk\<close>

lemma card_bit_word: "card {n. n < 32 \<and> bit w n} = popcount w"
proof -
  have "{n. n < 32 \<and> bit w n} = set (filter (bit w) [0..<32])" by auto
  then show ?thesis
    unfolding popcount_def by (metis distinct_card distinct_filter distinct_upt)
qed

definition words_abs :: "u32 list \<Rightarrow> nat set" where
  "words_abs ws = {i. i < 32 * length ws \<and> bit (ws ! (i div 32)) (i mod 32)}"

lemma bitmap_abs_words: "bitmap_abs b = words_abs (bits b)"
  by (simp add: bitmap_abs_def words_abs_def)

lemma card_words_abs: "card (words_abs ws) = sum_list (map popcount ws)"
proof (induction ws rule: rev_induct)
  case Nil
  then show ?case by (simp add: words_abs_def)
next
  case (snoc w ws)
  let ?new = "(\<lambda>n. 32 * length ws + n) ` {n. n < 32 \<and> bit w n}"
  have "words_abs (ws @ [w]) = words_abs ws \<union> ?new"
  proof (rule set_eqI)
    fix i
    show "i \<in> words_abs (ws @ [w]) \<longleftrightarrow> i \<in> words_abs ws \<union> ?new"
    proof (cases "i < 32 * length ws")
      case True
      then show ?thesis by (auto simp: words_abs_def nth_append)
    next
      case False
      then have "i = 32 * length ws + (i - 32 * length ws)" by simp
      then obtain n where n: "i = 32 * length ws + n" by blast
      show ?thesis
        by (cases "n < 32") (auto simp: n words_abs_def nth_append)
    qed
  qed
  moreover have "words_abs ws \<inter> ?new = {}" by (auto simp: words_abs_def)
  moreover have "finite (words_abs ws)"
    using finite_bitmap_abs [of "\<lparr>no_bits = 0, no_set = 0, bits = ws\<rparr>"] by (simp add: bitmap_abs_words)
  ultimately show ?case
    by (simp add: card_Un_disjoint card_image card_bit_word snoc.IH)
qed

lemma bitmap_read_fold:
  assumes "n \<le> length (bits b)"
  shows "fold (\<lambda>i b. let w = binio_read_uint32_be buf (pos + 4 * i)
                in b\<lparr>bits := (bits b)[i := w], no_set := no_set b + of_nat (popcount w)\<rparr>) [0..<n] b =
    b\<lparr>bits := map (\<lambda>i. binio_read_uint32_be buf (pos + 4 * i)) [0..<n] @ drop n (bits b),
      no_set := no_set b + of_nat (sum_list (map (\<lambda>i. popcount (binio_read_uint32_be buf (pos + 4 * i))) [0..<n]))\<rparr>"
  using assms
proof (induction n)
  case (Suc n)
  then have "drop n (bits b) = bits b ! n # drop (Suc n) (bits b)"
    by (simp add: Cons_nth_drop_Suc)
  with Suc show ?case by (simp add: Let_def list_update_append)
qed simp

lemma bitmap_write_blit:
  assumes "length (bits b) = no_words (no_bits b)" "pos + 4 * length (bits b) \<le> length out"
  shows "bitmap_write out pos b = blit pos (concat (map be32 (bits b))) out"
proof -
  have "map (\<lambda>i. be32 (bits b ! i)) [0..<length (bits b)] = map be32 (bits b)"
    by (rule nth_equalityI) auto
  with assms show ?thesis by (simp add: bitmap_write_def binio_write_array_blit)
qed

lemma bitmap_read_array:
  assumes "bslice pos (4 * length ws) buf = concat (map be32 ws)" "pos + 4 * length ws \<le> length buf"
    and "length (bits b) = no_words (no_bits b)" "length ws = no_words (no_bits b)"
  shows "bitmap_read b buf pos = b\<lparr>bits := ws, no_set := of_nat (card (words_abs ws))\<rparr>"
proof -
  have "map (\<lambda>i. binio_read_uint32_be buf (pos + 4 * i)) [0..<length ws] = ws"
    by (rule nth_equalityI) (simp_all add: binio_read_array [OF assms(1,2)])
  moreover from this have "map (\<lambda>i. popcount (binio_read_uint32_be buf (pos + 4 * i))) [0..<length ws]
      = map popcount ws"
    by (metis (no_types, lifting) map_map comp_apply map_cong)
  ultimately show ?thesis
    using assms(3,4) by (simp add: bitmap_read_def bitmap_read_fold card_words_abs)
qed

section \<open>Single bits through \<^verbatim>\<open>bitmap_getbits\<close>\<close>

lemma drop_bit_and_mask1:
  "n < 32 \<Longrightarrow> drop_bit n (w :: u32) AND drop_bit 31 0xFFFFFFFF = of_bool (bit w n)"
  by (rule bit_word_eqI) (auto simp: bit_simps)

lemma drop_bit_31: "drop_bit 31 (w :: u32) = of_bool (bit w 31)"
proof (rule bit_word_eqI)
  fix n assume "n < LENGTH(32)"
  have "bit w (31 + n) \<Longrightarrow> n = 0" using bit_imp_le_length [of w "31 + n"] by auto
  then show "bit (drop_bit 31 w) n = bit (of_bool (bit w 31) :: u32) n" by (auto simp: bit_simps)
qed

lemma bitmap_getbits_single:
  assumes "bitmap_inv b" "index < no_bits b"
  shows "bitmap_getbits b index 1 = Inr (of_bool (unat index \<in> bitmap_abs b))"
proof -
  have "index + 1 \<le> no_bits b" using assms(2) by (rule inc_le)
  moreover have "unat index mod 32 < 31 \<or> unat index mod 32 = 31" by linarith
  ultimately show ?thesis
    using assms(2) bitmap_abs_iff [OF bitmap_inv_word_bound [OF assms]] drop_bit_and_mask1 [of "unat index mod 32"]
    by (auto simp: bitmap_getbits_def Let_def drop_bit_31)
qed

section \<open>The interface the block layer relies on\<close>

text \<open>
  The block layer uses a bitmap as a set of flags: it asks for the flag of one macroblock and
  raises or lowers it. The locale states what it relies on and derives what a loop over several
  macroblocks achieves.
\<close>

locale flag_set =
  fixes inv :: "'s \<Rightarrow> bool" and cap :: "'s \<Rightarrow> nat" and flags :: "'s \<Rightarrow> nat set"
    and raise_flag :: "nat \<Rightarrow> 's \<Rightarrow> 's res" and lower_flag :: "nat \<Rightarrow> 's \<Rightarrow> 's res"
    and test_flag :: "nat \<Rightarrow> 's \<Rightarrow> bool res"
  assumes raise_ok: "inv s \<Longrightarrow> i < cap s \<Longrightarrow> i \<notin> flags s \<Longrightarrow>
      \<exists>t. raise_flag i s = Inr t \<and> inv t \<and> cap t = cap s \<and> flags t = insert i (flags s)"
    and lower_ok: "inv s \<Longrightarrow> i < cap s \<Longrightarrow>
      \<exists>t. lower_flag i s = Inr t \<and> inv t \<and> cap t = cap s \<and> flags t = flags s - {i}"
    and test_ok: "inv s \<Longrightarrow> i < cap s \<Longrightarrow> test_flag i s = Inr (i \<in> flags s)"
begin

lemma raise_many:
  assumes "inv s" "distinct is" "set is \<inter> flags s = {}" "\<forall>i\<in>set is. i < cap s"
  shows "\<exists>t. rfold raise_flag is s = Inr t \<and> inv t \<and> cap t = cap s \<and> flags t = flags s \<union> set is"
  using assms
proof (induction "is" arbitrary: s)
  case (Cons i "is")
  then obtain t where t: "raise_flag i s = Inr t" "inv t" "cap t = cap s" "flags t = insert i (flags s)"
    using raise_ok [of s i] by auto
  with Cons.prems have "\<exists>u. rfold raise_flag is t = Inr u \<and> inv u \<and> cap u = cap t \<and>
      flags u = flags t \<union> set is"
    by (intro Cons.IH) auto
  with t show ?case by auto
qed simp

lemma raise_then_lower:
  assumes "inv s" "i < cap s" "i \<notin> flags s"
  shows "\<exists>t u. raise_flag i s = Inr t \<and> lower_flag i t = Inr u \<and> inv u \<and> flags u = flags s"
proof -
  obtain t where t: "raise_flag i s = Inr t" "inv t" "cap t = cap s" "flags t = insert i (flags s)"
    using raise_ok [OF assms] by blast
  moreover obtain u where "lower_flag i t = Inr u" "inv u" "flags u = flags t - {i}"
    using lower_ok [of t i] t assms(2) by auto
  ultimately show ?thesis using assms(3) by auto
qed

end

lemma of_nat_index:
  "bitmap_inv b \<Longrightarrow> i < unat (no_bits b) \<Longrightarrow> unat (of_nat i :: u32) = i \<and> of_nat i < no_bits b"
  by (auto simp: bitmap_inv_def word_less_nat_alt unat_of_nat)

lemma bitmap_raise_law:
  assumes "bitmap_inv b" "i < unat (no_bits b)" "i \<notin> bitmap_abs b"
  shows "\<exists>t. bitmap_setbit_safe b (of_nat i) = Inr t \<and> bitmap_inv t \<and>
      unat (no_bits t) = unat (no_bits b) \<and> bitmap_abs t = insert i (bitmap_abs b)"
  using of_nat_index [OF assms(1,2)] bitmap_setbit_ok [OF assms(1), of "of_nat i"] assms(3) by auto

lemma bitmap_lower_law:
  assumes "bitmap_inv b" "i < unat (no_bits b)"
  shows "\<exists>t. bitmap_clearbit_safe b (of_nat i) = Inr t \<and> bitmap_inv t \<and>
      unat (no_bits t) = unat (no_bits b) \<and> bitmap_abs t = bitmap_abs b - {i}"
  using of_nat_index [OF assms] bitmap_clearbit_ok [OF assms(1), of "of_nat i"] by auto

lemma bitmap_test_law:
  assumes "bitmap_inv b" "i < unat (no_bits b)"
  shows "rbind (bitmap_getbit b (of_nat i)) (\<lambda>v. Inr (v \<noteq> 0)) = Inr (i \<in> bitmap_abs b)"
  using of_nat_index [OF assms] bitmap_getbit_abs [OF assms(1), of "of_nat i"] by auto

interpretation status: flag_set bitmap_inv "\<lambda>b. unat (no_bits b)" bitmap_abs
  "\<lambda>i b. bitmap_setbit_safe b (of_nat i)" "\<lambda>i b. bitmap_clearbit_safe b (of_nat i)"
  "\<lambda>i b. rbind (bitmap_getbit b (of_nat i)) (\<lambda>v. Inr (v \<noteq> 0))"
  by unfold_locales (rule bitmap_raise_law bitmap_lower_law bitmap_test_law; assumption)+

section \<open>Properties\<close>



text \<open>
  writing a well formed bitmap to its place in an index block and reading it back into any
  bitmap of the same size gives the same bits and the same counter.
\<close>

theorem bitmap_write_read:
  assumes "bitmap_inv b" "no_bits b' = no_bits b" "length (bits b') = length (bits b)"
    and "pos + 4 * length (bits b) \<le> length out"
  shows "bitmap_read b' (bitmap_write out pos b) pos = b"
proof -
  let ?buf = "bitmap_write out pos b"
  have len: "length (bits b) = no_words (no_bits b)" using assms(1) by (simp add: bitmap_inv_def)
  have "bslice pos (4 * length (bits b)) ?buf = concat (map be32 (bits b))"
    "pos + 4 * length (bits b) \<le> length ?buf"
    using assms(4) by (simp_all add: bitmap_write_blit [OF len] mem_simps length_blit)
  then have "bitmap_read b' ?buf pos = b'\<lparr>bits := bits b, no_set := of_nat (card (words_abs (bits b)))\<rparr>"
    using assms len by (intro bitmap_read_array) simp_all
  also have "card (words_abs (bits b)) = unat (no_set b)"
    using assms(1) by (simp add: bitmap_abs_words [symmetric] bitmap_inv_def)
  finally show ?thesis using assms(2) by simp
qed

lemma bitmap_write_read_witness:
  "bitmap_inv (bitmap_init 40) \<and>
   bitmap_read (bitmap_init 40) (bitmap_write (replicate 16 0) 4 (bitmap_init 40)) 4 = bitmap_init 40"
proof -
  have inv: "bitmap_inv (bitmap_init 40)" using bitmap_init_inv [of 40] by simp
  have "length (bits (bitmap_init 40)) = 2" by (simp add: bitmap_init_def no_words_def)
  with inv bitmap_write_read [of "bitmap_init 40" "bitmap_init 40" 4 "replicate 16 0"]
  show ?thesis by simp
qed

text \<open>
  A field of bits that lies inside one 32 bit word is extracted exactly: bit \<open>k\<close> of the
  result is set if and only if \<open>k\<close> is inside the field and bit \<open>offset + k\<close> of the bitmap is
  set. (The block layer only asks for fields of one bit, which always lie inside one word.)
\<close>

theorem bitmap_getbits_field:
  assumes "bitmap_inv b" "unat offset + unat sz \<le> unat (no_bits b)" "0 < unat sz" "unat sz < 32"
    and "unat offset mod 32 + unat sz \<le> 32"
  shows "\<exists>v. bitmap_getbits b offset sz = Inr v \<and>
    (\<forall>k. bit v k \<longleftrightarrow> k < unat sz \<and> unat offset + k \<in> bitmap_abs b)"
proof -
  let ?q = "unat offset div 32" and ?r = "unat offset mod 32"
  let ?w = "bits b ! ?q"
  let ?v = "if ?r + unat sz < 32 then drop_bit ?r ?w AND drop_bit (32 - unat sz) 0xFFFFFFFF
    else drop_bit ?r ?w"
  have off: "offset < no_bits b" using assms(2,3) by (simp add: word_less_nat_alt)
  have "unat (offset + ucast sz) = unat offset + unat sz"
    using assms(1,2,4) by (simp add: unat_word_ariths bitmap_inv_def unsigned_ucast_eq take_bit_nat_def)
  then have "offset + ucast sz \<le> no_bits b" using assms(2) by (simp add: word_le_nat_alt)
  moreover have "sz \<noteq> 0" using assms(3) by auto
  ultimately have eq: "bitmap_getbits b offset sz = Inr ?v"
    using off assms(3-5) by (auto simp: bitmap_getbits_def Let_def word_less_nat_alt)
  have "bit ?v k \<longleftrightarrow> k < unat sz \<and> unat offset + k \<in> bitmap_abs b" for k
  proof -
    note idx = div_mod_add_small [of "unat offset" 32 k]
    have q: "?q < length (bits b)" by (rule bitmap_inv_word_bound [OF assms(1) off])
    show ?thesis
    proof (cases "?r + k < 32")
      case True
      then have "unat offset + k < 32 * length (bits b)" using q idx by linarith
      with True idx assms(5) show ?thesis by (auto simp: bit_simps bitmap_abs_def)
    next
      case False
      then have "\<not> bit ?w (?r + k)" by (auto dest: bit_imp_le_length)
      with False assms(5) show ?thesis by (auto simp: bit_simps)
    qed
  qed
  with eq show ?thesis by blast
qed

lemma bitmap_getbits_field_witness:
  "bitmap_inv (bitmap_init 100) \<and>
   (\<exists>v. bitmap_getbits (bitmap_init 100) 70 3 = Inr v \<and>
      (\<forall>k. bit v k \<longleftrightarrow> k < unat (3 :: u8) \<and> unat (70 :: u32) + k \<in> bitmap_abs (bitmap_init 100)))"
proof -
  have "bitmap_inv (bitmap_init 100)" using bitmap_init_inv [of 100] by simp
  moreover have "no_bits (bitmap_init 100) = 100" by (simp add: bitmap_init_def)
  ultimately show ?thesis
    using bitmap_getbits_field [of "bitmap_init 100" 70 3] by simp
qed

text \<open>
  a field that crosses a word boundary is not extracted correctly: the high part is shifted
  by \<^verbatim>\<open>bit + size - 32\<close> instead of \<^verbatim>\<open>32 - bit\<close>. With bits 31 and 32 set, the four bits from
  31 on are 1, 1, 0, 0, so 3 is expected, but the result is 9.
\<close>

theorem bitmap_getbits_straddle:
  "bitmap_abs \<lparr>no_bits = 64, no_set = 2, bits = [0x80000000, 1]\<rparr> = {31, 32} \<and>
   bitmap_getbits \<lparr>no_bits = 64, no_set = 2, bits = [0x80000000, 1]\<rparr> 31 4 = Inr 9"
proof
  show "bitmap_getbits \<lparr>no_bits = 64, no_set = 2, bits = [0x80000000, 1]\<rparr> 31 4 = Inr 9"
    by (simp add: bitmap_getbits_def)
  have "i \<in> bitmap_abs \<lparr>no_bits = 64, no_set = 2, bits = [0x80000000, 1]\<rparr> \<longleftrightarrow> i \<in> {31, 32}" for i
  proof (cases "i < 64")
    case True
    then have "i \<in> set [0..<64]" by simp
    then show ?thesis unfolding bitmap_abs_def by (simp add: upt_rec) auto
  qed (auto simp: bitmap_abs_def)
  then show "bitmap_abs \<lparr>no_bits = 64, no_set = 2, bits = [0x80000000, 1]\<rparr> = {31, 32}"
    by blast
qed

end
