(* ===== verification/Random_Source.thy ===== *)
theory Random_Source
  imports Prelude "HOL-Library.Sublist"
begin

text \<open>
  Model of src/src/random.c. The state of a random source is the sequence of 32 bit values that
  /dev/urandom is going to deliver; a read at the end of the sequence is a failed \<^verbatim>\<open>fread\<close>, which
  is fatal. So the rejection loop of \<^verbatim>\<open>random_custom\<close> is total, and "it returns" is a theorem about
  the sequence. The theorems show the bounds, the exactness of the rejection limit (which is why
  the result is uniform) and when the function returns.
\<close>

type_synonym random_t = "u32 list"

section \<open>Operations of random.c\<close>

text \<open>\<open>random_init dev\<close> opens /dev/urandom; \<open>None\<close> stands for a failing \<^verbatim>\<open>fopen\<close>.\<close>

definition random_init :: "random_t option \<Rightarrow> random_t res" where
  "random_init dev = (case dev of None \<Rightarrow> Inl (Fatal ''opening /dev/urandom'') | Some r \<Rightarrow> Inr r)"

definition random_uint32 :: "random_t \<Rightarrow> (u32 \<times> random_t) res" where
  "random_uint32 r =
     (case r of [] \<Rightarrow> Inl (Fatal ''reading from /dev/urandom'') | x # r' \<Rightarrow> Inr (x, r'))"

definition random_limit :: "u32 \<Rightarrow> u32" where
  "random_limit count = count * ((0xFFFFFFFF - count + 1) div count) + count - 1"

function random_retry :: "u32 \<Rightarrow> random_t \<Rightarrow> (u32 \<times> random_t) res" where
  "random_retry limit r =
     rbind (random_uint32 r) (\<lambda>(tmp, r'). if tmp > limit then random_retry limit r' else Inr (tmp, r'))"
  by pat_completeness auto
termination
  by (relation "measure (\<lambda>(limit, r). length r)") (auto simp: random_uint32_def split: list.splits)

definition random_custom :: "random_t \<Rightarrow> u32 \<Rightarrow> (u32 \<times> random_t) res" where
  "random_custom r count =
     asserting (count \<noteq> 0) ''random_custom: count'' (
       rbind (random_retry (random_limit count) r) (\<lambda>(tmp, r'). Inr (tmp mod count, r')))"

section \<open>The rejection loop\<close>

declare random_retry.simps [simp del]

lemma random_retry_simps [simp]:
  "random_retry limit [] = Inl (Fatal ''reading from /dev/urandom'')"
  "random_retry limit (x # r) = (if x > limit then random_retry limit r else Inr (x, r))"
  by (simp_all add: random_retry.simps [of limit "[]"] random_retry.simps [of limit "x # r"] random_uint32_def)

lemma random_retry_eq:
  "random_retry limit r =
     (case dropWhile (\<lambda>x. x > limit) r of [] \<Rightarrow> Inl (Fatal ''reading from /dev/urandom'') | x # r' \<Rightarrow> Inr (x, r'))"
  by (induction r) auto

lemma random_retry_Inr:
  "random_retry limit r = Inr (x, r') \<Longrightarrow> x \<le> limit \<and> strict_suffix r' r"
proof (induction r)
  case (Cons y r)
  then show ?case
    by (auto split: if_splits simp: strict_suffix_def suffix_def)
qed simp

lemma random_custom_Inr:
  assumes "random_custom r count = Inr (v, r')"
  shows "v < count" "strict_suffix r' r" "count \<noteq> 0"
proof -
  from assms obtain x where "count \<noteq> 0" "random_retry (random_limit count) r = Inr (x, r')" "v = x mod count"
    by (auto simp: random_custom_def res_simps split: prod.splits)
  then show "v < count" "strict_suffix r' r" "count \<noteq> 0"
    using random_retry_Inr by (auto simp: word_mod_less_divisor word_gt_0)
qed

lemma random_custom_length:
  "random_custom r count = Inr (v, r') \<Longrightarrow> length r' < length r"
  using random_custom_Inr(2) by (blast dest: suffix_length_less)

lemma random_custom_one: "random_custom (x # r) 1 = Inr (0, r)"
proof -
  have "\<not> (0xFFFFFFFF :: u32) < x"
    using unat_less_exp [of x] by (simp add: word_less_nat_alt)
  then show ?thesis by (simp add: random_custom_def random_limit_def)
qed

section \<open>The rejection limit\<close>

lemma random_limit_unat:
  assumes "count \<noteq> 0"
  shows "unat (random_limit count) + 1 = unat count * (2 ^ 32 div unat count)"
proof -
  let ?c = "unat count" and ?q = "(2 :: nat) ^ 32 div unat count"
  have c: "0 < ?c" "?c < 2 ^ 32"
    using assms unat_less_exp [of count] by (simp_all add: unat_gt_0)
  then have q: "1 \<le> ?q" "?c * ?q \<le> 2 ^ 32"
    by (simp_all add: div_greater_zero_iff Suc_le_eq)
  have "count \<le> 0xFFFFFFFF"
    using c by (simp add: word_le_nat_alt)
  then have m: "unat (0xFFFFFFFF - count) = 0xFFFFFFFF - ?c"
    by (simp add: unat_sub)
  have "unat (0xFFFFFFFF - count + 1) = 2 ^ 32 - ?c"
    by (subst unat_add_one) (use m c assms in \<open>simp_all only: m, auto\<close>)
  then have "unat ((0xFFFFFFFF - count + 1) div count) = (2 ^ 32 - ?c) div ?c"
    by (simp only: unat_div)
  also have "\<dots> = ?q - 1"
    using c le_div_geq [of ?c "2 ^ 32"] by simp
  finally have d: "(0xFFFFFFFF - count + 1) div count = of_nat (?q - 1)"
    by (metis of_nat_unat ucast_id)
  have "random_limit count = of_nat (?c * (?q - 1) + ?c - 1)"
    unfolding random_limit_def d using c by simp
  also have "?c * (?q - 1) + ?c - 1 = ?c * ?q - 1"
    using q(1) by (cases ?q) auto
  finally have lim: "random_limit count = of_nat (?c * ?q - 1)" .
  have pos: "0 < ?c * ?q" using c q(1) by simp
  with q(2) have "?c * ?q - 1 < 2 ^ 32" by linarith
  then have "unat (random_limit count) = ?c * ?q - 1"
    unfolding lim by (intro unat_of_nat_small) simp
  with pos show ?thesis by linarith
qed

lemma card_residue_class:
  assumes "v < (c :: nat)"
  shows "card {n. n < c * q \<and> n mod c = v} = q"
proof -
  have "{n. n < c * q \<and> n mod c = v} = (\<lambda>k. c * k + v) ` {..<q}"
  proof (rule set_eqI)
    fix n
    have "n = c * (n div c) + v \<and> n div c < q" if "n < c * q" "n mod c = v"
      using that by (metis div_mult_mod_eq less_mult_imp_div_less mult.commute)
    moreover have "c * k + v < c * q" if "k < q" for k
    proof -
      have "c * k + v < c * (k + 1)" using assms by simp
      also have "\<dots> \<le> c * q" using that by (intro mult_le_mono2) simp
      finally show ?thesis .
    qed
    ultimately show "n \<in> {n. n < c * q \<and> n mod c = v} \<longleftrightarrow> n \<in> (\<lambda>k. c * k + v) ` {..<q}"
      using assms by auto
  qed
  moreover have "inj_on (\<lambda>k. c * k + v) {..<q}" using assms by (auto simp: inj_on_def)
  ultimately show ?thesis by (simp add: card_image)
qed

lemma card_words_upto: "card {x. x \<le> (y :: u32)} = unat y + 1"
proof -
  have "unat ` {x. x \<le> y} = {..unat y}"
  proof (intro equalityI subsetI)
    fix n assume "n \<in> {..unat y}"
    then have "n < 2 ^ 32" using unat_less_exp [of y] by simp
    then have "unat (of_nat n :: u32) = n" by (simp add: unat_of_nat)
    with \<open>n \<in> {..unat y}\<close> show "n \<in> unat ` {x. x \<le> y}"
      by (metis (mono_tags, lifting) atMost_iff image_eqI mem_Collect_eq word_le_nat_alt)
  qed (auto simp: word_le_nat_alt)
  moreover have "inj_on unat {x. x \<le> y}" by (auto simp: inj_on_def word_unat_eq_iff)
  ultimately show ?thesis by (metis card_atMost card_image Suc_eq_plus1)
qed

section \<open>Properties\<close>

lemma random_custom_step:
  "count \<noteq> 0 \<Longrightarrow> random_custom (x # r) count = (if x > random_limit count then random_custom r count else Inr (x mod count, r))"
  by (simp add: random_custom_def)

lemma random_custom_accepts:
  assumes "count \<noteq> 0"
  shows "random_custom (x # r) count = Inr (v, r) \<longleftrightarrow> x \<le> random_limit count \<and> x mod count = v"
  using random_custom_length [of r count v r] assms by (auto simp: random_custom_step linorder_not_less)

lemma card_accepted:
  assumes "v < count"
  shows "card {x. x \<le> random_limit count \<and> x mod count = v} = 2 ^ 32 div unat count"
proof -
  have nz: "count \<noteq> 0" using assms by auto
  let ?q = "(2 :: nat) ^ 32 div unat count"
  note lim = random_limit_unat [OF nz]
  let ?N = "{n. n < unat count * ?q \<and> n mod unat count = unat v}"
  have "unat ` {x. x \<le> random_limit count \<and> x mod count = v} = ?N"
  proof (intro equalityI subsetI)
    fix n assume n: "n \<in> ?N"
    then have "n < 2 ^ 32" using lim unat_less_exp [of "random_limit count"] by simp
    then have u: "unat (of_nat n :: u32) = n" by (simp add: unat_of_nat)
    with n lim have "(of_nat n :: u32) \<le> random_limit count" "(of_nat n :: u32) mod count = v"
      by (auto simp: word_le_nat_alt word_unat_eq_iff unat_mod)
    with u show "n \<in> unat ` {x. x \<le> random_limit count \<and> x mod count = v}"
      by (metis (mono_tags, lifting) image_eqI mem_Collect_eq)
  qed (use lim in \<open>auto simp: word_le_nat_alt unat_mod\<close>)
  moreover have "inj_on unat {x. x \<le> random_limit count \<and> x mod count = v}"
    by (auto simp: inj_on_def word_unat_eq_iff)
  ultimately have "card {x. x \<le> random_limit count \<and> x mod count = v} = card ?N"
    by (simp only: card_image [of unat, symmetric])
  then show ?thesis using assms by (simp add: card_residue_class word_less_nat_alt)
qed

text \<open>
  C33: \<open>random_custom\<close> is uniform if the source is: whatever the source delivers afterwards, for every result
  \<open>v < count\<close> exactly \<open>2\<^sup>3\<^sup>2 div count\<close> of the 32 bit values that it may deliver next make the function return \<open>v\<close>
  at once, having consumed just that value; every other value, of which there are \<open>2\<^sup>3\<^sup>2 mod count\<close>, is rejected, and the
  function does what it would have done without it. At the end of the source it fails.
\<close>

theorem random_custom_uniform:
  assumes "v < count"
  shows "card {x. random_custom (x # r) count = Inr (v, r)} = 2 ^ 32 div unat count \<and>
    card {x. \<forall>w. random_custom (x # r) count \<noteq> Inr (w, r)} = 2 ^ 32 mod unat count \<and>
    (\<forall>x. (\<exists>w<count. random_custom (x # r) count = Inr (w, r)) \<or> random_custom (x # r) count = random_custom r count) \<and>
    random_custom [] count = Inl (Fatal ''reading from /dev/urandom'')"
proof (intro conjI allI)
  have nz: "count \<noteq> 0" using assms by auto
  note acc = random_custom_accepts [OF nz] and step = random_custom_step [OF nz]
  show "card {x. random_custom (x # r) count = Inr (v, r)} = 2 ^ 32 div unat count"
    by (simp add: acc card_accepted [OF assms])
  have "{x. \<forall>w. random_custom (x # r) count \<noteq> Inr (w, r)} = UNIV - {x. x \<le> random_limit count}" by (auto simp: acc)
  then have "card {x. \<forall>w. random_custom (x # r) count \<noteq> Inr (w, r)} = card (UNIV :: u32 set) - card {x. x \<le> random_limit count}"
    by (simp add: card_Diff_subset)
  also have "card {x. x \<le> random_limit count} = unat (random_limit count) + 1"
    by (rule card_words_upto)
  also have "card (UNIV :: u32 set) = 2 ^ 32" by (simp add: card_word)
  finally show "card {x. \<forall>w. random_custom (x # r) count \<noteq> Inr (w, r)} = 2 ^ 32 mod unat count"
    by (simp only: random_limit_unat [OF nz] minus_mult_div_eq_mod)
  show "(\<exists>w<count. random_custom (x # r) count = Inr (w, r)) \<or> random_custom (x # r) count = random_custom r count" for x
    using nz by (auto simp: step word_gt_0 intro: word_mod_less_divisor)
  show "random_custom [] count = Inl (Fatal ''reading from /dev/urandom'')" using nz by (simp add: random_custom_def)
qed

lemma random_custom_uniform_witness:
  "(5 :: u32) < 13 \<and> card {x. random_custom [x, 7] 13 = Inr (5, [7])} = 2 ^ 32 div 13 \<and>
   card {x. \<forall>w. random_custom [x, 7] 13 \<noteq> Inr (w, [7])} = 2 ^ 32 mod 13"
  using random_custom_uniform [of 5 13 "[7]"] by simp

text \<open>
  with a nonzero count, \<open>random_custom\<close> returns if and only if the source delivers a value
  that is not rejected; the result is below the count, it is the first accepted value reduced
  modulo the count, and the values up to and including that one are consumed.
\<close>

theorem random_custom_returns:
  assumes "count \<noteq> 0"
  shows "random_custom r count =
    (case dropWhile (\<lambda>x. x > random_limit count) r of
       [] \<Rightarrow> Inl (Fatal ''reading from /dev/urandom'')
     | x # r' \<Rightarrow> Inr (x mod count, r')) \<and>
    (\<forall>v r'. random_custom r count = Inr (v, r') \<longrightarrow> v < count) \<and>
    ((\<exists>v r'. random_custom r count = Inr (v, r')) \<longleftrightarrow> (\<exists>x\<in>set r. x \<le> random_limit count))"
proof (intro conjI)
  show eq: "random_custom r count = (case dropWhile (\<lambda>x. x > random_limit count) r of
       [] \<Rightarrow> Inl (Fatal ''reading from /dev/urandom'') | x # r' \<Rightarrow> Inr (x mod count, r'))"
  proof -
    have "rbind (case xs of [] \<Rightarrow> Inl e | x # r' \<Rightarrow> Inr (x, r')) (\<lambda>(tmp, r'). Inr (tmp mod count, r')) =
        (case xs of [] \<Rightarrow> Inl e | x # r' \<Rightarrow> Inr (x mod count, r'))" for xs and e :: error
      by (cases xs) simp_all
    with assms show ?thesis by (simp add: random_custom_def random_retry_eq)
  qed
  show "\<forall>v r'. random_custom r count = Inr (v, r') \<longrightarrow> v < count"
    using random_custom_Inr(1) by blast
  have "(\<exists>v r'. (case xs of [] \<Rightarrow> Inl e | x # r' \<Rightarrow> Inr (x mod count, r')) = Inr (v, r')) \<longleftrightarrow> xs \<noteq> []"
    for xs and e :: error
    by (cases xs) simp_all
  then have "(\<exists>v r'. random_custom r count = Inr (v, r')) \<longleftrightarrow> dropWhile (\<lambda>x. x > random_limit count) r \<noteq> []"
    by (simp only: eq)
  then show "(\<exists>v r'. random_custom r count = Inr (v, r')) \<longleftrightarrow> (\<exists>x\<in>set r. x \<le> random_limit count)"
    by (simp add: dropWhile_eq_Nil_conv linorder_not_less Bex_def)
qed

lemma random_custom_returns_witness:
  "(13 :: u32) \<noteq> 0 \<and> random_custom [0xFFFFFFFF, 30, 7] 13 = Inr (4, [7])"
  using random_custom_returns [of 13 "[0xFFFFFFFF, 30, 7]"] by (simp add: random_limit_def)

end
