(* ===== verification/Dllarr.thy ===== *)
theory Dllarr
  imports Prelude "HOL-Library.Multiset"
begin

text \<open>
  Model of src/src/dllarr.c, the doubly linked list that is also an array: list nodes are embedded
  in the objects they link (here the numbered macroblock descriptors), and an array of node
  pointers gives access by position. The model keeps the pointers: a heap maps addresses of nodes
  to nodes, the two sentinels of a list live in the heap too. The theorems show that the pointer
  manipulations implement the operations of plain lists, keep the node indices and the array
  exact, never trip one of the code's assertions and touch no node outside the list.
\<close>

section \<open>Memory\<close>

text \<open>
  \<open>Head l\<close> and \<open>Tail l\<close> are the sentinel nodes embedded in the list numbered \<open>l\<close>, \<open>Node i\<close> is the
  node embedded in object \<open>i\<close>. The C code goes from a node to its object and back by subtracting
  and adding \<^verbatim>\<open>a->offset\<close>.
\<close>

datatype addr = Null | Head nat | Tail nat | Node nat

record dllarr_elt =
  elt_magic :: u64
  elt_prev :: addr
  elt_next :: addr
  elt_index :: int

type_synonym heap = "addr \<Rightarrow> dllarr_elt"

record dllarr =
  lid :: nat
  dll_array :: "addr list"
  dll_size :: int
  dll_offset :: int

definition DLLARR_MAGIC :: u64 where
  "DLLARR_MAGIC = 0x37B82A6074110287"

definition DLLARR_START_SIZE :: nat where
  "DLLARR_START_SIZE = 32"

definition memmove :: "'a list \<Rightarrow> nat \<Rightarrow> nat \<Rightarrow> nat \<Rightarrow> 'a list" where
  "memmove xs dst src n = blit dst (bslice src n xs) xs"

section \<open>Operations of dllarr.c\<close>

definition dllarr_assert :: "heap \<Rightarrow> dllarr \<Rightarrow> bool" where
  "dllarr_assert h a \<longleftrightarrow>
     (let hd = h (Head (lid a)); tl = h (Tail (lid a)) in
      elt_prev hd = Null \<and> elt_next tl = Null \<and>
      (elt_index hd \<noteq> 0 \<longrightarrow>
         elt_index hd = - 1 \<and> dll_array a \<noteq> [] \<and> dll_offset a \<ge> 0 \<and> dll_size a > 0 \<and>
         dll_size a \<ge> elt_index tl \<and>
         (if elt_index tl = 0 then elt_next hd = Tail (lid a) \<and> elt_prev tl = Head (lid a)
          else elt_next hd \<noteq> Null \<and> elt_prev tl \<noteq> Null)))"

definition access_ptr :: "dllarr \<Rightarrow> addr \<Rightarrow> nat option res" where
  "access_ptr a elt =
     asserting (elt \<noteq> Null) ''access_ptr: a && elt'' (
       if elt = Head (lid a) \<or> elt = Tail (lid a) then Inr None
       else case elt of Node i \<Rightarrow> Inr (Some i) | _ \<Rightarrow> Inl (Assert ''access_ptr: not an object''))"

definition access_elt :: "heap \<Rightarrow> dllarr \<Rightarrow> nat \<Rightarrow> addr res" where
  "access_elt h a at =
     asserting (elt_magic (h (Node at)) = DLLARR_MAGIC) ''access_elt: at_elt->magic == DLLARR_MAGIC'' (
     asserting (Node at \<noteq> Head (lid a) \<or> Node at \<noteq> Tail (lid a)) ''access_elt: at_elt != &a->head'' (
       Inr (Node at)))"

definition dllarr_init :: "heap \<Rightarrow> nat \<Rightarrow> int \<Rightarrow> (heap \<times> dllarr) res" where
  "dllarr_init h l off =
     asserting (off \<ge> 0) ''dllarr_init: a && offset >= 0'' (
     asserting (elt_prev (h (Head l)) = Null \<and> elt_next (h (Tail l)) = Null)
       ''dllarr_init: !a->head.prev && !a->tail.next'' (
       let h = h(Head l := (h (Head l))\<lparr>elt_next := Tail l, elt_magic := DLLARR_MAGIC, elt_index := - 1\<rparr>);
           h = h(Tail l := (h (Tail l))\<lparr>elt_prev := Head l, elt_magic := DLLARR_MAGIC, elt_index := 0\<rparr>);
           a = \<lparr>lid = l, dll_array = replicate DLLARR_START_SIZE Null,
                dll_size = int DLLARR_START_SIZE, dll_offset = off\<rparr>
       in asserting (dllarr_assert h a) ''dllarr_init: dllarr_assert'' (Inr (h, a))))"

definition dllarr_first :: "heap \<Rightarrow> dllarr \<Rightarrow> nat option res" where
  "dllarr_first h a =
     asserting (dllarr_assert h a) ''dllarr_assert'' (access_ptr a (elt_next (h (Head (lid a)))))"

definition dllarr_last :: "heap \<Rightarrow> dllarr \<Rightarrow> nat option res" where
  "dllarr_last h a =
     asserting (dllarr_assert h a) ''dllarr_assert'' (access_ptr a (elt_prev (h (Tail (lid a)))))"

definition dllarr_next :: "heap \<Rightarrow> dllarr \<Rightarrow> nat \<Rightarrow> nat option res" where
  "dllarr_next h a at =
     asserting (dllarr_assert h a) ''dllarr_assert'' (
     rbind (access_elt h a at) (\<lambda>e. access_ptr a (elt_next (h e))))"

definition dllarr_prev :: "heap \<Rightarrow> dllarr \<Rightarrow> nat \<Rightarrow> nat option res" where
  "dllarr_prev h a at =
     asserting (dllarr_assert h a) ''dllarr_assert'' (
     rbind (access_elt h a at) (\<lambda>e. access_ptr a (elt_prev (h e))))"

text \<open>
  The loops follow the next pointers to the end of the list. \<open>dllarr_shift_indices\<close> is the loop
  that renumbers the nodes from \<open>e\<close> on; it ends only if that path ends.
\<close>

partial_function (option) dllarr_shift_indices :: "heap \<Rightarrow> addr \<Rightarrow> int \<Rightarrow> heap option" where
  "dllarr_shift_indices h e d =
     (if e = Null then Some h
      else dllarr_shift_indices (h(e := (h e)\<lparr>elt_index := elt_index (h e) + d\<rparr>)) (elt_next (h e)) d)"

partial_function (option) dllarr_iterate_from ::
    "heap \<Rightarrow> dllarr \<Rightarrow> (nat \<Rightarrow> 'p \<Rightarrow> ('r option \<times> 'p) res) \<Rightarrow> addr \<Rightarrow> 'p \<Rightarrow> ('r option \<times> 'p) res option" where
  "dllarr_iterate_from h a func e priv =
     (if e = Tail (lid a) then Some (Inr (None, priv))
      else case access_ptr a e of
        Inl er \<Rightarrow> Some (Inl er)
      | Inr None \<Rightarrow> Some (Inl (Assert ''dllarr_iterate: head reached''))
      | Inr (Some i) \<Rightarrow>
          (case func i priv of
             Inl er \<Rightarrow> Some (Inl er)
           | Inr (Some r, priv') \<Rightarrow> Some (Inr (Some r, priv'))
           | Inr (None, priv') \<Rightarrow> dllarr_iterate_from h a func (elt_next (h e)) priv'))"

definition dllarr_iterate ::
    "heap \<Rightarrow> dllarr \<Rightarrow> (nat \<Rightarrow> 'p \<Rightarrow> ('r option \<times> 'p) res) \<Rightarrow> 'p \<Rightarrow> ('r option \<times> 'p) res" where
  "dllarr_iterate h a func priv =
     asserting (dllarr_assert h a) ''dllarr_assert'' (
     rbind (ends (dllarr_iterate_from h a func (elt_next (h (Head (lid a)))) priv)) (\<lambda>r. r))"

text \<open>
  Sizes and indices are \<^verbatim>\<open>int\<close> in the code and unbounded here: doubling the size overflows when a list has 2^30 elements,
  which takes 8 GiB for the array of pointers alone; such lists are outside of the model. The check for a list that is too
  full compares an unsigned product with zero and never succeeds, so it has no counterpart; the allocation succeeds.
\<close>

definition dllarr_grow :: "heap \<Rightarrow> dllarr \<Rightarrow> dllarr" where
  "dllarr_grow h a =
     (if elt_index (h (Tail (lid a))) = dll_size a
      then a\<lparr>dll_size := 2 * dll_size a, dll_array := dll_array a @ replicate (nat (dll_size a)) Null\<rparr>
      else a)"

definition dllarr_insert :: "heap \<Rightarrow> dllarr \<Rightarrow> nat \<Rightarrow> nat option \<Rightarrow> (heap \<times> dllarr) res" where
  "dllarr_insert h a new at =
     asserting (dllarr_assert h a) ''dllarr_assert'' (
     rbind (case at of None \<Rightarrow> Inr None | Some i \<Rightarrow> map_sum id Some (access_elt h a i)) (\<lambda>given.
     asserting (elt_prev (h (Node new)) = Null \<and> elt_next (h (Node new)) = Null \<and> elt_index (h (Node new)) = 0)
       ''dllarr_insert: !new_elt->prev && !new_elt->next && !new_elt->index'' (
     let a = dllarr_grow h a;
         n = nat (elt_index (h (Tail (lid a))));
         at_elt = (case given of None \<Rightarrow> Tail (lid a) | Some e \<Rightarrow> e);
         k = nat (elt_index (h at_elt));
         arr = (if given = None then dll_array a else memmove (dll_array a) (k + 1) k (n - k))
     in
     asserting (given \<noteq> None \<longrightarrow> elt_next (h at_elt) \<noteq> Null \<and> elt_prev (h (elt_next (h at_elt))) = at_elt)
       ''dllarr_insert: at_elt->next->prev == at_elt'' (
     asserting (elt_prev (h at_elt) \<noteq> Null \<and> elt_next (h (elt_prev (h at_elt))) = at_elt)
       ''dllarr_insert: at_elt->prev->next == at_elt'' (
     let p = elt_prev (h at_elt); e = Node new;
         h = h(e := (h e)\<lparr>elt_index := elt_index (h at_elt)\<rparr>);
         a = a\<lparr>dll_array := arr[k := e]\<rparr>;
         h = h(p := (h p)\<lparr>elt_next := e\<rparr>);
         h = h(e := (h e)\<lparr>elt_prev := p\<rparr>);
         h = h(e := (h e)\<lparr>elt_next := at_elt\<rparr>);
         h = h(at_elt := (h at_elt)\<lparr>elt_prev := e\<rparr>)
     in
     rbind (ends (dllarr_shift_indices h at_elt 1)) (\<lambda>h.
     Inr (h(e := (h e)\<lparr>elt_magic := DLLARR_MAGIC\<rparr>), a)))))))"

definition dllarr_append :: "heap \<Rightarrow> dllarr \<Rightarrow> nat \<Rightarrow> (heap \<times> dllarr) res" where
  "dllarr_append h a new = dllarr_insert h a new None"

definition dllarr_prepend :: "heap \<Rightarrow> dllarr \<Rightarrow> nat \<Rightarrow> (heap \<times> dllarr) res" where
  "dllarr_prepend h a new = rbind (dllarr_first h a) (dllarr_insert h a new)"

definition dllarr_remove :: "heap \<Rightarrow> dllarr \<Rightarrow> nat \<Rightarrow> (heap \<times> dllarr) res" where
  "dllarr_remove h a at =
     asserting (dllarr_assert h a) ''dllarr_assert'' (
     rbind (access_elt h a at) (\<lambda>e.
     asserting (elt_prev (h e) \<noteq> Null) ''dllarr_remove: at_elt->prev'' (
     asserting (elt_next (h (elt_prev (h e))) = e) ''dllarr_remove: at_elt->prev->next == at_elt'' (
     asserting (elt_prev (h (elt_next (h e))) = e) ''dllarr_remove: at_elt->next->prev == at_elt'' (
     let n = nat (elt_index (h (Tail (lid a)))); k = nat (elt_index (h e));
         a = (if elt_next (h e) \<noteq> Tail (lid a)
              then a\<lparr>dll_array := memmove (dll_array a) k (k + 1) (n - k - 1)\<rparr> else a)
     in
     rbind (ends (dllarr_shift_indices h (elt_next (h e)) (- 1))) (\<lambda>h.
     let q = elt_next (h e); p = elt_prev (h e);
         h = h(q := (h q)\<lparr>elt_prev := p\<rparr>);
         h = h(p := (h p)\<lparr>elt_next := q\<rparr>);
         h = h(e := (h e)\<lparr>elt_next := Null, elt_prev := Null, elt_index := 0\<rparr>)
     in Inr (h, a)))))))"

definition dllarr_move :: "heap \<Rightarrow> dllarr \<Rightarrow> dllarr \<Rightarrow> nat \<Rightarrow> (heap \<times> dllarr \<times> dllarr) res" where
  "dllarr_move h dest src at =
     rbind (dllarr_remove h src at) (\<lambda>(h, src).
     rbind (dllarr_append h dest at) (\<lambda>(h, dest). Inr (h, dest, src)))"

definition dllarr_shift :: "heap \<Rightarrow> dllarr \<Rightarrow> (heap \<times> dllarr \<times> nat option) res" where
  "dllarr_shift h a =
     rbind (dllarr_first h a) (\<lambda>r. case r of
       None \<Rightarrow> Inr (h, a, None)
     | Some i \<Rightarrow> rbind (dllarr_remove h a i) (\<lambda>(h, a). Inr (h, a, Some i)))"

definition dllarr_pop :: "heap \<Rightarrow> dllarr \<Rightarrow> (heap \<times> dllarr \<times> nat option) res" where
  "dllarr_pop h a =
     rbind (dllarr_last h a) (\<lambda>r. case r of
       None \<Rightarrow> Inr (h, a, None)
     | Some i \<Rightarrow> rbind (dllarr_remove h a i) (\<lambda>(h, a). Inr (h, a, Some i)))"

definition dllarr_nth :: "heap \<Rightarrow> dllarr \<Rightarrow> int \<Rightarrow> nat option res" where
  "dllarr_nth h a n =
     asserting (dllarr_assert h a) ''dllarr_assert'' (
     asserting (n \<ge> 0 \<and> n < elt_index (h (Tail (lid a)))) ''dllarr_nth: n >= 0 && n < a->tail.index'' (
       access_ptr a (dll_array a ! nat n)))"

definition dllarr_index :: "heap \<Rightarrow> dllarr \<Rightarrow> nat \<Rightarrow> int res" where
  "dllarr_index h a at =
     asserting (dllarr_assert h a) ''dllarr_assert'' (
     rbind (access_elt h a at) (\<lambda>e. Inr (elt_index (h e))))"

definition dllarr_count :: "heap \<Rightarrow> dllarr \<Rightarrow> int res" where
  "dllarr_count h a =
     asserting (dllarr_assert h a) ''dllarr_assert'' (Inr (elt_index (h (Tail (lid a)))))"

text \<open>
  \<^verbatim>\<open>dllarr_free\<close> removes the nodes from the tail to the head; the pointer to the node before is
  read before a node is removed.
\<close>

partial_function (option) dllarr_free_loop :: "heap \<Rightarrow> dllarr \<Rightarrow> addr \<Rightarrow> (heap \<times> dllarr) res option" where
  "dllarr_free_loop h a del =
     (if del = Head (lid a) then Some (Inr (h, a))
      else case access_ptr a del of
        Inr (Some i) \<Rightarrow>
          (case dllarr_remove h a i of
             Inl er \<Rightarrow> Some (Inl er)
           | Inr (h', a') \<Rightarrow> dllarr_free_loop h' a' (elt_prev (h del)))
      | Inr None \<Rightarrow> Some (Inl (Assert ''dllarr_remove: at''))
      | Inl er \<Rightarrow> Some (Inl er))"

definition dllarr_free :: "heap \<Rightarrow> dllarr \<Rightarrow> (heap \<times> dllarr) res" where
  "dllarr_free h a =
     asserting (dllarr_assert h a) ''dllarr_assert'' (
       if elt_index (h (Head (lid a))) = 0 then Inr (h, a)
       else rbind (ends (dllarr_free_loop h a (elt_prev (h (Tail (lid a)))))) (\<lambda>r. r))"

section \<open>Paths through the heap\<close>

fun chain :: "heap \<Rightarrow> addr list \<Rightarrow> bool" where
  "chain h [] = True"
| "chain h [e] = True"
| "chain h (e # f # es) = (elt_next (h e) = f \<and> elt_prev (h f) = e \<and> chain h (f # es))"

fun numbered :: "heap \<Rightarrow> int \<Rightarrow> addr list \<Rightarrow> bool" where
  "numbered h n [] = True"
| "numbered h n (e # es) = (elt_index (h e) = n \<and> numbered h (n + 1) es)"

lemma chain_append:
  assumes "es \<noteq> []" "fs \<noteq> []"
  shows "chain h (es @ fs) \<longleftrightarrow>
    chain h es \<and> chain h fs \<and> elt_next (h (last es)) = hd fs \<and> elt_prev (h (hd fs)) = last es"
  using assms
proof (induction h es rule: chain.induct)
  case (2 h e)
  then show ?case by (cases fs) auto
qed auto

lemma chain_cong:
  assumes "\<And>e. e \<in> set (butlast es) \<Longrightarrow> elt_next (h' e) = elt_next (h e)"
    and "\<And>e. e \<in> set (tl es) \<Longrightarrow> elt_prev (h' e) = elt_prev (h e)"
  shows "chain h' es = chain h es"
  using assms by (induction h es rule: chain.induct) auto

lemma distinct_hd_notin_tl: "distinct xs \<Longrightarrow> x \<in> set (tl xs) \<Longrightarrow> x \<noteq> hd xs"
  by (cases xs) auto

lemma distinct_last_notin_butlast: "distinct xs \<Longrightarrow> x \<in> set (butlast xs) \<Longrightarrow> x \<noteq> last xs"
  by (cases xs rule: rev_cases) auto

text \<open>Linking a new node between two paths, and linking two paths around a node.\<close>

lemma chain_insert:
  assumes A: "chain h A" "A \<noteq> []" "distinct A" and B: "chain h B" "B \<noteq> []" "distinct B"
    and dis: "set A \<inter> set B = {}" "e \<notin> set A" "e \<notin> set B"
    and nxt: "\<And>x. elt_next (h' x) = (if x = last A then e else if x = e then hd B else elt_next (h x))"
    and prv: "\<And>x. elt_prev (h' x) = (if x = e then last A else if x = hd B then e else elt_prev (h x))"
  shows "chain h' (A @ e # B)"
proof -
  have mem: "last A \<in> set A" "hd B \<in> set B" using A(2) B(2) by simp_all
  have "x \<noteq> last A \<and> x \<noteq> e" if "x \<in> set (butlast A)" for x
    using that distinct_last_notin_butlast [OF A(3)] dis(2) in_set_butlastD [OF that] by auto
  moreover have "x \<noteq> e \<and> x \<noteq> hd B" if "x \<in> set (tl A)" for x
    using that dis mem(2) list.set_sel(2) [OF A(2) that] by auto
  ultimately have "chain h' A" using A(1) chain_cong [of A h' h] nxt prv by simp
  moreover have "x \<noteq> last A \<and> x \<noteq> e" if "x \<in> set (butlast B)" for x
    using that dis mem(1) in_set_butlastD [OF that] by auto
  moreover have "x \<noteq> e \<and> x \<noteq> hd B" if "x \<in> set (tl B)" for x
    using that distinct_hd_notin_tl [OF B(3)] dis(3) list.set_sel(2) [OF B(2) that] by auto
  ultimately have "chain h' A" "chain h' B" using B(1) chain_cong [of B h' h] nxt prv by simp_all
  moreover have "e \<noteq> last A" "hd B \<noteq> e" using mem dis by auto
  ultimately show ?thesis
    using A(2) B(2) chain_append [of "[e]" B h'] chain_append [of A "e # B" h'] nxt prv by simp
qed

lemma chain_remove:
  assumes ch: "chain h (A @ e # B)" and ne: "A \<noteq> []" "B \<noteq> []" and d: "distinct (A @ e # B)"
    and nxt: "\<And>x. x \<noteq> e \<Longrightarrow> elt_next (h' x) = (if x = last A then hd B else elt_next (h x))"
    and prv: "\<And>x. x \<noteq> e \<Longrightarrow> elt_prev (h' x) = (if x = hd B then last A else elt_prev (h x))"
  shows "chain h' (A @ B)"
proof -
  have mem: "last A \<in> set A" "hd B \<in> set B" using ne by simp_all
  have sub: "chain h A" "chain h B"
    using ch ne chain_append [of A "e # B" h] chain_append [of "[e]" B h] by simp_all
  have "x \<noteq> last A \<and> x \<noteq> e" if "x \<in> set (butlast A)" for x
    using distinct_last_notin_butlast [of A x] that d in_set_butlastD [OF that] by auto
  moreover have "x \<noteq> e \<and> x \<noteq> hd B" if "x \<in> set (tl A)" for x
    using d mem(2) list.set_sel(2) [OF ne(1) that] by auto
  ultimately have "chain h' A" using sub(1) chain_cong [of A h' h] nxt prv by simp
  moreover have "x \<noteq> last A \<and> x \<noteq> e" if "x \<in> set (butlast B)" for x
    using d mem(1) in_set_butlastD [OF that] by auto
  moreover have "x \<noteq> e \<and> x \<noteq> hd B" if "x \<in> set (tl B)" for x
    using distinct_hd_notin_tl [of B x] that d list.set_sel(2) [OF ne(2) that] by auto
  ultimately have "chain h' A" "chain h' B" using sub(2) chain_cong [of B h' h] nxt prv by simp_all
  moreover have "last A \<noteq> e" "hd B \<noteq> e" "last A \<noteq> hd B" using mem d by auto
  ultimately show ?thesis using chain_append [OF ne, of h'] nxt prv by simp
qed

lemma numbered_append:
  "numbered h n (es @ fs) \<longleftrightarrow> numbered h n es \<and> numbered h (n + int (length es)) fs"
  by (induction es arbitrary: n) (auto simp: algebra_simps)

lemma numbered_cong:
  "(\<And>e. e \<in> set es \<Longrightarrow> elt_index (h' e) = elt_index (h e) + d) \<Longrightarrow>
   numbered h n es \<Longrightarrow> numbered h' (n + d) es"
proof (induction es arbitrary: n)
  case (Cons e es)
  then have "numbered h' ((n + 1) + d) es" by (intro Cons.IH) auto
  with Cons.prems show ?case by (simp add: algebra_simps)
qed simp

lemma numbered_nth: "numbered h n es \<Longrightarrow> i < length es \<Longrightarrow> elt_index (h (es ! i)) = n + int i"
proof (induction es arbitrary: n i)
  case (Cons e es)
  show ?case
  proof (cases i)
    case (Suc j)
    with Cons.prems Cons.IH [of "n + 1" j] show ?thesis by simp
  qed (use Cons.prems in simp)
qed simp

text \<open>The renumbering loop ends on a path that ends, and adds \<open>d\<close> to exactly the indices on it.\<close>

definition shifted :: "heap \<Rightarrow> addr set \<Rightarrow> int \<Rightarrow> heap" where
  "shifted h es d = (\<lambda>x. if x \<in> es then (h x)\<lparr>elt_index := elt_index (h x) + d\<rparr> else h x)"

lemma shifted_fields [simp]:
  "elt_next (shifted h es d x) = elt_next (h x)" "elt_prev (shifted h es d x) = elt_prev (h x)"
  "elt_magic (shifted h es d x) = elt_magic (h x)"
  "elt_index (shifted h es d x) = elt_index (h x) + (if x \<in> es then d else 0)"
  by (simp_all add: shifted_def)

lemma dllarr_shift_indices_path:
  assumes "chain h es" "es \<noteq> []" "distinct es" "Null \<notin> set es" "elt_next (h (last es)) = Null"
  shows "dllarr_shift_indices h (hd es) d = Some (shifted h (set es) d)"
  using assms
proof (induction es arbitrary: h)
  case (Cons e es)
  let ?h = "h(e := (h e)\<lparr>elt_index := elt_index (h e) + d\<rparr>)"
  have step: "dllarr_shift_indices h e d = dllarr_shift_indices ?h (elt_next (h e)) d"
    using Cons.prems by (subst dllarr_shift_indices.simps) auto
  show ?case
  proof (cases es)
    case Nil
    with Cons.prems step show ?thesis
      by (simp add: dllarr_shift_indices.simps [of _ Null] shifted_def fun_eq_iff)
  next
    case (Cons f fs)
    have n: "chain h es" "elt_next (h e) = hd es"
      using Cons.prems Cons by auto
    have c: "chain ?h es"
      using n(1) chain_cong [of es ?h h] by simp
    have "dllarr_shift_indices ?h (hd es) d = Some (shifted ?h (set es) d)"
      by (rule Cons.IH [OF c]) (use Cons.prems Cons in auto)
    moreover have "shifted ?h (set es) d = shifted h (set (e # es)) d"
      using Cons.prems by (auto simp: shifted_def fun_eq_iff)
    ultimately show ?thesis using step n(2) by simp
  qed
qed simp

section \<open>What a list represents\<close>

definition nodes :: "nat \<Rightarrow> nat list \<Rightarrow> addr list" where
  "nodes l xs = Head l # map Node xs @ [Tail l]"

definition detached :: "heap \<Rightarrow> nat \<Rightarrow> bool" where
  "detached h i \<longleftrightarrow> elt_prev (h (Node i)) = Null \<and> elt_next (h (Node i)) = Null \<and> elt_index (h (Node i)) = 0"

definition dllarr_rep :: "heap \<Rightarrow> dllarr \<Rightarrow> nat list \<Rightarrow> bool" where
  "dllarr_rep h a xs \<longleftrightarrow>
     distinct xs \<and> chain h (nodes (lid a) xs) \<and> numbered h (- 1) (nodes (lid a) xs) \<and>
     elt_prev (h (Head (lid a))) = Null \<and> elt_next (h (Tail (lid a))) = Null \<and>
     (\<forall>i \<in> set xs. elt_magic (h (Node i)) = DLLARR_MAGIC) \<and>
     take (length xs) (dll_array a) = map Node xs \<and> length xs \<le> length (dll_array a) \<and>
     dll_size a = int (length (dll_array a)) \<and> 0 < dll_size a \<and> 0 \<le> dll_offset a"

lemma nodes_simps [simp]:
  "set (nodes l xs) = insert (Head l) (insert (Tail l) (Node ` set xs))"
  "distinct (nodes l xs) \<longleftrightarrow> distinct xs" "length (nodes l xs) = length xs + 2" "nodes l xs \<noteq> []"
  by (auto simp: nodes_def distinct_map inj_on_def)

lemma nodes_append:
  "nodes l (ys @ zs) = (Head l # map Node ys) @ (map Node zs @ [Tail l])"
  by (simp add: nodes_def)

lemma chain_nth:
  "chain h es \<Longrightarrow> Suc i < length es \<Longrightarrow> elt_next (h (es ! i)) = es ! Suc i \<and> elt_prev (h (es ! Suc i)) = es ! i"
proof (induction h es arbitrary: i rule: chain.induct)
  case (3 h e f es)
  then show ?case by (cases i) auto
qed auto

lemma nodes_nth:
  "nodes l xs ! 0 = Head l" "i < length xs \<Longrightarrow> nodes l xs ! Suc i = Node (xs ! i)"
  "nodes l xs ! Suc (length xs) = Tail l"
  by (simp_all add: nodes_def nth_append)

lemma rep_index:
  assumes "dllarr_rep h a xs"
  shows "elt_index (h (Head (lid a))) = - 1" "elt_index (h (Tail (lid a))) = int (length xs)"
    "i < length xs \<Longrightarrow> elt_index (h (Node (xs ! i))) = int i"
  using assms numbered_nth [of h "- 1" "nodes (lid a) xs" 0] numbered_nth [of h "- 1" "nodes (lid a) xs" "Suc i"]
    numbered_nth [of h "- 1" "nodes (lid a) xs" "Suc (length xs)"]
  by (simp_all add: dllarr_rep_def nodes_nth)

lemma rep_link:
  assumes "dllarr_rep h a xs" "i \<le> length xs"
  shows "elt_next (h (nodes (lid a) xs ! i)) = nodes (lid a) xs ! Suc i"
    "elt_prev (h (nodes (lid a) xs ! Suc i)) = nodes (lid a) xs ! i"
  using assms chain_nth [of h "nodes (lid a) xs" i] by (simp_all add: dllarr_rep_def)

lemma rep_magic: "dllarr_rep h a xs \<Longrightarrow> i \<in> set xs \<Longrightarrow> access_elt h a i = Inr (Node i)"
  by (simp add: access_elt_def dllarr_rep_def)

lemma access_ptr_simps [simp]:
  "access_ptr a (Node i) = Inr (Some i)" "access_ptr a (Head (lid a)) = Inr None" "access_ptr a (Tail (lid a)) = Inr None"
  by (simp_all add: access_ptr_def)

text \<open>The two sides of a position: everything up to \<open>ys\<close>, everything from \<open>zs\<close> on.\<close>

lemma rep_split:
  assumes "dllarr_rep h a (ys @ zs)"
  defines "A \<equiv> Head (lid a) # map Node ys" and "B \<equiv> map Node zs @ [Tail (lid a)]"
  shows "chain h A" "chain h B" "elt_next (h (last A)) = hd B" "elt_prev (h (hd B)) = last A"
    "numbered h (- 1) A" "numbered h (int (length ys)) B" "set A \<inter> set B = {}" "distinct A" "distinct B"
    "elt_next (h (last B)) = Null" "Null \<notin> set B" "A \<noteq> []" "B \<noteq> []"
proof -
  have "chain h (A @ B)" "numbered h (- 1) (A @ B)" and ne: "A \<noteq> []" "B \<noteq> []"
    using assms by (simp_all add: dllarr_rep_def nodes_append)
  then show "chain h A" "chain h B" "elt_next (h (last A)) = hd B" "elt_prev (h (hd B)) = last A"
    "numbered h (- 1) A"
    by (simp_all only: chain_append [OF ne] numbered_append)
  show "numbered h (int (length ys)) B"
    using \<open>numbered h (- 1) (A @ B)\<close> by (simp add: numbered_append A_def)
  show "set A \<inter> set B = {}" "distinct A" "distinct B" "elt_next (h (last B)) = Null" "Null \<notin> set B"
    "A \<noteq> []" "B \<noteq> []"
    using assms by (auto simp: dllarr_rep_def distinct_map inj_on_def)
qed

lemma rep_assert:
  assumes "dllarr_rep h a xs" shows "dllarr_assert h a"
proof -
  have first: "elt_next (h (Head (lid a))) = hd (map Node xs @ [Tail (lid a)])"
    using rep_split(3) [of h a "[]" xs] assms by simp
  have final: "elt_prev (h (Tail (lid a))) = last (Head (lid a) # map Node xs)"
    using rep_split(4) [of h a xs "[]"] assms by simp
  have "elt_next (h (Head (lid a))) \<noteq> Null" unfolding first by (cases xs) simp_all
  moreover have "elt_prev (h (Tail (lid a))) \<noteq> Null"
    unfolding final by (cases xs rule: rev_cases) simp_all
  moreover have "dll_array a \<noteq> []" using assms by (auto simp: dllarr_rep_def)
  ultimately show ?thesis
    using assms first final rep_index [OF assms] by (auto simp: dllarr_assert_def Let_def dllarr_rep_def)
qed

lemma rep_shift:
  assumes "dllarr_rep h a (ys @ zs)" and "\<And>x. x \<in> set (map Node zs @ [Tail (lid a)]) \<Longrightarrow> elt_next (h' x) = elt_next (h x)"
    and "\<And>x. x \<in> set (tl (map Node zs @ [Tail (lid a)])) \<Longrightarrow> elt_prev (h' x) = elt_prev (h x)"
  shows "dllarr_shift_indices h' (hd (map Node zs @ [Tail (lid a)])) d =
    Some (shifted h' (set (map Node zs @ [Tail (lid a)])) d)"
proof (rule dllarr_shift_indices_path)
  let ?B = "map Node zs @ [Tail (lid a)]"
  note sp = rep_split [OF assms(1)]
  have "chain h' ?B = chain h ?B"
    by (rule chain_cong) (use assms(2,3) in \<open>auto dest: in_set_butlastD\<close>)
  then show "chain h' ?B" using sp(2) by simp
  show "elt_next (h' (last ?B)) = Null" using sp(10) assms(2) by simp
qed (use rep_split [OF assms(1)] in simp_all)

lemma rep_insertI:
  assumes rep: "dllarr_rep h a (ys @ zs)" and new: "new \<notin> set (ys @ zs)"
    and nxt: "\<And>x. elt_next (h' x) = (if x = last (Head (lid a) # map Node ys) then Node new
        else if x = Node new then hd (map Node zs @ [Tail (lid a)]) else elt_next (h x))"
    and prv: "\<And>x. elt_prev (h' x) = (if x = Node new then last (Head (lid a) # map Node ys)
        else if x = hd (map Node zs @ [Tail (lid a)]) then Node new else elt_prev (h x))"
    and idx: "\<And>x. elt_index (h' x) = (if x = Node new then int (length ys)
        else elt_index (h x) + (if x \<in> set (map Node zs @ [Tail (lid a)]) then 1 else 0))"
    and mag: "\<And>x. elt_magic (h' x) = (if x = Node new then DLLARR_MAGIC else elt_magic (h x))"
    and arr: "lid a' = lid a" "take (Suc (length (ys @ zs))) (dll_array a') = map Node (ys @ new # zs)"
      "dll_size a' = int (length (dll_array a'))" "length (ys @ zs) < length (dll_array a')" "0 \<le> dll_offset a'"
  shows "dllarr_rep h' a' (ys @ new # zs)"
proof -
  let ?A = "Head (lid a) # map Node ys" and ?B = "map Node zs @ [Tail (lid a)]"
  note sp = rep_split [OF rep]
  have nd: "nodes (lid a) (ys @ new # zs) = ?A @ (Node new # ?B)" by (simp add: nodes_def)
  have notin: "Node new \<notin> set ?A" "Node new \<notin> set ?B" using new by auto
  have "chain h' (?A @ (Node new # ?B))"
    by (rule chain_insert [OF sp(1,12,8,2,13,9,7) notin nxt prv])
  moreover have "numbered h' (- 1) (?A @ (Node new # ?B))"
  proof -
    have "elt_index (h' x) = elt_index (h x) + 0" if "x \<in> set ?A" for x
      using that notin(1) sp(7) idx [of x] disjoint_iff by metis
    then have "numbered h' (- 1 + 0) ?A" by (rule numbered_cong [OF _ sp(5)])
    moreover have "elt_index (h' x) = elt_index (h x) + 1" if "x \<in> set ?B" for x
      using that notin(2) idx [of x] by metis
    then have "numbered h' (int (length ys) + 1) ?B" by (rule numbered_cong [OF _ sp(6)])
    ultimately show ?thesis using idx [of "Node new"] by (simp add: numbered_append)
  qed
  moreover have "elt_prev (h' (Head (lid a))) = Null" "elt_next (h' (Tail (lid a))) = Null"
    using rep prv [of "Head (lid a)"] nxt [of "Tail (lid a)"] sp(7) hd_in_set [OF sp(13)] last_in_set [OF sp(12)]
    by (auto simp: dllarr_rep_def simp del: last.simps)
  moreover have "\<forall>i\<in>set (ys @ new # zs). elt_magic (h' (Node i)) = DLLARR_MAGIC"
    using rep mag by (auto simp: dllarr_rep_def)
  moreover have "distinct (ys @ new # zs)"
    using rep new by (auto simp: dllarr_rep_def)
  moreover have "0 < dll_size a'" using arr(3,4) by linarith
  ultimately show ?thesis
    unfolding dllarr_rep_def arr(1) nd using arr by (simp del: of_nat_0_less_iff)
qed

section \<open>Insertion and removal implement list operations\<close>

lemma memmove_0 [simp]: "memmove xs d s 0 = xs"
  by (simp add: memmove_def blit_def bslice_def)

lemma take_Suc_memmove_insert:
  assumes "take n xs = L" "n < length xs" "k \<le> n"
  shows "take (Suc n) ((memmove xs (k + 1) k (n - k))[k := x]) = take k L @ x # drop k L"
    "length ((memmove xs (k + 1) k (n - k))[k := x]) = length xs"
proof -
  have len: "length (memmove xs (k + 1) k (n - k)) = length xs"
    using assms by (simp add: memmove_def length_blit)
  show "length ((memmove xs (k + 1) k (n - k))[k := x]) = length xs" using len by simp
  show "take (Suc n) ((memmove xs (k + 1) k (n - k))[k := x]) = take k L @ x # drop k L"
  proof (rule nth_equalityI)
    show "length (take (Suc n) ((memmove xs (k + 1) k (n - k))[k := x])) = length (take k L @ x # drop k L)"
      using assms len by auto
    fix i assume "i < length (take (Suc n) ((memmove xs (k + 1) k (n - k))[k := x]))"
    with len assms have i: "i \<le> n" by simp
    have L: "L ! j = xs ! j" if "j < n" for j using assms(1) that by auto
    have "length L = n" using assms by auto
    consider "i < k" | "i = k" | "k < i" by linarith
    then show "take (Suc n) ((memmove xs (k + 1) k (n - k))[k := x]) ! i = (take k L @ x # drop k L) ! i"
      using assms(2,3) i L \<open>length L = n\<close>
      by cases (simp_all add: memmove_def length_blit nth_blit nth_append nth_Cons')
  qed
qed

lemma take_memmove_remove:
  assumes "take n xs = L" "n \<le> length xs" "k < n"
  shows "take (n - 1) (memmove xs k (k + 1) (n - k - 1)) = take k L @ drop (Suc k) L"
    "length (memmove xs k (k + 1) (n - k - 1)) = length xs"
proof -
  show len: "length (memmove xs k (k + 1) (n - k - 1)) = length xs"
    using assms by (simp add: memmove_def length_blit)
  show "take (n - 1) (memmove xs k (k + 1) (n - k - 1)) = take k L @ drop (Suc k) L"
  proof (rule nth_equalityI)
    show "length (take (n - 1) (memmove xs k (k + 1) (n - k - 1))) = length (take k L @ drop (Suc k) L)"
      using assms len by auto
    fix i assume "i < length (take (n - 1) (memmove xs k (k + 1) (n - k - 1)))"
    with len assms have i: "i < n - 1" by simp
    show "take (n - 1) (memmove xs k (k + 1) (n - k - 1)) ! i = (take k L @ drop (Suc k) L) ! i"
      using assms i by (cases "i < k") (auto simp: memmove_def length_blit nth_blit nth_append)
  qed
qed

lemma rep_grow:
  assumes "dllarr_rep h a xs"
  shows "lid (dllarr_grow h a) = lid a" "take (length xs) (dll_array (dllarr_grow h a)) = map Node xs"
    "dll_size (dllarr_grow h a) = int (length (dll_array (dllarr_grow h a)))"
    "length xs < length (dll_array (dllarr_grow h a))" "dll_offset (dllarr_grow h a) = dll_offset a"
proof -
  have r: "take (length xs) (dll_array a) = map Node xs" "length xs \<le> length (dll_array a)"
    "dll_size a = int (length (dll_array a))" "0 < dll_size a"
    using assms unfolding dllarr_rep_def by blast+
  from r(1,2) show "take (length xs) (dll_array (dllarr_grow h a)) = map Node xs"
    by (simp add: dllarr_grow_def)
  show "lid (dllarr_grow h a) = lid a"
    "dll_size (dllarr_grow h a) = int (length (dll_array (dllarr_grow h a)))"
    "length xs < length (dll_array (dllarr_grow h a))" "dll_offset (dllarr_grow h a) = dll_offset a"
    using r(2-4) rep_index(2) [OF assms] by (simp_all add: dllarr_grow_def)
qed

definition before :: "'a list \<Rightarrow> 'a option" where
  "before zs = (case zs of [] \<Rightarrow> None | z # _ \<Rightarrow> Some z)"

lemma before_simps [simp]: "before [] = None" "before (z # zs) = Some z"
  by (simp_all add: before_def)

lemma dllarr_insert_rep:
  assumes rep: "dllarr_rep h a (ys @ zs)" and det: "detached h new" and new: "new \<notin> set (ys @ zs)"
  shows "\<exists>h' a'. dllarr_insert h a new (before zs) = Inr (h', a') \<and> dllarr_rep h' a' (ys @ new # zs) \<and>
    lid a' = lid a \<and> (\<forall>x. x \<notin> insert (Node new) (set (nodes (lid a) (ys @ zs))) \<longrightarrow> h' x = h x)"
proof -
  let ?A = "Head (lid a) # map Node ys" and ?B = "map Node zs @ [Tail (lid a)]"
  let ?e = "Node new"
  note sp = rep_split [OF rep] and gr = rep_grow [OF rep]
  define p q where "p = last ?A" and "q = hd ?B"
  define k n where "k = length ys" and "n = length (ys @ zs)"
  have mem: "p \<in> set ?A" "q \<in> set ?B" "?e \<notin> set ?A" "?e \<notin> set ?B"
    using last_in_set [OF sp(12)] hd_in_set [OF sp(13)] new by (auto simp: p_def q_def)
  have ne: "p \<noteq> ?e" "q \<noteq> ?e" "p \<noteq> q" "p \<noteq> Null" "q \<noteq> Null"
    using mem sp(7,11) by auto
  have B: "x \<noteq> ?e" "x \<noteq> p" if "x \<in> set ?B" for x using that mem sp(7) by auto
  have tB: "x \<in> set ?B" "x \<noteq> q" if "x \<in> set (tl ?B)" for x
    using that distinct_hd_notin_tl [OF sp(9)] list.set_sel(2) [OF sp(13)] by (auto simp: q_def)
  define h1 where "h1 = h(?e := (h ?e)\<lparr>elt_index := int k, elt_prev := p, elt_next := q\<rparr>,
    p := (h p)\<lparr>elt_next := ?e\<rparr>, q := (h q)\<lparr>elt_prev := ?e\<rparr>)"
  define h' where "h' = (shifted h1 (set ?B) 1)(?e := (shifted h1 (set ?B) 1 ?e)\<lparr>elt_magic := DLLARR_MAGIC\<rparr>)"
  define a' where "a' = (dllarr_grow h a)\<lparr>dll_array := (if zs = [] then dll_array (dllarr_grow h a)
     else memmove (dll_array (dllarr_grow h a)) (k + 1) k (n - k))[k := ?e]\<rparr>"
  have "dllarr_shift_indices h1 (hd ?B) 1 = Some (shifted h1 (set ?B) 1)"
  proof (rule rep_shift [OF rep])
    show "elt_next (h1 x) = elt_next (h x)" if "x \<in> set ?B" for x
      using B [OF that] by (simp add: h1_def)
    show "elt_prev (h1 x) = elt_prev (h x)" if "x \<in> set (tl ?B)" for x
      using tB(2) [OF that] B [OF tB(1) [OF that]] by (simp add: h1_def)
  qed
  then have shift: "dllarr_shift_indices h1 q 1 = Some (shifted h1 (set ?B) 1)" by (simp add: q_def)
  have idx: "elt_index (h q) = int k" "elt_index (h (Tail (lid a))) = int n"
    using sp(6) rep_index(2) [OF rep] by (cases zs; simp add: q_def k_def n_def)+
  have pq: "elt_prev (h q) = p" "elt_next (h p) = q" using sp(3,4) by (simp_all add: p_def q_def)
  have run: "dllarr_insert h a new (before zs) = Inr (h', a')"
  proof (cases zs)
    case Nil
    then have "q = Tail (lid a)" by (simp add: q_def)
    with Nil show ?thesis
      using det idx ne pq shift rep_assert [OF rep] gr(1)
      by (simp add: dllarr_insert_def detached_def Let_def ends_def h1_def h'_def a'_def
          fun_upd_twist)
  next
    case (Cons z zs')
    then have q: "q = Node z" by (simp add: q_def)
    have z: "access_elt h a z = Inr (Node z)" using rep_magic [OF rep, of z] Cons by simp
    have nq: "elt_next (h q) \<noteq> Null \<and> elt_prev (h (elt_next (h q))) = q"
      using sp(2) Cons by (cases zs') (simp_all add: q_def)
    show ?thesis
      using det idx ne pq shift rep_assert [OF rep] gr(1) z nq Cons
      by (simp add: dllarr_insert_def detached_def Let_def ends_def h1_def h'_def a'_def
          fun_upd_twist q)
  qed
  have upd: "take (Suc n) (dll_array a') = map Node (ys @ new # zs)" "length (dll_array a') = length (dll_array (dllarr_grow h a))"
    using gr(2,4) take_Suc_memmove_insert [of n "dll_array (dllarr_grow h a)" "map Node (ys @ zs)" k ?e]
    by (auto simp: a'_def n_def k_def take_Suc_conv_app_nth)
  have "elt_next (h' x) = (if x = p then ?e else if x = ?e then q else elt_next (h x))"
    "elt_prev (h' x) = (if x = ?e then p else if x = q then ?e else elt_prev (h x))"
    "elt_index (h' x) = (if x = ?e then int k else elt_index (h x) + (if x \<in> set ?B then 1 else 0))"
    "elt_magic (h' x) = (if x = ?e then DLLARR_MAGIC else elt_magic (h x))" for x
    using ne mem(4) by (simp_all add: h'_def h1_def)
  note fields = this [unfolded p_def q_def k_def]
  have off: "0 \<le> dll_offset a'" using rep gr(5) by (simp add: a'_def dllarr_rep_def)
  have "dllarr_rep h' a' (ys @ new # zs)"
    by (rule rep_insertI [OF rep new fields _ upd(1) [unfolded n_def] _ _ off])
      (use gr upd(2) in \<open>simp_all add: a'_def\<close>)
  moreover have "h' x = h x" if "x \<notin> insert ?e (set (nodes (lid a) (ys @ zs)))" for x
    using that mem B by (auto simp: h'_def h1_def shifted_def)
  ultimately show ?thesis using run gr(1) by (auto simp: a'_def)
qed

lemma rep_removeI:
  assumes rep: "dllarr_rep h a (ys @ x # zs)"
    and nxt: "\<And>y. y \<noteq> Node x \<Longrightarrow> elt_next (h' y) =
        (if y = last (Head (lid a) # map Node ys) then hd (map Node zs @ [Tail (lid a)]) else elt_next (h y))"
    and prv: "\<And>y. y \<noteq> Node x \<Longrightarrow> elt_prev (h' y) =
        (if y = hd (map Node zs @ [Tail (lid a)]) then last (Head (lid a) # map Node ys) else elt_prev (h y))"
    and idx: "\<And>y. y \<noteq> Node x \<Longrightarrow> elt_index (h' y) =
        elt_index (h y) + (if y \<in> set (map Node zs @ [Tail (lid a)]) then - 1 else 0)"
    and mag: "\<And>y. elt_magic (h' y) = elt_magic (h y)"
    and arr: "lid a' = lid a" "take (length (ys @ zs)) (dll_array a') = map Node (ys @ zs)"
      "length (dll_array a') = length (dll_array a)" "dll_size a' = dll_size a" "dll_offset a' = dll_offset a"
  shows "dllarr_rep h' a' (ys @ zs)"
proof -
  let ?A = "Head (lid a) # map Node ys" and ?B = "map Node zs @ [Tail (lid a)]"
  note sp = rep_split [OF rep]
  have nd: "nodes (lid a) (ys @ zs) = ?A @ ?B" "nodes (lid a) (ys @ x # zs) = ?A @ Node x # ?B"
    by (simp_all add: nodes_def)
  have dist: "distinct (?A @ Node x # ?B)" using rep by (auto simp: dllarr_rep_def distinct_map inj_on_def)
  have ne: "?A \<noteq> []" "?B \<noteq> []" by simp_all
  have "chain h (?A @ Node x # ?B)" using rep by (simp only: dllarr_rep_def nd(2))
  then have "chain h' (?A @ ?B)" by (rule chain_remove [OF _ ne dist nxt prv])
  moreover have "numbered h' (- 1) (?A @ ?B)"
  proof -
    have sep: "Node x \<notin> set ?A" "Node x \<notin> set ?B" "set ?A \<inter> set ?B = {}" using dist by auto
    have "elt_index (h' y) = elt_index (h y) + 0" if "y \<in> set ?A" for y
      using that sep idx [of y] disjoint_iff by metis
    then have "numbered h' (- 1 + 0) ?A" by (rule numbered_cong [OF _ sp(5)])
    moreover have "elt_index (h' y) = elt_index (h y) + - 1" if "y \<in> set ?B" for y
      using that sep idx [of y] by metis
    then have "numbered h' (int (length (ys @ [x])) + - 1) ?B"
      using numbered_cong [of ?B h' h "- 1" "int (length (ys @ [x]))"] rep_split(6) [of h a "ys @ [x]" zs] rep
      by simp
    ultimately show ?thesis by (simp add: numbered_append)
  qed
  moreover have "elt_prev (h' (Head (lid a))) = Null" "elt_next (h' (Tail (lid a))) = Null"
    using rep prv [of "Head (lid a)"] nxt [of "Tail (lid a)"] dist hd_in_set [OF ne(2)] last_in_set [OF ne(1)]
    by (auto simp: dllarr_rep_def simp del: last.simps)
  moreover have "distinct (ys @ zs)" "\<forall>i\<in>set (ys @ zs). elt_magic (h' (Node i)) = DLLARR_MAGIC"
    "length (ys @ zs) \<le> length (dll_array a)" "dll_size a = int (length (dll_array a))" "0 < dll_size a" "0 \<le> dll_offset a"
    using rep mag unfolding dllarr_rep_def by auto
  ultimately show ?thesis
    unfolding dllarr_rep_def arr(1,3,4,5) nd using arr(2) by simp
qed

lemma dllarr_remove_rep:
  assumes rep: "dllarr_rep h a (ys @ x # zs)"
  shows "\<exists>h' a'. dllarr_remove h a x = Inr (h', a') \<and> dllarr_rep h' a' (ys @ zs) \<and> detached h' x \<and>
    lid a' = lid a \<and> (\<forall>y. y \<notin> set (nodes (lid a) (ys @ x # zs)) \<longrightarrow> h' y = h y)"
proof -
  let ?A = "Head (lid a) # map Node ys" and ?B = "map Node zs @ [Tail (lid a)]" and ?e = "Node x"
  have rep': "dllarr_rep h a ((ys @ [x]) @ zs)" using rep by simp
  note sp = rep_split [OF rep] and sq = rep_split [OF rep']
  define p q where "p = last ?A" and "q = hd ?B"
  define k n where "k = length ys" and "n = length (ys @ x # zs)"
  have dist: "distinct (?A @ ?e # ?B)"
    using rep by (auto simp: dllarr_rep_def distinct_map inj_on_def)
  have mem: "p \<in> set ?A" "q \<in> set ?B" using last_in_set [OF sp(12)] hd_in_set [OF sq(13)] by (simp_all add: p_def q_def)
  have ne: "p \<noteq> ?e" "q \<noteq> ?e" "p \<noteq> q" "p \<noteq> Null" "?e \<notin> set ?B" "p \<notin> set ?B"
    using mem dist by (auto simp: image_iff)
  have lk: "elt_prev (h ?e) = p" "elt_next (h p) = ?e" "elt_next (h ?e) = q" "elt_prev (h q) = ?e"
    using sp(3,4) sq(3,4) by (simp_all add: p_def q_def)
  have idx: "elt_index (h ?e) = int k" "elt_index (h (Tail (lid a))) = int n"
    using sp(6) rep_index(2) [OF rep] by (simp_all add: k_def n_def)
  have shift: "dllarr_shift_indices h q (- 1) = Some (shifted h (set ?B) (- 1))"
    using rep_shift [OF rep', of h "- 1"] by (simp add: q_def)
  define h1 where "h1 = shifted h (set ?B) (- 1)"
  define h' where "h' = h1(q := (h1 q)\<lparr>elt_prev := p\<rparr>, p := (h1 p)\<lparr>elt_next := q\<rparr>,
    ?e := (h1 ?e)\<lparr>elt_next := Null, elt_prev := Null, elt_index := 0\<rparr>)"
  define a' where "a' = (if zs \<noteq> [] then a\<lparr>dll_array := memmove (dll_array a) k (k + 1) (n - k - 1)\<rparr> else a)"
  have qT: "q \<noteq> Tail (lid a) \<longleftrightarrow> zs \<noteq> []" by (cases zs) (simp_all add: q_def)
  have acc: "access_elt h a x = Inr ?e" using rep_magic [OF rep, of x] by simp
  have run: "dllarr_remove h a x = Inr (h', a')"
    using rep_assert [OF rep] acc lk ne idx shift qT
    by (simp add: dllarr_remove_def Let_def ends_def h'_def h1_def a'_def)
  have "elt_next (h' y) = (if y = p then q else elt_next (h y))"
    "elt_prev (h' y) = (if y = q then p else elt_prev (h y))"
    "elt_index (h' y) = elt_index (h y) + (if y \<in> set ?B then - 1 else 0)" if "y \<noteq> ?e" for y
    using ne that by (simp_all add: h'_def h1_def)
  note fields = this [unfolded p_def q_def]
  have mag: "elt_magic (h' y) = elt_magic (h y)" for y by (simp add: h'_def h1_def)
  have r: "take n (dll_array a) = map Node (ys @ x # zs)" "n \<le> length (dll_array a)" "k < n"
    using rep by (auto simp: dllarr_rep_def n_def k_def)
  have arr: "lid a' = lid a" "take (length (ys @ zs)) (dll_array a') = map Node (ys @ zs)"
      "length (dll_array a') = length (dll_array a)" "dll_size a' = dll_size a" "dll_offset a' = dll_offset a"
    using take_memmove_remove [OF r] r(1) arg_cong [OF r(1), of "take k"] by (auto simp: a'_def n_def k_def)
  have "dllarr_rep h' a' (ys @ zs)" by (rule rep_removeI [OF rep fields mag arr])
  moreover have "detached h' x" by (simp add: detached_def h'_def)
  moreover have "h' y = h y" if "y \<notin> set (nodes (lid a) (ys @ x # zs))" for y
    using that mem by (auto simp: h'_def h1_def shifted_def)
  ultimately show ?thesis using run arr(1) by blast
qed

section \<open>Access and iteration\<close>

lemma rep_ends:
  assumes "dllarr_rep h a xs"
  shows "elt_next (h (Head (lid a))) = hd (map Node xs @ [Tail (lid a)])"
    "elt_prev (h (Tail (lid a))) = last (Head (lid a) # map Node xs)"
  using rep_split(3) [of h a "[]" xs] rep_split(4) [of h a xs "[]"] assms by simp_all

lemma dllarr_init_rep:
  assumes "0 \<le> off" "elt_prev (h (Head l)) = Null" "elt_next (h (Tail l)) = Null"
  shows "\<exists>h' a. dllarr_init h l off = Inr (h', a) \<and> dllarr_rep h' a [] \<and> lid a = l \<and>
    (\<forall>i. h' (Node i) = h (Node i))"
  using assms
  by (simp add: dllarr_init_def dllarr_assert_def dllarr_rep_def nodes_def DLLARR_START_SIZE_def Let_def)

lemma dllarr_first_rep: "dllarr_rep h a xs \<Longrightarrow> dllarr_first h a = Inr (before xs)"
  by (cases xs) (simp_all add: dllarr_first_def rep_assert rep_ends)

definition final :: "'a list \<Rightarrow> 'a option" where
  "final xs = (if xs = [] then None else Some (last xs))"

lemma dllarr_last_rep: "dllarr_rep h a xs \<Longrightarrow> dllarr_last h a = Inr (final xs)"
  by (cases xs rule: rev_cases) (simp_all add: dllarr_last_def rep_assert rep_ends final_def)

lemma dllarr_next_rep:
  assumes "dllarr_rep h a (ys @ x # zs)" shows "dllarr_next h a x = Inr (before zs)"
proof -
  have "elt_next (h (Node x)) = hd (map Node zs @ [Tail (lid a)])"
    using rep_split(3) [of h a "ys @ [x]" zs] assms by simp
  then show ?thesis
    using rep_assert [OF assms] rep_magic [OF assms, of x] by (cases zs) (simp_all add: dllarr_next_def)
qed

lemma dllarr_prev_rep:
  assumes "dllarr_rep h a (ys @ x # zs)" shows "dllarr_prev h a x = Inr (final ys)"
proof -
  have "elt_prev (h (Node x)) = last (Head (lid a) # map Node ys)"
    using rep_split(4) [of h a ys "x # zs"] assms by simp
  then show ?thesis
    using rep_assert [OF assms] rep_magic [OF assms, of x]
    by (cases ys rule: rev_cases) (simp_all add: dllarr_prev_def final_def)
qed

lemma dllarr_count_rep: "dllarr_rep h a xs \<Longrightarrow> dllarr_count h a = Inr (int (length xs))"
  by (simp add: dllarr_count_def rep_assert rep_index)

lemma dllarr_nth_rep:
  assumes "dllarr_rep h a xs" "i < length xs"
  shows "dllarr_nth h a (int i) = Inr (Some (xs ! i))"
proof -
  have "take (length xs) (dll_array a) ! i = Node (xs ! i)" using assms by (simp add: dllarr_rep_def)
  then have "dll_array a ! i = Node (xs ! i)" using assms(2) by simp
  then show ?thesis using assms by (simp add: dllarr_nth_def rep_assert rep_index)
qed

lemma dllarr_index_rep:
  "dllarr_rep h a xs \<Longrightarrow> i < length xs \<Longrightarrow> dllarr_index h a (xs ! i) = Inr (int i)"
  by (simp add: dllarr_index_def rep_assert rep_magic rep_index)

text \<open>What a callback driven walk over a plain list computes.\<close>

fun iter_list :: "('a \<Rightarrow> 'p \<Rightarrow> ('r option \<times> 'p) res) \<Rightarrow> 'a list \<Rightarrow> 'p \<Rightarrow> ('r option \<times> 'p) res" where
  "iter_list func [] priv = Inr (None, priv)"
| "iter_list func (x # xs) priv =
     rbind (func x priv) (\<lambda>(r, priv'). case r of
       Some v \<Rightarrow> Inr (Some v, priv') | None \<Rightarrow> iter_list func xs priv')"

lemma iter_list_find:
  "iter_list (\<lambda>x p. Inr (if P x then Some x else None, p)) xs p = Inr (find P xs, p)"
  by (induction xs) auto

lemma dllarr_iterate_from_rep:
  assumes "dllarr_rep h a (ys @ zs)"
  shows "dllarr_iterate_from h a func (hd (map Node zs @ [Tail (lid a)])) priv = Some (iter_list func zs priv)"
  using assms
proof (induction zs arbitrary: ys priv)
  case Nil
  show ?case by (simp add: dllarr_iterate_from.simps)
next
  case (Cons z zs)
  have "elt_next (h (Node z)) = hd (map Node zs @ [Tail (lid a)])"
    using rep_split(3) [of h a "ys @ [z]" zs] Cons.prems by simp
  moreover have "dllarr_iterate_from h a func (hd (map Node zs @ [Tail (lid a)])) p = Some (iter_list func zs p)" for p
    using Cons.IH [of "ys @ [z]"] Cons.prems by simp
  ultimately show ?case
    by (subst dllarr_iterate_from.simps) (auto simp: rbind_def split: sum.splits option.splits)
qed

lemma dllarr_iterate_rep:
  assumes "dllarr_rep h a xs" shows "dllarr_iterate h a func priv = iter_list func xs priv"
  using dllarr_iterate_from_rep [of h a "[]" xs func priv] assms
  by (simp add: dllarr_iterate_def rep_assert rep_ends ends_def)

section \<open>Taking elements out\<close>

lemma detached_outside:
  "detached h y \<Longrightarrow> \<forall>x. x \<notin> S \<longrightarrow> h' x = h x \<Longrightarrow> Node y \<notin> S \<Longrightarrow> detached h' y"
  by (simp add: detached_def)

lemma dllarr_shift_rep:
  assumes "dllarr_rep h a xs"
  shows "\<exists>h' a'. dllarr_shift h a = Inr (h', a', before xs) \<and> dllarr_rep h' a' (tl xs) \<and> lid a' = lid a"
proof (cases xs)
  case (Cons x zs)
  then show ?thesis
    using dllarr_remove_rep [of h a "[]" x zs] assms by (auto simp: dllarr_shift_def dllarr_first_rep)
qed (use assms in \<open>auto simp: dllarr_shift_def dllarr_first_rep\<close>)

lemma dllarr_pop_rep:
  assumes "dllarr_rep h a xs"
  shows "\<exists>h' a'. dllarr_pop h a = Inr (h', a', final xs) \<and> dllarr_rep h' a' (butlast xs) \<and> lid a' = lid a"
proof (cases xs rule: rev_cases)
  case (snoc ys x)
  then show ?thesis
    using dllarr_remove_rep [of h a ys x "[]"] assms by (auto simp: dllarr_pop_def dllarr_last_rep final_def)
qed (use assms in \<open>auto simp: dllarr_pop_def dllarr_last_rep final_def\<close>)

lemma dllarr_free_loop_rep:
  assumes "dllarr_rep h a xs"
  shows "\<exists>h' a'. dllarr_free_loop h a (last (Head (lid a) # map Node xs)) = Some (Inr (h', a')) \<and>
    dllarr_rep h' a' [] \<and> lid a' = lid a \<and> (\<forall>i\<in>set xs. detached h' i) \<and>
    (\<forall>y. y \<notin> set (nodes (lid a) xs) \<longrightarrow> h' y = h y)"
  using assms
proof (induction xs arbitrary: h a rule: rev_induct)
  case Nil
  then show ?case by (auto simp: dllarr_free_loop.simps)
next
  case (snoc x ys)
  obtain h1 a1 where rm: "dllarr_remove h a x = Inr (h1, a1)" "dllarr_rep h1 a1 ys" "detached h1 x" "lid a1 = lid a"
    "\<forall>y. y \<notin> set (nodes (lid a) (ys @ [x])) \<longrightarrow> h1 y = h y"
    using dllarr_remove_rep [of h a ys x "[]"] snoc.prems by auto
  have p: "elt_prev (h (Node x)) = last (Head (lid a1) # map Node ys)"
    using rep_split(4) [of h a ys "[x]"] snoc.prems rm(4) by simp
  obtain h2 a2 where ih: "dllarr_free_loop h1 a1 (last (Head (lid a1) # map Node ys)) = Some (Inr (h2, a2))"
    "dllarr_rep h2 a2 []" "lid a2 = lid a1" "\<forall>i\<in>set ys. detached h2 i"
    "\<forall>y. y \<notin> set (nodes (lid a1) ys) \<longrightarrow> h2 y = h1 y"
    using snoc.IH [OF rm(2)] by auto
  have "dllarr_free_loop h a (Node x) = Some (Inr (h2, a2))"
    using rm(1) p ih(1) by (subst dllarr_free_loop.simps) simp
  moreover have "detached h2 x"
    using rm(3) ih(5) snoc.prems by (auto simp: detached_def dllarr_rep_def)
  ultimately show ?case using ih rm(4,5) by auto
qed

lemma dllarr_free_rep:
  assumes "dllarr_rep h a xs"
  shows "\<exists>h' a'. dllarr_free h a = Inr (h', a') \<and> dllarr_rep h' a' [] \<and> lid a' = lid a \<and>
    (\<forall>i\<in>set xs. detached h' i) \<and> (\<forall>y. y \<notin> set (nodes (lid a) xs) \<longrightarrow> h' y = h y)"
  using dllarr_free_loop_rep [OF assms] rep_index(1) [OF assms]
  by (auto simp: dllarr_free_def rep_assert [OF assms] rep_ends [OF assms] ends_def)

section \<open>The interface the clients use\<close>

text \<open>
  What blockio.c and scubed3.c rely on: a list of loose elements that is filled by insertion,
  searched with a predicate, indexed, and emptied. The contract is stated for any representation.
\<close>

locale indexed_list =
  fixes rep :: "'s \<Rightarrow> 'a list \<Rightarrow> bool"
    and loose :: "'s \<Rightarrow> 'a \<Rightarrow> bool"
    and insert_before :: "'s \<Rightarrow> 'a \<Rightarrow> 'a option \<Rightarrow> 's res"
    and remove_elt :: "'s \<Rightarrow> 'a \<Rightarrow> 's res"
    and elt_nth :: "'s \<Rightarrow> int \<Rightarrow> 'a option res"
    and elt_count :: "'s \<Rightarrow> int res"
    and find_first :: "'s \<Rightarrow> ('a \<Rightarrow> bool) \<Rightarrow> 'a option res"
  assumes rep_distinct: "rep s xs \<Longrightarrow> distinct xs"
    and insert_law: "rep s (ys @ zs) \<Longrightarrow> loose s x \<Longrightarrow> x \<notin> set (ys @ zs) \<Longrightarrow>
      \<exists>s'. insert_before s x (before zs) = Inr s' \<and> rep s' (ys @ x # zs) \<and>
        (\<forall>y. y \<notin> insert x (set (ys @ zs)) \<longrightarrow> loose s y \<longrightarrow> loose s' y)"
    and remove_law: "rep s (ys @ x # zs) \<Longrightarrow>
      \<exists>s'. remove_elt s x = Inr s' \<and> rep s' (ys @ zs) \<and> loose s' x \<and>
        (\<forall>y. y \<notin> set (ys @ x # zs) \<longrightarrow> loose s y \<longrightarrow> loose s' y)"
    and nth_law: "rep s xs \<Longrightarrow> i < length xs \<Longrightarrow> elt_nth s (int i) = Inr (Some (xs ! i))"
    and count_law: "rep s xs \<Longrightarrow> elt_count s = Inr (int (length xs))"
    and find_law: "rep s xs \<Longrightarrow> find_first s P = Inr (find P xs)"
begin

definition append_elt :: "'a \<Rightarrow> 's \<Rightarrow> 's res" where
  "append_elt x s = insert_before s x None"

text \<open>Filling a list, the way \<^verbatim>\<open>blockio_init_file\<close> fills the list of unallocated blocks.\<close>

lemma append_all:
  assumes "rep s xs" "distinct ys" "set xs \<inter> set ys = {}" "\<forall>y\<in>set ys. loose s y"
  shows "\<exists>s'. rfold append_elt ys s = Inr s' \<and> rep s' (xs @ ys)"
  using assms
proof (induction ys arbitrary: s xs)
  case (Cons y ys)
  obtain s' where s': "insert_before s y None = Inr s'" "rep s' (xs @ [y])"
    "\<forall>z. z \<notin> insert y (set xs) \<longrightarrow> loose s z \<longrightarrow> loose s' z"
    using insert_law [of s xs "[]" y] Cons.prems by auto
  have "\<exists>s''. rfold append_elt ys s' = Inr s'' \<and> rep s'' ((xs @ [y]) @ ys)"
    by (rule Cons.IH [OF s'(2)]) (use Cons.prems s'(3) in auto)
  moreover have "append_elt y s = Inr s'" using s'(1) by (simp add: append_elt_def)
  ultimately show ?case by simp
qed simp

text \<open>Taking the element at a drawn position, the way \<^verbatim>\<open>blockio_dev_allocate_macroblocks\<close> does.\<close>

lemma take_nth:
  assumes "rep s xs" "i < length xs"
  shows "\<exists>s'. elt_nth s (int i) = Inr (Some (xs ! i)) \<and> remove_elt s (xs ! i) = Inr s' \<and>
    rep s' (take i xs @ drop (Suc i) xs) \<and> loose s' (xs ! i)"
  using nth_law [OF assms] remove_law [of s "take i xs" "xs ! i" "drop (Suc i) xs"] assms
    id_take_nth_drop [OF assms(2)] by auto

text \<open>
  Insertion before the first element whose key is not smaller, the way \<^verbatim>\<open>sort_to_replay\<close> finds the
  place of a block: the list stays sorted.
\<close>

lemma insert_sorted:
  assumes "rep s xs" "loose s x" "x \<notin> set xs" "sorted (map key xs)"
  shows "\<exists>s' zs. rbind (find_first s (\<lambda>y. \<not> key y < key x)) (insert_before s x) = Inr s' \<and>
    rep s' zs \<and> mset zs = add_mset x (mset xs) \<and> sorted (map (key :: 'a \<Rightarrow> 'k :: linorder) zs)"
proof -
  let ?p = "\<lambda>y. key y < key x" and ?zs = "insort_key key x xs"
  have split: "xs = takeWhile ?p xs @ dropWhile ?p xs" by simp
  have at: "find (\<lambda>y. \<not> ?p y) xs = before (dropWhile ?p xs)"
    by (induction xs) auto
  obtain s' where s': "insert_before s x (before (dropWhile ?p xs)) = Inr s'"
    "rep s' (takeWhile ?p xs @ x # dropWhile ?p xs)"
    using insert_law [of s "takeWhile ?p xs" "dropWhile ?p xs" x] assms by auto
  have "takeWhile ?p xs @ x # dropWhile ?p xs = ?zs"
    by (induction xs) (auto simp: not_less)
  moreover have "mset ?zs = add_mset x (mset xs)" by simp
  moreover have "sorted (map key ?zs)" using assms(4) by (simp add: sorted_insort_key)
  ultimately show ?thesis using s' find_law [OF assms(1)] at by auto
qed

end

definition dllarr_find :: "heap \<times> dllarr \<Rightarrow> (nat \<Rightarrow> bool) \<Rightarrow> nat option res" where
  "dllarr_find s P =
     map_sum id fst (dllarr_iterate (fst s) (snd s) (\<lambda>x p. Inr (if P x then Some x else None, p)) ())"

interpretation block_list: indexed_list
  "\<lambda>(h, a) xs. dllarr_rep h a xs" "\<lambda>(h, a) x. detached h x" "\<lambda>(h, a). dllarr_insert h a"
  "\<lambda>(h, a). dllarr_remove h a" "\<lambda>(h, a). dllarr_nth h a" "\<lambda>(h, a). dllarr_count h a" dllarr_find
proof (unfold_locales, goal_cases)
  case (1 s xs)
  then show ?case by (auto simp: dllarr_rep_def)
next
  case (2 s ys zs x)
  obtain h a where s: "s = (h, a)" by (cases s)
  obtain h' a' where r: "dllarr_insert h a x (before zs) = Inr (h', a')" "dllarr_rep h' a' (ys @ x # zs)"
    and fr: "\<forall>y. y \<notin> insert (Node x) (set (nodes (lid a) (ys @ zs))) \<longrightarrow> h' y = h y"
    using dllarr_insert_rep [of h a ys zs x] 2 s by auto
  have "detached h' y" if "y \<notin> insert x (set (ys @ zs))" "detached h y" for y
    using detached_outside [OF that(2) fr] that(1) by auto
  then show ?case using r s by simp
next
  case (3 s ys x zs)
  obtain h a where s: "s = (h, a)" by (cases s)
  obtain h' a' where r: "dllarr_remove h a x = Inr (h', a')" "dllarr_rep h' a' (ys @ zs)" "detached h' x"
    and fr: "\<forall>y. y \<notin> set (nodes (lid a) (ys @ x # zs)) \<longrightarrow> h' y = h y"
    using dllarr_remove_rep [of h a ys x zs] 3 s by auto
  have "detached h' y" if "y \<notin> set (ys @ x # zs)" "detached h y" for y
    using detached_outside [OF that(2) fr] that(1) by auto
  then show ?case using r s by simp
next
  case (4 s xs i)
  then show ?case by (simp add: split_beta dllarr_nth_rep)
next
  case (5 s xs)
  then show ?case by (simp add: split_beta dllarr_count_rep)
next
  case (6 s xs P)
  then show ?case
    using iter_list_find [of P xs "()"] by (simp add: split_beta dllarr_find_def dllarr_iterate_rep)
qed

section \<open>Properties\<close>

definition demo_heap :: heap where
  "demo_heap = (\<lambda>_. \<lparr>elt_magic = 0, elt_prev = Null, elt_next = Null, elt_index = 0\<rparr>)
    (Head 0 := \<lparr>elt_magic = DLLARR_MAGIC, elt_prev = Null, elt_next = Node 5, elt_index = - 1\<rparr>,
     Node 5 := \<lparr>elt_magic = DLLARR_MAGIC, elt_prev = Head 0, elt_next = Node 7, elt_index = 0\<rparr>,
     Node 7 := \<lparr>elt_magic = DLLARR_MAGIC, elt_prev = Node 5, elt_next = Tail 0, elt_index = 1\<rparr>,
     Tail 0 := \<lparr>elt_magic = DLLARR_MAGIC, elt_prev = Node 7, elt_next = Null, elt_index = 2\<rparr>,
     Head 1 := \<lparr>elt_magic = DLLARR_MAGIC, elt_prev = Null, elt_next = Node 4, elt_index = - 1\<rparr>,
     Node 4 := \<lparr>elt_magic = DLLARR_MAGIC, elt_prev = Head 1, elt_next = Tail 1, elt_index = 0\<rparr>,
     Tail 1 := \<lparr>elt_magic = DLLARR_MAGIC, elt_prev = Node 4, elt_next = Null, elt_index = 1\<rparr>)"

definition demo_list :: dllarr where
  "demo_list = \<lparr>lid = 0, dll_array = [Node 5, Node 7], dll_size = 2, dll_offset = 0\<rparr>"

definition demo_dest :: dllarr where
  "demo_dest = \<lparr>lid = 1, dll_array = [Node 4, Null], dll_size = 2, dll_offset = 0\<rparr>"

lemma demo_rep:
  "dllarr_rep demo_heap demo_list [5, 7]" "dllarr_rep demo_heap demo_dest [4]" "detached demo_heap 3"
  by (simp_all add: dllarr_rep_def nodes_def detached_def demo_heap_def demo_list_def demo_dest_def)

lemma rep_frame:
  assumes "dllarr_rep h b zs" "lid a \<noteq> lid b" "set xs \<inter> set zs = {}"
    and "\<forall>y. y \<notin> set (nodes (lid a) xs) \<longrightarrow> h' y = h y"
  shows "dllarr_rep h' b zs"
proof -
  have same: "h' y = h y" if "y \<in> set (nodes (lid b) zs)" for y
    by (rule assms(4) [rule_format]) (use that assms(2,3) in auto)
  have "chain h' (nodes (lid b) zs)"
    using assms(1) chain_cong [of "nodes (lid b) zs" h' h] same in_set_butlastD list.set_sel(2) [OF nodes_simps(4)]
    unfolding dllarr_rep_def by metis
  moreover have "numbered h' (- 1) (nodes (lid b) zs)"
    using assms(1) numbered_cong [of "nodes (lid b) zs" h' h 0 "- 1"] same unfolding dllarr_rep_def by auto
  ultimately show ?thesis using assms(1) same unfolding dllarr_rep_def by auto
qed

text \<open>
  C34: inserting a loose element before the head of any suffix of the list (at the end for the
  empty suffix) succeeds without tripping an assertion, growing the array when it is full; the
  new pointers, indices and array represent the list with the element at that place, and no
  other node changes.
\<close>

theorem dllarr_insert_refines:
  assumes "dllarr_rep h a (ys @ zs)" and "detached h new" and "new \<notin> set (ys @ zs)"
  shows "\<exists>h' a'. dllarr_insert h a new (before zs) = Inr (h', a') \<and> dllarr_rep h' a' (ys @ new # zs) \<and>
    lid a' = lid a \<and> (\<forall>x. x \<notin> insert (Node new) (set (nodes (lid a) (ys @ zs))) \<longrightarrow> h' x = h x)"
  by (rule dllarr_insert_rep [OF assms])

theorem dllarr_insert_refines_witness:
  "dllarr_rep demo_heap demo_list ([5] @ [7]) \<and> (\<exists>h' a'. dllarr_insert demo_heap demo_list 3 (Some 7) = Inr (h', a') \<and>
     dllarr_rep h' a' [5, 3, 7] \<and> h' (Node 4) = demo_heap (Node 4))"
  using dllarr_insert_refines [of demo_heap demo_list "[5]" "[7]" 3] demo_rep
  by (auto simp: demo_list_def)

text \<open>
  C35: removing an element of the list succeeds, leaves the rest of the list in order with exact
  indices and array, leaves the element loose, and changes no node outside the list.
\<close>

theorem dllarr_remove_refines:
  assumes "dllarr_rep h a (ys @ x # zs)"
  shows "\<exists>h' a'. dllarr_remove h a x = Inr (h', a') \<and> dllarr_rep h' a' (ys @ zs) \<and> detached h' x \<and>
    lid a' = lid a \<and> (\<forall>y. y \<notin> set (nodes (lid a) (ys @ x # zs)) \<longrightarrow> h' y = h y)"
  by (rule dllarr_remove_rep [OF assms])

theorem dllarr_remove_refines_witness:
  "dllarr_rep demo_heap demo_list ([] @ 5 # [7]) \<and> (\<exists>h' a'. dllarr_remove demo_heap demo_list 5 = Inr (h', a') \<and>
     dllarr_rep h' a' [7] \<and> detached h' 5)"
  using dllarr_remove_refines [of demo_heap demo_list "[]" 5 "[7]"] demo_rep by auto

text \<open>
  the readers agree with the plain list: count, access by position, index of an element, the
  two ends, and the callback driven walk, which visits the elements in order, passes the callback's
  private data along and stops at the first result.
\<close>

theorem dllarr_reads_list:
  assumes "dllarr_rep h a xs"
  shows "dllarr_count h a = Inr (int (length xs)) \<and> dllarr_first h a = Inr (before xs) \<and>
    dllarr_last h a = Inr (final xs) \<and> dllarr_iterate h a func priv = iter_list func xs priv \<and>
    (\<forall>i<length xs. dllarr_nth h a (int i) = Inr (Some (xs ! i)) \<and> dllarr_index h a (xs ! i) = Inr (int i) \<and>
      dllarr_next h a (xs ! i) = Inr (before (drop (Suc i) xs)) \<and> dllarr_prev h a (xs ! i) = Inr (final (take i xs)))"
proof -
  have "dllarr_next h a (xs ! i) = Inr (before (drop (Suc i) xs)) \<and> dllarr_prev h a (xs ! i) = Inr (final (take i xs))"
    if "i < length xs" for i
    using dllarr_next_rep [of h a "take i xs" "xs ! i" "drop (Suc i) xs"]
      dllarr_prev_rep [of h a "take i xs" "xs ! i" "drop (Suc i) xs"] id_take_nth_drop [OF that] assms by simp
  then show ?thesis
    using assms by (simp add: dllarr_count_rep dllarr_first_rep dllarr_last_rep dllarr_iterate_rep dllarr_nth_rep dllarr_index_rep)
qed

theorem dllarr_reads_list_witness:
  "dllarr_count demo_heap demo_list = Inr 2 \<and> dllarr_nth demo_heap demo_list 1 = Inr (Some 7) \<and>
   dllarr_iterate demo_heap demo_list (\<lambda>i p. Inr (if i = 7 then Some p else None, p + i)) 1 = Inr (Some 6, 13)"
  using dllarr_reads_list [OF demo_rep(1), of "\<lambda>i p. Inr (if i = 7 then Some p else None, p + i)" 1] by auto

text \<open>Freeing a list, from its tail to its head, ends; every element becomes loose again and
  nodes outside the list keep their contents.
\<close>

theorem dllarr_free_detaches:
  assumes "dllarr_rep h a xs"
  shows "\<exists>h' a'. dllarr_free h a = Inr (h', a') \<and> dllarr_rep h' a' [] \<and> (\<forall>i\<in>set xs. detached h' i) \<and>
    (\<forall>y. y \<notin> set (nodes (lid a) xs) \<longrightarrow> h' y = h y)"
  using dllarr_free_rep [OF assms] by auto

theorem dllarr_free_detaches_witness:
  "\<exists>h' a'. dllarr_free demo_heap demo_list = Inr (h', a') \<and> detached h' 5 \<and> detached h' 7"
  using dllarr_free_detaches [OF demo_rep(1)] by auto

text \<open>Moving an element between two lists of one heap removes it from the source and appends it
  to the destination; both lists are represented afterwards.
\<close>

theorem dllarr_move_two_lists:
  assumes src: "dllarr_rep h a (ys @ x # zs)" and dst: "dllarr_rep h b ws"
    and sep: "lid a \<noteq> lid b" "set (ys @ x # zs) \<inter> set ws = {}"
  shows "\<exists>h' b' a'. dllarr_move h b a x = Inr (h', b', a') \<and> dllarr_rep h' a' (ys @ zs) \<and> dllarr_rep h' b' (ws @ [x])"
proof -
  obtain h1 a1 where r: "dllarr_remove h a x = Inr (h1, a1)" "dllarr_rep h1 a1 (ys @ zs)" "detached h1 x"
    "lid a1 = lid a" "\<forall>y. y \<notin> set (nodes (lid a) (ys @ x # zs)) \<longrightarrow> h1 y = h y"
    using dllarr_remove_rep [OF src] by auto
  have b1: "dllarr_rep h1 b ws" by (rule rep_frame [OF dst sep r(5)])
  obtain h2 b2 where i: "dllarr_insert h1 b x None = Inr (h2, b2)" "dllarr_rep h2 b2 (ws @ [x])"
    "\<forall>y. y \<notin> insert (Node x) (set (nodes (lid b) ws)) \<longrightarrow> h2 y = h1 y"
    using dllarr_insert_rep [of h1 b ws "[]" x] b1 r(3) sep(2) by auto
  have "dllarr_rep h2 a1 (ys @ zs)"
    by (rule rep_frame [OF r(2), of b "ws @ [x]"]) (use i(3) r sep src in \<open>auto simp: dllarr_rep_def\<close>)
  then show ?thesis using r(1) i by (auto simp: dllarr_move_def dllarr_append_def)
qed

theorem dllarr_move_two_lists_witness:
  "\<exists>h' b' a'. dllarr_move demo_heap demo_dest demo_list 7 = Inr (h', b', a') \<and>
     dllarr_rep h' a' [5] \<and> dllarr_rep h' b' [4, 7]"
  using dllarr_move_two_lists [of demo_heap demo_list "[5]" 7 "[]" demo_dest "[4]"] demo_rep
  by (auto simp: demo_list_def demo_dest_def)

text \<open>Drawing the element at any position and removing it, the step by which macroblocks are
  allocated, yields exactly that element and the list without it.
\<close>

theorem dllarr_take_nth:
  assumes "dllarr_rep h a xs" "i < length xs"
  shows "\<exists>h' a'. dllarr_nth h a (int i) = Inr (Some (xs ! i)) \<and> dllarr_remove h a (xs ! i) = Inr (h', a') \<and>
    dllarr_rep h' a' (take i xs @ drop (Suc i) xs)"
  using block_list.take_nth [of "(h, a)" xs i] assms by auto

theorem dllarr_take_nth_witness:
  "\<exists>h' a'. dllarr_nth demo_heap demo_list 0 = Inr (Some 5) \<and> dllarr_remove demo_heap demo_list 5 = Inr (h', a') \<and>
     dllarr_rep h' a' [7]"
  using dllarr_take_nth [OF demo_rep(1), of 0] by auto

end
