(* ===== verification/Juggler.thy ===== *)
theory Juggler
  imports Binio Random_Source Dllarr
begin

text \<open>
  Model of src/src/juggler.c, the component that decides which macroblock is written next and when
  it comes back. The two singly linked lists of the C code are lists of block numbers, the array of
  block descriptors (struct blockio_info_s of blockio.h) is a table indexed by block number, and the
  link field \<^verbatim>\<open>next\<close> of a descriptor is read off the lists. The random source of the device
  is part of the juggler's state. The theorems show that the schedule stays consistent, that a
  block comes back exactly at the sequence number it was promised for, that the juggler is never
  stuck, and that it can be rebuilt from what is on disk.
\<close>

section \<open>Block descriptors (blockio.h)\<close>

record blockio_info =
  bi_seqno :: u64
  bi_next_seqno :: u64
  data_hash :: bytes
  no_indices :: u32
  no_nonobsolete :: u32
  indices :: "u32 list"
  bi_dev :: "nat option"

type_synonym infos = "nat \<Rightarrow> blockio_info"

section \<open>State\<close>

record juggler =
  scheduled :: "nat list"
  unscheduled :: "nat list"
  no_scheduled :: u32
  no_unscheduled :: u32
  j_seqno :: u64
  j_r :: random_t

section \<open>Operations of juggler.c\<close>

definition juggler_init :: "random_t \<Rightarrow> juggler" where
  "juggler_init r =
     \<lparr>scheduled = [], unscheduled = [], no_scheduled = 0, no_unscheduled = 0, j_seqno = 0, j_r = r\<rparr>"

definition juggler_count :: "juggler \<Rightarrow> u32" where
  "juggler_count j = no_scheduled j + no_unscheduled j"

definition juggler_notify_seqno :: "juggler \<Rightarrow> u64 \<Rightarrow> juggler" where
  "juggler_notify_seqno j seqno = (if seqno > j_seqno j then j\<lparr>j_seqno := seqno\<rparr> else j)"

text \<open>The field \<^verbatim>\<open>next\<close> of a descriptor: the block after it in the list that holds it.\<close>

fun list_next :: "nat list \<Rightarrow> nat \<Rightarrow> nat option" where
  "list_next (x # y # xs) b = (if x = b then Some y else list_next (y # xs) b)"
| "list_next _ b = None"

definition juggler_next :: "juggler \<Rightarrow> nat \<Rightarrow> nat option" where
  "juggler_next j b =
     (case list_next (scheduled j) b of Some n \<Rightarrow> Some n | None \<Rightarrow> list_next (unscheduled j) b)"

definition juggler_add_macroblock :: "infos \<Rightarrow> juggler \<Rightarrow> nat \<Rightarrow> juggler res" where
  "juggler_add_macroblock bis j b =
     asserting (juggler_next j b = None) ''juggler_add_macroblock: !b->next'' (
     if bi_seqno (bis b) = 0 \<and> bi_next_seqno (bis b) = 0 then
       Inr (j\<lparr>no_unscheduled := no_unscheduled j + 1, unscheduled := b # unscheduled j\<rparr>)
     else if bi_seqno (bis b) < bi_next_seqno (bis b) then
       let earlier = takeWhile (\<lambda>x. bi_next_seqno (bis x) < bi_next_seqno (bis b)) (scheduled j);
           iterate = dropWhile (\<lambda>x. bi_next_seqno (bis x) < bi_next_seqno (bis b)) (scheduled j)
       in asserting (iterate = [] \<or> bi_next_seqno (bis (hd iterate)) > bi_next_seqno (bis b))
            ''juggler_add_macroblock: (*iterate)->next_seqno > b->next_seqno'' (
          Inr (juggler_notify_seqno
                 (j\<lparr>scheduled := earlier @ b # iterate, no_scheduled := no_scheduled j + 1\<rparr>) (bi_seqno (bis b))))
     else Inl (Assert ''juggler_add_macroblock: nonsensical block''))"

definition juggler_get_obsoleted :: "infos \<Rightarrow> juggler \<Rightarrow> nat option" where
  "juggler_get_obsoleted bis j =
     (case scheduled j of
        [] \<Rightarrow> None
      | ret # _ \<Rightarrow> if bi_next_seqno (bis ret) = j_seqno j + 1 then Some ret else None)"

definition juggler_discard_possible :: "infos \<Rightarrow> juggler \<Rightarrow> nat option \<Rightarrow> bool" where
  "juggler_discard_possible bis j next =
     (case next of
        Some n \<Rightarrow> \<not> (no_unscheduled j = 0 \<and>
          (case juggler_next j n of
             None \<Rightarrow> True
           | Some m \<Rightarrow> bi_next_seqno (bis m) \<noteq> bi_next_seqno (bis n) + 1))
      | None \<Rightarrow> \<not> no_unscheduled j < 2)"

text \<open>
  The hash function is a parameter; writing the chunks one after the other hashes their
  concatenation.
\<close>

definition juggler_hash_scheduled_seqnos :: "(bytes \<Rightarrow> bytes) \<Rightarrow> infos \<Rightarrow> juggler \<Rightarrow> bytes" where
  "juggler_hash_scheduled_seqnos sha256 bis j =
     take 32 (sha256 (concat (map (\<lambda>b. binio_write_uint64_be (replicate 8 0) 0 (bi_seqno (bis b))) (scheduled j))))"

text \<open>
  The do-while loop at the end of \<^verbatim>\<open>juggler_get_devblock\<close>: \<open>ns\<close> is \<^verbatim>\<open>next->next_seqno\<close>, \<open>earlier\<close> the
  scheduled blocks that have been stepped over, \<open>iterate\<close> the rest, \<open>avail\<close> the counter
  \<^verbatim>\<open>available_blocks\<close>. Every round steps over a block or draws a random number.
\<close>

function juggler_place ::
    "infos \<Rightarrow> nat \<Rightarrow> nat list \<Rightarrow> nat list \<Rightarrow> u64 \<Rightarrow> u32 \<Rightarrow> random_t \<Rightarrow> (u64 \<times> nat list \<times> random_t) res" where
  "juggler_place bis next earlier iterate ns avail r =
     (if iterate \<noteq> [] \<and> ns + 1 = bi_next_seqno (bis (hd iterate)) then
        juggler_place bis next (earlier @ [hd iterate]) (tl iterate) (ns + 1) (avail + 1) r
      else
        rbind (random_custom r avail) (\<lambda>(v, r').
          if v = 0 then Inr (ns + 1, earlier @ next # iterate, r')
          else juggler_place bis next earlier iterate (ns + 1) avail r'))"
  by pat_completeness auto
termination
  by (relation "measure (\<lambda>(bis, next, earlier, iterate, ns, avail, r). length iterate + length r)")
    (auto dest: random_custom_length)

text \<open>
  The first half of \<^verbatim>\<open>juggler_get_devblock\<close>: take the block that is due, or draw one of the blocks
  that are not scheduled.
\<close>

definition juggler_draw :: "juggler \<Rightarrow> (juggler \<times> nat) res" where
  "juggler_draw j =
     asserting (unscheduled j \<noteq> [] \<and> no_unscheduled j \<noteq> 0)
       ''juggler_get_devblock: j->unscheduled && j->no_unscheduled != 0'' (
     rbind (random_custom (j_r j) (no_unscheduled j)) (\<lambda>(index, r).
     asserting (unat index < length (unscheduled j)) ''juggler_get_devblock: NULL dereference'' (
       Inr (j\<lparr>j_r := r,
              unscheduled := take (unat index) (unscheduled j) @ drop (Suc (unat index)) (unscheduled j),
              no_unscheduled := no_unscheduled j - 1\<rparr>,
            unscheduled j ! unat index))))"

definition juggler_select :: "infos \<Rightarrow> juggler \<Rightarrow> (juggler \<times> nat) res" where
  "juggler_select bis j =
     (case juggler_get_obsoleted bis j of
        Some n \<Rightarrow> Inr (j\<lparr>scheduled := tl (scheduled j), no_scheduled := no_scheduled j - 1\<rparr>, n)
      | None \<Rightarrow> juggler_draw j)"

definition set_seqnos :: "u64 \<Rightarrow> u64 \<Rightarrow> blockio_info \<Rightarrow> blockio_info" where
  "set_seqnos s n bi = bi\<lparr>bi_seqno := s, bi_next_seqno := n\<rparr>"

definition juggler_get_devblock ::
    "infos \<Rightarrow> juggler \<Rightarrow> bool \<Rightarrow> (infos \<times> juggler \<times> nat option) res" where
  "juggler_get_devblock bis j discard =
     (let obsoleted = juggler_get_obsoleted bis j in
      if discard \<and> \<not> juggler_discard_possible bis j obsoleted then Inr (bis, j, None)
      else
        rbind (juggler_select bis j) (\<lambda>(j, next).
        if obsoleted = None \<and> discard then
          asserting (no_unscheduled j > 0) ''juggler_get_devblock: j->no_unscheduled > 0'' (
            Inr (bis(next := set_seqnos 0 0 (bis next)), j, Some next))
        else
          let j = j\<lparr>j_seqno := j_seqno j + 1\<rparr>; s = j_seqno j;
              bis = bis(next := set_seqnos s s (bis next)) in
          if discard then
            asserting (no_unscheduled j > 0 \<or>
                (scheduled j \<noteq> [] \<and> bi_next_seqno (bis (hd (scheduled j))) = s + 1))
              ''juggler_get_devblock: hole after discarded block'' (Inr (bis, j, Some next))
          else
            rbind (juggler_place bis next [] (scheduled j) s (no_unscheduled j + 1) (j_r j)) (\<lambda>(ns, sched, r).
              Inr (bis(next := set_seqnos s ns (bis next)),
                   j\<lparr>scheduled := sched, no_scheduled := no_scheduled j + 1, j_r := r\<rparr>, Some next))))"

text \<open>\<^verbatim>\<open>juggler_free_and_empty_into\<close> hands every block to the append function of a list, if there is one.\<close>

definition empty_list :: "nat list \<Rightarrow> (nat \<Rightarrow> 's \<Rightarrow> 's res) option \<Rightarrow> 's \<Rightarrow> 's res" where
  "empty_list head app = rfold (\<lambda>b l. case app of None \<Rightarrow> Inr l | Some f \<Rightarrow> f b l) head"

definition juggler_free_and_empty_into :: "juggler \<Rightarrow> (nat \<Rightarrow> 's \<Rightarrow> 's res) option \<Rightarrow> 's \<Rightarrow> 's res" where
  "juggler_free_and_empty_into j app l =
     rbind (empty_list (scheduled j) app l) (empty_list (unscheduled j) app)"

definition juggler_free :: "juggler \<Rightarrow> unit res" where
  "juggler_free j = juggler_free_and_empty_into j None ()"

section \<open>The invariant\<close>

text \<open>
  The blocks are listed once, the counters are exact, the schedule is strictly ordered and lies in
  the future, blocks that are not scheduled carry no sequence numbers, and the sequence numbers
  stay far enough from wrapping around for the random numbers that are left.
\<close>

definition sched_ordered :: "infos \<Rightarrow> nat list \<Rightarrow> bool" where
  "sched_ordered bis xs = sorted_wrt (\<lambda>x y. bi_next_seqno (bis x) < bi_next_seqno (bis y)) xs"

definition juggler_inv :: "infos \<Rightarrow> juggler \<Rightarrow> bool" where
  "juggler_inv bis j \<longleftrightarrow>
     distinct (scheduled j @ unscheduled j) \<and>
     length (scheduled j @ unscheduled j) < 2 ^ 31 \<and>
     no_scheduled j = of_nat (length (scheduled j)) \<and> no_unscheduled j = of_nat (length (unscheduled j)) \<and>
     sched_ordered bis (scheduled j) \<and>
     (\<forall>b \<in> set (scheduled j). bi_seqno (bis b) \<le> j_seqno j \<and> 0 < bi_seqno (bis b) \<and> j_seqno j < bi_next_seqno (bis b) \<and>
        unat (bi_next_seqno (bis b)) + length (j_r j) < 2 ^ 64) \<and>
     (\<forall>b \<in> set (unscheduled j). bi_seqno (bis b) = 0 \<and> bi_next_seqno (bis b) = 0) \<and>
     unat (j_seqno j) + length (j_r j) < 2 ^ 64"

definition juggler_ready :: "infos \<Rightarrow> juggler \<Rightarrow> bool" where
  "juggler_ready bis j \<longleftrightarrow> unscheduled j \<noteq> [] \<or> juggler_get_obsoleted bis j \<noteq> None"

section \<open>Placing a block in the schedule\<close>

declare juggler_place.simps [simp del]

lemma u64_succ:
  "unat (x :: u64) + 1 < 2 ^ 64 \<Longrightarrow> unat (x + 1) = unat x + 1"
  by (simp add: unat_word_ariths)

lemma random_custom_consumes:
  "random_custom r c = Inr (v, r') \<Longrightarrow> length r' + 1 \<le> length r"
  using random_custom_length [of r c v r'] by simp

text \<open>
  What the loop returns: the block goes between two parts of the schedule, at a sequence number
  that nobody else has, after the current one.
\<close>

lemma juggler_place_spec:
  assumes "juggler_place bis b earlier rest ns avail r = Inr (ns', sched, r')"
    and "sched_ordered bis rest" and "\<forall>x\<in>set rest. ns < bi_next_seqno (bis x)"
    and "unat ns + length r < 2 ^ 64" and "\<forall>x\<in>set rest. unat (bi_next_seqno (bis x)) + length r < 2 ^ 64"
  shows "\<exists>ys zs. rest = ys @ zs \<and> sched = earlier @ ys @ b # zs \<and> ns < ns' \<and>
    (\<forall>x\<in>set ys. bi_next_seqno (bis x) < ns') \<and> (\<forall>z\<in>set zs. ns' < bi_next_seqno (bis z)) \<and>
    length r' < length r \<and> unat ns' + length r' < 2 ^ 64"
  using assms
proof (induction bis b earlier rest ns avail r rule: juggler_place.induct)
  case (1 bis b earlier rest ns avail r)
  let ?n = "\<lambda>x. bi_next_seqno (bis x)"
  show ?case
  proof (cases "rest \<noteq> [] \<and> ns + 1 = ?n (hd rest)")
    case True
    then obtain x xs where rest: "rest = x # xs" "ns + 1 = ?n x" by (cases rest) auto
    have "juggler_place bis b (earlier @ [x]) xs (ns + 1) (avail + 1) r = Inr (ns', sched, r')"
      using "1.prems"(1) rest by (subst (asm) juggler_place.simps) simp
    then obtain ys zs where r: "xs = ys @ zs" "sched = (earlier @ [x]) @ ys @ b # zs" "ns + 1 < ns'"
      "\<forall>x\<in>set ys. ?n x < ns'" "\<forall>z\<in>set zs. ns' < ?n z" "length r' < length r" "unat ns' + length r' < 2 ^ 64"
      using "1.IH"(1) [OF True] "1.prems"(2,3,4,5) rest by (auto simp: sched_ordered_def)
    moreover have "ns < ns'" using r(3) "1.prems"(3) rest by force
    ultimately show ?thesis using rest by (intro exI [of _ "x # ys"] exI [of _ zs]) auto
  next
    case False
    obtain v r1 where rc: "random_custom r avail = Inr (v, r1)"
      and k: "(if v = 0 then Inr (ns + 1, earlier @ b # rest, r1)
        else juggler_place bis b earlier rest (ns + 1) avail r1) = Inr (ns', sched, r')"
      using "1.prems"(1) False by (subst (asm) juggler_place.simps) (auto simp: res_simps)
    have len: "length r1 + 1 \<le> length r" by (rule random_custom_consumes [OF rc])
    have succ: "unat (ns + 1) = unat ns + 1" using len "1.prems"(4) by (intro u64_succ) simp
    then have lt: "ns < ns + 1" by (simp add: word_less_nat_alt)
    have later: "ns + 1 < ?n x" if "x \<in> set rest" for x
    proof -
      obtain y ys where rest: "rest = y # ys" using \<open>x \<in> set rest\<close> by (cases rest) auto
      have "ns < ?n y" "ns + 1 \<noteq> ?n y" using "1.prems"(3) False rest by auto
      then have "unat (ns + 1) < unat (?n y)"
        using succ by (simp add: word_less_nat_alt word_unat_eq_iff)
      moreover have "?n y \<le> ?n x" using that "1.prems"(2) rest by (auto simp: sched_ordered_def intro: less_imp_le)
      ultimately show ?thesis by (simp add: word_less_nat_alt word_le_nat_alt)
    qed
    show ?thesis
    proof (cases "v = 0")
      case True
      with k later lt len succ "1.prems"(4) show ?thesis by (intro exI [of _ "[]"] exI [of _ rest]) auto
    next
      case v: False
      have *: "juggler_place bis b earlier rest (ns + 1) avail r1 = Inr (ns', sched, r')" using k v by simp
      have "\<exists>ys zs. rest = ys @ zs \<and> sched = earlier @ ys @ b # zs \<and> ns + 1 < ns' \<and>
        (\<forall>x\<in>set ys. ?n x < ns') \<and> (\<forall>z\<in>set zs. ns' < ?n z) \<and> length r' < length r1 \<and> unat ns' + length r' < 2 ^ 64"
        by (rule "1.IH"(2) [OF False rc refl v *])
          (use "1.prems" later len succ in \<open>auto intro: le_less_trans [rotated]\<close>)
      then show ?thesis using lt len by fastforce
    qed
  qed
qed

text \<open>With nobody else to choose from, the next free place is taken at once.\<close>

lemma juggler_place_forced:
  assumes "juggler_place bis b earlier rest ns 1 r = Inr (ns', sched, r')"
    and "rest = [] \<or> ns + 1 \<noteq> bi_next_seqno (bis (hd rest))"
  shows "ns' = ns + 1 \<and> sched = earlier @ b # rest"
proof (cases r)
  case Nil
  then show ?thesis
    using assms by (subst (asm) juggler_place.simps) (auto simp: random_custom_def res_simps)
next
  case (Cons x r1)
  then show ?thesis
    using assms by (subst (asm) juggler_place.simps) (auto simp: random_custom_one)
qed

section \<open>Selecting a block\<close>

lemma juggler_inv_random:
  "juggler_inv bis j \<Longrightarrow> length r \<le> length (j_r j) \<Longrightarrow> juggler_inv bis (j\<lparr>j_r := r\<rparr>)"
  by (auto simp: juggler_inv_def intro: le_less_trans [rotated])

lemma u32_count:
  "length xs < 2 ^ 31 \<Longrightarrow> unat (of_nat (length xs) :: u32) = length xs"
  "length xs < 2 ^ 31 \<Longrightarrow> (of_nat (length xs) :: u32) = 0 \<longleftrightarrow> xs = []"
  by (simp_all add: unat_of_nat_small word_unat_eq_iff)

text \<open>The state between the selection of a block and its return to the schedule.\<close>

definition juggler_holds :: "infos \<Rightarrow> juggler \<Rightarrow> nat \<Rightarrow> juggler \<Rightarrow> bool" where
  "juggler_holds bis j b j1 \<longleftrightarrow>
     distinct (b # scheduled j1 @ unscheduled j1) \<and>
     set (b # scheduled j1 @ unscheduled j1) = set (scheduled j @ unscheduled j) \<and>
     set (scheduled j1) \<subseteq> set (scheduled j) \<and> set (unscheduled j1) \<subseteq> set (unscheduled j) \<and>
     length (b # scheduled j1 @ unscheduled j1) = length (scheduled j @ unscheduled j) \<and>
     no_scheduled j1 = of_nat (length (scheduled j1)) \<and> no_unscheduled j1 = of_nat (length (unscheduled j1)) \<and>
     sched_ordered bis (scheduled j1) \<and> j_seqno j1 = j_seqno j \<and> length (j_r j1) \<le> length (j_r j) \<and>
     unat (j_seqno j) + 1 + length (j_r j1) < 2 ^ 64 \<and>
     (\<forall>x \<in> set (scheduled j1). unat (j_seqno j) + 1 < unat (bi_next_seqno (bis x)))"

lemma juggler_due:
  assumes "juggler_inv bis j" "juggler_get_obsoleted bis j = Some n"
  shows "\<exists>S. scheduled j = n # S \<and> unat (bi_next_seqno (bis n)) = unat (j_seqno j) + 1"
proof -
  obtain S where S: "scheduled j = n # S" "bi_next_seqno (bis n) = j_seqno j + 1"
    using assms(2) by (auto simp: juggler_get_obsoleted_def split: list.splits if_splits)
  have "j_seqno j < bi_next_seqno (bis n)" using assms(1) S by (auto simp: juggler_inv_def)
  then have "unat (j_seqno j) + 1 < 2 ^ 64"
    using unat_less_exp [of "bi_next_seqno (bis n)"] by (simp add: word_less_nat_alt)
  then show ?thesis using S u64_succ by auto
qed

lemma juggler_not_due:
  assumes "juggler_inv bis j" "juggler_get_obsoleted bis j = None" "x \<in> set (scheduled j)"
  shows "unat (j_seqno j) + 1 < unat (bi_next_seqno (bis x))"
proof -
  obtain y S where S: "scheduled j = y # S" using assms(3) by (cases "scheduled j") auto
  have lt: "j_seqno j < bi_next_seqno (bis y)" using assms(1) S by (auto simp: juggler_inv_def)
  then have "unat (j_seqno j + 1) = unat (j_seqno j) + 1"
    using unat_less_exp [of "bi_next_seqno (bis y)"] by (intro u64_succ) (simp add: word_less_nat_alt)
  then have "unat (j_seqno j) + 1 < unat (bi_next_seqno (bis y))"
    using lt assms(2) S by (auto simp: juggler_get_obsoleted_def word_less_nat_alt word_unat_eq_iff split: if_splits)
  moreover have "bi_next_seqno (bis y) \<le> bi_next_seqno (bis x)"
    using assms(1,3) S by (auto simp: juggler_inv_def sched_ordered_def intro: less_imp_le)
  ultimately show ?thesis by (simp add: word_le_nat_alt)
qed

lemma juggler_draw_spec:
  assumes "juggler_inv bis j" "juggler_draw j = Inr (j1, b)"
  shows "\<exists>ys zs r. unscheduled j = ys @ b # zs \<and> length r < length (j_r j) \<and>
    j1 = j\<lparr>j_r := r, unscheduled := ys @ zs, no_unscheduled := of_nat (length (ys @ zs))\<rparr>"
proof -
  obtain i r where rc: "random_custom (j_r j) (no_unscheduled j) = Inr (i, r)" and i: "unat i < length (unscheduled j)"
    and j1: "j1 = j\<lparr>j_r := r, unscheduled := take (unat i) (unscheduled j) @ drop (Suc (unat i)) (unscheduled j),
        no_unscheduled := no_unscheduled j - 1\<rparr>" and b: "b = unscheduled j ! unat i"
    using assms(2) by (auto simp: juggler_draw_def res_simps)
  have "no_unscheduled j = of_nat (length (unscheduled j))" using assms(1) by (simp add: juggler_inv_def)
  moreover have "length (unscheduled j) = Suc (length (take (unat i) (unscheduled j) @ drop (Suc (unat i)) (unscheduled j)))"
    using i by simp
  ultimately have "no_unscheduled j - 1 = of_nat (length (take (unat i) (unscheduled j) @ drop (Suc (unat i)) (unscheduled j)))"
    by (metis add_diff_cancel_left' of_nat_Suc)
  then have "j1 = j\<lparr>j_r := r, unscheduled := take (unat i) (unscheduled j) @ drop (Suc (unat i)) (unscheduled j),
      no_unscheduled := of_nat (length (take (unat i) (unscheduled j) @ drop (Suc (unat i)) (unscheduled j)))\<rparr>"
    using j1 by simp
  then show ?thesis
    using b id_take_nth_drop [OF i] random_custom_length [OF rc] by blast
qed

lemma juggler_select_spec:
  assumes inv: "juggler_inv bis j" and sel: "juggler_select bis j = Inr (j1, b)"
  shows "juggler_holds bis j b j1"
proof (cases "juggler_get_obsoleted bis j")
  case None
  obtain ys zs r where u: "unscheduled j = ys @ b # zs" "length r < length (j_r j)"
    "j1 = j\<lparr>j_r := r, unscheduled := ys @ zs, no_unscheduled := of_nat (length (ys @ zs))\<rparr>"
    using juggler_draw_spec [OF inv] sel None by (auto simp: juggler_select_def)
  have "\<forall>x \<in> set (scheduled j). unat (j_seqno j) + 1 < unat (bi_next_seqno (bis x))"
    using juggler_not_due [OF inv None] by blast
  then show ?thesis using inv u by (auto simp: juggler_holds_def juggler_inv_def)
next
  case (Some n)
  obtain S where S: "scheduled j = n # S" "unat (bi_next_seqno (bis n)) = unat (j_seqno j) + 1"
    using juggler_due [OF inv Some] by auto
  have j1: "j1 = j\<lparr>scheduled := S, no_scheduled := of_nat (length S)\<rparr>" "b = n"
    using sel Some S inv by (auto simp: juggler_select_def juggler_inv_def)
  have "unat (j_seqno j) + 1 < unat (bi_next_seqno (bis x))" if "x \<in> set S" for x
    using inv S that by (auto simp: juggler_inv_def sched_ordered_def word_less_nat_alt)
  moreover have "unat (bi_next_seqno (bis n)) + length (j_r j) < 2 ^ 64"
    using inv S by (simp add: juggler_inv_def)
  ultimately show ?thesis using inv S j1 by (auto simp: juggler_holds_def juggler_inv_def sched_ordered_def)
qed

section \<open>One step of the juggler\<close>

lemma set_seqnos_fields [simp]:
  "bi_seqno (set_seqnos s n x) = s" "bi_next_seqno (set_seqnos s n x) = n"
  "set_seqnos s n (set_seqnos s' n' x) = set_seqnos s n x"
  "no_indices (set_seqnos s n x) = no_indices x" "no_nonobsolete (set_seqnos s n x) = no_nonobsolete x"
  "indices (set_seqnos s n x) = indices x" "bi_dev (set_seqnos s n x) = bi_dev x"
  "data_hash (set_seqnos s n x) = data_hash x"
  by (simp_all add: set_seqnos_def)

lemma sched_ordered_cong:
  "(\<And>x. x \<in> set xs \<Longrightarrow> bi_next_seqno (bis x) = bi_next_seqno (bis' x)) \<Longrightarrow> sched_ordered bis xs = sched_ordered bis' xs"
  by (induction xs) (auto simp: sched_ordered_def)

text \<open>Putting the held block back at an unused sequence number restores the invariant.\<close>

lemma juggler_inv_return:
  assumes inv: "juggler_inv bis j" and h: "juggler_holds bis j b j1"
    and split: "scheduled j1 = ys @ zs" and ns: "j_seqno j + 1 < ns" "unat ns + length r < 2 ^ 64"
    and ys: "\<forall>x\<in>set ys. bi_next_seqno (bis x) < ns" and zs: "\<forall>z\<in>set zs. ns < bi_next_seqno (bis z)"
    and r: "length r < length (j_r j1)"
  shows "juggler_inv (bis(b := set_seqnos (j_seqno j + 1) ns (bis b)))
    (j1\<lparr>j_seqno := j_seqno j + 1, scheduled := ys @ b # zs, no_scheduled := no_scheduled j1 + 1, j_r := r\<rparr>)"
proof -
  let ?s = "j_seqno j + 1" and ?bis = "bis(b := set_seqnos (j_seqno j + 1) ns (bis b))"
  have s: "unat ?s = unat (j_seqno j) + 1"
    using h by (intro u64_succ) (simp add: juggler_holds_def)
  have b: "b \<notin> set ys" "b \<notin> set zs" using h split by (auto simp: juggler_holds_def)
  have "sched_ordered bis (ys @ zs)" using h split by (simp add: juggler_holds_def)
  then have "sched_ordered ?bis (ys @ b # zs)"
    using ys zs b by (fastforce simp: sched_ordered_def sorted_wrt_append elim: sorted_wrt_mono_rel [rotated])
  moreover have "bi_seqno (bis x) \<le> ?s \<and> 0 < bi_seqno (bis x) \<and> ?s < bi_next_seqno (bis x) \<and>
      unat (bi_next_seqno (bis x)) + length r < 2 ^ 64" if "x \<in> set (ys @ zs)" for x
  proof -
    have "x \<in> set (scheduled j)" "unat (j_seqno j) + 1 < unat (bi_next_seqno (bis x))"
      using h that split by (auto simp: juggler_holds_def)
    moreover have "length r \<le> length (j_r j)" using h r by (simp add: juggler_holds_def)
    ultimately show ?thesis using inv s by (force simp: juggler_inv_def word_less_nat_alt word_le_nat_alt)
  qed
  moreover have "0 < ?s" using s by (simp add: word_less_nat_alt)
  moreover have "no_scheduled j1 + 1 = of_nat (length (ys @ b # zs))"
    using h split by (simp add: juggler_holds_def)
  moreover have "unat ?s + length r < 2 ^ 64" using s h r by (simp add: juggler_holds_def)
  moreover have "bi_seqno (bis x) = 0 \<and> bi_next_seqno (bis x) = 0 \<and> x \<noteq> b" if "x \<in> set (unscheduled j1)" for x
    using that inv h by (auto simp: juggler_holds_def juggler_inv_def)
  ultimately show ?thesis
    using inv h split ns b unfolding juggler_inv_def juggler_holds_def by auto
qed

lemma juggler_get_devblock_spec:
  assumes inv: "juggler_inv bis j" and run: "juggler_get_devblock bis j False = Inr (bis', j', ob)"
  shows "\<exists>b j1 ns ys zs. ob = Some b \<and> juggler_select bis j = Inr (j1, b) \<and> juggler_holds bis j b j1 \<and>
    bis' = bis(b := set_seqnos (j_seqno j + 1) ns (bis b)) \<and> j_seqno j' = j_seqno j + 1 \<and>
    unat (j_seqno j + 1) = unat (j_seqno j) + 1 \<and> j_seqno j + 1 < ns \<and>
    unscheduled j' = unscheduled j1 \<and> scheduled j1 = ys @ zs \<and> scheduled j' = ys @ b # zs \<and>
    length (j_r j') < length (j_r j) \<and>
    (unscheduled j1 = [] \<longrightarrow> juggler_get_obsoleted bis' j' \<noteq> None) \<and> juggler_inv bis' j'"
proof -
  let ?s = "j_seqno j + 1"
  obtain j1 b where sel: "juggler_select bis j = Inr (j1, b)"
    using run by (auto simp: juggler_get_devblock_def Let_def res_simps)
  note h = juggler_select_spec [OF inv sel]
  then have sq: "j_seqno j1 = j_seqno j" by (simp add: juggler_holds_def)
  let ?bis = "bis(b := set_seqnos ?s ?s (bis b))"
  obtain ns sched r where pl: "juggler_place ?bis b [] (scheduled j1) ?s (no_unscheduled j1 + 1) (j_r j1) = Inr (ns, sched, r)"
    and res: "bis' = bis(b := set_seqnos ?s ns (bis b))" "ob = Some b"
      "j' = j1\<lparr>j_seqno := ?s, scheduled := sched, no_scheduled := no_scheduled j1 + 1, j_r := r\<rparr>"
    using run sel sq by (auto simp: juggler_get_devblock_def Let_def res_simps)
  have s: "unat ?s = unat (j_seqno j) + 1" using h by (intro u64_succ) (simp add: juggler_holds_def)
  have nx: "bi_next_seqno (?bis x) = bi_next_seqno (bis x)" if "x \<in> set (scheduled j1)" for x
    using that h by (auto simp: juggler_holds_def)
  have ord: "sched_ordered ?bis (scheduled j1)"
    using h sched_ordered_cong [of "scheduled j1" ?bis bis] nx by (simp add: juggler_holds_def)
  obtain ys zs where p: "scheduled j1 = ys @ zs" "sched = ys @ b # zs" "?s < ns"
    "\<forall>x\<in>set ys. bi_next_seqno (bis x) < ns" "\<forall>z\<in>set zs. ns < bi_next_seqno (bis z)"
    "length r < length (j_r j1)" "unat ns + length r < 2 ^ 64"
  proof -
    have "\<forall>x\<in>set (scheduled j1). ?s < bi_next_seqno (?bis x)"
      using h s nx by (auto simp: juggler_holds_def word_less_nat_alt)
    moreover have "\<forall>x\<in>set (scheduled j1). unat (bi_next_seqno (?bis x)) + length (j_r j1) < 2 ^ 64"
      using h inv nx by (fastforce simp: juggler_holds_def juggler_inv_def)
    moreover have "unat ?s + length (j_r j1) < 2 ^ 64" using h s by (simp add: juggler_holds_def)
    ultimately show thesis
      using juggler_place_spec [OF pl ord] nx that by fastforce
  qed
  have "juggler_get_obsoleted bis' j' \<noteq> None" if e: "unscheduled j1 = []"
  proof -
    have c: "no_unscheduled j1 + 1 = 1" using e h by (simp add: juggler_holds_def)
    show ?thesis
    proof (cases "scheduled j1 = [] \<or> ?s + 1 \<noteq> bi_next_seqno (?bis (hd (scheduled j1)))")
      case True
      with juggler_place_forced [OF pl [unfolded c]] res show ?thesis
        by (simp add: juggler_get_obsoleted_def)
    next
      case False
      then obtain y ws where y: "scheduled j1 = y # ws" "bi_next_seqno (bis y) = ?s + 1" "y \<noteq> b"
        using h by (cases "scheduled j1") (auto simp: juggler_holds_def split: if_splits)
      have "\<not> ns < ?s + 1"
        using inc_le [OF p(3)] by (simp add: not_less)
      moreover have "ys \<noteq> []" using p y calculation by (cases ys) auto
      ultimately show ?thesis using p y res by (cases ys) (auto simp: juggler_get_obsoleted_def)
    qed
  qed
  moreover have "length (j_r j') < length (j_r j)" using p(6) h res by (simp add: juggler_holds_def)
  moreover have "juggler_inv bis' j'"
    using juggler_inv_return [OF inv h p(1,3,7,4,5,6)] res p(2) by simp
  ultimately show ?thesis using res sel h p s by auto
qed

section \<open>Failure only by lack of random numbers\<close>

definition out_of_random :: error where
  "out_of_random = Fatal ''reading from /dev/urandom''"

lemma random_retry_zero:
  "0 \<in> set r \<Longrightarrow> \<exists>x r'. random_retry l r = Inr (x, r') \<and> count_list r 0 \<le> count_list r' 0 + 1 \<and> (x \<noteq> 0 \<longrightarrow> 0 \<in> set r')"
  by (induction r) auto

lemma random_custom_zero:
  assumes "0 \<in> set r" "c \<noteq> 0"
  shows "\<exists>v r'. random_custom r c = Inr (v, r') \<and> count_list r 0 \<le> count_list r' 0 + 1 \<and> (v \<noteq> 0 \<longrightarrow> 0 \<in> set r')"
  using random_retry_zero [OF assms(1), of "random_limit c"] assms(2) by (force simp: random_custom_def)

lemma random_custom_error: "c \<noteq> 0 \<Longrightarrow> random_custom r c = Inl e \<Longrightarrow> e = out_of_random"
  by (auto simp: random_custom_def random_retry_eq out_of_random_def split: list.splits)

lemma random_custom_zeros:
  assumes "random_custom r c = Inr (v, r')"
  shows "count_list r 0 \<le> count_list r' 0 + (if v = 0 then 1 else 0)"
proof -
  have "random_retry l r = Inr (x, r') \<Longrightarrow> count_list r 0 \<le> count_list r' 0 + (if x = 0 then 1 else 0)" for l x
    by (induction r) (auto split: if_splits)
  with assms show ?thesis by (fastforce simp: random_custom_def res_simps split: if_splits)
qed

lemma juggler_place_zeros:
  "juggler_place bis b earlier rest ns avail r = Inr (ns', sched, r') \<Longrightarrow> count_list r 0 \<le> count_list r' 0 + 1"
proof (induction bis b earlier rest ns avail r rule: juggler_place.induct)
  case (1 bis b earlier rest ns avail r)
  show ?case
  proof (cases "rest \<noteq> [] \<and> ns + 1 = bi_next_seqno (bis (hd rest))")
    case True
    then show ?thesis using "1.prems" "1.IH"(1) [OF True] by (simp add: juggler_place.simps [of bis b earlier])
  next
    case False
    then obtain v r1 where rc: "random_custom r avail = Inr (v, r1)"
      and k: "(if v = 0 then Inr (ns + 1, earlier @ b # rest, r1)
        else juggler_place bis b earlier rest (ns + 1) avail r1) = Inr (ns', sched, r')"
      using "1.prems" by (subst (asm) juggler_place.simps) (auto simp: res_simps)
    show ?thesis
    proof (cases "v = 0")
      case v: False
      with "1.IH"(2) [OF False rc refl v] k random_custom_zeros [OF rc] show ?thesis by auto
    qed (use k random_custom_zeros [OF rc] in auto)
  qed
qed

lemma juggler_get_devblock_zeros:
  assumes "juggler_get_devblock bis j False = Inr (bis', j', ob)"
  shows "count_list (j_r j) 0 \<le> count_list (j_r j') 0 + 2"
proof -
  obtain j1 b where sel: "juggler_select bis j = Inr (j1, b)"
    and pl: "count_list (j_r j1) 0 \<le> count_list (j_r j') 0 + 1"
    using assms juggler_place_zeros by (fastforce simp: juggler_get_devblock_def Let_def res_simps)
  have "count_list (j_r j) 0 \<le> count_list (j_r j1) 0 + 1"
  proof (cases "juggler_get_obsoleted bis j")
    case None
    with sel obtain i where "random_custom (j_r j) (no_unscheduled j) = Inr (i, j_r j1)"
      by (auto simp: juggler_select_def juggler_draw_def res_simps)
    then show ?thesis using random_custom_zeros by (fastforce split: if_splits)
  qed (use sel in \<open>auto simp: juggler_select_def\<close>)
  with pl show ?thesis by linarith
qed

lemma juggler_place_total:
  assumes "avail \<noteq> 0" "unat avail + length rest < 2 ^ 32"
  shows "(0 \<in> set r \<longrightarrow> (\<exists>res. juggler_place bis b earlier rest ns avail r = Inr res)) \<and>
    (juggler_place bis b earlier rest ns avail r = Inl e \<longrightarrow> e = out_of_random)"
  using assms
proof (induction bis b earlier rest ns avail r rule: juggler_place.induct)
  case (1 bis b earlier rest ns avail r)
  show ?case
  proof (cases "rest \<noteq> [] \<and> ns + 1 = bi_next_seqno (bis (hd rest))")
    case True
    then have "unat avail + 1 < 2 ^ 32" using "1.prems"(2) by (cases rest) auto
    then have "unat (avail + 1) = unat avail + 1" by (simp add: unat_word_ariths)
    then have "avail + 1 \<noteq> 0" "unat (avail + 1) + length (tl rest) < 2 ^ 32"
      using "1.prems"(2) True by (cases rest; force simp: unat_eq_zero [symmetric])+
    from "1.IH"(1) [OF True this] True show ?thesis by (subst (1 2) juggler_place.simps) simp
  next
    case False
    have step: "juggler_place bis b earlier rest ns avail r = rbind (random_custom r avail) (\<lambda>(v, r').
        if v = 0 then Inr (ns + 1, earlier @ b # rest, r') else juggler_place bis b earlier rest (ns + 1) avail r')"
      using False by (subst juggler_place.simps) (simp only: if_False)
    show ?thesis
    proof (cases "random_custom r avail")
      case (Inl e')
      then show ?thesis using step random_custom_error [OF "1.prems"(1) Inl] random_custom_zero [OF _ "1.prems"(1)] by force
    next
      case (Inr vr)
      then obtain v r' where vr: "random_custom r avail = Inr (v, r')" by (cases vr) auto
      have z: "0 \<in> set r \<Longrightarrow> v \<noteq> 0 \<Longrightarrow> 0 \<in> set r'"
        using random_custom_zero [of r avail] vr "1.prems"(1) by auto
      show ?thesis
      proof (cases "v = 0")
        case False': False
        from "1.IH"(2) [OF False vr refl False' "1.prems"] z False' step vr show ?thesis by auto
      qed (use step vr in simp)
    qed
  qed
qed

lemma juggler_draw_total:
  assumes "juggler_inv bis j" "unscheduled j \<noteq> []"
  shows "(0 \<in> set (j_r j) \<longrightarrow> (\<exists>j1 b. juggler_draw j = Inr (j1, b) \<and> count_list (j_r j) 0 \<le> count_list (j_r j1) 0 + 1)) \<and>
    (juggler_draw j = Inl e \<longrightarrow> e = out_of_random)"
proof -
  have c: "no_unscheduled j \<noteq> 0" "unat (no_unscheduled j) = length (unscheduled j)"
    using assms u32_count [of "unscheduled j"] by (auto simp: juggler_inv_def)
  have "unat i < length (unscheduled j)" if "random_custom (j_r j) (no_unscheduled j) = Inr (i, r)" for i r
    using random_custom_Inr(1) [OF that] c(2) by (simp add: word_less_nat_alt)
  then show ?thesis
    using assms(2) c(1) random_custom_zero [of "j_r j" "no_unscheduled j"] random_custom_error [OF c(1), of "j_r j" e]
    by (cases "random_custom (j_r j) (no_unscheduled j)") (force simp: juggler_draw_def)+
qed

lemma juggler_select_total:
  assumes "juggler_inv bis j" "juggler_ready bis j"
  shows "(0 \<in> set (j_r j) \<longrightarrow> (\<exists>j1 b. juggler_select bis j = Inr (j1, b) \<and> count_list (j_r j) 0 \<le> count_list (j_r j1) 0 + 1)) \<and>
    (juggler_select bis j = Inl e \<longrightarrow> e = out_of_random)"
proof (cases "juggler_get_obsoleted bis j")
  case None
  then show ?thesis
    using juggler_draw_total [OF assms(1), of e] assms(2) by (auto simp: juggler_ready_def juggler_select_def)
qed (simp add: juggler_select_def)

lemma juggler_get_devblock_total:
  assumes inv: "juggler_inv bis j" and rdy: "juggler_ready bis j"
  shows "(2 \<le> count_list (j_r j) 0 \<longrightarrow> (\<exists>res. juggler_get_devblock bis j False = Inr res)) \<and>
    (juggler_get_devblock bis j False = Inl e \<longrightarrow> e = out_of_random)"
proof (cases "juggler_select bis j")
  case (Inl e')
  then show ?thesis
    using juggler_select_total [OF assms, of e'] count_notin [of 0 "j_r j"]
    by (force simp: juggler_get_devblock_def Let_def)
next
  case (Inr s)
  then obtain j1 b where sel: "juggler_select bis j = Inr (j1, b)" by (cases s) auto
  note h = juggler_select_spec [OF inv sel]
  have lim: "length (unscheduled j1) + 1 + length (scheduled j1) < 2 ^ 31"
    using h inv by (simp add: juggler_holds_def juggler_inv_def)
  have nu: "no_unscheduled j1 + 1 = of_nat (length (unscheduled j1) + 1)" using h by (simp add: juggler_holds_def)
  have av: "unat (no_unscheduled j1 + 1) = length (unscheduled j1) + 1"
    unfolding nu using lim by (intro unat_of_nat_small) simp
  then have nz: "no_unscheduled j1 + 1 \<noteq> 0" "unat (no_unscheduled j1 + 1) + length (scheduled j1) < 2 ^ 32"
    using lim by (auto simp: unat_eq_zero [symmetric])
  have "0 \<in> set (j_r j1)" if "2 \<le> count_list (j_r j) 0"
  proof (rule ccontr)
    assume "0 \<notin> set (j_r j1)"
    then have "count_list (j_r j1) 0 = 0" by (rule count_notin)
    moreover have "0 \<in> set (j_r j)" using that by (metis count_notin not_numeral_le_zero)
    ultimately show False using that juggler_select_total [OF assms, of e] sel by auto
  qed
  then show ?thesis
    using sel juggler_place_total [OF nz, of "j_r j1" "bis(b := set_seqnos (j_seqno j1 + 1) (j_seqno j1 + 1) (bis b))"
        b "[]" "j_seqno j1 + 1" e]
    by (auto simp: juggler_get_devblock_def Let_def rbind_def split: sum.splits)
qed

section \<open>The interface of a block provider\<close>

text \<open>
  What the device relies on: a provider hands out one block per step, keeps its invariant, and a
  block that waits \<open>n\<close> further steps is handed out at exactly that step.
\<close>

locale block_provider =
  fixes inv :: "'s \<Rightarrow> bool"
    and waits :: "'s \<Rightarrow> nat \<Rightarrow> nat \<Rightarrow> bool"
    and get_block :: "'s \<Rightarrow> ('s \<times> nat) res"
  assumes step_inv: "inv s \<Longrightarrow> get_block s = Inr (s', b) \<Longrightarrow> inv s'"
    and step_due: "inv s \<Longrightarrow> get_block s = Inr (s', c) \<Longrightarrow> waits s b 0 \<Longrightarrow> c = b"
    and step_later: "inv s \<Longrightarrow> get_block s = Inr (s', c) \<Longrightarrow> waits s b (Suc n) \<Longrightarrow> c \<noteq> b \<and> waits s' b n"
begin

fun run :: "nat \<Rightarrow> 's \<Rightarrow> ('s \<times> nat list) res" where
  "run 0 s = Inr (s, [])"
| "run (Suc n) s = rbind (get_block s) (\<lambda>(s', b). rbind (run n s') (\<lambda>(s'', bs). Inr (s'', b # bs)))"

lemma run_inv: "inv s \<Longrightarrow> run n s = Inr (s', bs) \<Longrightarrow> inv s' \<and> length bs = n"
  by (induction n arbitrary: s bs) (auto simp: res_simps dest: step_inv)

lemma run_promise:
  "inv s \<Longrightarrow> waits s b n \<Longrightarrow> run (Suc n + k) s = Inr (s', bs) \<Longrightarrow> bs ! n = b \<and> b \<notin> set (take n bs)"
proof (induction n arbitrary: s bs)
  case 0
  then show ?case by (auto simp: res_simps dest: step_due)
next
  case (Suc n)
  then obtain s1 c s2 cs where st: "get_block s = Inr (s1, c)" "run (Suc n + k) s1 = Inr (s2, cs)" "bs = c # cs"
    by (auto simp: res_simps)
  with Suc.prems step_inv step_later have "inv s1" "c \<noteq> b" "waits s1 b n" by blast+
  with Suc.IH [of s1 cs] st Suc.prems show ?case by (auto simp: res_simps)
qed

end

definition juggler_step :: "infos \<times> juggler \<Rightarrow> ((infos \<times> juggler) \<times> nat) res" where
  "juggler_step s = rbind (juggler_get_devblock (fst s) (snd s) False) (\<lambda>(bis, j, ob).
     case ob of None \<Rightarrow> Inl (Assert ''dev->bi'') | Some b \<Rightarrow> Inr ((bis, j), b))"

definition juggler_waits :: "infos \<times> juggler \<Rightarrow> nat \<Rightarrow> nat \<Rightarrow> bool" where
  "juggler_waits s b n \<longleftrightarrow> b \<in> set (scheduled (snd s)) \<and>
     unat (bi_next_seqno (fst s b)) = unat (j_seqno (snd s)) + Suc n"

lemma juggler_step_cases:
  assumes "juggler_inv (fst s) (snd s)" "juggler_step s = Inr (s', c)"
  obtains j1 ns where "juggler_select (fst s) (snd s) = Inr (j1, c)" "juggler_holds (fst s) (snd s) c j1"
    "fst s' = (fst s)(c := set_seqnos (j_seqno (snd s) + 1) ns (fst s c))" "j_seqno (snd s') = j_seqno (snd s) + 1"
    "unat (j_seqno (snd s) + 1) = unat (j_seqno (snd s)) + 1" "set (scheduled (snd s')) = insert c (set (scheduled j1))"
    "j_seqno (snd s) + 1 < ns" "juggler_inv (fst s') (snd s')" "juggler_ready (fst s') (snd s')"
proof -
  obtain bis j where s: "s = (bis, j)" by (cases s)
  obtain bis' j' where g: "juggler_get_devblock bis j False = Inr (bis', j', Some c)" "s' = (bis', j')"
    using assms(2) s by (auto simp: juggler_step_def res_simps split: option.splits)
  show thesis
    using juggler_get_devblock_spec [OF _ g(1)] assms(1) g(2) s that by (auto simp: juggler_ready_def)
qed

interpretation juggling: block_provider
  "\<lambda>s. juggler_inv (fst s) (snd s)" juggler_waits juggler_step
proof (unfold_locales, goal_cases)
  case (1 s s' b)
  then show ?case by (rule juggler_step_cases)
next
  case (2 s s' c b)
  have "juggler_get_obsoleted (fst s) (snd s) \<noteq> None"
    using juggler_not_due [OF 2(1), of b] 2(3) by (auto simp: juggler_waits_def)
  then obtain n where n: "juggler_get_obsoleted (fst s) (snd s) = Some n" by auto
  obtain j1 where "juggler_select (fst s) (snd s) = Inr (j1, c)" using juggler_step_cases [OF 2(1,2)] by metis
  then have "c = n" using n by (simp add: juggler_select_def)
  moreover have "b = n"
  proof (rule ccontr)
    assume "b \<noteq> n"
    obtain S where "scheduled (snd s) = n # S" "unat (bi_next_seqno (fst s n)) = unat (j_seqno (snd s)) + 1"
      using juggler_due [OF 2(1) n] by auto
    then show False
      using 2(1,3) \<open>b \<noteq> n\<close> by (auto simp: juggler_waits_def juggler_inv_def sched_ordered_def word_less_nat_alt)
  qed
  ultimately show ?case by simp
next
  case (3 s s' c b n)
  from 3(1,2) show ?case
  proof (rule juggler_step_cases)
    fix j1 ns
    assume c: "juggler_select (fst s) (snd s) = Inr (j1, c)" "juggler_holds (fst s) (snd s) c j1"
      "fst s' = (fst s)(c := set_seqnos (j_seqno (snd s) + 1) ns (fst s c))" "j_seqno (snd s') = j_seqno (snd s) + 1"
      "unat (j_seqno (snd s) + 1) = unat (j_seqno (snd s)) + 1" "set (scheduled (snd s')) = insert c (set (scheduled j1))"
    have b: "b \<in> set (scheduled (snd s))" "unat (bi_next_seqno (fst s b)) = unat (j_seqno (snd s)) + Suc (Suc n)"
      using 3(3) by (simp_all add: juggler_waits_def)
    have "c \<noteq> b"
    proof (cases "juggler_get_obsoleted (fst s) (snd s)")
      case None
      then have "c \<in> set (unscheduled (snd s))"
        using juggler_draw_spec [OF 3(1)] c(1) by (auto simp: juggler_select_def)
      then show ?thesis using b(1) 3(1) by (auto simp: juggler_inv_def)
    next
      case (Some m)
      then show ?thesis using juggler_due [OF 3(1) Some] c(1) b(2) by (auto simp: juggler_select_def)
    qed
    moreover have "b \<in> set (scheduled j1)"
    proof -
      have "b \<in> set (c # scheduled j1 @ unscheduled j1)" "set (unscheduled j1) \<subseteq> set (unscheduled (snd s))"
        using c(2) b(1) unfolding juggler_holds_def by auto
      then show ?thesis using \<open>c \<noteq> b\<close> b(1) 3(1) by (auto simp: juggler_inv_def)
    qed
    ultimately show ?case using c b by (simp add: juggler_waits_def)
  qed
qed

lemma juggler_run_total:
  assumes "juggler_inv (fst s) (snd s)" "juggler_ready (fst s) (snd s)"
  shows "(2 * n \<le> count_list (j_r (snd s)) 0 \<longrightarrow> (\<exists>res. juggling.run n s = Inr res)) \<and>
    (juggling.run n s = Inl e \<longrightarrow> e = out_of_random)"
  using assms
proof (induction n arbitrary: s)
  case (Suc n)
  show ?case
  proof (cases "juggler_step s")
    case (Inl e')
    then have "juggler_get_devblock (fst s) (snd s) False = Inl e'"
      using juggler_get_devblock_spec [OF Suc.prems(1)]
      by (fastforce simp: juggler_step_def rbind_def split: sum.splits prod.splits option.splits)
    then show ?thesis using juggler_get_devblock_total [OF Suc.prems, of e'] Inl by auto
  next
    case (Inr sb)
    then obtain s' b where st: "juggler_step s = Inr (s', b)" by (cases sb) auto
    have nxt: "juggler_inv (fst s') (snd s')" "juggler_ready (fst s') (snd s')"
      using juggler_step_cases [OF Suc.prems(1) st] by metis+
    have "count_list (j_r (snd s)) 0 \<le> count_list (j_r (snd s')) 0 + 2"
      using st juggler_get_devblock_zeros
      by (fastforce simp: juggler_step_def res_simps split: option.splits)
    with Suc.IH [OF nxt] st show ?thesis
      by (cases "juggling.run n s'") auto
  qed
qed simp

section \<open>Discarding a block\<close>

lemma list_next_notin: "b \<notin> set xs \<Longrightarrow> list_next xs b = None"
  by (induction xs b rule: list_next.induct) auto

lemma juggler_holds_inv:
  assumes inv: "juggler_inv bis j" and h: "juggler_holds bis j b j1"
    and s: "s = j_seqno j \<or> s = j_seqno j + 1" and eq: "\<And>x. x \<noteq> b \<Longrightarrow> bis' x = bis x"
  shows "juggler_inv bis' (j1\<lparr>j_seqno := s\<rparr>)"
proof -
  have succ: "unat (j_seqno j + 1) = unat (j_seqno j) + 1"
    using h by (intro u64_succ) (simp add: juggler_holds_def)
  have lists: "b \<notin> set (scheduled j1)" "b \<notin> set (unscheduled j1)" using h by (auto simp: juggler_holds_def)
  have "bi_seqno (bis' x) \<le> s \<and> 0 < bi_seqno (bis' x) \<and> s < bi_next_seqno (bis' x) \<and>
      unat (bi_next_seqno (bis' x)) + length (j_r j1) < 2 ^ 64" if "x \<in> set (scheduled j1)" for x
  proof -
    have "x \<in> set (scheduled j)" "unat (j_seqno j) + 1 < unat (bi_next_seqno (bis x))" "length (j_r j1) \<le> length (j_r j)"
      using h that by (auto simp: juggler_holds_def)
    moreover have "bis' x = bis x" using that lists eq by metis
    ultimately show ?thesis using inv s succ by (force simp: juggler_inv_def word_less_nat_alt word_le_nat_alt)
  qed
  moreover have "bi_seqno (bis' x) = 0 \<and> bi_next_seqno (bis' x) = 0" if "x \<in> set (unscheduled j1)" for x
  proof -
    have "x \<in> set (unscheduled j)" using h that by (auto simp: juggler_holds_def)
    moreover have "bis' x = bis x" using that lists eq by metis
    ultimately show ?thesis using inv by (simp add: juggler_inv_def)
  qed
  moreover have "sched_ordered bis' (scheduled j1)"
    using h sched_ordered_cong [of "scheduled j1" bis' bis] eq lists unfolding juggler_holds_def by metis
  moreover have "unat s + length (j_r j1) < 2 ^ 64" using s succ h by (auto simp: juggler_holds_def)
  ultimately show ?thesis using inv h by (auto simp: juggler_holds_def juggler_inv_def)
qed

lemma juggler_discard_Some:
  assumes inv: "juggler_inv bis j" and run: "juggler_get_devblock bis j True = Inr (bis', j', Some b)"
  shows "juggler_inv bis' j' \<and> juggler_ready bis' j' \<and> bi_seqno (bis' b) = bi_next_seqno (bis' b) \<and>
    b \<notin> set (scheduled j' @ unscheduled j') \<and> insert b (set (scheduled j' @ unscheduled j')) = set (scheduled j @ unscheduled j)"
proof -
  obtain j1 where sel: "juggler_select bis j = Inr (j1, b)"
    using run by (auto simp: juggler_get_devblock_def Let_def res_simps split: if_splits)
  note h = juggler_select_spec [OF inv sel]
  have sq: "j_seqno j1 = j_seqno j" and parts: "b \<notin> set (scheduled j1 @ unscheduled j1)"
    "insert b (set (scheduled j1 @ unscheduled j1)) = set (scheduled j @ unscheduled j)"
    using h by (auto simp: juggler_holds_def)
  have ne: "unscheduled j1 \<noteq> []" if "no_unscheduled j1 > 0" using that h by (auto simp: juggler_holds_def)
  show ?thesis
  proof (cases "juggler_get_obsoleted bis j = None")
    case True
    then have r: "no_unscheduled j1 > 0" "bis' = bis(b := set_seqnos 0 0 (bis b))" "j' = j1"
      using run sel by (auto simp: juggler_get_devblock_def Let_def res_simps split: if_splits)
    have "juggler_inv bis' (j1\<lparr>j_seqno := j_seqno j\<rparr>)"
      by (rule juggler_holds_inv [OF inv h]) (simp_all add: r)
    moreover have "j1\<lparr>j_seqno := j_seqno j\<rparr> = j1" using sq by simp
    ultimately show ?thesis using r ne parts by (simp add: juggler_ready_def)
  next
    case False
    then have r: "bis' = bis(b := set_seqnos (j_seqno j + 1) (j_seqno j + 1) (bis b))" "j' = j1\<lparr>j_seqno := j_seqno j + 1\<rparr>"
      "no_unscheduled j1 > 0 \<or> (scheduled j1 \<noteq> [] \<and> bi_next_seqno (bis' (hd (scheduled j1))) = j_seqno j + 1 + 1)"
      using run sel sq by (auto simp: juggler_get_devblock_def Let_def res_simps split: if_splits)
    have "juggler_inv bis' (j1\<lparr>j_seqno := j_seqno j + 1\<rparr>)"
      by (rule juggler_holds_inv [OF inv h]) (simp_all add: r)
    moreover have "juggler_ready bis' j'"
      using r ne by (auto simp: juggler_ready_def juggler_get_obsoleted_def split: list.splits)
    ultimately show ?thesis using r parts by simp
  qed
qed

lemma juggler_discard_error:
  assumes inv: "juggler_inv bis j" and run: "juggler_get_devblock bis j True = Inl e"
  shows "e = out_of_random"
proof (cases "juggler_get_obsoleted bis j")
  case None
  have poss: "juggler_discard_possible bis j None" using run None
    by (auto simp: juggler_get_devblock_def split: if_splits)
  then have "2 \<le> unat (no_unscheduled j)"
    by (simp add: juggler_discard_possible_def word_less_nat_alt)
  then have two: "2 \<le> length (unscheduled j)"
    using inv u32_count [of "unscheduled j"] by (simp add: juggler_inv_def)
  have "no_unscheduled j1 > 0" if sel: "juggler_select bis j = Inr (j1, b)" for j1 b
  proof -
    obtain ys zs where "unscheduled j = ys @ b # zs" "no_unscheduled j1 = of_nat (length (ys @ zs))"
      using juggler_draw_spec [OF inv] sel None by (auto simp: juggler_select_def)
    then show ?thesis
      using two inv u32_count(2) [of "ys @ zs"] by (auto simp: juggler_inv_def word_gt_0)
  qed
  moreover have "juggler_ready bis j" using two by (auto simp: juggler_ready_def)
  ultimately show ?thesis
    using run None poss juggler_select_total [OF inv, of e]
    by (auto simp: juggler_get_devblock_def Let_def rbind_def split: sum.splits)
next
  case (Some n)
  obtain S where S: "scheduled j = n # S" using juggler_due [OF inv Some] by auto
  have n: "n \<notin> set (unscheduled j)" "n \<notin> set S" using inv S by (auto simp: juggler_inv_def)
  have nx: "bi_next_seqno (bis n) = j_seqno j + 1"
    using Some S by (auto simp: juggler_get_obsoleted_def split: if_splits)
  show ?thesis
    using run Some S n nx list_next_notin [OF n(1)]
    by (cases S) (auto simp: juggler_get_devblock_def Let_def juggler_select_def juggler_discard_possible_def
        juggler_next_def asserting_def word_gt_0 split: if_splits)
qed

section \<open>Rebuilding the juggler\<close>

definition juggler_rebuild :: "infos \<Rightarrow> nat list \<Rightarrow> juggler \<Rightarrow> juggler res" where
  "juggler_rebuild bis = rfold (\<lambda>b j. juggler_add_macroblock bis j b)"

lemma sched_ordered_distinct: "sched_ordered bis xs \<Longrightarrow> distinct xs"
  by (induction xs) (auto simp: sched_ordered_def)

lemma sched_ordered_insert:
  "sched_ordered bis (A @ B) \<Longrightarrow> \<forall>x\<in>set A. bi_next_seqno (bis x) < bi_next_seqno (bis b) \<Longrightarrow>
   \<forall>x\<in>set B. bi_next_seqno (bis b) < bi_next_seqno (bis x) \<Longrightarrow> sched_ordered bis (A @ b # B)"
  by (simp add: sched_ordered_def sorted_wrt_append)

text \<open>A set of blocks has only one ordered schedule.\<close>

lemma sched_ordered_unique:
  assumes "sched_ordered bis xs" "sched_ordered bis ys" "set xs = set ys"
  shows "xs = ys"
proof -
  let ?f = "\<lambda>b. bi_next_seqno (bis b)"
  have "sorted_wrt (<) (map ?f xs)" "sorted_wrt (<) (map ?f ys)"
    using assms(1,2) by (simp_all add: sched_ordered_def sorted_wrt_map)
  moreover have "set (map ?f xs) = set (map ?f ys)" using assms(3) by simp
  ultimately have "map ?f xs = map ?f ys" using strict_sorted_equal by blast
  moreover have "inj_on ?f (set xs \<union> set ys)"
    using \<open>sorted_wrt (<) (map ?f xs)\<close> assms(3) by (simp add: strict_sorted_iff distinct_map)
  ultimately show ?thesis by (rule map_inj_on)
qed

text \<open>What the juggler knows after the blocks \<open>seen\<close> have been added.\<close>

definition juggler_knows :: "infos \<Rightarrow> nat list \<Rightarrow> juggler \<Rightarrow> bool" where
  "juggler_knows bis seen j \<longleftrightarrow>
     sched_ordered bis (scheduled j) \<and> set (scheduled j) = {b \<in> set seen. bi_next_seqno (bis b) \<noteq> 0} \<and>
     mset (unscheduled j) = mset (filter (\<lambda>b. bi_next_seqno (bis b) = 0) seen) \<and>
     no_scheduled j = of_nat (length (scheduled j)) \<and> no_unscheduled j = of_nat (length (unscheduled j)) \<and>
     j_seqno j = Max (insert 0 ((\<lambda>b. bi_seqno (bis b)) ` set seen))"

definition disk_consistent :: "infos \<Rightarrow> nat list \<Rightarrow> bool" where
  "disk_consistent bis bs \<longleftrightarrow> distinct bs \<and>
     (\<forall>b \<in> set bs. bi_seqno (bis b) < bi_next_seqno (bis b) \<or> bi_seqno (bis b) = 0 \<and> bi_next_seqno (bis b) = 0) \<and>
     inj_on (\<lambda>b. bi_next_seqno (bis b)) {b \<in> set bs. bi_next_seqno (bis b) \<noteq> 0}"

lemma juggler_knows_add:
  assumes k: "juggler_knows bis seen j" and d: "disk_consistent bis (seen @ [b])"
  shows "\<exists>j'. juggler_add_macroblock bis j b = Inr j' \<and> juggler_knows bis (seen @ [b]) j' \<and> j_r j' = j_r j"
proof -
  let ?n = "\<lambda>b. bi_next_seqno (bis b)"
  let ?p = "\<lambda>x. ?n x < ?n b"
  have "set (unscheduled j) \<subseteq> set seen"
    using k mset_eq_setD [of "unscheduled j" "filter (\<lambda>b. ?n b = 0) seen"] by (auto simp: juggler_knows_def)
  then have out: "b \<notin> set (scheduled j)" "b \<notin> set (unscheduled j)"
    using k d by (auto simp: juggler_knows_def disk_consistent_def)
  then have nx: "juggler_next j b = None" by (simp add: juggler_next_def list_next_notin)
  have max: "Max (insert 0 ((\<lambda>b. bi_seqno (bis b)) ` set (seen @ [b]))) = max (bi_seqno (bis b)) (j_seqno j)"
    using k by (simp add: juggler_knows_def insert_commute [of 0])
  show ?thesis
  proof (cases "?n b = 0")
    case True
    then have "bi_seqno (bis b) = 0" using d by (auto simp: disk_consistent_def)
    moreover have "{x \<in> set (seen @ [b]). ?n x \<noteq> 0} = {x \<in> set seen. ?n x \<noteq> 0}" using True by auto
    ultimately show ?thesis using True k nx max by (simp add: juggler_add_macroblock_def juggler_knows_def)
  next
    case False
    then have lt: "bi_seqno (bis b) < ?n b" using d by (auto simp: disk_consistent_def)
    have ord: "sched_ordered bis (scheduled j)" using k by (simp add: juggler_knows_def)
    have "?n x \<noteq> ?n b" if "x \<in> set (scheduled j)" for x
      using that k d False out(1) unfolding disk_consistent_def juggler_knows_def inj_on_def by auto
    then have hd: "dropWhile ?p (scheduled j) = [] \<or> ?n b < ?n (hd (dropWhile ?p (scheduled j)))"
      using hd_dropWhile [of ?p "scheduled j"] hd_in_set [of "dropWhile ?p (scheduled j)"]
        set_dropWhileD [of _ ?p "scheduled j"] by (metis linorder_neqE)
    let ?s = "takeWhile ?p (scheduled j) @ b # dropWhile ?p (scheduled j)"
    have all: "\<forall>x\<in>set B. ?n b < ?n x" if "sched_ordered bis (A @ B)" "B = [] \<or> ?n b < ?n (hd B)" for A B
      using that by (cases B) (auto simp: sched_ordered_def sorted_wrt_append)
    have "sched_ordered bis ?s"
      by (rule sched_ordered_insert [OF _ _ all [of "takeWhile ?p (scheduled j)", OF _ hd]]) (use ord in \<open>auto dest: set_takeWhileD\<close>)
    moreover have "set ?s = insert b (set (scheduled j))" "length ?s = Suc (length (scheduled j))"
    proof -
      have "set (A @ b # B) = insert b (set (A @ B))" "length (A @ b # B) = Suc (length (A @ B))" for A B by auto
      then show "set ?s = insert b (set (scheduled j))" "length ?s = Suc (length (scheduled j))"
        by (simp_all only: takeWhile_dropWhile_id)
    qed
    ultimately obtain S where S: "S = ?s" "sched_ordered bis S" "set S = insert b (set (scheduled j))"
      "length S = Suc (length (scheduled j))" by blast
    define j' where "j' = juggler_notify_seqno (j\<lparr>scheduled := S, no_scheduled := no_scheduled j + 1\<rparr>) (bi_seqno (bis b))"
    have "juggler_add_macroblock bis j b = Inr j'"
      using lt False nx hd S(1) by (simp add: juggler_add_macroblock_def Let_def j'_def asserting_def)
    moreover have f: "scheduled j' = S" "unscheduled j' = unscheduled j" "no_scheduled j' = no_scheduled j + 1"
      "no_unscheduled j' = no_unscheduled j" "j_seqno j' = max (bi_seqno (bis b)) (j_seqno j)" "j_r j' = j_r j"
      by (auto simp: j'_def juggler_notify_seqno_def max_def)
    moreover have "set S = {x \<in> set (seen @ [b]). ?n x \<noteq> 0}"
      using S(3) k False by (auto simp: juggler_knows_def)
    then have "juggler_knows bis (seen @ [b]) j'"
      unfolding juggler_knows_def f max using k S(2,4) False by (simp add: juggler_knows_def)
    ultimately show ?thesis by blast
  qed
qed

lemma juggler_rebuild_knows:
  assumes "disk_consistent bis (seen @ bs)" "juggler_knows bis seen j"
  shows "\<exists>j'. juggler_rebuild bis bs j = Inr j' \<and> juggler_knows bis (seen @ bs) j' \<and> j_r j' = j_r j"
  using assms
proof (induction bs arbitrary: seen j)
  case (Cons b bs)
  have "disk_consistent bis (seen @ [b])" using Cons.prems(1) by (auto simp: disk_consistent_def inj_on_def)
  then obtain j1 where j1: "juggler_add_macroblock bis j b = Inr j1" "juggler_knows bis (seen @ [b]) j1" "j_r j1 = j_r j"
    using juggler_knows_add [OF Cons.prems(2)] by blast
  with Cons.IH [of "seen @ [b]" j1] Cons.prems(1) show ?case by (simp add: juggler_rebuild_def)
qed (simp add: juggler_rebuild_def)

lemma juggler_knows_init: "juggler_knows bis [] (juggler_init r)"
  by (simp add: juggler_knows_def juggler_init_def sched_ordered_def)

lemma juggler_inv_disk:
  assumes "juggler_inv bis j" "mset bs = mset (scheduled j @ unscheduled j)"
  shows "disk_consistent bis bs" "{b \<in> set bs. bi_next_seqno (bis b) \<noteq> 0} = set (scheduled j)"
    "mset (filter (\<lambda>b. bi_next_seqno (bis b) = 0) bs) = mset (unscheduled j)"
proof -
  let ?n = "\<lambda>b. bi_next_seqno (bis b)"
  have pos: "?n b \<noteq> 0" "bi_seqno (bis b) < ?n b" if "b \<in> set (scheduled j)" for b
    using that assms(1) by (auto simp: juggler_inv_def)
  have zero: "?n b = 0" "bi_seqno (bis b) = 0" if "b \<in> set (unscheduled j)" for b
    using that assms(1) by (auto simp: juggler_inv_def)
  have set: "set bs = set (scheduled j) \<union> set (unscheduled j)" using mset_eq_setD [OF assms(2)] by simp
  then show used: "{b \<in> set bs. ?n b \<noteq> 0} = set (scheduled j)" using pos zero by auto
  have "mset (filter (\<lambda>b. ?n b = 0) bs) = mset (filter (\<lambda>b. ?n b = 0) (scheduled j @ unscheduled j))"
    using assms(2) by (metis mset_filter)
  also have "filter (\<lambda>b. ?n b = 0) (scheduled j @ unscheduled j) = unscheduled j"
    using pos zero by (simp add: filter_id_conv filter_empty_conv)
  finally show "mset (filter (\<lambda>b. ?n b = 0) bs) = mset (unscheduled j)" .
  have "sorted_wrt (<) (map ?n (scheduled j))" using assms(1) by (simp add: juggler_inv_def sched_ordered_def sorted_wrt_map)
  then have "inj_on ?n (set (scheduled j))" using strict_sorted_iff distinct_map by blast
  moreover have "distinct bs" using assms by (metis juggler_inv_def mset_eq_imp_distinct_iff)
  ultimately show "disk_consistent bis bs" unfolding disk_consistent_def used using set pos zero by blast
qed

text \<open>A juggler that was told about the blocks of another one has the same schedule.\<close>

lemma juggler_knows_same:
  assumes inv: "juggler_inv bis j" and bs: "mset bs = mset (scheduled j @ unscheduled j)"
    and cur: "\<exists>b\<in>set (scheduled j). bi_seqno (bis b) = j_seqno j" and k: "juggler_knows bis bs j'"
  shows "scheduled j' = scheduled j" "mset (unscheduled j') = mset (unscheduled j)" "no_scheduled j' = no_scheduled j"
    "no_unscheduled j' = no_unscheduled j" "j_seqno j' = j_seqno j"
proof -
  note disk = juggler_inv_disk [OF inv bs]
  show sched: "scheduled j' = scheduled j"
    using sched_ordered_unique [of bis "scheduled j'" "scheduled j"] k inv disk(2)
    by (simp add: juggler_knows_def juggler_inv_def)
  show un: "mset (unscheduled j') = mset (unscheduled j)" using k disk(3) by (simp add: juggler_knows_def)
  have "length (unscheduled j') = length (unscheduled j)" using un by (rule mset_eq_length)
  then show "no_scheduled j' = no_scheduled j" "no_unscheduled j' = no_unscheduled j"
    using k inv sched by (simp_all add: juggler_knows_def juggler_inv_def)
  have "Max (insert 0 ((\<lambda>b. bi_seqno (bis b)) ` set bs)) = j_seqno j"
  proof (rule Max_eqI)
    show "y \<le> j_seqno j" if "y \<in> insert 0 ((\<lambda>b. bi_seqno (bis b)) ` set bs)" for y
      using that mset_eq_setD [OF bs] inv by (auto simp: juggler_inv_def)
  qed (use cur mset_eq_setD [OF bs] in \<open>force+\<close>)
  then show "j_seqno j' = j_seqno j" using k by (simp add: juggler_knows_def)
qed

lemma juggler_rebuild_same:
  assumes inv: "juggler_inv bis j" and bs: "mset bs = mset (scheduled j @ unscheduled j)"
    and cur: "\<exists>b\<in>set (scheduled j). bi_seqno (bis b) = j_seqno j"
  shows "\<exists>j'. juggler_rebuild bis bs (juggler_init r) = Inr j' \<and> scheduled j' = scheduled j \<and>
    mset (unscheduled j') = mset (unscheduled j) \<and> no_scheduled j' = no_scheduled j \<and>
    no_unscheduled j' = no_unscheduled j \<and> j_seqno j' = j_seqno j \<and> j_r j' = r"
proof -
  obtain j' where j': "juggler_rebuild bis bs (juggler_init r) = Inr j'" "juggler_knows bis bs j'" "j_r j' = r"
    using juggler_rebuild_knows [of bis "[]" bs "juggler_init r"] juggler_inv_disk(1) [OF inv bs] juggler_knows_init
    by (auto simp: juggler_init_def)
  with juggler_knows_same [OF inv bs cur j'(2)] show ?thesis by blast
qed

section \<open>Properties\<close>

definition demo_info :: "u64 \<Rightarrow> u64 \<Rightarrow> blockio_info" where
  "demo_info s n = \<lparr>bi_seqno = s, bi_next_seqno = n, data_hash = [], no_indices = 0, no_nonobsolete = 0,
     indices = [], bi_dev = Some 0\<rparr>"

definition demo_infos :: infos where
  "demo_infos = (\<lambda>_. demo_info 0 0)(1 := demo_info 3 6, 2 := demo_info 4 5)"

definition demo_juggler :: juggler where
  "demo_juggler = \<lparr>scheduled = [2, 1], unscheduled = [3, 0], no_scheduled = 2, no_unscheduled = 2, j_seqno = 4,
     j_r = [7, 0, 1, 0, 0, 0]\<rparr>"

lemmas demo_defs = demo_infos_def demo_juggler_def demo_info_def

lemma demo_inv: "juggler_inv demo_infos demo_juggler" "juggler_ready demo_infos demo_juggler"
  by (simp_all add: juggler_inv_def juggler_ready_def sched_ordered_def demo_defs)

text \<open>
  C36: a step of the juggler keeps its invariant: every block stays in exactly one list, the
  counters are exact, the schedule is strictly ordered and lies in the future; the step hands out
  a block of the device, gives it the next sequence number and a later one for its return that no
  other block has, and changes no other descriptor. Afterwards the juggler is ready for the next
  step, whatever was drawn.
\<close>

theorem juggler_step_keeps_invariant:
  assumes "juggler_inv bis j" and "juggler_get_devblock bis j False = Inr (bis', j', ob)"
  shows "juggler_inv bis' j' \<and> juggler_ready bis' j' \<and> (\<exists>b ns. ob = Some b \<and> b \<in> set (scheduled j @ unscheduled j) \<and>
    bis' = bis(b := set_seqnos (j_seqno j + 1) ns (bis b)) \<and> j_seqno j' = j_seqno j + 1 \<and> j_seqno j' < ns \<and>
    b \<in> set (scheduled j') \<and> set (scheduled j' @ unscheduled j') = set (scheduled j @ unscheduled j) \<and>
    (\<forall>n. juggler_get_obsoleted bis j = Some n \<longrightarrow> b = n))"
proof -
  obtain b j1 ns ys zs where s: "ob = Some b" "juggler_select bis j = Inr (j1, b)" "juggler_holds bis j b j1"
    "bis' = bis(b := set_seqnos (j_seqno j + 1) ns (bis b))" "j_seqno j' = j_seqno j + 1" "j_seqno j + 1 < ns"
    "unscheduled j' = unscheduled j1" "scheduled j1 = ys @ zs" "scheduled j' = ys @ b # zs"
    "unscheduled j1 = [] \<longrightarrow> juggler_get_obsoleted bis' j' \<noteq> None" "juggler_inv bis' j'"
    using juggler_get_devblock_spec [OF assms] by blast
  moreover have "set (scheduled j' @ unscheduled j') = set (b # scheduled j1 @ unscheduled j1)" using s(7-9) by auto
  moreover have "b = n" if "juggler_get_obsoleted bis j = Some n" for n using that s(2) by (simp add: juggler_select_def)
  ultimately show ?thesis by (auto simp: juggler_ready_def juggler_holds_def)
qed

theorem juggler_step_keeps_invariant_witness:
  "\<exists>bis' j' ns. juggler_get_devblock demo_infos demo_juggler False = Inr (bis', j', Some 2) \<and> juggler_inv bis' j' \<and>
     bis' 2 = set_seqnos 5 ns (demo_infos 2) \<and> 5 < ns"
proof -
  obtain bis' j' ob where r: "juggler_get_devblock demo_infos demo_juggler False = Inr (bis', j', ob)"
    using juggler_get_devblock_total [OF demo_inv] by (force simp: demo_juggler_def)
  moreover have "juggler_get_obsoleted demo_infos demo_juggler = Some 2"
    by (simp add: juggler_get_obsoleted_def demo_defs)
  ultimately show ?thesis
    using juggler_step_keeps_invariant [OF demo_inv(1) r] by (auto simp: demo_juggler_def)
qed

text \<open>
  C37: the promise of the schedule: in any run of the juggler, a block that is scheduled for the
  sequence number \<open>n + 1\<close> ahead of the current one is handed out at exactly that step and not before.
\<close>

theorem juggler_keeps_promise:
  assumes "juggler_inv bis j" "b \<in> set (scheduled j)"
    and "unat (bi_next_seqno (bis b)) = unat (j_seqno j) + Suc n"
    and "juggling.run (Suc n + k) (bis, j) = Inr (s', out)"
  shows "out ! n = b \<and> b \<notin> set (take n out) \<and> juggler_inv (fst s') (snd s')"
  using juggling.run_promise [of "(bis, j)" b n k s' out] juggling.run_inv [of "(bis, j)" "Suc n + k" s' out] assms
  by (simp add: juggler_waits_def)

theorem juggler_keeps_promise_witness:
  "\<exists>s' out. juggling.run 2 (demo_infos, demo_juggler) = Inr (s', out) \<and> out ! 1 = 1 \<and> 1 \<notin> set (take 1 out)"
proof -
  have "\<exists>s' out. juggling.run (Suc 1 + 0) (demo_infos, demo_juggler) = Inr (s', out)"
    using juggler_run_total [of "(demo_infos, demo_juggler)" "Suc 1 + 0"] demo_inv by (simp add: demo_juggler_def)
  then obtain s' out where r: "juggling.run (Suc 1 + 0) (demo_infos, demo_juggler) = Inr (s', out)" by blast
  have "out ! 1 = 1 \<and> 1 \<notin> set (take 1 out)"
    using juggler_keeps_promise [OF demo_inv(1) _ _ r, of 1] by (simp add: demo_defs)
  moreover have "Suc 1 + 0 = (2 :: nat)" by simp
  ultimately show ?thesis using r by metis
qed

text \<open>
  C38: the juggler is never stuck: from a ready state, a run of any number of steps can only fail
  because the random source is exhausted, never on an assertion; and \<open>n\<close> steps do return when the
  source still has \<open>2 n\<close> zeroes to deliver, since a zero ends each of the two loops of a step.
\<close>

theorem juggler_never_stuck:
  assumes "juggler_inv bis j" "juggler_ready bis j"
  shows "(juggling.run n (bis, j) = Inl e \<longrightarrow> e = Fatal ''reading from /dev/urandom'') \<and>
    (2 * n \<le> count_list (j_r j) 0 \<longrightarrow> (\<exists>res. juggling.run n (bis, j) = Inr res))"
  using juggler_run_total [of "(bis, j)" n e] assms by (simp add: out_of_random_def)

theorem juggler_never_stuck_witness:
  "\<exists>res. juggling.run 2 (demo_infos, demo_juggler) = Inr res"
  using juggler_never_stuck [OF demo_inv, of 2] by (simp add: demo_juggler_def)

text \<open>
  discarding a block is safe: it either is refused, leaving everything as it was, or removes a
  block (marked by equal sequence numbers) from a juggler that keeps its invariant and is ready
  afterwards; assertions do not fail.
\<close>

theorem juggler_discard_safe:
  assumes "juggler_inv bis j"
  shows "case juggler_get_devblock bis j True of
      Inl e \<Rightarrow> e = Fatal ''reading from /dev/urandom''
    | Inr (bis', j', None) \<Rightarrow> bis' = bis \<and> j' = j \<and> \<not> juggler_discard_possible bis j (juggler_get_obsoleted bis j)
    | Inr (bis', j', Some b) \<Rightarrow> juggler_inv bis' j' \<and> juggler_ready bis' j' \<and> bi_seqno (bis' b) = bi_next_seqno (bis' b) \<and>
        b \<notin> set (scheduled j' @ unscheduled j') \<and>
        insert b (set (scheduled j' @ unscheduled j')) = set (scheduled j @ unscheduled j)"
proof (cases "juggler_get_devblock bis j True")
  case (Inl e)
  with juggler_discard_error [OF assms] show ?thesis by (simp add: out_of_random_def)
next
  case (Inr res)
  then obtain bis' j' ob where r: "juggler_get_devblock bis j True = Inr (bis', j', ob)" by (cases res) auto
  show ?thesis
  proof (cases ob)
    case None
    with r show ?thesis by (auto simp: juggler_get_devblock_def Let_def res_simps split: if_splits)
  next
    case (Some b)
    with r juggler_discard_Some [OF assms, of bis' j' b] show ?thesis by auto
  qed
qed

theorem juggler_discard_safe_witness:
  "case juggler_get_devblock demo_infos demo_juggler True of
     Inr (bis', j', Some b) \<Rightarrow> b = 2 \<and> juggler_inv bis' j' \<and> juggler_ready bis' j' | _ \<Rightarrow> False"
  using juggler_discard_safe [OF demo_inv(1)]
  by (simp add: juggler_get_devblock_def juggler_select_def juggler_get_obsoleted_def juggler_discard_possible_def
      juggler_next_def set_seqnos_def demo_defs Let_def)

text \<open>
  the juggler keeps nothing that is not on disk: after any step, adding the device's blocks in
  any order to a fresh juggler succeeds and gives back the schedule, the counters and the current
  sequence number, and the same unscheduled blocks.
\<close>

theorem juggler_restart:
  assumes "juggler_inv bis j" and "juggler_get_devblock bis j False = Inr (bis', j', ob)"
    and "mset bs = mset (scheduled j' @ unscheduled j')"
  shows "\<exists>j2. juggler_rebuild bis' bs (juggler_init r) = Inr j2 \<and> scheduled j2 = scheduled j' \<and>
    mset (unscheduled j2) = mset (unscheduled j') \<and> no_scheduled j2 = no_scheduled j' \<and>
    no_unscheduled j2 = no_unscheduled j' \<and> j_seqno j2 = j_seqno j' \<and> j_r j2 = r"
proof -
  have inv: "juggler_inv bis' j'" and "\<exists>b\<in>set (scheduled j'). bi_seqno (bis' b) = j_seqno j'"
    using juggler_get_devblock_spec [OF assms(1,2)] by auto
  with juggler_rebuild_same [OF inv assms(3)] show ?thesis by blast
qed

theorem juggler_restart_witness:
  "\<exists>bis' j' ob j2. juggler_get_devblock demo_infos demo_juggler False = Inr (bis', j', ob) \<and>
     juggler_rebuild bis' (rev (scheduled j' @ unscheduled j')) (juggler_init []) = Inr j2 \<and> scheduled j2 = scheduled j'"
proof -
  obtain bis' j' ob where r: "juggler_get_devblock demo_infos demo_juggler False = Inr (bis', j', ob)"
    using juggler_get_devblock_total [OF demo_inv] by (force simp: demo_juggler_def)
  with juggler_restart [OF demo_inv(1) r, of "rev (scheduled j' @ unscheduled j')" "[]"] show ?thesis by auto
qed

lemma empty_list_append:
  "empty_list xs (Some (\<lambda>b (h, a). dllarr_append h a b)) s = rfold block_list.append_elt xs s"
  unfolding empty_list_def block_list.append_elt_def option.simps dllarr_append_def
  by (rule arg_cong [where f = "\<lambda>f. rfold f xs s"]) (auto simp: fun_eq_iff)

text \<open>Emptying the juggler into a pointer-level list appends all its blocks, the scheduled ones
  first, and does not fail when the blocks are loose.
\<close>

theorem juggler_empties_into_list:
  assumes "dllarr_rep h a xs" "distinct (scheduled j @ unscheduled j)"
    and "\<forall>b\<in>set (scheduled j @ unscheduled j). detached h b \<and> b \<notin> set xs"
  shows "\<exists>h' a'. juggler_free_and_empty_into j (Some (\<lambda>b (h, a). dllarr_append h a b)) (h, a) = Inr (h', a') \<and>
    dllarr_rep h' a' (xs @ scheduled j @ unscheduled j)"
proof -
  have "juggler_free_and_empty_into j (Some (\<lambda>b (h, a). dllarr_append h a b)) (h, a) =
    rfold block_list.append_elt (scheduled j @ unscheduled j) (h, a)"
    unfolding juggler_free_and_empty_into_def rfold_append empty_list_append ..
  with block_list.append_all [of "(h, a)" xs "scheduled j @ unscheduled j"] assms show ?thesis by auto
qed

theorem juggler_empties_into_list_witness:
  "\<exists>h' a'. juggler_free_and_empty_into demo_juggler (Some (\<lambda>b (h, a). dllarr_append h a b)) (demo_heap, demo_list) =
     Inr (h', a') \<and> dllarr_rep h' a' [5, 7, 2, 1, 3, 0]"
  using juggler_empties_into_list [OF demo_rep(1), of demo_juggler]
  by (simp add: demo_juggler_def detached_def demo_heap_def)

end
