(* ===== verification/Cipher.thy ===== *)
theory Cipher
  imports Binio
begin

text \<open>
  Model of src/src/cipher.c, cipher_cbc.c and cipher_null.c: the wide block encryption of
  mesoblocks. libgcrypt is a parameter: a record of the functions the code calls, with their
  documented behaviour as the predicate \<open>gcrypt_ok\<close>. Encryption and decryption work on a memory with
  an output and an input position, because the modes are used in place and their loops write the
  output while they still read the input. The theorems show that in place encryption is cipher
  block chaining, touches only its mesoblock, is undone by decryption, and that names of the form
  MODE(PRIMITIVE) are parsed as meant.
\<close>

section \<open>libgcrypt\<close>

text \<open>
  \<open>g_map_name\<close> is \<^verbatim>\<open>gcry_cipher_map_name\<close> (0 for an unknown name), \<open>g_blklen\<close> and \<open>g_keylen\<close> are the two
  queries of \<^verbatim>\<open>gcry_cipher_algo_info\<close>, \<open>g_enc\<close> and \<open>g_dec\<close> encrypt and decrypt one block in ECB mode
  under a key, \<open>g_sha256\<close> is the hash.
\<close>

record gcrypt =
  g_map_name :: "string \<Rightarrow> nat"
  g_blklen :: "nat \<Rightarrow> nat"
  g_keylen :: "nat \<Rightarrow> nat"
  g_enc :: "nat \<Rightarrow> bytes \<Rightarrow> bytes \<Rightarrow> bytes"
  g_dec :: "nat \<Rightarrow> bytes \<Rightarrow> bytes \<Rightarrow> bytes"
  g_sha256 :: "bytes \<Rightarrow> bytes"

definition gcrypt_ok :: "gcrypt \<Rightarrow> bool" where
  "gcrypt_ok g \<longleftrightarrow>
     (\<forall>algo key x. length x = 16 \<longrightarrow>
        length (g_enc g algo key x) = 16 \<and> length (g_dec g algo key x) = 16 \<and> g_dec g algo key (g_enc g algo key x) = x) \<and>
     (\<forall>x. length (g_sha256 g x) = 32)"

text \<open>An opened cipher: algorithm and key.\<close>

type_synonym gcry_hd = "nat \<times> bytes"

section \<open>State\<close>

datatype cipher_spec = Cipher_null | Cipher_cbc_plain | Cipher_cbc_essiv

record cbc_plain =
  plain_hd :: gcry_hd
  no_blocks :: nat

datatype cipher_ctx = Null_ctx nat | Plain_ctx cbc_plain | Essiv_ctx cbc_plain gcry_hd

record cipher =
  c_spec :: cipher_spec
  c_ctx :: cipher_ctx

definition cipher_specs :: "cipher_spec list" where
  "cipher_specs = [Cipher_null, Cipher_cbc_plain, Cipher_cbc_essiv]"

fun spec_name :: "cipher_spec \<Rightarrow> string" where
  "spec_name Cipher_null = ''NULL''"
| "spec_name Cipher_cbc_plain = ''CBC_PLAIN''"
| "spec_name Cipher_cbc_essiv = ''CBC_ESSIV''"

section \<open>Operations of cipher\_cbc.c\<close>

text \<open>The C code exclusive-ors a block of 16 bytes as two 64 bit words.\<close>

definition xor_block :: "bytes \<Rightarrow> bytes \<Rightarrow> bytes" where
  "xor_block in1 in2 = map2 (\<lambda>x y. x XOR y) in1 in2"

definition cipher_open_set_and_destroy_key :: "gcrypt \<Rightarrow> string \<Rightarrow> bytes \<Rightarrow> gcry_hd res" where
  "cipher_open_set_and_destroy_key g name key =
     (let algo = g_map_name g name in
      throw_if (algo = 0) ''blockcipher not supported'' (
      throw_if (g_blklen g algo \<noteq> 16) ''cipher has wrong block size'' (
      throw_if (length key \<noteq> g_keylen g algo) ''supplied key has wrong length'' (
        Inr (algo, key)))))"

definition init_plain :: "gcrypt \<Rightarrow> string \<Rightarrow> nat \<Rightarrow> bytes \<Rightarrow> cbc_plain res" where
  "init_plain g name n key =
     asserting (n > 0) ''init_plain: no_blocks > 0'' (
     rbind (cipher_open_set_and_destroy_key g name key) (\<lambda>hnd. Inr \<lparr>plain_hd = hnd, no_blocks = n\<rparr>))"

definition init_essiv :: "gcrypt \<Rightarrow> string \<Rightarrow> nat \<Rightarrow> bytes \<Rightarrow> (cbc_plain \<times> gcry_hd) res" where
  "init_essiv g name n key =
     rbind (cipher_open_set_and_destroy_key g name (g_sha256 g key)) (\<lambda>hnd.
     rbind (init_plain g name n key) (\<lambda>plain. Inr (plain, hnd)))"

definition gcry_encrypt :: "gcrypt \<Rightarrow> gcry_hd \<Rightarrow> bytes \<Rightarrow> bytes" where
  "gcry_encrypt g hnd x = g_enc g (fst hnd) (snd hnd) x"

definition gcry_decrypt :: "gcrypt \<Rightarrow> gcry_hd \<Rightarrow> bytes \<Rightarrow> bytes" where
  "gcry_decrypt g hnd x = g_dec g (fst hnd) (snd hnd) x"

text \<open>
  The loop of \<^verbatim>\<open>enc_plain\<close> with \<open>i\<close> blocks to go: the block at \<open>out\<close>, already combined with the block
  before it, is encrypted in place; then the next input block is combined with the result.
\<close>

fun enc_plain_loop :: "gcrypt \<Rightarrow> gcry_hd \<Rightarrow> nat \<Rightarrow> bytes \<Rightarrow> nat \<Rightarrow> nat \<Rightarrow> bytes" where
  "enc_plain_loop g hnd 0 mem out inp = mem"
| "enc_plain_loop g hnd (Suc i) mem out inp =
     (let mem = blit out (gcry_encrypt g hnd (bslice out 16 mem)) mem in
      if i = 0 then mem
      else let out' = out + 16; inp' = inp + 16;
               mem = blit out' (xor_block (bslice inp' 16 mem) (bslice (out' - 16) 16 mem)) mem
           in enc_plain_loop g hnd i mem out' inp')"

definition enc_plain :: "gcrypt \<Rightarrow> cbc_plain \<Rightarrow> bytes \<Rightarrow> nat \<Rightarrow> nat \<Rightarrow> bytes \<Rightarrow> bytes" where
  "enc_plain g ctx mem out inp iv =
     enc_plain_loop g (plain_hd ctx) (no_blocks ctx) (blit out (xor_block (bslice inp 16 mem) iv) mem) out inp"

definition enc_essiv :: "gcrypt \<Rightarrow> cbc_plain \<Rightarrow> gcry_hd \<Rightarrow> bytes \<Rightarrow> nat \<Rightarrow> nat \<Rightarrow> bytes \<Rightarrow> bytes" where
  "enc_essiv g plain hnd mem out inp iv = enc_plain g plain mem out inp (gcry_encrypt g hnd iv)"

text \<open>
  The loop of \<^verbatim>\<open>dec_plain\<close>: \<open>gcry_in\<close> is \<^verbatim>\<open>NULL\<close> (\<open>None\<close>) for decryption in place, and otherwise the
  position of the input, which the C loop does not advance.
\<close>

fun dec_plain_loop :: "gcrypt \<Rightarrow> gcry_hd \<Rightarrow> nat \<Rightarrow> nat option \<Rightarrow> bytes \<Rightarrow> nat \<Rightarrow> nat \<Rightarrow> bytes \<Rightarrow> bytes" where
  "dec_plain_loop g hnd 0 gcry_in mem out inp tmp = mem"
| "dec_plain_loop g hnd (Suc i) gcry_in mem out inp tmp =
     (let tmp2 = bslice inp 16 mem;
          src = (case gcry_in of None \<Rightarrow> out | Some p \<Rightarrow> p);
          mem = blit out (gcry_decrypt g hnd (bslice src 16 mem)) mem;
          mem = blit out (xor_block (bslice out 16 mem) tmp) mem
      in dec_plain_loop g hnd i gcry_in mem (out + 16) (inp + 16) tmp2)"

definition dec_plain :: "gcrypt \<Rightarrow> cbc_plain \<Rightarrow> bytes \<Rightarrow> nat \<Rightarrow> nat \<Rightarrow> bytes \<Rightarrow> bytes" where
  "dec_plain g ctx mem out inp iv =
     dec_plain_loop g (plain_hd ctx) (no_blocks ctx) (if out = inp then None else Some inp) mem out inp iv"

definition dec_essiv :: "gcrypt \<Rightarrow> cbc_plain \<Rightarrow> gcry_hd \<Rightarrow> bytes \<Rightarrow> nat \<Rightarrow> nat \<Rightarrow> bytes \<Rightarrow> bytes" where
  "dec_essiv g plain hnd mem out inp iv = dec_plain g plain mem out inp (gcry_encrypt g hnd iv)"

section \<open>Operations of cipher\_null.c\<close>

definition null_init :: "nat \<Rightarrow> nat res" where
  "null_init n = asserting (n > 0) ''null_init: no_blocks > 0'' (Inr n)"

definition null_cipher :: "nat \<Rightarrow> bytes \<Rightarrow> nat \<Rightarrow> nat \<Rightarrow> bytes" where
  "null_cipher n mem out inp = (if inp \<noteq> out then blit out (bslice inp (n * 16) mem) mem else mem)"

section \<open>Operations of cipher.c\<close>

text \<open>\<^verbatim>\<open>strchr\<close>: the string before and after the first occurrence of a character.\<close>

definition strchr :: "string \<Rightarrow> char \<Rightarrow> (string \<times> string) option" where
  "strchr s c = (case dropWhile (\<lambda>x. x \<noteq> c) s of [] \<Rightarrow> None | _ # rest \<Rightarrow> Some (takeWhile (\<lambda>x. x \<noteq> c) s, rest))"

definition parse_cipher_name :: "string \<Rightarrow> (string \<times> string) res" where
  "parse_cipher_name name =
     (case strchr name CHR '')'' of
        None \<Rightarrow> Inl (Ecch ''no closing paren found in cipher name'')
      | Some (mode, rest) \<Rightarrow>
          throw_if (rest \<noteq> []) ''data after closing paren in cipher name'' (
          case strchr mode CHR ''('' of
            None \<Rightarrow> Inl (Ecch ''no closing paren found in cipher name'')
          | Some (mode, prim) \<Rightarrow> Inr (mode, prim)))"

definition spec_init :: "gcrypt \<Rightarrow> cipher_spec \<Rightarrow> string \<Rightarrow> nat \<Rightarrow> bytes \<Rightarrow> cipher_ctx res" where
  "spec_init g spec prim sz key =
     (case spec of
        Cipher_null \<Rightarrow> map_sum id Null_ctx (null_init sz)
      | Cipher_cbc_plain \<Rightarrow> map_sum id Plain_ctx (init_plain g prim sz key)
      | Cipher_cbc_essiv \<Rightarrow> map_sum id (\<lambda>(p, hnd). Essiv_ctx p hnd) (init_essiv g prim sz key))"

text \<open>The result carries the caller's key buffer, which is wiped.\<close>

definition cipher_init :: "gcrypt \<Rightarrow> string \<Rightarrow> nat \<Rightarrow> bytes \<Rightarrow> (cipher \<times> bytes) res" where
  "cipher_init g name sz key =
     asserting (sz > 0) ''cipher_init: w && name && size > 0'' (
     rbind (parse_cipher_name name) (\<lambda>(mode, prim).
     case find (\<lambda>s. spec_name s = mode) cipher_specs of
       None \<Rightarrow> Inl (Ecch ''ciphermode not supported'')
     | Some spec \<Rightarrow>
         rbind (spec_init g spec prim sz key) (\<lambda>ctx.
         Inr (\<lparr>c_spec = spec, c_ctx = ctx\<rparr>, replicate (length key) 0))))"

definition set_iv :: "u64 \<Rightarrow> u32 \<Rightarrow> u32 \<Rightarrow> bytes" where
  "set_iv iv0 iv1 iv2 =
     binio_write_uint32_be (binio_write_uint32_be (binio_write_uint64_be (replicate 16 0) 0 iv0) 8 iv1) 12 iv2"

definition cipher_enc :: "gcrypt \<Rightarrow> cipher \<Rightarrow> bytes \<Rightarrow> nat \<Rightarrow> nat \<Rightarrow> u64 \<Rightarrow> u32 \<Rightarrow> u32 \<Rightarrow> bytes" where
  "cipher_enc g w mem out inp iv0 iv1 iv2 =
     (case c_ctx w of
        Null_ctx n \<Rightarrow> null_cipher n mem out inp
      | Plain_ctx p \<Rightarrow> enc_plain g p mem out inp (set_iv iv0 iv1 iv2)
      | Essiv_ctx p hnd \<Rightarrow> enc_essiv g p hnd mem out inp (set_iv iv0 iv1 iv2))"

definition cipher_dec :: "gcrypt \<Rightarrow> cipher \<Rightarrow> bytes \<Rightarrow> nat \<Rightarrow> nat \<Rightarrow> u64 \<Rightarrow> u32 \<Rightarrow> u32 \<Rightarrow> bytes" where
  "cipher_dec g w mem out inp iv0 iv1 iv2 =
     (case c_ctx w of
        Null_ctx n \<Rightarrow> null_cipher n mem out inp
      | Plain_ctx p \<Rightarrow> dec_plain g p mem out inp (set_iv iv0 iv1 iv2)
      | Essiv_ctx p hnd \<Rightarrow> dec_essiv g p hnd mem out inp (set_iv iv0 iv1 iv2))"

section \<open>Cipher block chaining\<close>

lemma length_xor_block [simp]: "length (xor_block x y) = min (length x) (length y)"
  by (simp add: xor_block_def)

lemma xor_block_cancel: "length x = length y \<Longrightarrow> xor_block (xor_block x y) y = x"
  by (induction x y rule: list_induct2) (auto simp: xor_block_def xor.assoc)

fun cbc_enc :: "(bytes \<Rightarrow> bytes) \<Rightarrow> bytes \<Rightarrow> nat \<Rightarrow> bytes \<Rightarrow> bytes" where
  "cbc_enc e iv 0 x = []"
| "cbc_enc e iv (Suc n) x = (let c = e (xor_block (take 16 x) iv) in c @ cbc_enc e c n (drop 16 x))"

fun cbc_dec :: "(bytes \<Rightarrow> bytes) \<Rightarrow> bytes \<Rightarrow> nat \<Rightarrow> bytes \<Rightarrow> bytes" where
  "cbc_dec d iv 0 x = []"
| "cbc_dec d iv (Suc n) x = xor_block (d (take 16 x)) iv @ cbc_dec d (take 16 x) n (drop 16 x)"

definition block_fun :: "(bytes \<Rightarrow> bytes) \<Rightarrow> bool" where
  "block_fun e \<longleftrightarrow> (\<forall>x. length x = 16 \<longrightarrow> length (e x) = 16)"

lemma length_cbc_enc:
  "block_fun e \<Longrightarrow> length iv = 16 \<Longrightarrow> length x = 16 * n \<Longrightarrow> length (cbc_enc e iv n x) = 16 * n"
  by (induction n arbitrary: iv x) (auto simp: Let_def block_fun_def)

lemma length_cbc_dec:
  "block_fun d \<Longrightarrow> length iv = 16 \<Longrightarrow> length x = 16 * n \<Longrightarrow> length (cbc_dec d iv n x) = 16 * n"
  by (induction n arbitrary: iv x) (auto simp: Let_def block_fun_def)

lemma cbc_dec_enc:
  assumes "block_fun e" "\<And>x. length x = 16 \<Longrightarrow> d (e x) = x"
  shows "length iv = 16 \<Longrightarrow> length x = 16 * n \<Longrightarrow> cbc_dec d iv n (cbc_enc e iv n x) = x"
proof (induction n arbitrary: iv x)
  case (Suc n)
  let ?b = "xor_block (take 16 x) iv"
  have b: "length ?b = 16" "length (e ?b) = 16" using Suc.prems assms(1) by (simp_all add: block_fun_def)
  have "xor_block ?b iv = take 16 x" using Suc.prems by (intro xor_block_cancel) simp
  with Suc.IH [of "e ?b" "drop 16 x"] Suc.prems b assms(2) [of ?b] show ?case by (simp add: Let_def)
qed simp

text \<open>The loops of the C code, run in place, compute exactly that on their part of the memory.\<close>

lemma take_bslice_block [simp]:
  "take 16 (bslice off (16 + k) mem) = bslice off 16 mem"
  "drop 16 (bslice off (16 + k) mem) = bslice (off + 16) k mem"
  by (simp_all add: bslice_def drop_take min_def add.commute)

lemma bslice_after_blit:
  "length c = 16 \<Longrightarrow> off + 16 + n \<le> length mem \<Longrightarrow> bslice (off + 16) n (blit off c mem) = bslice (off + 16) n mem"
  by (rule bslice_blit_disjoint) auto

lemma enc_plain_loop_in_place:
  assumes "block_fun (gcry_encrypt g hnd)"
  shows "length iv = 16 \<Longrightarrow> 0 < n \<Longrightarrow> off + 16 * n \<le> length mem \<Longrightarrow>
    enc_plain_loop g hnd n (blit off (xor_block (bslice off 16 mem) iv) mem) off off =
    blit off (cbc_enc (gcry_encrypt g hnd) iv n (bslice off (16 * n) mem)) mem"
proof (induction n arbitrary: iv off mem)
  case (Suc n)
  let ?e = "gcry_encrypt g hnd" and ?x = "xor_block (bslice off 16 mem) iv"
  have x: "length ?x = 16" and c: "length (?e ?x) = 16" using Suc.prems assms by (simp_all add: block_fun_def)
  let ?m = "blit off (?e ?x) mem"
  have m: "length ?m = length mem" using c Suc.prems by (intro length_blit) simp
  have first: "blit off (?e (bslice off 16 (blit off ?x mem))) (blit off ?x mem) = ?m"
    using x c Suc.prems by (simp add: bslice_blit_same blit_blit_same)
  have rd: "bslice off 16 ?m = ?e ?x" using c Suc.prems by (intro bslice_blit_same) simp_all
  show ?case
  proof (cases "n = 0")
    case True
    then show ?thesis using first Suc.prems take_bslice_block(1) [of off 0 mem] by (simp add: Let_def)
  next
    case False
    have ih: "enc_plain_loop g hnd n (blit (off + 16) (xor_block (bslice (off + 16) 16 ?m) (?e ?x)) ?m) (off + 16) (off + 16) =
        blit (off + 16) (cbc_enc ?e (?e ?x) n (bslice (off + 16) (16 * n) ?m)) ?m"
      using Suc.IH [of "?e ?x" "off + 16" ?m] False Suc.prems c m by simp
    have "bslice (off + 16) (16 * n) ?m = bslice (off + 16) (16 * n) mem"
      using c Suc.prems by (intro bslice_after_blit) simp_all
    moreover have "blit (off + 16) d ?m = blit off (?e ?x @ d) mem" if "length d = 16 * n" for d
      using blit_blit_adjacent [of off "?e ?x" d mem] c that Suc.prems by simp
    moreover have "length (cbc_enc ?e (?e ?x) n (bslice (off + 16) (16 * n) mem)) = 16 * n"
      using Suc.prems c by (intro length_cbc_enc [OF assms]) simp_all
    ultimately show ?thesis
      using ih first rd False Suc.prems by (simp add: Let_def)
  qed
qed simp

lemma dec_plain_loop_in_place:
  assumes "block_fun (gcry_decrypt g hnd)"
  shows "length iv = 16 \<Longrightarrow> off + 16 * n \<le> length mem \<Longrightarrow>
    dec_plain_loop g hnd n None mem off off iv =
    blit off (cbc_dec (gcry_decrypt g hnd) iv n (bslice off (16 * n) mem)) mem"
proof (induction n arbitrary: iv off mem)
  case 0
  then show ?case by (simp add: blit_def)
next
  case (Suc n)
  let ?d = "gcry_decrypt g hnd" and ?t = "bslice off 16 mem"
  let ?x = "xor_block (?d ?t) iv"
  have d: "length (?d ?t) = 16" "length ?x = 16" using Suc.prems assms by (simp_all add: block_fun_def)
  let ?m = "blit off ?x mem"
  have first: "blit off (xor_block (bslice off 16 (blit off (?d ?t) mem)) iv) (blit off (?d ?t) mem) = ?m"
    using d Suc.prems by (simp add: bslice_blit_same blit_blit_same)
  have m: "length ?m = length mem" using d Suc.prems by (intro length_blit) simp
  have "dec_plain_loop g hnd n None ?m (off + 16) (off + 16) ?t =
      blit (off + 16) (cbc_dec ?d ?t n (bslice (off + 16) (16 * n) ?m)) ?m"
    using Suc.IH [of ?t "off + 16" ?m] Suc.prems m by simp
  moreover have "bslice (off + 16) (16 * n) ?m = bslice (off + 16) (16 * n) mem"
    using d Suc.prems by (intro bslice_after_blit) simp_all
  moreover have "blit (off + 16) y ?m = blit off (?x @ y) mem" if "length y = 16 * n" for y
    using blit_blit_adjacent [of off ?x y mem] d that Suc.prems by simp
  moreover have "length (cbc_dec ?d ?t n (bslice (off + 16) (16 * n) mem)) = 16 * n"
    using Suc.prems by (intro length_cbc_dec [OF assms]) simp_all
  ultimately show ?case using first Suc.prems by (simp add: Let_def)
qed

section \<open>Wide blocks\<close>

fun ctx_blocks :: "cipher_ctx \<Rightarrow> nat" where
  "ctx_blocks (Null_ctx n) = n"
| "ctx_blocks (Plain_ctx p) = no_blocks p"
| "ctx_blocks (Essiv_ctx p hnd) = no_blocks p"

definition cipher_size :: "cipher \<Rightarrow> nat" where
  "cipher_size w = 16 * ctx_blocks (c_ctx w)"

text \<open>Encryption and decryption of one wide block that stands alone.\<close>

definition wide_enc :: "gcrypt \<Rightarrow> cipher \<Rightarrow> u64 \<Rightarrow> u32 \<Rightarrow> u32 \<Rightarrow> bytes \<Rightarrow> bytes" where
  "wide_enc g w iv0 iv1 iv2 x = cipher_enc g w x 0 0 iv0 iv1 iv2"

definition wide_dec :: "gcrypt \<Rightarrow> cipher \<Rightarrow> u64 \<Rightarrow> u32 \<Rightarrow> u32 \<Rightarrow> bytes \<Rightarrow> bytes" where
  "wide_dec g w iv0 iv1 iv2 x = cipher_dec g w x 0 0 iv0 iv1 iv2"

definition cipher_ok :: "gcrypt \<Rightarrow> cipher \<Rightarrow> bool" where
  "cipher_ok g w \<longleftrightarrow> gcrypt_ok g \<and> 0 < cipher_size w"

lemma gcrypt_block_fun:
  "gcrypt_ok g \<Longrightarrow> block_fun (gcry_encrypt g hnd)" "gcrypt_ok g \<Longrightarrow> block_fun (gcry_decrypt g hnd)"
  "gcrypt_ok g \<Longrightarrow> length x = 16 \<Longrightarrow> gcry_decrypt g hnd (gcry_encrypt g hnd x) = x"
  by (simp_all add: gcrypt_ok_def block_fun_def gcry_encrypt_def gcry_decrypt_def)

lemma set_iv_eq: "set_iv iv0 iv1 iv2 = be64 iv0 @ be32 iv1 @ be32 iv2"
  by (simp add: set_iv_def binio_write_uint64_be_blit binio_write_uint32_be_blit blit_def be64_def be32_def)

lemma length_set_iv [simp]: "length (set_iv iv0 iv1 iv2) = 16"
  by (simp add: set_iv_eq be64_def be32_def)

lemma length_gcry_iv: "gcrypt_ok g \<Longrightarrow> length (gcry_encrypt g hnd (set_iv iv0 iv1 iv2)) = 16"
  using gcrypt_block_fun(1) by (simp add: block_fun_def)

lemma enc_plain_in_place:
  "gcrypt_ok g \<Longrightarrow> length iv = 16 \<Longrightarrow> 0 < no_blocks p \<Longrightarrow> off + 16 * no_blocks p \<le> length mem \<Longrightarrow>
   enc_plain g p mem off off iv =
   blit off (cbc_enc (gcry_encrypt g (plain_hd p)) iv (no_blocks p) (bslice off (16 * no_blocks p) mem)) mem"
  by (simp add: enc_plain_def enc_plain_loop_in_place gcrypt_block_fun)

lemma dec_plain_in_place:
  "gcrypt_ok g \<Longrightarrow> length iv = 16 \<Longrightarrow> off + 16 * no_blocks p \<le> length mem \<Longrightarrow>
   dec_plain g p mem off off iv =
   blit off (cbc_dec (gcry_decrypt g (plain_hd p)) iv (no_blocks p) (bslice off (16 * no_blocks p) mem)) mem"
  by (simp add: dec_plain_def dec_plain_loop_in_place gcrypt_block_fun)

lemma blit_full: "length d = length b \<Longrightarrow> blit 0 d b = d"
  by (simp add: blit_def)

text \<open>In place encryption of a part of a buffer acts on that part alone.\<close>

lemma cipher_enc_local:
  assumes "cipher_ok g w" "off + cipher_size w \<le> length mem"
  shows "cipher_enc g w mem off off iv0 iv1 iv2 = blit off (wide_enc g w iv0 iv1 iv2 (bslice off (cipher_size w) mem)) mem"
    "x = bslice off (cipher_size w) mem \<Longrightarrow> length (wide_enc g w iv0 iv1 iv2 x) = cipher_size w"
  using assms
  by (cases "c_ctx w"; simp add: cipher_ok_def cipher_size_def wide_enc_def cipher_enc_def null_cipher_def enc_essiv_def
      enc_plain_in_place length_gcry_iv blit_self blit_full length_cbc_enc gcrypt_block_fun)+

lemma cipher_dec_local:
  assumes "cipher_ok g w" "off + cipher_size w \<le> length mem"
  shows "cipher_dec g w mem off off iv0 iv1 iv2 = blit off (wide_dec g w iv0 iv1 iv2 (bslice off (cipher_size w) mem)) mem"
    "x = bslice off (cipher_size w) mem \<Longrightarrow> length (wide_dec g w iv0 iv1 iv2 x) = cipher_size w"
  using assms
  by (cases "c_ctx w"; simp add: cipher_ok_def cipher_size_def wide_dec_def cipher_dec_def null_cipher_def dec_essiv_def
      dec_plain_in_place length_gcry_iv blit_self blit_full length_cbc_dec gcrypt_block_fun)+

lemma length_wide:
  assumes "cipher_ok g w" "length x = cipher_size w"
  shows "length (wide_enc g w iv0 iv1 iv2 x) = cipher_size w" "length (wide_dec g w iv0 iv1 iv2 x) = cipher_size w"
  using cipher_enc_local(2) [OF assms(1), of 0 x x] cipher_dec_local(2) [OF assms(1), of 0 x x] assms(2) by simp_all

lemma wide_dec_enc:
  assumes "cipher_ok g w" "length x = cipher_size w"
  shows "wide_dec g w iv0 iv1 iv2 (wide_enc g w iv0 iv1 iv2 x) = x"
  using assms
  by (cases "c_ctx w"; simp add: cipher_ok_def cipher_size_def wide_dec_def wide_enc_def cipher_dec_def cipher_enc_def
      null_cipher_def dec_essiv_def enc_essiv_def enc_plain_in_place dec_plain_in_place length_gcry_iv blit_full
      length_cbc_enc length_cbc_dec gcrypt_block_fun cbc_dec_enc)

section \<open>Properties\<close>

definition demo_gcrypt :: gcrypt where
  "demo_gcrypt = \<lparr>g_map_name = (\<lambda>n. if n = ''AES256'' then 9 else 0), g_blklen = (\<lambda>_. 16), g_keylen = (\<lambda>_. 32),
     g_enc = (\<lambda>_ _ x. rev x), g_dec = (\<lambda>_ _ x. rev x), g_sha256 = (\<lambda>x. replicate 32 (sum_list x))\<rparr>"

definition demo_cipher :: cipher where
  "demo_cipher = \<lparr>c_spec = Cipher_cbc_essiv,
     c_ctx = Essiv_ctx \<lparr>plain_hd = (9, replicate 32 1), no_blocks = 2\<rparr> (9, replicate 32 32)\<rparr>"

lemma demo_cipher_ok: "gcrypt_ok demo_gcrypt" "cipher_ok demo_gcrypt demo_cipher" "cipher_size demo_cipher = 32"
  by (simp_all add: cipher_ok_def gcrypt_ok_def cipher_size_def demo_gcrypt_def demo_cipher_def)

text \<open>
  C39: encryption of a wide block in place, in any of the modes, changes nothing outside that block,
  and decryption in place with the same initialisation vector restores the memory.
\<close>

theorem cipher_roundtrip_in_place:
  assumes "cipher_ok g w" "off + cipher_size w \<le> length mem"
  shows "cipher_dec g w (cipher_enc g w mem off off iv0 iv1 iv2) off off iv0 iv1 iv2 = mem \<and>
    length (cipher_enc g w mem off off iv0 iv1 iv2) = length mem \<and>
    (\<forall>i<length mem. i < off \<or> off + cipher_size w \<le> i \<longrightarrow> cipher_enc g w mem off off iv0 iv1 iv2 ! i = mem ! i)"
proof -
  let ?x = "bslice off (cipher_size w) mem"
  let ?y = "wide_enc g w iv0 iv1 iv2 ?x"
  have len: "length ?x = cipher_size w" "length ?y = cipher_size w"
    using assms cipher_enc_local(2) [OF assms] by simp_all
  have enc: "cipher_enc g w mem off off iv0 iv1 iv2 = blit off ?y mem" by (rule cipher_enc_local [OF assms])
  have "cipher_dec g w (blit off ?y mem) off off iv0 iv1 iv2 =
      blit off (wide_dec g w iv0 iv1 iv2 (bslice off (cipher_size w) (blit off ?y mem))) (blit off ?y mem)"
    using assms len by (intro cipher_dec_local) (simp_all add: length_blit)
  also have "\<dots> = blit off ?x (blit off ?y mem)"
    using len assms by (simp add: bslice_blit_same wide_dec_enc)
  also have "\<dots> = mem" using len assms by (simp add: blit_blit_same blit_self)
  finally show ?thesis using enc len assms by (simp add: length_blit nth_blit)
qed

theorem cipher_roundtrip_in_place_witness:
  "cipher_dec demo_gcrypt demo_cipher (cipher_enc demo_gcrypt demo_cipher (replicate 40 7) 4 4 1 2 3) 4 4 1 2 3 =
   replicate 40 7"
  using cipher_roundtrip_in_place [OF demo_cipher_ok(2), of 4 "replicate 40 7" 1 2 3] by (simp add: demo_cipher_ok)

text \<open>
  the in place loops of CBC\_PLAIN are cipher block chaining: every block is combined with the
  ciphertext of the block before it (the first with the initialisation vector) and encrypted.
\<close>

theorem cbc_plain_is_cbc:
  assumes "gcrypt_ok g" "length iv = 16" "0 < no_blocks p" "off + 16 * no_blocks p \<le> length mem"
  shows "enc_plain g p mem off off iv =
      blit off (cbc_enc (gcry_encrypt g (plain_hd p)) iv (no_blocks p) (bslice off (16 * no_blocks p) mem)) mem \<and>
    dec_plain g p mem off off iv =
      blit off (cbc_dec (gcry_decrypt g (plain_hd p)) iv (no_blocks p) (bslice off (16 * no_blocks p) mem)) mem"
  using enc_plain_in_place [OF assms] dec_plain_in_place [OF assms(1,2,4)] by simp

theorem cbc_plain_is_cbc_witness:
  "enc_plain demo_gcrypt \<lparr>plain_hd = (9, []), no_blocks = 2\<rparr> (replicate 32 5) 0 0 (replicate 16 1) =
   blit 0 (cbc_enc rev (replicate 16 1) 2 (replicate 32 5)) (replicate 32 5)"
proof -
  have "gcry_encrypt demo_gcrypt (9, []) = rev" by (simp add: gcry_encrypt_def demo_gcrypt_def fun_eq_iff)
  then show ?thesis
    using cbc_plain_is_cbc [OF demo_cipher_ok(1), of "replicate 16 1" "\<lparr>plain_hd = (9, []), no_blocks = 2\<rparr>" 0 "replicate 32 5"]
    by simp
qed

text \<open>
  decryption into another buffer is not the inverse of encryption: the loop of \<^verbatim>\<open>dec_plain\<close> never
  advances \<^verbatim>\<open>gcry_in\<close>, so every block is decrypted from the first one.
\<close>

theorem dec_plain_out_of_place_wrong:
  "\<exists>mem p iv. gcrypt_ok demo_gcrypt \<and> length mem = 64 \<and> no_blocks p = 2 \<and>
     bslice 32 32 (dec_plain demo_gcrypt p mem 32 0 iv) \<noteq>
     cbc_dec (gcry_decrypt demo_gcrypt (plain_hd p)) iv 2 (bslice 0 32 mem)"
proof (intro exI conjI)
  let ?p = "\<lparr>plain_hd = (9, []), no_blocks = 2\<rparr>" and ?mem = "replicate 16 1 @ replicate 16 2 @ replicate 32 0"
  show "gcrypt_ok demo_gcrypt" by (rule demo_cipher_ok)
  show "bslice 32 32 (dec_plain demo_gcrypt ?p ?mem 32 0 (replicate 16 0)) \<noteq>
     cbc_dec (gcry_decrypt demo_gcrypt (plain_hd ?p)) (replicate 16 0) 2 (bslice 0 32 ?mem)"
    by code_simp
qed simp_all

lemma strchr_append: "c \<notin> set s \<Longrightarrow> strchr (s @ c # t) c = Some (s, t)"
proof -
  assume c: "c \<notin> set s"
  then have "dropWhile (\<lambda>x. x \<noteq> c) (s @ c # t) = c # t" "takeWhile (\<lambda>x. x \<noteq> c) (s @ c # t) = s"
    by (induction s) auto
  then show ?thesis by (simp add: strchr_def)
qed

lemma parse_cipher_name_spec:
  assumes "CHR '')'' \<notin> set prim"
  shows "parse_cipher_name (spec_name s @ ''('' @ prim @ '')'') = Inr (spec_name s, prim)"
proof -
  have n: "CHR ''('' \<notin> set (spec_name s)" "CHR '')'' \<notin> set (spec_name s)" by (cases s; simp)+
  have "strchr (spec_name s @ ''('' @ prim @ '')'') CHR '')'' = Some (spec_name s @ ''('' @ prim, [])"
    using strchr_append [of "CHR '')''" "spec_name s @ ''('' @ prim" "[]"] n assms by simp
  with strchr_append [OF n(1), of prim] show ?thesis by (simp add: parse_cipher_name_def)
qed

text \<open>
  a cipher name MODE(PRIMITIVE) selects the mode of that name and hands the primitive on to it,
  and the caller's key is wiped; ESSIV works exactly with primitives of 256 bit keys, because its
  second key is a SHA256 hash.
\<close>

theorem cipher_init_selects_mode:
  assumes "CHR '')'' \<notin> set prim" "0 < n" "gcrypt_ok g"
  shows "cipher_init g (spec_name s @ ''('' @ prim @ '')'') n key =
      rbind (spec_init g s prim n key) (\<lambda>ctx. Inr (\<lparr>c_spec = s, c_ctx = ctx\<rparr>, replicate (length key) 0)) \<and>
    ((\<exists>c. cipher_init g (''CBC_ESSIV('' @ prim @ '')'') n key = Inr c) \<longleftrightarrow>
      g_map_name g prim \<noteq> 0 \<and> g_blklen g (g_map_name g prim) = 16 \<and> g_keylen g (g_map_name g prim) = 32 \<and> length key = 32)"
proof -
  have sel: "cipher_init g (spec_name s @ ''('' @ prim @ '')'') n key =
      rbind (spec_init g s prim n key) (\<lambda>ctx. Inr (\<lparr>c_spec = s, c_ctx = ctx\<rparr>, replicate (length key) 0))" for s
    using parse_cipher_name_spec [OF assms(1), of s] assms(2)
    by (cases s) (simp_all add: cipher_init_def cipher_specs_def)
  have "length (g_sha256 g key) = 32" using assms(3) by (simp add: gcrypt_ok_def)
  then show ?thesis
    using sel [of s] sel [of Cipher_cbc_essiv] assms(2)
    by (auto simp: spec_init_def init_essiv_def init_plain_def cipher_open_set_and_destroy_key_def Let_def throw_if_def)
qed

theorem cipher_init_selects_mode_witness:
  "\<exists>c. cipher_init demo_gcrypt ''CBC_ESSIV(AES256)'' 2 (replicate 32 1) = Inr c"
  using cipher_init_selects_mode [of "''AES256''" 2 demo_gcrypt _ "replicate 32 1"] demo_cipher_ok(1)
  by (simp add: demo_gcrypt_def)

text \<open>Different sequence numbers, mesoblock numbers or macroblock numbers give different
  initialisation vectors.
\<close>

theorem set_iv_injective:
  "set_iv a b c = set_iv a' b' c' \<longleftrightarrow> a = a' \<and> b = b' \<and> c = c'"
proof
  assume eq: "set_iv a b c = set_iv a' b' c'"
  have "be64 a = be64 a' \<and> be32 b = be32 b' \<and> be32 c = be32 c'"
    using eq by (simp add: set_iv_eq be64_def be32_def)
  then show "a = a' \<and> b = b' \<and> c = c'" by (simp only: be64_inject be32_inject)
qed simp

end
