(* ===== verification/Blockio.thy ===== *)
theory Blockio
  imports Bitmap Juggler Cipher
begin

text \<open>
  Model of src/src/blockio.c: the layout of macroblocks on the backing file, the headers, and the
  ownership of macroblocks by devices. The backing file is its contents, a list of bytes; the
  structures of blockio.h are records; the lists of blocks are the lists that theory Dllarr shows the
  pointer structures to represent, and the locks around the shared list make every operation atomic.
  The theorems show that a written macroblock is recognised, its header and every mesoblock are read
  back exactly, that a write touches nothing else, that allocation and release move blocks between
  the pool and the devices without losing one, and that the geometry computed at the start leaves
  room for every header.
\<close>

section \<open>State (blockio.h)\<close>

record blockio =
  macroblock_log :: nat
  mesoblk_log :: nat
  total_macroblocks :: nat
  max_macroblocks :: nat
  bitmap_offset :: nat
  mmpm :: nat
  unallocated :: "nat list"
  infos :: infos
  disk :: bytes

text \<open>
  \<open>d_id\<close> identifies the device (the C code compares pointers to it); its random source is the one its
  juggler refers to, \<open>j_r\<close> of \<open>d_j\<close>.
\<close>

record blockio_dev =
  d_id :: nat
  d_c :: cipher
  seqnos_hash :: bytes
  replay_list :: "nat list"
  updated :: bool
  status :: bitmap
  no_macroblocks :: u32
  reserved_macroblocks :: u32
  d_bi :: "nat option"
  tail_macroblock :: "nat option"
  d_j :: juggler
  tmp_macroblock :: bytes
  writes :: u32

type_synonym bdev = "blockio \<times> blockio_dev"

datatype macroblock_status = FREE | USED

definition status_bit :: "macroblock_status \<Rightarrow> u32" where
  "status_bit s = (case s of FREE \<Rightarrow> 0 | USED \<Rightarrow> 1)"

section \<open>Access to the backing file\<close>

text \<open>
  A read past the end of the file fails; a write there extends it, as \<^verbatim>\<open>fwrite\<close> does.
\<close>

definition stream_read :: "bytes \<Rightarrow> nat \<Rightarrow> nat \<Rightarrow> bytes res" where
  "stream_read dsk off sz =
     asserting (sz \<noteq> 0) ''stream_io: buf && size'' (
     fatal_if (length dsk < off + sz) ''error reading'' (Inr (bslice off sz dsk)))"

definition stream_write :: "bytes \<Rightarrow> bytes \<Rightarrow> nat \<Rightarrow> bytes res" where
  "stream_write dsk buf off =
     asserting (buf \<noteq> []) ''stream_io: buf && size'' (
       Inr (blit off buf (dsk @ replicate (off + length buf - length dsk) 0)))"

section \<open>The layout of a header\<close>

definition INDEXBLOCK_SHA256 :: nat where "INDEXBLOCK_SHA256 = 0x000"
definition DATABLOCKS_SHA256 :: nat where "DATABLOCKS_SHA256 = 0x020"
definition SEQNOS_SHA256 :: nat where "SEQNOS_SHA256 = 0x040"
definition SEQNO_UINT64 :: nat where "SEQNO_UINT64 = 0x060"
definition NEXT_SEQNO_UINT64 :: nat where "NEXT_SEQNO_UINT64 = 0x068"
definition MAGIC64 :: nat where "MAGIC64 = 0x070"
definition NO_MACROBLOCKS_UINT32 :: nat where "NO_MACROBLOCKS_UINT32 = 0x078"
definition RESERVED_BLOCKS_UINT32 :: nat where "RESERVED_BLOCKS_UINT32 = 0x07C"
definition RESERVED_SPACE1024 :: nat where "RESERVED_SPACE1024 = 0x080"
definition NO_INDICES_UINT32 :: nat where "NO_INDICES_UINT32 = 0x100"

lemmas layout = INDEXBLOCK_SHA256_def DATABLOCKS_SHA256_def SEQNOS_SHA256_def SEQNO_UINT64_def
  NEXT_SEQNO_UINT64_def MAGIC64_def NO_MACROBLOCKS_UINT32_def RESERVED_BLOCKS_UINT32_def
  RESERVED_SPACE1024_def NO_INDICES_UINT32_def

text \<open>The eight bytes SSS3v0.1.\<close>

definition magic :: bytes where
  "magic = [0x53, 0x53, 0x53, 0x33, 0x76, 0x30, 0x2E, 0x31]"

section \<open>Opening the backing file\<close>

datatype backing = Unopenable | Locked | Regular bytes | Block_device bytes | Other_file

definition zero_info :: blockio_info where
  "zero_info = \<lparr>bi_seqno = 0, bi_next_seqno = 0, data_hash = replicate 32 0, no_indices = 0, no_nonobsolete = 0,
     indices = [], bi_dev = None\<rparr>"

definition blockio_setup :: "bytes \<Rightarrow> nat \<Rightarrow> nat \<Rightarrow> nat \<Rightarrow> nat \<Rightarrow> nat \<Rightarrow> blockio res" where
  "blockio_setup d macro meso mm boff maxm =
     (let tmp = length d div 2 ^ macro in
      fatal_if (tmp > maxm) ''device is too large'' (
        Inr \<lparr>macroblock_log = macro, mesoblk_log = meso, total_macroblocks = tmp, max_macroblocks = maxm,
             bitmap_offset = boff, mmpm = mm, unallocated = [0..<tmp], infos = (\<lambda>_. zero_info), disk = d\<rparr>))"

text \<open>
  The shifts by \<^verbatim>\<open>macroblock_log - mesoblk_log\<close> are defined in C only for amounts below the width of
  the type; that is the second check here, which the code does not have. It stands for undefined behaviour.
\<close>

definition blockio_init_file :: "backing \<Rightarrow> nat \<Rightarrow> nat \<Rightarrow> blockio res" where
  "blockio_init_file back macro meso =
     asserting (macro < 32) ''blockio_init_file: macroblock_log < 8*sizeof(uint32_t)'' (
     asserting (meso \<le> macro \<and> macro - meso < 29) ''blockio_init_file: undefined shift'' (
     let mm = (2 ^ (macro - meso) - 1) mod 2 ^ 16; boff = (256 + 4 * 2 ^ (macro - meso)) mod 2 ^ 32 in
     fatal_if (boff \<ge> 2 ^ meso) ''not enough room for indexblock in mesoblock'' (
     let maxm = ((2 ^ meso - boff) * 8) mod 2 ^ 32 in
     case back of
       Unopenable \<Rightarrow> Inl (Ecch ''fopening'')
     | Locked \<Rightarrow> Inl (Fatal ''process has already locked the file'')
     | Other_file \<Rightarrow> Inl (Fatal ''not a regular file or a block device'')
     | Regular d \<Rightarrow> blockio_setup d macro meso mm boff maxm
     | Block_device d \<Rightarrow> blockio_setup d macro meso mm boff maxm)))"

section \<open>Status of macroblocks\<close>

definition set_info :: "blockio \<Rightarrow> nat \<Rightarrow> blockio_info \<Rightarrow> blockio" where
  "set_info b no bi = b\<lparr>infos := (infos b)(no := bi)\<rparr>"

definition blockio_get_macroblock_index :: "blockio \<Rightarrow> nat \<Rightarrow> nat res" where
  "blockio_get_macroblock_index b bi =
     asserting (bi_dev (infos b bi) \<noteq> None) ''blockio_get_macroblock_index: bi->dev'' (Inr bi)"

definition blockio_dev_get_macroblock_status_bynum :: "blockio_dev \<Rightarrow> nat \<Rightarrow> macroblock_status res" where
  "blockio_dev_get_macroblock_status_bynum dev num =
     rbind (bitmap_getbits (status dev) (of_nat num) 1) (\<lambda>v. Inr (if v = 0 then FREE else USED))"

definition blockio_dev_get_macroblock_status :: "bdev \<Rightarrow> nat \<Rightarrow> macroblock_status res" where
  "blockio_dev_get_macroblock_status s bi =
     rbind (blockio_get_macroblock_index (fst s) bi) (\<lambda>index.
     asserting (index < total_macroblocks (fst s)) ''blockio_dev_get_macroblock_status: index'' (
       blockio_dev_get_macroblock_status_bynum (snd s) index))"

definition blockio_dev_change_macroblock_status :: "bdev \<Rightarrow> nat \<Rightarrow> macroblock_status \<Rightarrow> blockio_dev res" where
  "blockio_dev_change_macroblock_status s bi new =
     rbind (blockio_get_macroblock_index (fst s) bi) (\<lambda>index.
     rbind (bitmap_getbits (status (snd s)) (of_nat index) 1) (\<lambda>v.
     asserting (v \<noteq> status_bit new) ''blockio_dev_change_macroblock_status: bitmap_getbits != new'' (
     rbind (if new = USED then bitmap_setbit_safe (status (snd s)) (of_nat index)
            else bitmap_clearbit_safe (status (snd s)) (of_nat index)) (\<lambda>bm.
       Inr ((snd s)\<lparr>status := bm\<rparr>)))))"

definition blockio_prepare_block :: "blockio \<Rightarrow> nat \<Rightarrow> blockio res" where
  "blockio_prepare_block b bi =
     asserting (bi_dev (infos b bi) \<noteq> None) ''blockio_prepare_block: bi->dev'' (
       Inr (set_info b bi ((infos b bi)\<lparr>bi_seqno := 0, bi_next_seqno := 0, no_indices := 0, no_nonobsolete := 0,
         indices := replicate (mmpm b) 0\<rparr>)))"

section \<open>Writing the current macroblock\<close>

definition zero_unused :: "blockio \<Rightarrow> nat \<Rightarrow> bytes \<Rightarrow> bytes" where
  "zero_unused b used base =
     fold (\<lambda>i base. blit (i * 2 ^ mesoblk_log b) (replicate (2 ^ mesoblk_log b) 0) base) [used + 1..<mmpm b + 1] base"

definition encrypt_data :: "gcrypt \<Rightarrow> blockio \<Rightarrow> cipher \<Rightarrow> u64 \<Rightarrow> nat \<Rightarrow> bytes \<Rightarrow> bytes" where
  "encrypt_data g b c seqno no base =
     fold (\<lambda>i base. cipher_enc g c base (i * 2 ^ mesoblk_log b) (i * 2 ^ mesoblk_log b) seqno (of_nat i) (of_nat no))
       [1..<mmpm b + 1] base"

definition write_indices :: "blockio \<Rightarrow> blockio_info \<Rightarrow> bytes \<Rightarrow> bytes" where
  "write_indices b bi base =
     (let n = unat (no_indices bi);
          base = binio_write_uint32_be base NO_INDICES_UINT32 (no_indices bi);
          base = fold (\<lambda>i base. binio_write_uint32_be base (NO_INDICES_UINT32 + 4 * i) (indices bi ! (i - 1))) [1..<n + 1] base
      in fold (\<lambda>i base. binio_write_uint32_be base (NO_INDICES_UINT32 + 4 * i) 0) [n + 1..<mmpm b + 1] base)"

text \<open>
  The whole of the buffer as it goes to disk, except for the encryption of the index block: hashes,
  the static fields, the indices and the bitmap; the hash of the index block is computed last.
\<close>

definition write_header :: "gcrypt \<Rightarrow> blockio \<Rightarrow> blockio_dev \<Rightarrow> blockio_info \<Rightarrow> bytes \<Rightarrow> bytes" where
  "write_header g b dev bi base =
     (let meso = 2 ^ mesoblk_log b;
          base = blit DATABLOCKS_SHA256 (g_sha256 g (bslice meso (mmpm b * meso) base)) base;
          base = blit SEQNOS_SHA256 (juggler_hash_scheduled_seqnos (g_sha256 g) (infos b) (d_j dev)) base;
          base = binio_write_uint64_be base SEQNO_UINT64 (bi_seqno bi);
          base = binio_write_uint64_be base NEXT_SEQNO_UINT64 (bi_next_seqno bi);
          base = blit MAGIC64 magic base;
          base = binio_write_uint32_be base RESERVED_BLOCKS_UINT32 (reserved_macroblocks dev);
          base = binio_write_uint32_be base NO_MACROBLOCKS_UINT32 (no_macroblocks dev);
          base = blit RESERVED_SPACE1024 (replicate 128 0) base;
          base = write_indices b bi base;
          base = bitmap_write base (bitmap_offset b) (status dev)
      in blit INDEXBLOCK_SHA256 (g_sha256 g (bslice 32 (meso - 32) base)) base)"

definition blockio_dev_write_current_macroblock :: "gcrypt \<Rightarrow> bdev \<Rightarrow> bdev res" where
  "blockio_dev_write_current_macroblock g s =
     (let (b, dev) = s in
      case d_bi dev of
        None \<Rightarrow> Inl (Assert ''NULL dereference: dev->bi'')
      | Some cur \<Rightarrow>
          rbind (blockio_get_macroblock_index b cur) (\<lambda>no.
          asserting (no < total_macroblocks b) ''blockio_dev_write_current_macroblock: id < total_macroblocks'' (
          let bi = infos b cur;
              base = zero_unused b (unat (no_indices bi)) (tmp_macroblock dev);
              base = encrypt_data g b (d_c dev) (bi_seqno bi) no base;
              base = write_header g b dev bi base;
              base = cipher_enc g (d_c dev) base 0 0 0 0 (of_nat no);
              b = set_info b cur (bi\<lparr>no_nonobsolete := no_indices bi\<rparr>)
          in rbind (stream_write (disk b) (bslice 0 (2 ^ macroblock_log b) base) (no * 2 ^ macroblock_log b)) (\<lambda>dsk.
             Inr (b\<lparr>disk := dsk\<rparr>, dev\<lparr>tmp_macroblock := base, writes := writes dev + 1, d_bi := None\<rparr>)))))"

section \<open>Selecting the next macroblock\<close>

definition blockio_dev_select_next_macroblock :: "bdev \<Rightarrow> bdev res" where
  "blockio_dev_select_next_macroblock s =
     (let (b, dev) = s in
      asserting (d_bi dev = None) ''blockio_dev_select_next_macroblock: !dev->bi'' (
      rbind (juggler_get_devblock (infos b) (d_j dev) False) (\<lambda>(bis, j, ob).
      asserting (ob \<noteq> None) ''blockio_dev_select_next_macroblock: dev->bi'' (
        Inr (b\<lparr>infos := bis\<rparr>,
             dev\<lparr>updated := False, d_j := j, d_bi := ob, tail_macroblock := juggler_get_obsoleted bis j\<rparr>)))))"

definition blockio_dev_write_current_and_select_next_macroblock :: "gcrypt \<Rightarrow> bdev \<Rightarrow> bdev res" where
  "blockio_dev_write_current_and_select_next_macroblock g s =
     rbind (blockio_dev_write_current_macroblock g s) blockio_dev_select_next_macroblock"

section \<open>Reading\<close>

definition blockio_dev_read_mesoblk :: "gcrypt \<Rightarrow> bdev \<Rightarrow> nat \<Rightarrow> nat \<Rightarrow> bytes res" where
  "blockio_dev_read_mesoblk g s no k =
     (let (b, dev) = s in
      rbind (stream_read (disk b) (no * 2 ^ macroblock_log b + (k + 1) * 2 ^ mesoblk_log b) (2 ^ mesoblk_log b)) (\<lambda>buf.
        Inr (cipher_dec g (d_c dev) buf 0 0 (bi_seqno (infos b no)) (of_nat (k + 1)) (of_nat no))))"

definition blockio_dev_read_mesoblk_part :: "gcrypt \<Rightarrow> bdev \<Rightarrow> nat \<Rightarrow> nat \<Rightarrow> nat \<Rightarrow> nat \<Rightarrow> bytes res" where
  "blockio_dev_read_mesoblk_part g s no k off len =
     asserting (no < total_macroblocks (fst s) \<and> k < mmpm (fst s)) ''blockio_dev_read_mesoblk_part'' (
     rbind (blockio_dev_read_mesoblk g s no k) (\<lambda>mesoblk. Inr (bslice off len mesoblk)))"

definition blockio_check_data_hash :: "gcrypt \<Rightarrow> blockio \<Rightarrow> nat \<Rightarrow> bool res" where
  "blockio_check_data_hash g b bi =
     rbind (blockio_get_macroblock_index b bi) (\<lambda>no.
     let sz = 2 ^ macroblock_log b - 2 ^ mesoblk_log b in
     rbind (stream_read (disk b) (no * 2 ^ macroblock_log b + 2 ^ mesoblk_log b) sz) (\<lambda>buf.
       Inr (data_hash (infos b bi) = g_sha256 g buf)))"

section \<open>Scanning for the blocks of a device\<close>

definition insert_before :: "nat list \<Rightarrow> nat \<Rightarrow> nat option \<Rightarrow> nat list" where
  "insert_before xs x at =
     (case at of None \<Rightarrow> xs @ [x] | Some y \<Rightarrow> takeWhile (\<lambda>z. z \<noteq> y) xs @ x # dropWhile (\<lambda>z. z \<noteq> y) xs)"

definition compare_seqno :: "infos \<Rightarrow> u64 \<Rightarrow> nat \<Rightarrow> unit \<Rightarrow> (nat option \<times> unit) res" where
  "compare_seqno bis seqno bi priv =
     asserting (seqno \<noteq> bi_seqno (bis bi)) ''compare_seqno: *seqno != bi->seqno'' (
       Inr (if seqno > bi_seqno (bis bi) then None else Some bi, priv))"

definition sort_to_replay :: "infos \<Rightarrow> nat list \<Rightarrow> nat \<Rightarrow> nat list res" where
  "sort_to_replay bis rep bi =
     rbind (iter_list (compare_seqno bis (bi_seqno (bis bi))) rep ()) (\<lambda>(at, _). Inr (insert_before rep bi at))"

text \<open>
  What the header of a recognised block says about the block. The array \<^verbatim>\<open>bi->indices\<close> has \<^verbatim>\<open>mmpm\<close>
  entries; a count beyond that would write past its end.
\<close>

definition read_info :: "blockio \<Rightarrow> blockio_info \<Rightarrow> bytes \<Rightarrow> blockio_info res" where
  "read_info b bi base =
     (let seqno = binio_read_uint64_be base SEQNO_UINT64; next_seqno = binio_read_uint64_be base NEXT_SEQNO_UINT64;
          n = unat (binio_read_uint32_be base NO_INDICES_UINT32);
          rd = (\<lambda>i. binio_read_uint32_be base (NO_INDICES_UINT32 + 4 * i)) in
      fatal_if (bslice RESERVED_SPACE1024 128 base \<noteq> replicate 128 0) ''reserved space is not zeroed out'' (
      fatal_if (seqno = 0) ''block found with seqno 0, not possibile'' (
      fatal_if (next_seqno \<le> seqno) ''block found with seqno >= next_seqno, not possible'' (
      asserting (n \<le> mmpm b) ''bi->indices overrun'' (
      fatal_if (\<exists>i\<in>set [n + 1..<mmpm b + 1]. rd i \<noteq> 0) ''unused indices must be zero, they are not'' (
        Inr (bi\<lparr>data_hash := bslice DATABLOCKS_SHA256 32 base, bi_seqno := seqno, bi_next_seqno := next_seqno,
                no_indices := of_nat n, no_nonobsolete := of_nat n,
                indices := map rd [1..<n + 1] @ replicate (mmpm b - n) 0\<rparr>)))))))"

text \<open>What the header with the highest sequence number says about the device.\<close>

definition read_dev :: "blockio \<Rightarrow> bytes \<Rightarrow> blockio_dev \<Rightarrow> blockio_dev" where
  "read_dev b base dev =
     dev\<lparr>status := bitmap_read (status dev) base (bitmap_offset b), seqnos_hash := bslice SEQNOS_SHA256 32 base,
         no_macroblocks := binio_read_uint32_be base NO_MACROBLOCKS_UINT32,
         reserved_macroblocks := binio_read_uint32_be base RESERVED_BLOCKS_UINT32\<rparr>"

definition header_valid :: "gcrypt \<Rightarrow> blockio \<Rightarrow> bytes \<Rightarrow> bool" where
  "header_valid g b base \<longleftrightarrow>
     bslice MAGIC64 8 base = magic \<and>
     bslice INDEXBLOCK_SHA256 32 base = g_sha256 g (bslice 32 (2 ^ mesoblk_log b - 32) base)"

definition blockio_dev_scan_header :: "gcrypt \<Rightarrow> nat \<Rightarrow> bdev \<times> u64 \<Rightarrow> (bdev \<times> u64) res" where
  "blockio_dev_scan_header g no s =
     (let ((b, dev), seqno) = s in
      asserting (no < total_macroblocks b) ''blockio_dev_scan_header: no < total_macroblocks'' (
      if bi_dev (infos b no) \<noteq> None then Inr s
      else
        rbind (stream_read (disk b) (no * 2 ^ macroblock_log b) (2 ^ mesoblk_log b)) (\<lambda>buf.
        let base = cipher_dec g (d_c dev) (blit 0 buf (tmp_macroblock dev)) 0 0 0 0 (of_nat no);
            dev = dev\<lparr>tmp_macroblock := base\<rparr> in
        if \<not> header_valid g b base then Inr ((b, dev), seqno)
        else
          rbind (read_info b (infos b no) base) (\<lambda>bi.
          let b = set_info b no bi in
          asserting (no \<in> set (unallocated b)) ''dllarr_remove: at_elt->prev'' (
          let b = b\<lparr>unallocated := remove1 no (unallocated b)\<rparr> in
          rbind (sort_to_replay (infos b) (replay_list dev) no) (\<lambda>rep.
          asserting (bi_seqno bi \<noteq> seqno) ''blockio_dev_scan_header: bi->seqno != *seqno'' (
          let dev = dev\<lparr>replay_list := rep\<rparr>;
              dev' = (if bi_seqno bi > seqno then read_dev b base dev else dev);
              seqno' = (if bi_seqno bi > seqno then bi_seqno bi else seqno)
          in Inr ((set_info b no (bi\<lparr>bi_dev := Some (d_id dev)\<rparr>), dev'), seqno'))))))))"

section \<open>Opening and closing a device\<close>

text \<open>The loop over the bitmap that claims the blocks that hold no data.\<close>

definition claim_unwritten :: "nat \<Rightarrow> bdev \<Rightarrow> bdev res" where
  "claim_unwritten i s =
     (let (b, dev) = s in
      rbind (blockio_dev_get_macroblock_status_bynum dev i) (\<lambda>st.
      if st \<noteq> USED then Inr s
      else
        fatal_if (i \<ge> total_macroblocks b) ''macroblock marked as USED that does not exist'' (
        if bi_dev (infos b i) = Some (d_id dev) then Inr s
        else
          fatal_if (bi_dev (infos b i) \<noteq> None) ''block USED by us but claimed by another device'' (
          asserting (i \<in> set (unallocated b)) ''dllarr_remove: at_elt->prev'' (
          let b = b\<lparr>unallocated := remove1 i (unallocated b)\<rparr>;
              b = set_info b i ((infos b i)\<lparr>bi_dev := Some (d_id dev)\<rparr>) in
          rbind (blockio_prepare_block b i) (\<lambda>b.
          rbind (juggler_add_macroblock (infos b) (d_j dev) i) (\<lambda>j.
            Inr (b, dev\<lparr>d_j := j\<rparr>))))))))"

definition fresh_dev :: "blockio \<Rightarrow> nat \<Rightarrow> cipher \<Rightarrow> random_t \<Rightarrow> blockio_dev" where
  "fresh_dev b i c r =
     \<lparr>d_id = i, d_c = c, seqnos_hash = replicate 32 0, replay_list = [], updated = False,
      status = bitmap_init (of_nat (max_macroblocks b)), no_macroblocks = 0, reserved_macroblocks = 0,
      d_bi = None, tail_macroblock = None, d_j = juggler_init r,
      tmp_macroblock = replicate (2 ^ macroblock_log b) 0, writes = 0\<rparr>"

text \<open>
  The device opens the backing file once more. That file was opened when the program started; that it can be opened again is an
  assumption of the model, the code throws an exception if it cannot.
\<close>

definition blockio_dev_init :: "gcrypt \<Rightarrow> blockio \<Rightarrow> nat \<Rightarrow> cipher \<Rightarrow> random_t option \<Rightarrow> bdev res" where
  "blockio_dev_init g b i c urandom =
     asserting (mesoblk_log b < macroblock_log b) ''blockio_dev_init: b->mesoblk_log < b->macroblock_log'' (
     rbind (random_init urandom) (\<lambda>r.
     let dev = fresh_dev b i c r in
     asserting (unat (bitmap_size (status dev)) + 260 + 4 * mmpm b = 2 ^ mesoblk_log b) ''blockio_dev_init: bitmap_size'' (
     rbind (rfold (blockio_dev_scan_header g) [0..<total_macroblocks b] ((b, dev), 0)) (\<lambda>((b, dev), seqno).
     if replay_list dev = [] then asserting (seqno = 0) ''blockio_dev_init: !seqno'' (Inr (b, dev))
     else
       rbind (rfold claim_unwritten [0..<max_macroblocks b] (b, dev)) (\<lambda>(b, dev).
       fatal_if (no_macroblocks dev \<noteq> of_nat (length (replay_list dev)) + juggler_count (d_j dev))
         ''count of macroblocks does not match the amount of blocks we have'' (Inr (b, dev)))))))"

definition release_info :: "nat \<Rightarrow> nat \<Rightarrow> infos \<Rightarrow> infos" where
  "release_info i no bis =
     (if bi_dev (bis no) = Some i then bis(no := (bis no)\<lparr>indices := [], bi_dev := None\<rparr>) else bis)"

definition blockio_dev_free :: "gcrypt \<Rightarrow> bdev \<Rightarrow> blockio res" where
  "blockio_dev_free g s =
     rbind (if updated (snd s) then blockio_dev_write_current_macroblock g s else Inr s) (\<lambda>(b, dev).
     let b = b\<lparr>infos := fold (release_info (d_id dev)) [0..<total_macroblocks b] (infos b)\<rparr> in
     rbind (juggler_free_and_empty_into (d_j dev) (Some (\<lambda>bi l. Inr (l @ [bi]))) (unallocated b)) (\<lambda>un.
       Inr (b\<lparr>unallocated := un @ rev (replay_list dev)\<rparr>)))"

section \<open>Allocating macroblocks\<close>

definition blockio_allocate_one :: "bdev \<Rightarrow> bdev res" where
  "blockio_allocate_one s =
     (let (b, dev) = s in
      rbind (random_custom (j_r (d_j dev)) (of_nat (length (unallocated b)))) (\<lambda>(no, r).
      asserting (unat no < length (unallocated b)) ''dllarr_nth: n >= 0 && n < a->tail.index'' (
      let bi = unallocated b ! unat no;
          b = b\<lparr>unallocated := remove1 bi (unallocated b)\<rparr>;
          b = set_info b bi ((infos b bi)\<lparr>bi_dev := Some (d_id dev)\<rparr>) in
      rbind (blockio_prepare_block b bi) (\<lambda>b.
      rbind (juggler_add_macroblock (infos b) ((d_j dev)\<lparr>j_r := r\<rparr>) bi) (\<lambda>j.
      let dev = dev\<lparr>no_macroblocks := no_macroblocks dev + 1, d_j := j\<rparr> in
      rbind (blockio_dev_change_macroblock_status (b, dev) bi USED) (\<lambda>dev. Inr (b, dev)))))))"

fun allocate_loop :: "nat \<Rightarrow> bdev \<Rightarrow> bdev res" where
  "allocate_loop 0 s = Inr s"
| "allocate_loop (Suc n) s = rbind (blockio_allocate_one s) (allocate_loop n)"

text \<open>The result is \<open>None\<close> for the error \<^verbatim>\<open>-1\<close> (not enough blocks), with the state unchanged.\<close>

definition blockio_dev_allocate_macroblocks :: "bdev \<Rightarrow> u32 \<Rightarrow> bdev option res" where
  "blockio_dev_allocate_macroblocks s sz =
     (if length (unallocated (fst s)) < unat sz then Inr None
      else rbind (allocate_loop (unat sz) s) (\<lambda>s. Inr (Some s)))"

section \<open>Geometry\<close>

text \<open>
  What \<open>blockio_init_file\<close> establishes: the header, its table of indices and its bitmap exactly fill
  one mesoblock, and every macroblock lies inside the backing file.
\<close>

definition geometry :: "blockio \<Rightarrow> bool" where
  "geometry b \<longleftrightarrow>
     mesoblk_log b < macroblock_log b \<and> macroblock_log b < 32 \<and> mesoblk_log b \<le> 29 \<and>
     macroblock_log b - mesoblk_log b \<le> 14 \<and>
     mmpm b + 1 = 2 ^ (macroblock_log b - mesoblk_log b) \<and> bitmap_offset b = 260 + 4 * mmpm b \<and>
     bitmap_offset b < 2 ^ mesoblk_log b \<and> max_macroblocks b = (2 ^ mesoblk_log b - bitmap_offset b) * 8 \<and>
     total_macroblocks b \<le> max_macroblocks b \<and> total_macroblocks b * 2 ^ macroblock_log b \<le> length (disk b)"

lemma geometry_sizes:
  assumes "geometry b"
  shows "(mmpm b + 1) * 2 ^ mesoblk_log b = 2 ^ macroblock_log b" "264 \<le> bitmap_offset b" "bitmap_offset b = 260 + 4 * mmpm b"
    "bitmap_offset b + 4 * no_words (of_nat (max_macroblocks b)) = 2 ^ mesoblk_log b"
    "(2 :: nat) ^ mesoblk_log b \<le> 2 ^ macroblock_log b" "mmpm b < 2 ^ 14" "max_macroblocks b + 31 < 2 ^ 32"
proof -
  let ?d = "macroblock_log b - mesoblk_log b" and ?m = "mesoblk_log b"
  note g = assms [unfolded geometry_def]
  have "(2 :: nat) ^ macroblock_log b = 2 ^ ?d * 2 ^ ?m" using g by (simp add: power_add [symmetric])
  then show "(mmpm b + 1) * 2 ^ ?m = 2 ^ macroblock_log b" using g by simp
  have "1 \<le> ?d" using g by linarith
  then have "(2 :: nat) ^ 1 \<le> 2 ^ ?d" by (intro power_increasing) simp_all
  then have mm: "1 \<le> mmpm b" using g by simp
  with g show "264 \<le> bitmap_offset b" "bitmap_offset b = 260 + 4 * mmpm b" by simp_all
  have "(2 :: nat) ^ ?d \<le> 2 ^ 14" using g by (intro power_increasing) simp_all
  then show "mmpm b < 2 ^ 14" using g by simp
  show "(2 :: nat) ^ ?m \<le> 2 ^ macroblock_log b" using g by (intro power_increasing) simp_all
  have "(2 :: nat) ^ ?m \<le> 2 ^ 29" using g by (intro power_increasing) simp_all
  then show max: "max_macroblocks b + 31 < 2 ^ 32" using g mm by simp
  have "2 \<le> ?m" using g \<open>264 \<le> bitmap_offset b\<close> by (cases ?m; cases "?m - 1") auto
  then have "(4 :: nat) dvd 2 ^ ?m" using le_imp_power_dvd [of 2 ?m "2 :: nat"] by simp
  moreover have "(4 :: nat) dvd bitmap_offset b" using g by simp
  ultimately have "(4 :: nat) dvd 2 ^ ?m - bitmap_offset b" by (rule dvd_diff_nat)
  then obtain k where k: "2 ^ ?m - bitmap_offset b = 4 * k" by blast
  have "no_words (of_nat (max_macroblocks b)) = (max_macroblocks b + 31) div 32"
    using max by (subst no_words_unat) (simp_all add: unat_of_nat_small)
  also have "\<dots> = k" using g k by simp
  finally show "bitmap_offset b + 4 * no_words (of_nat (max_macroblocks b)) = 2 ^ ?m" using k g by linarith
qed

text \<open>The bitmap of a device fills the rest of the first mesoblock.\<close>

lemma bitmap_fits:
  assumes geo: "geometry b"
  shows "unat (bitmap_size (bitmap_init (of_nat (max_macroblocks b)))) + 260 + 4 * mmpm b = 2 ^ mesoblk_log b"
proof -
  have "(2 :: nat) ^ mesoblk_log b \<le> 2 ^ 29" using geo by (intro power_increasing) (simp_all add: geometry_def)
  also have "(2 :: nat) ^ 29 < 2 ^ 32" by simp
  finally have "4 * no_words (of_nat (max_macroblocks b)) < 2 ^ 32" using geometry_sizes(4) [OF geo] by linarith
  then have "unat (bitmap_size (bitmap_init (of_nat (max_macroblocks b)))) = 4 * no_words (of_nat (max_macroblocks b))"
    by (simp add: bitmap_size_def bitmap_init_def no_words_def unat_word_ariths)
  then show ?thesis using geometry_sizes(3,4) [OF geo] by linarith
qed

lemma macroblock_inside:
  assumes "geometry b" "no < total_macroblocks b"
  shows "no * 2 ^ macroblock_log b + 2 ^ macroblock_log b \<le> length (disk b)"
proof -
  have "(no + 1) * 2 ^ macroblock_log b \<le> total_macroblocks b * 2 ^ macroblock_log b"
    using assms(2) by (intro mult_le_mono1) simp
  with assms(1) show ?thesis by (simp add: geometry_def)
qed

section \<open>The header as bytes\<close>

lemma fold_write_indices:
  assumes "n \<le> m"
  shows "fold (\<lambda>i base. binio_write_uint32_be base (p + 4 * i) 0) [n + 1..<m + 1]
     (fold (\<lambda>i base. binio_write_uint32_be base (p + 4 * i) (xs ! (i - 1))) [1..<n + 1] (binio_write_uint32_be base p w)) =
   fold (\<lambda>i base. binio_write_uint32_be base (p + 4 * i) (if i = 0 then w else if i \<le> n then xs ! (i - 1) else 0)) [0..<m + 1] base"
    (is "_ = fold ?f _ _")
proof -
  have split: "[0..<m + 1] = 0 # [1..<n + 1] @ [n + 1..<m + 1]"
    using assms upt_add_eq_append [of 1 "n + 1" "m - n"] by (simp add: upt_conv_Cons del: upt_Suc)
  have "fold (\<lambda>i base. binio_write_uint32_be base (p + 4 * i) (xs ! (i - 1))) [1..<n + 1] y = fold ?f [1..<n + 1] y" for y
    by (rule fold_cong) auto
  moreover have "fold (\<lambda>i base. binio_write_uint32_be base (p + 4 * i) 0) [n + 1..<m + 1] y = fold ?f [n + 1..<m + 1] y" for y
    by (rule fold_cong) auto
  ultimately show ?thesis unfolding split by simp
qed

definition index_words :: "blockio \<Rightarrow> blockio_info \<Rightarrow> u32 list" where
  "index_words b bi = no_indices bi # take (unat (no_indices bi)) (indices bi) @ replicate (mmpm b - unat (no_indices bi)) 0"

definition info_ok :: "blockio \<Rightarrow> blockio_info \<Rightarrow> bool" where
  "info_ok b bi \<longleftrightarrow> length (indices bi) = mmpm b \<and> unat (no_indices bi) \<le> mmpm b"

lemma length_index_words: "info_ok b bi \<Longrightarrow> length (index_words b bi) = mmpm b + 1"
  by (simp add: index_words_def info_ok_def)

lemma write_indices_blit:
  assumes "info_ok b bi" "260 + 4 * mmpm b \<le> length base"
  shows "write_indices b bi base = blit 0x100 (concat (map be32 (index_words b bi))) base"
proof -
  let ?n = "unat (no_indices bi)"
  let ?f = "\<lambda>i. if i = 0 then no_indices bi else if i \<le> ?n then indices bi ! (i - 1) else 0"
  have "write_indices b bi base = fold (\<lambda>i base. binio_write_uint32_be base (0x100 + 4 * i) (?f i)) [0..<mmpm b + 1] base"
    using assms(1) fold_write_indices [of ?n "mmpm b" "0x100" "indices bi" base "no_indices bi"]
    by (simp add: write_indices_def layout Let_def info_ok_def)
  also have "\<dots> = blit 0x100 (concat (map (\<lambda>i. be32 (?f i)) [0..<mmpm b + 1])) base"
    using assms(2) by (intro binio_write_array_blit) simp
  also have "map (\<lambda>i. be32 (?f i)) [0..<mmpm b + 1] = map be32 (index_words b bi)"
  proof (rule nth_equalityI)
    fix i assume i: "i < length (map (\<lambda>i. be32 (?f i)) [0..<mmpm b + 1])"
    show "map (\<lambda>i. be32 (?f i)) [0..<mmpm b + 1] ! i = map be32 (index_words b bi) ! i"
      using i assms(1) by (cases i) (auto simp: index_words_def info_ok_def nth_append simp del: upt_Suc)
  qed (use length_index_words [OF assms(1)] in simp)
  finally show ?thesis .
qed

text \<open>The header before its own hash is added, as a series of copies into the buffer.\<close>

definition header_fields :: "gcrypt \<Rightarrow> blockio \<Rightarrow> blockio_dev \<Rightarrow> blockio_info \<Rightarrow> bytes \<Rightarrow> (nat \<times> bytes) list" where
  "header_fields g b dev bi base =
     [(bitmap_offset b, concat (map be32 (bits (status dev)))),
      (0x100, concat (map be32 (index_words b bi))),
      (0x80, replicate 128 0),
      (0x78, be32 (no_macroblocks dev)),
      (0x7C, be32 (reserved_macroblocks dev)),
      (0x70, magic),
      (0x68, be64 (bi_next_seqno bi)),
      (0x60, be64 (bi_seqno bi)),
      (0x40, juggler_hash_scheduled_seqnos (g_sha256 g) (infos b) (d_j dev)),
      (0x20, g_sha256 g (bslice (2 ^ mesoblk_log b) (mmpm b * 2 ^ mesoblk_log b) base))]"

definition header_body :: "gcrypt \<Rightarrow> blockio \<Rightarrow> blockio_dev \<Rightarrow> blockio_info \<Rightarrow> bytes \<Rightarrow> bytes" where
  "header_body g b dev bi base = blits (header_fields g b dev bi base) base"

definition dev_ok :: "blockio \<Rightarrow> blockio_dev \<Rightarrow> bool" where
  "dev_ok b dev \<longleftrightarrow> length (tmp_macroblock dev) = 2 ^ macroblock_log b \<and>
     no_bits (status dev) = of_nat (max_macroblocks b) \<and> bitmap_inv (status dev) \<and>
     cipher_size (d_c dev) = 2 ^ mesoblk_log b"

lemma geometry_update [simp]:
  "geometry (b\<lparr>infos := bis\<rparr>) = geometry b" "geometry (b\<lparr>unallocated := un\<rparr>) = geometry b"
  by (simp_all add: geometry_def)

lemma dev_ok_update [simp]:
  "dev_ok (b\<lparr>infos := bis\<rparr>) dev = dev_ok b dev" "dev_ok (b\<lparr>unallocated := un\<rparr>) dev = dev_ok b dev"
  "dev_ok (b\<lparr>disk := d\<rparr>) dev = dev_ok b dev"
  "dev_ok b (dev\<lparr>d_j := j\<rparr>) = dev_ok b dev" "dev_ok b (dev\<lparr>no_macroblocks := n\<rparr>) = dev_ok b dev"
  "dev_ok b (dev\<lparr>d_bi := bi\<rparr>) = dev_ok b dev" "dev_ok b (dev\<lparr>tail_macroblock := bi\<rparr>) = dev_ok b dev"
  "dev_ok b (dev\<lparr>updated := u\<rparr>) = dev_ok b dev" "dev_ok b (dev\<lparr>writes := w\<rparr>) = dev_ok b dev"
  "dev_ok b (dev\<lparr>replay_list := l\<rparr>) = dev_ok b dev"
  by (simp_all add: dev_ok_def)

lemma dev_ok_bitmap:
  assumes "geometry b" "dev_ok b dev"
  shows "length (bits (status dev)) = no_words (no_bits (status dev))"
    "bitmap_offset b + 4 * length (bits (status dev)) = 2 ^ mesoblk_log b"
  using assms geometry_sizes(4) [OF assms(1)] by (simp_all add: dev_ok_def bitmap_inv_def)

lemma length_magic [simp]: "length magic = 8"
  by (simp add: magic_def)

lemma length_juggler_hash:
  "gcrypt_ok g \<Longrightarrow> length (juggler_hash_scheduled_seqnos (g_sha256 g) bis j) = 32"
  by (simp add: juggler_hash_scheduled_seqnos_def gcrypt_ok_def)

lemma header_fields_apart:
  assumes geo: "geometry b" and dev: "dev_ok b dev" and info: "info_ok b bi" and g: "gcrypt_ok g"
  shows "fits (2 ^ mesoblk_log b) (header_fields g b dev bi base)" "apart (header_fields g b dev bi base)"
    "clear_of 0 32 (header_fields g b dev bi base)" "clear_of (2 ^ mesoblk_log b) n (header_fields g b dev bi base)"
proof -
  have sz: "bitmap_offset b + 4 * length (bits (status dev)) = 2 ^ mesoblk_log b"
    "bitmap_offset b = 260 + 4 * mmpm b" "264 \<le> bitmap_offset b"
    using geometry_sizes [OF geo] dev_ok_bitmap [OF geo dev] by linarith+
  have l: "length (g_sha256 g x) = 32" "length (juggler_hash_scheduled_seqnos (g_sha256 g) bis j) = 32"
    "length (concat (map be32 (index_words b bi))) = 4 * mmpm b + 4" for x bis j
    using g length_juggler_hash [OF g] length_index_words [OF info] by (simp_all add: gcrypt_ok_def)
  show "fits (2 ^ mesoblk_log b) (header_fields g b dev bi base)" unfolding sz(1) [symmetric]
    using sz(2,3) l by (simp add: header_fields_def)
  show "apart (header_fields g b dev bi base)" "clear_of 0 32 (header_fields g b dev bi base)"
    using sz(2,3) l by (simp_all add: header_fields_def)
  show "clear_of (2 ^ mesoblk_log b) n (header_fields g b dev bi base)" unfolding sz(1) [symmetric]
    using sz(2,3) l by (simp add: header_fields_def)
qed

lemma write_header_body:
  assumes geo: "geometry b" and dev: "dev_ok b dev" and info: "info_ok b bi" and g: "gcrypt_ok g"
    and len: "length base = 2 ^ macroblock_log b"
  shows "write_header g b dev bi base =
    blit 0 (g_sha256 g (bslice 32 (2 ^ mesoblk_log b - 32) (header_body g b dev bi base))) (header_body g b dev bi base)"
    "length (header_body g b dev bi base) = 2 ^ macroblock_log b"
proof -
  note sz = geometry_sizes [OF geo] and bm = dev_ok_bitmap [OF geo dev]
  have l: "length (g_sha256 g x) = 32" for x using g by (simp add: gcrypt_ok_def)
  have iw: "length (concat (map be32 (index_words b bi))) = 4 * mmpm b + 4"
    using length_index_words [OF info] by simp
  define b1 where "b1 = blit 0x20 (g_sha256 g (bslice (2 ^ mesoblk_log b) (mmpm b * 2 ^ mesoblk_log b) base)) base"
  define b2 where "b2 = blit 0x40 (juggler_hash_scheduled_seqnos (g_sha256 g) (infos b) (d_j dev)) b1"
  define b3 where "b3 = blit 0x60 (be64 (bi_seqno bi)) b2"
  define b4 where "b4 = blit 0x68 (be64 (bi_next_seqno bi)) b3"
  define b5 where "b5 = blit 0x70 magic b4"
  define b6 where "b6 = blit 0x7C (be32 (reserved_macroblocks dev)) b5"
  define b7 where "b7 = blit 0x78 (be32 (no_macroblocks dev)) b6"
  define b8 where "b8 = blit 0x80 (replicate 128 0) b7"
  define b9 where "b9 = blit 0x100 (concat (map be32 (index_words b bi))) b8"
  define b10 where "b10 = blit (bitmap_offset b) (concat (map be32 (bits (status dev)))) b9"
  let ?M = "(2 :: nat) ^ macroblock_log b"
  have room: "264 \<le> ?M" "260 + 4 * mmpm b \<le> ?M" "bitmap_offset b + 4 * length (bits (status dev)) \<le> ?M"
    using sz bm by linarith+
  have l1: "length b1 = ?M" unfolding b1_def by (subst length_blit) (use room len l in simp_all)
  have l2: "length b2 = ?M" unfolding b2_def by (subst length_blit) (use room l1 length_juggler_hash [OF g] in simp_all)
  have l3: "length b3 = ?M" unfolding b3_def by (subst length_blit) (use room l2 in simp_all)
  have l4: "length b4 = ?M" unfolding b4_def by (subst length_blit) (use room l3 in simp_all)
  have l5: "length b5 = ?M" unfolding b5_def by (subst length_blit) (use room l4 in simp_all)
  have l6: "length b6 = ?M" unfolding b6_def by (subst length_blit) (use room l5 in simp_all)
  have l7: "length b7 = ?M" unfolding b7_def by (subst length_blit) (use room l6 in simp_all)
  have l8: "length b8 = ?M" unfolding b8_def by (subst length_blit) (use room l7 in simp_all)
  have l9: "length b9 = ?M" unfolding b9_def by (subst length_blit) (use room l8 iw in simp_all)
  have l10: "length b10 = ?M" unfolding b10_def by (subst length_blit) (use room l9 in simp_all)
  have body: "header_body g b dev bi base = b10"
    by (simp only: header_body_def header_fields_def blits.simps b1_def b2_def b3_def b4_def b5_def b6_def b7_def b8_def b9_def b10_def)
  have w: "binio_write_uint64_be b2 0x60 (bi_seqno bi) = b3" "binio_write_uint64_be b3 0x68 (bi_next_seqno bi) = b4"
    "binio_write_uint32_be b5 0x7C (reserved_macroblocks dev) = b6" "binio_write_uint32_be b6 0x78 (no_macroblocks dev) = b7"
    using room l2 l3 l5 l6
    by (simp_all add: b3_def b4_def b6_def b7_def binio_write_uint64_be_blit binio_write_uint32_be_blit)
  have wi: "write_indices b bi b8 = b9" using write_indices_blit [OF info, of b8] room l8 by (simp add: b9_def)
  have wb: "bitmap_write b9 (bitmap_offset b) (status dev) = b10"
    unfolding b10_def using bm(1) room(3) l9 by (intro bitmap_write_blit) simp_all
  show "write_header g b dev bi base =
    blit 0 (g_sha256 g (bslice 32 (2 ^ mesoblk_log b - 32) (header_body g b dev bi base))) (header_body g b dev bi base)"
    unfolding write_header_def layout Let_def body
    by (simp only: b1_def [symmetric] b2_def [symmetric] w b5_def [symmetric] b8_def [symmetric] wi wb)
  show "length (header_body g b dev bi base) = ?M" unfolding body by (rule l10)
qed

lemma header_field_read:
  assumes "geometry b" "dev_ok b dev" "info_ok b bi" "gcrypt_ok g" "length base = 2 ^ macroblock_log b"
    and "(off, d) \<in> set (header_fields g b dev bi base)"
  shows "bslice off (length d) (header_body g b dev bi base) = d" "off + length d \<le> 2 ^ mesoblk_log b" "32 \<le> off \<or> d = []"
proof -
  note ap = header_fields_apart [OF assms(1-4), where base = base]
  have "fits (length base) (header_fields g b dev bi base)"
    by (rule fits_mono [OF ap(1)]) (use geometry_sizes(5) [OF assms(1)] assms(5) in simp)
  then show "bslice off (length d) (header_body g b dev bi base) = d"
    using ap(2) assms(6) by (simp add: header_body_def bslice_blits)
  show "off + length d \<le> 2 ^ mesoblk_log b" using ap(1) assms(6) by (auto simp: fits_def)
  show "32 \<le> off \<or> d = []" using assms(6) geometry_sizes(2) [OF assms(1)] by (auto simp: header_fields_def)
qed

section \<open>Mesoblocks of a buffer\<close>

abbreviation meso_at :: "nat \<Rightarrow> nat \<Rightarrow> bytes \<Rightarrow> bytes" where
  "meso_at sz i base \<equiv> bslice (i * sz) sz base"

lemma meso_disjoint: "i \<noteq> j \<Longrightarrow> i * sz + sz \<le> j * sz \<or> j * sz + sz \<le> (i :: nat) * sz"
proof -
  assume "i \<noteq> j"
  then have "Suc i \<le> j \<or> Suc j \<le> i" by linarith
  then have "Suc i * sz \<le> j * sz \<or> Suc j * sz \<le> i * sz" using mult_le_mono1 by blast
  then show ?thesis by (simp add: add.commute)
qed

text \<open>A loop that rewrites some mesoblocks of a buffer, each from its own contents.\<close>

lemma fold_meso:
  assumes "\<And>i base. i \<in> set is \<Longrightarrow> length base = n \<Longrightarrow> F i base = blit (i * sz) (f i (meso_at sz i base)) base"
    and "\<And>i x. i \<in> set is \<Longrightarrow> length x = sz \<Longrightarrow> length (f i x) = sz"
    and "\<And>i. i \<in> set is \<Longrightarrow> i * sz + sz \<le> n" and "distinct is" and "length base = n"
  shows "length (fold F is base) = n \<and> (\<forall>j. j * sz + sz \<le> n \<longrightarrow>
    meso_at sz j (fold F is base) = (if j \<in> set is then f j (meso_at sz j base) else meso_at sz j base))"
  using assms
proof (induction "is" arbitrary: base)
  case (Cons i "is")
  let ?b = "blit (i * sz) (f i (meso_at sz i base)) base"
  have i: "F i base = ?b" "i * sz + sz \<le> n" using Cons.prems by simp_all
  then have l: "length (f i (meso_at sz i base)) = sz" using Cons.prems(2,5) by simp
  have b: "length ?b = n" using i l Cons.prems(5) by (simp add: length_blit)
  have ih: "length (fold F is ?b) = n \<and> (\<forall>j. j * sz + sz \<le> n \<longrightarrow>
      meso_at sz j (fold F is ?b) = (if j \<in> set is then f j (meso_at sz j ?b) else meso_at sz j ?b))"
    by (rule Cons.IH) (use Cons.prems b in simp_all)
  have "meso_at sz j ?b = (if j = i then f i (meso_at sz i base) else meso_at sz j base)" if "j * sz + sz \<le> n" for j
    using i l Cons.prems(5) that meso_disjoint [of i j sz] by (auto simp: bslice_blit_same bslice_blit_disjoint)
  with ih i(1) Cons.prems(4) show ?case by simp
qed simp

lemma zero_unused_meso:
  assumes "geometry b" "length base = 2 ^ macroblock_log b"
  shows "length (zero_unused b n base) = 2 ^ macroblock_log b"
    "j \<le> mmpm b \<Longrightarrow> meso_at (2 ^ mesoblk_log b) j (zero_unused b n base) =
      (if n < j then replicate (2 ^ mesoblk_log b) 0 else meso_at (2 ^ mesoblk_log b) j base)"
proof -
  let ?s = "(2 :: nat) ^ mesoblk_log b"
  have fit: "i * ?s + ?s \<le> 2 ^ macroblock_log b" if "i \<le> mmpm b" for i
    using geometry_sizes(1) [OF assms(1)] mult_le_mono1 [of "i + 1" "mmpm b + 1" ?s] that by simp
  have f: "length (zero_unused b n base) = 2 ^ macroblock_log b \<and> (\<forall>j. j * ?s + ?s \<le> 2 ^ macroblock_log b \<longrightarrow>
      meso_at ?s j (zero_unused b n base) = (if j \<in> set [n + 1..<mmpm b + 1] then replicate ?s 0 else meso_at ?s j base))"
    unfolding zero_unused_def by (rule fold_meso) (use fit assms(2) in \<open>auto simp del: upt_Suc\<close>)
  then show "length (zero_unused b n base) = 2 ^ macroblock_log b" by blast
  show "meso_at ?s j (zero_unused b n base) = (if n < j then replicate ?s 0 else meso_at ?s j base)" if "j \<le> mmpm b"
    using f fit [OF that] that by (auto simp del: upt_Suc)
qed

lemma encrypt_data_meso:
  assumes geo: "geometry b" and len: "length base = 2 ^ macroblock_log b"
    and c: "cipher_ok g c" "cipher_size c = 2 ^ mesoblk_log b"
  shows "length (encrypt_data g b c seqno no base) = 2 ^ macroblock_log b"
    "j \<le> mmpm b \<Longrightarrow> meso_at (2 ^ mesoblk_log b) j (encrypt_data g b c seqno no base) =
      (if j = 0 then meso_at (2 ^ mesoblk_log b) j base
       else wide_enc g c seqno (of_nat j) (of_nat no) (meso_at (2 ^ mesoblk_log b) j base))"
proof -
  let ?s = "(2 :: nat) ^ mesoblk_log b"
  have fit: "i * ?s + ?s \<le> 2 ^ macroblock_log b" if "i \<le> mmpm b" for i
    using geometry_sizes(1) [OF geo] mult_le_mono1 [of "i + 1" "mmpm b + 1" ?s] that by simp
  have f: "length (encrypt_data g b c seqno no base) = 2 ^ macroblock_log b \<and> (\<forall>j. j * ?s + ?s \<le> 2 ^ macroblock_log b \<longrightarrow>
      meso_at ?s j (encrypt_data g b c seqno no base) = (if j \<in> set [1..<mmpm b + 1]
        then wide_enc g c seqno (of_nat j) (of_nat no) (meso_at ?s j base) else meso_at ?s j base))"
    unfolding encrypt_data_def
  proof (rule fold_meso)
    fix i :: nat and base' :: bytes
    assume i: "i \<in> set [1..<mmpm b + 1]" and l: "length base' = 2 ^ macroblock_log b"
    show "cipher_enc g c base' (i * ?s) (i * ?s) seqno (of_nat i) (of_nat no) =
      blit (i * ?s) (wide_enc g c seqno (of_nat i) (of_nat no) (meso_at ?s i base')) base'"
      using cipher_enc_local(1) [OF c(1), of "i * ?s" base'] fit [of i] i l c(2) by (simp del: upt_Suc)
  qed (use fit len length_wide(1) [OF c(1)] c(2) in \<open>auto simp del: upt_Suc\<close>)
  then show "length (encrypt_data g b c seqno no base) = 2 ^ macroblock_log b" by blast
  show "meso_at ?s j (encrypt_data g b c seqno no base) =
      (if j = 0 then meso_at ?s j base else wide_enc g c seqno (of_nat j) (of_nat no) (meso_at ?s j base))" if "j \<le> mmpm b"
    using f fit [OF that] that by (auto simp del: upt_Suc)
qed

section \<open>Reading a header back\<close>

text \<open>
  A buffer that starts with the header written for block \<open>bi\<close>: it is recognised and every field of it
  is read back.
\<close>

definition carries_header :: "gcrypt \<Rightarrow> blockio \<Rightarrow> blockio_dev \<Rightarrow> blockio_info \<Rightarrow> bytes \<Rightarrow> bytes \<Rightarrow> bool" where
  "carries_header g b dev bi base buf \<longleftrightarrow>
     length buf = 2 ^ macroblock_log b \<and> meso_at (2 ^ mesoblk_log b) 0 buf = meso_at (2 ^ mesoblk_log b) 0 (write_header g b dev bi base)"

lemma carries_header_field:
  assumes ok: "geometry b" "dev_ok b dev" "info_ok b bi" "gcrypt_ok g" "length base = 2 ^ macroblock_log b"
    and c: "carries_header g b dev bi base buf" and f: "(off, d) \<in> set (header_fields g b dev bi base)"
  shows "bslice off (length d) buf = d"
proof (cases "d = []")
  case True
  then show ?thesis by (simp add: bslice_def)
next
  case False
  note r = header_field_read [OF ok f] and wh = write_header_body [OF ok] and sz = geometry_sizes [OF ok(1)]
  let ?h = "header_body g b dev bi base" and ?m = "2 ^ mesoblk_log b"
  have "bslice off (length d) buf = bslice off (length d) (meso_at ?m 0 buf)" using r(2) by (simp add: bslice_bslice)
  also have "\<dots> = bslice off (length d) (write_header g b dev bi base)"
    using c r(2) by (simp add: carries_header_def bslice_bslice)
  also have "\<dots> = bslice off (length d) ?h"
  proof -
    have s: "length (g_sha256 g x) = 32" for x using ok(4) by (simp add: gcrypt_ok_def)
    have "off + length d \<le> length ?h" "32 \<le> length ?h" using r(2) wh(2) sz(2,4,5) by linarith+
    then show ?thesis unfolding wh(1) using r(3) False s by (intro bslice_blit_disjoint) auto
  qed
  also have "\<dots> = d" by (rule r(1))
  finally show ?thesis .
qed

lemma carries_header_valid:
  assumes ok: "geometry b" "dev_ok b dev" "info_ok b bi" "gcrypt_ok g" "length base = 2 ^ macroblock_log b"
    and c: "carries_header g b dev bi base buf"
  shows "header_valid g b buf"
proof -
  note wh = write_header_body [OF ok] and sz = geometry_sizes [OF ok(1)]
  let ?h = "header_body g b dev bi base" and ?m = "(2 :: nat) ^ mesoblk_log b"
  let ?sha = "g_sha256 g (bslice 32 (?m - 32) ?h)"
  have s: "length ?sha = 32" using ok(4) by (simp add: gcrypt_ok_def)
  have m: "264 \<le> ?m" "?m \<le> length ?h" using sz wh(2) by linarith+
  have pre: "bslice a n buf = bslice a n (blit 0 ?sha ?h)" if "a + n \<le> ?m" for a n
  proof -
    have "bslice a n (meso_at ?m 0 buf) = bslice a n (meso_at ?m 0 (blit 0 ?sha ?h))"
      using c wh(1) by (simp add: carries_header_def)
    then show ?thesis using that by (simp add: bslice_bslice)
  qed
  have "bslice 0x70 (length magic) buf = magic"
    by (rule carries_header_field [OF ok c]) (simp add: header_fields_def)
  moreover have "bslice 0 32 buf = ?sha" using pre [of 0 32] m s by (simp add: bslice_blit_same)
  moreover have "bslice 32 (?m - 32) buf = bslice 32 (?m - 32) ?h"
    using pre [of 32 "?m - 32"] m s by (simp add: bslice_blit_disjoint)
  ultimately show ?thesis by (simp add: header_valid_def layout)
qed

lemma index_words_nth:
  assumes "info_ok b bi" "i \<le> mmpm b"
  shows "index_words b bi ! i =
    (if i = 0 then no_indices bi else if i \<le> unat (no_indices bi) then indices bi ! (i - 1) else 0)"
  using assms by (cases i) (auto simp: index_words_def info_ok_def nth_append)

lemma carries_header_info:
  assumes ok: "geometry b" "dev_ok b dev" "info_ok b bi" "gcrypt_ok g" "length base = 2 ^ macroblock_log b"
    and c: "carries_header g b dev bi base buf" and sq: "0 < bi_seqno bi" "bi_seqno bi < bi_next_seqno bi"
  shows "read_info b bi0 buf = Inr (bi0\<lparr>data_hash := g_sha256 g (bslice (2 ^ mesoblk_log b) (mmpm b * 2 ^ mesoblk_log b) base),
    bi_seqno := bi_seqno bi, bi_next_seqno := bi_next_seqno bi, no_indices := no_indices bi, no_nonobsolete := no_indices bi,
    indices := take (unat (no_indices bi)) (indices bi) @ replicate (mmpm b - unat (no_indices bi)) 0\<rparr>)"
proof -
  note fld = carries_header_field [OF ok c] and sz = geometry_sizes [OF ok(1)]
  have len: "length buf = 2 ^ macroblock_log b" "264 \<le> length buf" "260 + 4 * mmpm b \<le> length buf"
    using c sz by (auto simp: carries_header_def)
  let ?n = "unat (no_indices bi)"
  have s: "length (g_sha256 g x) = 32" for x using ok(4) by (simp add: gcrypt_ok_def)
  have w: "bslice 0x60 8 buf = be64 (bi_seqno bi)" "bslice 0x68 8 buf = be64 (bi_next_seqno bi)"
    "bslice 0x20 32 buf = g_sha256 g (bslice (2 ^ mesoblk_log b) (mmpm b * 2 ^ mesoblk_log b) base)"
    "bslice 0x80 128 buf = replicate 128 0"
    "bslice 0x100 (4 * length (index_words b bi)) buf = concat (map be32 (index_words b bi))"
    using fld [of "0x60" "be64 (bi_seqno bi)"] fld [of "0x68" "be64 (bi_next_seqno bi)"] fld [of "0x80" "replicate 128 0"]
      fld [of "0x20" "g_sha256 g (bslice (2 ^ mesoblk_log b) (mmpm b * 2 ^ mesoblk_log b) base)"] s
      fld [of "0x100" "concat (map be32 (index_words b bi))"]
    by (simp_all add: header_fields_def)
  have seq: "binio_read_uint64_be buf 0x60 = bi_seqno bi" "binio_read_uint64_be buf 0x68 = bi_next_seqno bi"
    using w(1,2) len by (auto intro: binio_read_uint64_be_be64)
  have idx: "binio_read_uint32_be buf (0x100 + 4 * i) = index_words b bi ! i" if "i \<le> mmpm b" for i
    using w(5) len that length_index_words [OF ok(3)] by (intro binio_read_array) simp_all
  have n: "binio_read_uint32_be buf 0x100 = no_indices bi" using idx [of 0] index_words_nth [OF ok(3), of 0] by simp
  have le: "?n \<le> mmpm b" "length (indices bi) = mmpm b" using ok(3) by (simp_all add: info_ok_def)
  have zero: "\<not> (\<exists>i\<in>set [?n + 1..<mmpm b + 1]. binio_read_uint32_be buf (0x100 + 4 * i) \<noteq> 0)"
    using idx index_words_nth [OF ok(3)] by (auto simp del: upt_Suc)
  have "map (\<lambda>i. binio_read_uint32_be buf (0x100 + 4 * i)) [1..<?n + 1] = take ?n (indices bi)"
  proof (rule nth_equalityI)
    fix i assume "i < length (map (\<lambda>i. binio_read_uint32_be buf (0x100 + 4 * i)) [1..<?n + 1])"
    then show "map (\<lambda>i. binio_read_uint32_be buf (0x100 + 4 * i)) [1..<?n + 1] ! i = take ?n (indices bi) ! i"
      using le idx [of "1 + i"] index_words_nth [OF ok(3), of "1 + i"] by (simp del: upt_Suc)
  qed (use le in \<open>simp del: upt_Suc\<close>)
  then show ?thesis
    unfolding read_info_def layout Let_def n seq w(3,4) using zero sq le
    by (simp add: fatal_if_def not_le word_gt_0 del: upt_Suc set_upt)
qed

lemma carries_header_dev:
  assumes ok: "geometry b" "dev_ok b dev" "info_ok b bi" "gcrypt_ok g" "length base = 2 ^ macroblock_log b"
    and c: "carries_header g b dev bi base buf" and dev0: "dev_ok b dev0"
  shows "read_dev b buf dev0 = dev0\<lparr>status := status dev,
    seqnos_hash := juggler_hash_scheduled_seqnos (g_sha256 g) (infos b) (d_j dev),
    no_macroblocks := no_macroblocks dev, reserved_macroblocks := reserved_macroblocks dev\<rparr>"
proof -
  note fld = carries_header_field [OF ok c] and sz = geometry_sizes [OF ok(1)]
  note bm = dev_ok_bitmap [OF ok(1,2)] dev_ok_bitmap [OF ok(1) dev0]
  have len: "264 \<le> length buf" "2 ^ mesoblk_log b \<le> length buf"
    using c sz unfolding carries_header_def by linarith+
  have w: "bslice 0x78 4 buf = be32 (no_macroblocks dev)" "bslice 0x7C 4 buf = be32 (reserved_macroblocks dev)"
    "bslice 0x40 32 buf = juggler_hash_scheduled_seqnos (g_sha256 g) (infos b) (d_j dev)"
    "bslice (bitmap_offset b) (4 * length (bits (status dev))) buf = concat (map be32 (bits (status dev)))"
    using fld [of "0x78" "be32 (no_macroblocks dev)"] fld [of "0x7C" "be32 (reserved_macroblocks dev)"]
      fld [of "0x40" "juggler_hash_scheduled_seqnos (g_sha256 g) (infos b) (d_j dev)"] length_juggler_hash [OF ok(4)]
      fld [of "bitmap_offset b" "concat (map be32 (bits (status dev)))"]
    by (simp_all add: header_fields_def)
  have rd: "binio_read_uint32_be buf 0x78 = no_macroblocks dev" "binio_read_uint32_be buf 0x7C = reserved_macroblocks dev"
    using w(1,2) len by (auto intro: binio_read_uint32_be_be32)
  have "bitmap_read (status dev0) buf (bitmap_offset b) =
      (status dev0)\<lparr>bits := bits (status dev), no_set := of_nat (card (words_abs (bits (status dev))))\<rparr>"
    using w(4) bm len ok(2) dev0 by (intro bitmap_read_array) (simp_all add: dev_ok_def)
  also have "\<dots> = status dev"
  proof -
    have nb: "no_bits (status dev0) = no_bits (status dev)" using ok(2) dev0 by (simp add: dev_ok_def)
    have "unat (no_set (status dev)) = card (words_abs (bits (status dev)))"
      using ok(2) by (simp add: dev_ok_def bitmap_inv_def bitmap_abs_words)
    then have "of_nat (card (words_abs (bits (status dev)))) = no_set (status dev)"
      by (metis of_nat_unat ucast_id)
    with nb show ?thesis by (cases "status dev0"; cases "status dev") simp
  qed
  finally show ?thesis by (simp add: read_dev_def layout w rd)
qed

section \<open>What a write leaves on disk\<close>

text \<open>The buffer that the header is put into: unused mesoblocks zeroed, all of them encrypted.\<close>

definition data_base :: "gcrypt \<Rightarrow> blockio \<Rightarrow> blockio_dev \<Rightarrow> nat \<Rightarrow> bytes" where
  "data_base g b dev no = encrypt_data g b (d_c dev) (bi_seqno (infos b no)) no
     (zero_unused b (unat (no_indices (infos b no))) (tmp_macroblock dev))"

definition data_meso :: "blockio \<Rightarrow> blockio_dev \<Rightarrow> nat \<Rightarrow> nat \<Rightarrow> bytes" where
  "data_meso b dev no k = (if k < unat (no_indices (infos b no)) then meso_at (2 ^ mesoblk_log b) (Suc k) (tmp_macroblock dev)
     else replicate (2 ^ mesoblk_log b) 0)"

definition write_ok :: "gcrypt \<Rightarrow> bdev \<Rightarrow> nat \<Rightarrow> bool" where
  "write_ok g s no \<longleftrightarrow> geometry (fst s) \<and> dev_ok (fst s) (snd s) \<and> cipher_ok g (d_c (snd s)) \<and>
     d_bi (snd s) = Some no \<and> bi_dev (infos (fst s) no) \<noteq> None \<and> no < total_macroblocks (fst s) \<and>
     info_ok (fst s) (infos (fst s) no)"

lemma data_base_meso:
  assumes "write_ok g (b, dev) no"
  shows "length (data_base g b dev no) = 2 ^ macroblock_log b"
    "k < mmpm b \<Longrightarrow> meso_at (2 ^ mesoblk_log b) (Suc k) (data_base g b dev no) =
       wide_enc g (d_c dev) (bi_seqno (infos b no)) (of_nat (Suc k)) (of_nat no) (data_meso b dev no k)"
proof -
  have ok: "geometry b" "length (tmp_macroblock dev) = 2 ^ macroblock_log b" "cipher_ok g (d_c dev)"
    "cipher_size (d_c dev) = 2 ^ mesoblk_log b"
    using assms by (simp_all add: write_ok_def dev_ok_def)
  let ?z = "zero_unused b (unat (no_indices (infos b no))) (tmp_macroblock dev)"
  note z = zero_unused_meso [OF ok(1,2), where n = "unat (no_indices (infos b no))"]
  note e = encrypt_data_meso [OF ok(1) z(1) ok(3,4)]
  show "length (data_base g b dev no) = 2 ^ macroblock_log b" unfolding data_base_def by (rule e(1))
  show "meso_at (2 ^ mesoblk_log b) (Suc k) (data_base g b dev no) =
       wide_enc g (d_c dev) (bi_seqno (infos b no)) (of_nat (Suc k)) (of_nat no) (data_meso b dev no k)" if "k < mmpm b"
    unfolding data_base_def using e(2) [of "Suc k"] z(2) [of "Suc k"] that by (simp add: data_meso_def)
qed

lemma meso_in_data:
  "k < n \<Longrightarrow> meso_at sz (Suc k) x = meso_at sz k (bslice sz (n * sz) x)"
proof -
  assume "k < n"
  then have "Suc k * sz \<le> n * sz" by (intro mult_le_mono1) simp
  then show ?thesis by (simp add: bslice_bslice)
qed

text \<open>The macroblock that is written: \<open>img\<close> holds the encrypted header and the encrypted mesoblocks.\<close>

definition image_of :: "gcrypt \<Rightarrow> blockio \<Rightarrow> blockio_dev \<Rightarrow> nat \<Rightarrow> bytes \<Rightarrow> bool" where
  "image_of g b dev no img \<longleftrightarrow> length img = 2 ^ macroblock_log b \<and>
     wide_dec g (d_c dev) 0 0 (of_nat no) (meso_at (2 ^ mesoblk_log b) 0 img) =
       meso_at (2 ^ mesoblk_log b) 0 (write_header g b dev (infos b no) (data_base g b dev no)) \<and>
     bslice (2 ^ mesoblk_log b) (mmpm b * 2 ^ mesoblk_log b) img =
       bslice (2 ^ mesoblk_log b) (mmpm b * 2 ^ mesoblk_log b) (data_base g b dev no)"

lemma write_current_image:
  assumes ok: "write_ok g (b, dev) no"
  shows "\<exists>img. image_of g b dev no img \<and> blockio_dev_write_current_macroblock g (b, dev) =
    Inr ((set_info b no ((infos b no)\<lparr>no_nonobsolete := no_indices (infos b no)\<rparr>))\<lparr>disk := blit (no * 2 ^ macroblock_log b) img (disk b)\<rparr>,
      dev\<lparr>tmp_macroblock := img, writes := writes dev + 1, d_bi := None\<rparr>)"
proof -
  have geo: "geometry b" and dv: "dev_ok b dev" and c: "cipher_ok g (d_c dev)" "cipher_size (d_c dev) = 2 ^ mesoblk_log b"
    and inf: "info_ok b (infos b no)" and g: "gcrypt_ok g" and tot: "no < total_macroblocks b"
    and cur: "d_bi dev = Some no" "bi_dev (infos b no) \<noteq> None"
    using ok by (auto simp: write_ok_def dev_ok_def cipher_ok_def)
  let ?m = "(2 :: nat) ^ mesoblk_log b" and ?M = "(2 :: nat) ^ macroblock_log b"
  let ?base = "data_base g b dev no" and ?h = "write_header g b dev (infos b no) (data_base g b dev no)"
  note wh = write_header_body [OF geo dv inf g data_base_meso(1) [OF ok]] and sz = geometry_sizes [OF geo]
  have sha: "length (g_sha256 g x) = 32" for x using g by (simp add: gcrypt_ok_def)
  have m: "264 \<le> ?m" "?m \<le> ?M" "?m + mmpm b * ?m = ?M" using sz(1,2,4,5) by simp_all
  have lh: "length ?h = ?M" unfolding wh(1) using wh(2) m sha by (subst length_blit) simp_all
  define img where "img = cipher_enc g (d_c dev) ?h 0 0 0 0 (of_nat no)"
  let ?e = "wide_enc g (d_c dev) 0 0 (of_nat no) (meso_at ?m 0 ?h)"
  have img: "img = blit 0 ?e ?h" unfolding img_def using cipher_enc_local(1) [OF c(1), of 0 ?h] c(2) lh m by simp
  have le: "length (meso_at ?m 0 ?h) = ?m" "length ?e = ?m" using length_wide(1) [OF c(1)] c(2) lh m by simp_all
  have li: "length img = ?M" unfolding img using le lh m by (subst length_blit) simp_all
  have "meso_at ?m 0 img = ?e" unfolding img using le lh m by (simp add: bslice_blit_same)
  then have "wide_dec g (d_c dev) 0 0 (of_nat no) (meso_at ?m 0 img) = meso_at ?m 0 ?h"
    using wide_dec_enc [OF c(1)] le c(2) by simp
  moreover have "bslice ?m (mmpm b * ?m) img = bslice ?m (mmpm b * ?m) ?base"
  proof -
    have "bslice ?m (mmpm b * ?m) img = bslice ?m (mmpm b * ?m) ?h"
      unfolding img using le lh m by (intro bslice_blit_disjoint) simp_all
    also have "\<dots> = bslice ?m (mmpm b * ?m) (header_body g b dev (infos b no) ?base)"
      unfolding wh(1) using wh(2) m sha by (intro bslice_blit_disjoint) simp_all
    also have "\<dots> = bslice ?m (mmpm b * ?m) ?base"
      unfolding header_body_def
      by (rule bslice_blits_outside [OF fits_mono [OF header_fields_apart(1) [OF geo dv inf g]] header_fields_apart(4) [OF geo dv inf g]])
        (use data_base_meso(1) [OF ok] m in simp_all)
    finally show ?thesis .
  qed
  ultimately have "image_of g b dev no img" using li by (simp add: image_of_def)
  moreover have "no * ?M + ?M \<le> length (disk b)" by (rule macroblock_inside [OF geo tot])
  moreover have "img \<noteq> []" using li by auto
  ultimately have "image_of g b dev no img" "stream_write (disk b) img (no * ?M) = Inr (blit (no * ?M) img (disk b))"
    using li by (simp_all add: stream_write_def)
  then show ?thesis
    using cur tot li
    by (intro exI [of _ img]) (simp add: blockio_dev_write_current_macroblock_def blockio_get_macroblock_index_def Let_def
        img_def data_base_def set_info_def)
qed

lemma image_meso:
  assumes ok: "write_ok g (b, dev) no" and img: "image_of g b dev no img" and k: "k < mmpm b"
  shows "meso_at (2 ^ mesoblk_log b) (Suc k) img =
    wide_enc g (d_c dev) (bi_seqno (infos b no)) (of_nat (Suc k)) (of_nat no) (data_meso b dev no k)"
  using data_base_meso(2) [OF ok k] meso_in_data [OF k, of _ img] meso_in_data [OF k, of _ "data_base g b dev no"] img
  by (simp only: image_of_def)

lemma length_data_meso: "write_ok g (b, dev) no \<Longrightarrow> k < mmpm b \<Longrightarrow> length (data_meso b dev no k) = 2 ^ mesoblk_log b"
proof -
  assume ok: "write_ok g (b, dev) no" and k: "k < mmpm b"
  have "(Suc k + 1) * 2 ^ mesoblk_log b \<le> (mmpm b + 1) * 2 ^ mesoblk_log b" using k by (intro mult_le_mono1) simp
  then show ?thesis
    using ok geometry_sizes(1) [of b] by (simp add: data_meso_def write_ok_def dev_ok_def)
qed

text \<open>Reading a mesoblock of a macroblock whose image is on disk.\<close>

lemma read_mesoblk_image:
  assumes ok: "write_ok g (b, dev) no" and img: "image_of g b dev no img" and k: "k < mmpm b"
    and dsk: "bslice (no * 2 ^ macroblock_log b) (2 ^ macroblock_log b) (disk b2) = img"
    and room: "no * 2 ^ macroblock_log b + 2 ^ macroblock_log b \<le> length (disk b2)"
    and same: "macroblock_log b2 = macroblock_log b" "mesoblk_log b2 = mesoblk_log b"
      "bi_seqno (infos b2 no) = bi_seqno (infos b no)" "d_c dev2 = d_c dev"
  shows "blockio_dev_read_mesoblk g (b2, dev2) no k = Inr (data_meso b dev no k)"
proof -
  let ?m = "(2 :: nat) ^ mesoblk_log b" and ?M = "(2 :: nat) ^ macroblock_log b"
  have geo: "geometry b" and c: "cipher_ok g (d_c dev)" "cipher_size (d_c dev) = ?m"
    using ok by (auto simp: write_ok_def dev_ok_def)
  have in_img: "Suc k * ?m + ?m \<le> ?M"
    using geometry_sizes(1) [OF geo] mult_le_mono1 [of "Suc k + 1" "mmpm b + 1" ?m] k by simp
  have "bslice (no * ?M + Suc k * ?m) ?m (disk b2) = bslice (Suc k * ?m) ?m (bslice (no * ?M) ?M (disk b2))"
    using in_img by (simp add: bslice_bslice)
  also have "\<dots> = wide_enc g (d_c dev) (bi_seqno (infos b no)) (of_nat (Suc k)) (of_nat no) (data_meso b dev no k)"
    unfolding dsk using image_meso [OF ok img k] by simp
  finally have rd: "stream_read (disk b2) (no * ?M + Suc k * ?m) ?m =
      Inr (wide_enc g (d_c dev) (bi_seqno (infos b no)) (of_nat (Suc k)) (of_nat no) (data_meso b dev no k))"
    using in_img room by (simp add: stream_read_def)
  have "cipher_dec g (d_c dev) x 0 0 q i j = wide_dec g (d_c dev) q i j x" for x q i j by (simp add: wide_dec_def)
  then show ?thesis
    using rd same wide_dec_enc [OF c(1)] c(2) length_data_meso [OF ok k]
    by (simp add: blockio_dev_read_mesoblk_def del: of_nat_Suc)
qed

lemma macroblock_disjoint:
  assumes "no \<noteq> no'" "length img = M" "no * M + M \<le> length d" "no' * M + M \<le> length d" "off + n \<le> M"
  shows "bslice (no' * M + off) n (blit (no * M) img d) = bslice (no' * M + off) n d"
  using assms meso_disjoint [OF assms(1), of M] by (intro bslice_blit_disjoint) auto

section \<open>Scanning\<close>

lemma insert_before_find:
  "insert_before xs x (find P xs) = takeWhile (\<lambda>y. \<not> P y) xs @ x # dropWhile (\<lambda>y. \<not> P y) xs"
proof (induction xs)
  case (Cons y ys)
  show ?case
  proof (cases "find P ys")
    case None
    then show ?thesis using Cons by (auto simp: insert_before_def)
  next
    case (Some z)
    then have "P z" by (auto simp: find_Some_iff)
    then show ?thesis using Cons Some by (auto simp: insert_before_def)
  qed
qed (simp add: insert_before_def)

definition seqno_ordered :: "infos \<Rightarrow> nat list \<Rightarrow> bool" where
  "seqno_ordered bis xs = sorted_wrt (\<lambda>x y. bi_seqno (bis x) < bi_seqno (bis y)) xs"

lemma seqno_ordered_cong:
  "(\<And>x. x \<in> set xs \<Longrightarrow> bi_seqno (bis' x) = bi_seqno (bis x)) \<Longrightarrow> seqno_ordered bis' xs = seqno_ordered bis xs"
  by (induction xs) (auto simp: seqno_ordered_def)

lemma iter_compare_seqno:
  "\<forall>x\<in>set xs. bi_seqno (bis x) \<noteq> s \<Longrightarrow> iter_list (compare_seqno bis s) xs () = Inr (find (\<lambda>x. s < bi_seqno (bis x)) xs, ())"
proof (induction xs)
  case (Cons x xs)
  then have "compare_seqno bis s x () = Inr (if s < bi_seqno (bis x) then Some x else None, ())"
    by (auto simp: compare_seqno_def asserting_def not_less_iff_gr_or_eq)
  with Cons show ?case by simp
qed simp

lemma sort_to_replay_ordered:
  assumes "seqno_ordered bis rep" "\<forall>x\<in>set rep. bi_seqno (bis x) \<noteq> bi_seqno (bis no)"
  shows "\<exists>rep'. sort_to_replay bis rep no = Inr rep' \<and> seqno_ordered bis rep' \<and> mset rep' = add_mset no (mset rep)"
proof -
  let ?p = "\<lambda>y. \<not> bi_seqno (bis no) < bi_seqno (bis y)"
  have run: "sort_to_replay bis rep no = Inr (takeWhile ?p rep @ no # dropWhile ?p rep)"
    using iter_compare_seqno [OF assms(2)] insert_before_find [of rep no "\<lambda>y. bi_seqno (bis no) < bi_seqno (bis y)"]
    by (simp add: sort_to_replay_def)
  have "seqno_ordered bis (takeWhile ?p rep @ no # dropWhile ?p rep) \<and>
      mset (takeWhile ?p rep @ no # dropWhile ?p rep) = add_mset no (mset rep)"
    using assms
  proof (induction rep)
    case (Cons x xs)
    then show ?case by (auto simp: seqno_ordered_def dest: set_takeWhileD set_dropWhileD)
  qed (simp add: seqno_ordered_def)
  with run show ?thesis by blast
qed

definition same_layout :: "blockio \<Rightarrow> blockio \<Rightarrow> bool" where
  "same_layout b b2 \<longleftrightarrow> macroblock_log b2 = macroblock_log b \<and> mesoblk_log b2 = mesoblk_log b \<and> mmpm b2 = mmpm b \<and>
     bitmap_offset b2 = bitmap_offset b \<and> max_macroblocks b2 = max_macroblocks b"

text \<open>The descriptor that a scan makes of a written block.\<close>

definition scanned_info :: "gcrypt \<Rightarrow> blockio \<Rightarrow> blockio_dev \<Rightarrow> nat \<Rightarrow> blockio_info \<Rightarrow> blockio_info" where
  "scanned_info g b dev no bi0 =
     bi0\<lparr>data_hash := g_sha256 g (bslice (2 ^ mesoblk_log b) (mmpm b * 2 ^ mesoblk_log b) (data_base g b dev no)),
       bi_seqno := bi_seqno (infos b no), bi_next_seqno := bi_next_seqno (infos b no),
       no_indices := no_indices (infos b no), no_nonobsolete := no_indices (infos b no),
       indices := take (unat (no_indices (infos b no))) (indices (infos b no)) @ replicate (mmpm b - unat (no_indices (infos b no))) 0\<rparr>"

text \<open>The state of a scan that has not seen block \<open>no\<close> yet.\<close>

definition scan_ok :: "gcrypt \<Rightarrow> bdev \<times> u64 \<Rightarrow> bool" where
  "scan_ok g s \<longleftrightarrow> (let ((b, dev), acc) = s in
     geometry b \<and> dev_ok b dev \<and> cipher_ok g (d_c dev) \<and> seqno_ordered (infos b) (replay_list dev) \<and>
     (\<forall>x\<in>set (replay_list dev). bi_seqno (infos b x) \<le> acc))"

lemma scan_reads_image:
  assumes ok: "write_ok g (b, dev) no" and img: "image_of g b dev no img"
    and dsk: "bslice (no * 2 ^ macroblock_log b) (2 ^ macroblock_log b) (disk b2) = img"
    and room: "no * 2 ^ macroblock_log b + 2 ^ macroblock_log b \<le> length (disk b2)"
    and lay: "same_layout b b2" and c2: "d_c dev2 = d_c dev" and tmp: "length (tmp_macroblock dev2) = 2 ^ macroblock_log b"
  shows "\<exists>buf. stream_read (disk b2) (no * 2 ^ macroblock_log b2) (2 ^ mesoblk_log b2) = Inr buf \<and>
    carries_header g b dev (infos b no) (data_base g b dev no) (cipher_dec g (d_c dev2) (blit 0 buf (tmp_macroblock dev2)) 0 0 0 0 (of_nat no))"
proof -
  let ?m = "(2 :: nat) ^ mesoblk_log b" and ?M = "(2 :: nat) ^ macroblock_log b"
  have c: "cipher_ok g (d_c dev)" "cipher_size (d_c dev) = ?m" and m: "?m \<le> ?M"
    using ok geometry_sizes(5) [of b] by (auto simp: write_ok_def dev_ok_def)
  let ?buf = "meso_at ?m 0 img"
  have li: "length img = ?M" and lb: "length ?buf = ?m" using img m by (simp_all add: image_of_def)
  have "bslice (no * ?M) ?m (disk b2) = bslice 0 ?m (bslice (no * ?M) ?M (disk b2))" using m by (simp add: bslice_bslice)
  moreover have "\<not> length (disk b2) < no * ?M + ?m" using room m by linarith
  ultimately have rd: "stream_read (disk b2) (no * ?M) ?m = Inr ?buf"
    using dsk by (simp add: stream_read_def)
  let ?t = "blit 0 ?buf (tmp_macroblock dev2)"
  have lt: "length ?t = ?M" "meso_at ?m 0 ?t = ?buf"
    using tmp lb m by (simp_all add: length_blit bslice_blit_same)
  let ?d = "wide_dec g (d_c dev) 0 0 (of_nat no) ?buf"
  have dec: "cipher_dec g (d_c dev) ?t 0 0 0 0 (of_nat no) = blit 0 ?d ?t"
    using cipher_dec_local(1) [OF c(1), of 0 ?t] c(2) lt m by simp
  have ld: "length ?d = ?m" using length_wide(2) [OF c(1)] c(2) lb by simp
  have "carries_header g b dev (infos b no) (data_base g b dev no) (blit 0 ?d ?t)"
    using ld lt m img by (simp add: carries_header_def length_blit bslice_blit_same image_of_def)
  then show ?thesis using rd dec lay c2 by (simp add: same_layout_def)
qed

lemma read_dev_layout [simp]:
  "read_dev (b\<lparr>infos := bis\<rparr>) base dev = read_dev b base dev" "read_dev (b\<lparr>unallocated := un\<rparr>) base dev = read_dev b base dev"
  by (simp_all add: read_dev_def)

lemma scan_header_image:
  assumes ok: "write_ok g (b, dev) no" and img: "image_of g b dev no img"
    and sq: "0 < bi_seqno (infos b no)" "bi_seqno (infos b no) < bi_next_seqno (infos b no)"
    and dsk: "bslice (no * 2 ^ macroblock_log b) (2 ^ macroblock_log b) (disk b2) = img"
    and lay: "same_layout b b2" and sc: "scan_ok g ((b2, dev2), acc)" and c2: "d_c dev2 = d_c dev"
    and no: "no < total_macroblocks b2" "bi_dev (infos b2 no) = None" "no \<in> set (unallocated b2)" "no \<notin> set (replay_list dev2)"
    and new: "\<forall>x\<in>set (replay_list dev2). bi_seqno (infos b2 x) \<noteq> bi_seqno (infos b no)" "acc \<noteq> bi_seqno (infos b no)"
  defines "bi' \<equiv> (scanned_info g b dev no (infos b2 no))\<lparr>bi_dev := Some (d_id dev2)\<rparr>"
  shows "\<exists>tmp rep dev3. blockio_dev_scan_header g no ((b2, dev2), acc) =
      Inr (((set_info b2 no bi')\<lparr>unallocated := remove1 no (unallocated b2)\<rparr>, dev3), max acc (bi_seqno (infos b no))) \<and>
    seqno_ordered ((infos b2)(no := bi')) rep \<and> mset rep = add_mset no (mset (replay_list dev2)) \<and> length tmp = 2 ^ macroblock_log b \<and>
    dev3 = (if acc < bi_seqno (infos b no)
      then dev2\<lparr>tmp_macroblock := tmp, replay_list := rep, status := status dev, no_macroblocks := no_macroblocks dev,
        reserved_macroblocks := reserved_macroblocks dev,
        seqnos_hash := juggler_hash_scheduled_seqnos (g_sha256 g) (infos b) (d_j dev)\<rparr>
      else dev2\<lparr>tmp_macroblock := tmp, replay_list := rep\<rparr>)"
proof -
  let ?s = "bi_seqno (infos b no)"
  have k: "geometry b" "dev_ok b dev" "info_ok b (infos b no)" "gcrypt_ok g" "length (data_base g b dev no) = 2 ^ macroblock_log b"
    using ok data_base_meso(1) [OF ok] by (auto simp: write_ok_def cipher_ok_def)
  have geo2: "geometry b2" and dv2: "dev_ok b2 dev2" using sc by (simp_all add: scan_ok_def)
  have room: "no * 2 ^ macroblock_log b + 2 ^ macroblock_log b \<le> length (disk b2)"
    using macroblock_inside [OF geo2 no(1)] lay by (simp add: same_layout_def)
  have "length (tmp_macroblock dev2) = 2 ^ macroblock_log b" using dv2 lay by (simp add: dev_ok_def same_layout_def)
  from scan_reads_image [OF ok img dsk room lay c2 this] obtain buf
    where rd: "stream_read (disk b2) (no * 2 ^ macroblock_log b2) (2 ^ mesoblk_log b2) = Inr buf"
      and ch: "carries_header g b dev (infos b no) (data_base g b dev no)
        (cipher_dec g (d_c dev2) (blit 0 buf (tmp_macroblock dev2)) 0 0 0 0 (of_nat no))" by blast
  define tmp where "tmp = cipher_dec g (d_c dev2) (blit 0 buf (tmp_macroblock dev2)) 0 0 0 0 (of_nat no)"
  note ch = ch [folded tmp_def]
  have valid: "header_valid g b2 tmp"
    using carries_header_valid [OF k ch] lay by (simp add: header_valid_def same_layout_def)
  have info: "read_info b2 (infos b2 no) tmp = Inr (scanned_info g b dev no (infos b2 no))"
    using carries_header_info [OF k ch sq] lay by (simp add: read_info_def same_layout_def scanned_info_def)
  define bis where "bis = (infos b2)(no := scanned_info g b dev no (infos b2 no))"
  have bs: "bi_seqno (bis no) = ?s" "bi_seqno (bis x) = bi_seqno (infos b2 x)" if "x \<in> set (replay_list dev2)" for x
    using no(4) that by (auto simp: bis_def scanned_info_def)
  have bs': "bi_seqno (bis no) = ?s" by (simp add: bis_def scanned_info_def)
  have "seqno_ordered bis (replay_list dev2)"
    using sc seqno_ordered_cong [of "replay_list dev2" bis "infos b2"] bs(2) by (simp add: scan_ok_def)
  moreover have "\<forall>x\<in>set (replay_list dev2). bi_seqno (bis x) \<noteq> bi_seqno (bis no)" using new(1) bs by simp
  ultimately obtain rep where rep: "sort_to_replay bis (replay_list dev2) no = Inr rep" "seqno_ordered bis rep"
    "mset rep = add_mset no (mset (replay_list dev2))"
    using sort_to_replay_ordered by blast
  have lt: "length tmp = 2 ^ macroblock_log b" using ch by (simp add: carries_header_def)
  have dev2': "read_dev b2 tmp (dev2\<lparr>tmp_macroblock := tmp, replay_list := rep\<rparr>) = dev2\<lparr>tmp_macroblock := tmp, replay_list := rep,
      status := status dev, no_macroblocks := no_macroblocks dev, reserved_macroblocks := reserved_macroblocks dev,
      seqnos_hash := juggler_hash_scheduled_seqnos (g_sha256 g) (infos b) (d_j dev)\<rparr>"
  proof -
    have "dev_ok b (dev2\<lparr>tmp_macroblock := tmp, replay_list := rep\<rparr>)" using dv2 lay lt by (simp add: dev_ok_def same_layout_def)
    from carries_header_dev [OF k ch this] show ?thesis using lay by (simp add: read_dev_def same_layout_def)
  qed
  have "seqno_ordered ((infos b2)(no := bi')) rep"
    using rep(2) seqno_ordered_cong [of rep "(infos b2)(no := bi')" bis] by (simp add: bis_def bi'_def)
  with rep dev2' show ?thesis
    using no rd valid info new(2) bs' lt
    by (intro exI [of _ tmp] exI [of _ rep])
      (auto simp: blockio_dev_scan_header_def Let_def tmp_def bis_def bi'_def set_info_def scanned_info_def max_def)
qed

section \<open>Allocation\<close>

text \<open>
  The pool and a device that allocates from it: pool blocks exist, belong to nobody, are neither
  marked as used by the device nor known to its juggler.
\<close>

definition alloc_ok :: "bdev \<Rightarrow> bool" where
  "alloc_ok s \<longleftrightarrow> (let (b, dev) = s in
     geometry b \<and> dev_ok b dev \<and> total_macroblocks b < 2 ^ 31 \<and> distinct (unallocated b) \<and>
     (\<forall>x\<in>set (unallocated b). x < total_macroblocks b \<and> bi_dev (infos b x) = None \<and>
        x \<notin> bitmap_abs (status dev) \<and> x \<notin> set (scheduled (d_j dev) @ unscheduled (d_j dev))) \<and>
     juggler_inv (infos b) (d_j dev) \<and> set (scheduled (d_j dev) @ unscheduled (d_j dev)) \<subseteq> {..<total_macroblocks b})"

definition prepared :: "blockio \<Rightarrow> blockio_dev \<Rightarrow> blockio_info \<Rightarrow> blockio_info" where
  "prepared b dev bi = bi\<lparr>bi_dev := Some (d_id dev), bi_seqno := 0, bi_next_seqno := 0, no_indices := 0, no_nonobsolete := 0,
     indices := replicate (mmpm b) 0\<rparr>"

lemma status_no_bits:
  assumes "geometry b" "dev_ok b dev" "x < total_macroblocks b"
  shows "x < unat (no_bits (status dev))"
proof -
  have "unat (of_nat (max_macroblocks b) :: u32) = max_macroblocks b"
    using geometry_sizes(7) [OF assms(1)] by (simp add: unat_of_nat_small)
  moreover have "total_macroblocks b \<le> max_macroblocks b" using assms(1) unfolding geometry_def by blast
  ultimately show ?thesis using assms(2,3) by (simp add: dev_ok_def)
qed

lemma mark_used:
  assumes "geometry b" "dev_ok b dev" "x < total_macroblocks b" "x \<notin> bitmap_abs (status dev)" "bi_dev (infos b x) \<noteq> None"
  shows "\<exists>bm. blockio_dev_change_macroblock_status (b, dev) x USED = Inr (dev\<lparr>status := bm\<rparr>) \<and> bitmap_inv bm \<and>
    no_bits bm = no_bits (status dev) \<and> bitmap_abs bm = insert x (bitmap_abs (status dev))"
proof -
  have inv: "bitmap_inv (status dev)" using assms(2) by (simp add: dev_ok_def)
  have x: "unat (of_nat x :: u32) = x" "of_nat x < no_bits (status dev)"
    using of_nat_index [OF inv status_no_bits [OF assms(1,2,3)]] by simp_all
  obtain bm where "bitmap_setbit_safe (status dev) (of_nat x) = Inr bm" "bitmap_inv bm" "no_bits bm = no_bits (status dev)"
    "bitmap_abs bm = insert x (bitmap_abs (status dev))"
    using bitmap_setbit_ok [OF inv x(2)] x(1) assms(4) by auto
  then show ?thesis
    using assms(4,5) bitmap_getbits_single [OF inv x(2)] x(1)
    by (intro exI [of _ bm]) (simp add: blockio_dev_change_macroblock_status_def blockio_get_macroblock_index_def status_bit_def)
qed

lemma juggler_inv_add_unscheduled:
  assumes inv: "juggler_inv bis j" and new: "x \<notin> set (scheduled j @ unscheduled j)"
    and sub: "set (scheduled j @ unscheduled j) \<subseteq> {..<n}" "x < n" "n < 2 ^ 31"
    and bi: "bi_seqno bi = 0" "bi_next_seqno bi = 0" and r: "length r \<le> length (j_r j)"
  defines "j' \<equiv> j\<lparr>no_unscheduled := no_unscheduled j + 1, unscheduled := x # unscheduled j, j_r := r\<rparr>"
  shows "juggler_add_macroblock (bis(x := bi)) (j\<lparr>j_r := r\<rparr>) x = Inr j' \<and> juggler_inv (bis(x := bi)) j'"
proof
  have "juggler_next (j\<lparr>j_r := r\<rparr>) x = None" using new by (simp add: juggler_next_def list_next_notin)
  then show "juggler_add_macroblock (bis(x := bi)) (j\<lparr>j_r := r\<rparr>) x = Inr j'"
    using bi by (simp add: juggler_add_macroblock_def j'_def)
  have d: "distinct (x # scheduled j @ unscheduled j)" using inv new by (auto simp: juggler_inv_def)
  then have "length (x # scheduled j @ unscheduled j) = card (set (x # scheduled j @ unscheduled j))"
    by (simp only: distinct_card)
  also have "\<dots> \<le> card {..<n}" using sub by (intro card_mono) auto
  finally have "length (x # scheduled j @ unscheduled j) < 2 ^ 31" using sub(3) by simp
  moreover have "sched_ordered (bis(x := bi)) (scheduled j)"
  proof -
    have "bi_next_seqno ((bis(x := bi)) y) = bi_next_seqno (bis y)" if "y \<in> set (scheduled j)" for y
      using that new by auto
    then show ?thesis using inv sched_ordered_cong [of "scheduled j" "bis(x := bi)" bis] by (simp add: juggler_inv_def)
  qed
  moreover have "juggler_inv bis (j\<lparr>j_r := r\<rparr>)" by (rule juggler_inv_random [OF inv r])
  ultimately show "juggler_inv (bis(x := bi)) j'"
    using d bi new by (auto simp: juggler_inv_def j'_def)
qed

lemma allocate_one:
  assumes ok: "alloc_ok (b, dev)" and rc: "random_custom (j_r (d_j dev)) (of_nat (length (unallocated b))) = Inr (i, r)"
  defines "x \<equiv> unallocated b ! unat i"
  shows "\<exists>bm b' dev'. blockio_allocate_one (b, dev) = Inr (b', dev') \<and> alloc_ok (b', dev') \<and> x \<in> set (unallocated b) \<and>
    b' = b\<lparr>unallocated := remove1 x (unallocated b), infos := (infos b)(x := prepared b dev (infos b x))\<rparr> \<and>
    dev' = dev\<lparr>no_macroblocks := no_macroblocks dev + 1, status := bm,
      d_j := (d_j dev)\<lparr>no_unscheduled := no_unscheduled (d_j dev) + 1, unscheduled := x # unscheduled (d_j dev), j_r := r\<rparr>\<rparr> \<and>
    bitmap_abs bm = insert x (bitmap_abs (status dev))"
proof -
  have a: "geometry b" "dev_ok b dev" "total_macroblocks b < 2 ^ 31" "distinct (unallocated b)" "juggler_inv (infos b) (d_j dev)"
    "set (scheduled (d_j dev) @ unscheduled (d_j dev)) \<subseteq> {..<total_macroblocks b}"
    and pool: "\<And>y. y \<in> set (unallocated b) \<Longrightarrow> y < total_macroblocks b \<and> bi_dev (infos b y) = None \<and>
      y \<notin> bitmap_abs (status dev) \<and> y \<notin> set (scheduled (d_j dev) @ unscheduled (d_j dev))"
    using ok by (auto simp: alloc_ok_def)
  have len: "length (unallocated b) \<le> total_macroblocks b"
    using card_mono [of "{..<total_macroblocks b}" "set (unallocated b)"] pool distinct_card [OF a(4)] by auto
  then have "unat (of_nat (length (unallocated b)) :: u32) = length (unallocated b)"
    using a(3) by (intro unat_of_nat_small) simp
  then have i: "unat i < length (unallocated b)"
    using random_custom_Inr(1) [OF rc] by (simp add: word_less_nat_alt)
  then have x: "x \<in> set (unallocated b)" by (simp add: x_def)
  note px = pool [OF x, THEN conjunct1] pool [OF x, THEN conjunct2]
  let ?bi = "prepared b dev (infos b x)"
  let ?b = "b\<lparr>unallocated := remove1 x (unallocated b), infos := (infos b)(x := ?bi)\<rparr>"
  let ?j = "(d_j dev)\<lparr>no_unscheduled := no_unscheduled (d_j dev) + 1, unscheduled := x # unscheduled (d_j dev), j_r := r\<rparr>"
  have j: "juggler_add_macroblock ((infos b)(x := ?bi)) ((d_j dev)\<lparr>j_r := r\<rparr>) x = Inr ?j" "juggler_inv ((infos b)(x := ?bi)) ?j"
    using juggler_inv_add_unscheduled [OF a(5) _ a(6) px(1) a(3), of ?bi r] px(2) random_custom_length [OF rc]
    by (auto simp: prepared_def)
  let ?dev = "dev\<lparr>no_macroblocks := no_macroblocks dev + 1, d_j := ?j\<rparr>"
  have "geometry ?b" "dev_ok ?b ?dev" using a(1,2) by simp_all
  then obtain bm where bm: "blockio_dev_change_macroblock_status (?b, ?dev) x USED = Inr (?dev\<lparr>status := bm\<rparr>)" "bitmap_inv bm"
    "no_bits bm = no_bits (status dev)" "bitmap_abs bm = insert x (bitmap_abs (status dev))"
    using mark_used [of ?b ?dev x] px by (auto simp: prepared_def)
  have run: "blockio_allocate_one (b, dev) = Inr (?b, ?dev\<lparr>status := bm\<rparr>)"
    using rc i j(1) bm(1)
    by (simp add: blockio_allocate_one_def blockio_prepare_block_def set_info_def Let_def x_def [symmetric] prepared_def)
  have dv: "dev_ok b (?dev\<lparr>status := bm\<rparr>)" using a(2) bm(2,3) by (simp add: dev_ok_def)
  have "alloc_ok (?b, ?dev\<lparr>status := bm\<rparr>)"
    using a(1,3,4,6) dv j(2) bm(4) pool px by (auto simp: alloc_ok_def)
  with run x bm(4) show ?thesis
    by (intro exI [of _ bm] exI [of _ ?b] exI [of _ "?dev\<lparr>status := bm\<rparr>"]) simp
qed

text \<open>The loop: each round draws a block; \<open>new\<close> are the blocks drawn, the last one first.\<close>

definition allocated :: "bdev \<Rightarrow> nat list \<Rightarrow> bdev \<Rightarrow> bool" where
  "allocated s new s' \<longleftrightarrow> (let (b, dev) = s; (b', dev') = s' in
     mset (unallocated b) = mset new + mset (unallocated b') \<and>
     (\<forall>x. infos b' x = (if x \<in> set new then prepared b dev (infos b x) else infos b x)) \<and>
     no_macroblocks dev' = no_macroblocks dev + of_nat (length new) \<and>
     bitmap_abs (status dev') = bitmap_abs (status dev) \<union> set new \<and>
     scheduled (d_j dev') = scheduled (d_j dev) \<and> unscheduled (d_j dev') = new @ unscheduled (d_j dev) \<and>
     j_seqno (d_j dev') = j_seqno (d_j dev) \<and> disk b' = disk b \<and> same_layout b b' \<and> total_macroblocks b' = total_macroblocks b \<and>
     d_id dev' = d_id dev \<and> d_c dev' = d_c dev \<and> replay_list dev' = replay_list dev)"

lemma allocate_loop_ok:
  assumes "alloc_ok s" "n \<le> length (unallocated (fst s))"
  shows "(case allocate_loop n s of
      Inl e \<Rightarrow> e = out_of_random
    | Inr s' \<Rightarrow> alloc_ok s' \<and> (\<exists>new. length new = n \<and> allocated s new s')) \<and>
    (n \<le> count_list (j_r (d_j (snd s))) 0 \<longrightarrow> (\<exists>s'. allocate_loop n s = Inr s'))"
  using assms
proof (induction n arbitrary: s)
  case 0
  then show ?case by (auto simp: allocated_def same_layout_def split: prod.splits)
next
  case (Suc n)
  obtain b dev where s: "s = (b, dev)" by (cases s)
  let ?c = "of_nat (length (unallocated b)) :: u32"
  have a: "geometry b" "total_macroblocks b < 2 ^ 31" "distinct (unallocated b)" "\<forall>y\<in>set (unallocated b). y < total_macroblocks b"
    using Suc.prems(1) s by (auto simp: alloc_ok_def)
  have "length (unallocated b) \<le> total_macroblocks b"
    using card_mono [of "{..<total_macroblocks b}" "set (unallocated b)"] a(4) distinct_card [OF a(3)] by auto
  then have "unat ?c = length (unallocated b)" using a(2) by (intro unat_of_nat_small) simp
  then have c: "?c \<noteq> 0" using Suc.prems(2) s by (auto simp: unat_eq_zero [symmetric])
  show ?case
  proof (cases "random_custom (j_r (d_j dev)) ?c")
    case (Inl e)
    then have "allocate_loop (Suc n) s = Inl e" by (simp add: s blockio_allocate_one_def)
    moreover have "0 \<notin> set (j_r (d_j dev))" using random_custom_zero [OF _ c] Inl by force
    then have "count_list (j_r (d_j dev)) 0 = 0" by (rule count_notin)
    ultimately show ?thesis using random_custom_error [OF c Inl] s by simp
  next
    case (Inr ir)
    then obtain i r where rc: "random_custom (j_r (d_j dev)) ?c = Inr (i, r)" by (cases ir) auto
    define x where "x = unallocated b ! unat i"
    obtain bm b' dev' where one: "blockio_allocate_one (b, dev) = Inr (b', dev')" "alloc_ok (b', dev')" "x \<in> set (unallocated b)"
      "b' = b\<lparr>unallocated := remove1 x (unallocated b), infos := (infos b)(x := prepared b dev (infos b x))\<rparr>"
      "dev' = dev\<lparr>no_macroblocks := no_macroblocks dev + 1, status := bm,
        d_j := (d_j dev)\<lparr>no_unscheduled := no_unscheduled (d_j dev) + 1, unscheduled := x # unscheduled (d_j dev), j_r := r\<rparr>\<rparr>"
      "bitmap_abs bm = insert x (bitmap_abs (status dev))"
      using allocate_one [of b dev i r] Suc.prems(1) s rc by (auto simp: x_def)
    have step: "allocate_loop (Suc n) s = allocate_loop n (b', dev')" using one(1) s by simp
    have zeros: "Suc n \<le> count_list (j_r (d_j dev)) 0 \<Longrightarrow> n \<le> count_list r 0"
      using random_custom_zeros [OF rc] by (auto split: if_splits)
    have len: "n \<le> length (unallocated b')" using Suc.prems(2) one(3,4) s by (simp add: length_remove1)
    note ih = Suc.IH [of "(b', dev')", OF one(2)]
    have ext: "allocated s (new @ [x]) s'" if "allocated (b', dev') new s'" for new s'
    proof -
      obtain b2 dev2 where s': "s' = (b2, dev2)" by (cases s')
      have pr: "prepared b' dev' bi = prepared b dev bi" for bi using one(4,5) by (simp add: prepared_def)
      have "x \<notin> set (unallocated b')" using a(3) one(4) by simp
      moreover have "mset (unallocated b') = mset new + mset (unallocated b2)" using that s' by (simp add: allocated_def)
      ultimately have "x \<notin> set new" using mset_eq_setD [of "unallocated b'" "new @ unallocated b2"] by auto
      moreover have "mset (unallocated b) = add_mset x (mset (unallocated b'))" using one(3,4) by simp
      ultimately show ?thesis using that one(4-6) s s' pr by (auto simp: allocated_def same_layout_def)
    qed
    show ?thesis
    proof (cases "allocate_loop n (b', dev')")
      case (Inl e)
      with ih len step zeros one(5) s show ?thesis by auto
    next
      case (Inr s')
      with ih len obtain new where "alloc_ok s'" "length new = n" "allocated (b', dev') new s'" by auto
      with ext [of new s'] step Inr show ?thesis by (auto intro!: exI [of _ "new @ [x]"])
    qed
  qed
qed

section \<open>Release\<close>

lemma release_infos:
  "fold (release_info i) [0..<n] bis x =
     (if x < n \<and> bi_dev (bis x) = Some i then (bis x)\<lparr>indices := [], bi_dev := None\<rparr> else bis x)"
proof (induction n)
  case (Suc n)
  then show ?case by (auto simp: release_info_def less_Suc_eq)
qed simp

lemma empty_into_list: "empty_list xs (Some (\<lambda>bi l. Inr (l @ [bi]))) l = Inr (l @ xs)"
  by (induction xs arbitrary: l) (auto simp: empty_list_def)

section \<open>Properties\<close>

definition demo_b :: blockio where
  "demo_b = \<lparr>macroblock_log = 10, mesoblk_log = 9, total_macroblocks = 2, max_macroblocks = 1984, bitmap_offset = 264,
     mmpm = 1, unallocated = [1],
     infos = (\<lambda>_. zero_info)(0 := zero_info\<lparr>bi_seqno := 1, bi_next_seqno := 3, no_indices := 1, indices := [7], bi_dev := Some 0\<rparr>),
     disk = replicate 2048 0\<rparr>"

definition demo_wide :: cipher where
  "demo_wide = \<lparr>c_spec = Cipher_cbc_plain, c_ctx = Plain_ctx \<lparr>plain_hd = (9, replicate 32 1), no_blocks = 32\<rparr>\<rparr>"

definition demo_dev :: blockio_dev where
  "demo_dev = (fresh_dev demo_b 0 demo_wide [0, 0])\<lparr>no_macroblocks := 1, d_bi := Some 0, tmp_macroblock := replicate 1024 5,
     d_j := \<lparr>scheduled = [0], unscheduled = [], no_scheduled = 1, no_unscheduled = 0, j_seqno = 1, j_r = [0, 0]\<rparr>\<rparr>"

lemma demo_geometry: "geometry demo_b"
  by (simp add: geometry_def demo_b_def)

lemma demo_dev_ok: "dev_ok demo_b demo_dev" "cipher_ok demo_gcrypt demo_wide"
  using bitmap_init_inv(1) [of 1984] demo_cipher_ok(1)
  by (simp_all add: dev_ok_def demo_dev_def fresh_dev_def demo_b_def demo_wide_def cipher_ok_def cipher_size_def bitmap_init_def)

lemma demo_write_ok: "write_ok demo_gcrypt (demo_b, demo_dev) 0"
  using demo_geometry demo_dev_ok
  by (simp add: write_ok_def) (simp add: demo_dev_def fresh_dev_def demo_b_def info_ok_def zero_info_def)

lemma demo_alloc_ok: "alloc_ok (demo_b, demo_dev)"
proof -
  have "status demo_dev = bitmap_init 1984" "unallocated demo_b = [1]" "total_macroblocks demo_b = 2"
    "bi_dev (infos demo_b 1) = None" "scheduled (d_j demo_dev) = [0]" "unscheduled (d_j demo_dev) = []"
    by (simp_all add: demo_dev_def fresh_dev_def demo_b_def zero_info_def)
  moreover have "juggler_inv (infos demo_b) (d_j demo_dev)"
    by (simp add: juggler_inv_def sched_ordered_def demo_dev_def demo_b_def)
  ultimately show ?thesis
    using demo_geometry demo_dev_ok(1) bitmap_init_inv(2) [of 1984] by (simp add: alloc_ok_def)
qed

text \<open>
  C40: whatever the backing file, when it is opened with a mesoblock of at most 512 MB that is smaller than the
  macroblock, no size wraps around: the index block with its table of indices and a bit for every
  possible macroblock exactly fills one mesoblock (the assertion that opening a device makes), all
  macroblocks lie inside the file and all of them are unallocated.
\<close>

theorem blockio_init_geometry:
  assumes "blockio_init_file back macro meso = Inr b" "meso < macro" "meso \<le> 29"
  shows "geometry b \<and> macroblock_log b = macro \<and> mesoblk_log b = meso \<and> unallocated b = [0..<total_macroblocks b] \<and>
    unat (bitmap_size (bitmap_init (of_nat (max_macroblocks b)))) + 260 + 4 * mmpm b = 2 ^ mesoblk_log b"
proof -
  let ?d = "macro - meso"
  have pre: "macro < 32" "?d < 29" "\<not> 2 ^ meso \<le> (256 + 4 * 2 ^ ?d) mod (2 :: nat) ^ 32"
    using assms(1) unfolding blockio_init_file_def by (auto simp: res_simps Let_def)
  have "(2 :: nat) ^ ?d \<le> 2 ^ 28" using pre(2) by (intro power_increasing) simp_all
  then have wrap: "(256 + 4 * 2 ^ ?d) mod (2 :: nat) ^ 32 = 256 + 4 * 2 ^ ?d" by simp
  have "(2 :: nat) ^ (?d + 2) < 2 ^ meso" using pre(3) wrap by (simp add: power_add)
  then have "?d + 2 < meso" using power_less_imp_less_exp [of "2 :: nat" "?d + 2" meso] by simp
  then have d: "?d \<le> 14" using pre(1) assms(2) by linarith
  then have "(2 :: nat) ^ ?d \<le> 2 ^ 14" by (intro power_increasing) simp_all
  then have mm: "(2 ^ ?d - 1) mod (2 :: nat) ^ 16 = 2 ^ ?d - 1" by simp
  have "(2 :: nat) ^ meso \<le> 2 ^ 29" using assms(3) by (intro power_increasing) simp_all
  then have mx: "((2 ^ meso - (256 + 4 * 2 ^ ?d)) * 8) mod (2 :: nat) ^ 32 = (2 ^ meso - (256 + 4 * 2 ^ ?d)) * 8" by simp
  let ?maxm = "(2 ^ meso - (256 + 4 * 2 ^ ?d)) * 8"
  obtain dsk where "blockio_setup dsk macro meso (2 ^ ?d - 1) (256 + 4 * 2 ^ ?d) ?maxm = Inr b"
    using assms(1) unfolding blockio_init_file_def Let_def wrap mm mx by (auto simp: res_simps split: backing.splits)
  then have b: "length dsk div 2 ^ macro \<le> ?maxm" "b = \<lparr>macroblock_log = macro, mesoblk_log = meso, total_macroblocks = length dsk div 2 ^ macro,
      max_macroblocks = ?maxm, bitmap_offset = 256 + 4 * 2 ^ ?d, mmpm = 2 ^ ?d - 1,
      unallocated = [0..<length dsk div 2 ^ macro], infos = (\<lambda>_. zero_info), disk = dsk\<rparr>"
    by (auto simp: blockio_setup_def Let_def res_simps)
  have one: "1 \<le> (2 :: nat) ^ ?d" by simp
  have geo: "geometry b"
    using pre wrap b d one assms(2,3) div_times_less_eq_dividend [of "length dsk" "2 ^ macro"]
    by (simp add: geometry_def diff_mult_distrib2)
  then have "unat (bitmap_size (bitmap_init (of_nat (max_macroblocks b)))) + 260 + 4 * mmpm b = 2 ^ mesoblk_log b"
    by (rule bitmap_fits)
  moreover have "macroblock_log b = macro" "mesoblk_log b = meso" "unallocated b = [0..<total_macroblocks b]"
    using b(2) by simp_all
  ultimately show ?thesis using geo by blast
qed

theorem blockio_init_geometry_witness:
  "\<exists>b. blockio_init_file (Regular (replicate 5000 0)) 10 9 = Inr b \<and> geometry b \<and> unallocated b = [0, 1, 2, 3]"
proof -
  have "\<exists>b. blockio_init_file (Regular (replicate 5000 0)) 10 9 = Inr b \<and> total_macroblocks b = 4"
    by (simp add: blockio_init_file_def blockio_setup_def Let_def)
  then obtain b where b: "blockio_init_file (Regular (replicate 5000 0)) 10 9 = Inr b" "total_macroblocks b = 4" by blast
  moreover have "[0..<4] = [0, 1, 2, 3 :: nat]" by (simp add: upt_conv_Cons)
  ultimately show ?thesis using blockio_init_geometry [OF b(1)] by auto
qed

text \<open>
  writing the current macroblock succeeds, touches no byte outside that macroblock, and
  afterwards every mesoblock of it reads back as it was in memory, the unused ones as zeroes.
\<close>

theorem blockio_write_read_mesoblk:
  assumes "write_ok g (b, dev) no"
  shows "\<exists>b' dev'. blockio_dev_write_current_macroblock g (b, dev) = Inr (b', dev') \<and> d_bi dev' = None \<and>
    length (disk b') = length (disk b) \<and>
    (\<forall>k<mmpm b. blockio_dev_read_mesoblk g (b', dev') no k = Inr (data_meso b dev no k)) \<and>
    (\<forall>i<length (disk b). i < no * 2 ^ macroblock_log b \<or> (no + 1) * 2 ^ macroblock_log b \<le> i \<longrightarrow> disk b' ! i = disk b ! i)"
proof -
  let ?M = "(2 :: nat) ^ macroblock_log b"
  obtain img where img: "image_of g b dev no img" and run: "blockio_dev_write_current_macroblock g (b, dev) =
    Inr ((set_info b no ((infos b no)\<lparr>no_nonobsolete := no_indices (infos b no)\<rparr>))\<lparr>disk := blit (no * ?M) img (disk b)\<rparr>,
      dev\<lparr>tmp_macroblock := img, writes := writes dev + 1, d_bi := None\<rparr>)"
    using write_current_image [OF assms] by blast
  have room: "no * ?M + ?M \<le> length (disk b)" and li: "length img = ?M"
    using macroblock_inside [of b no] assms img by (auto simp: write_ok_def image_of_def)
  have "blockio_dev_read_mesoblk g ((set_info b no ((infos b no)\<lparr>no_nonobsolete := no_indices (infos b no)\<rparr>))
      \<lparr>disk := blit (no * ?M) img (disk b)\<rparr>, dev\<lparr>tmp_macroblock := img, writes := writes dev + 1, d_bi := None\<rparr>) no k =
      Inr (data_meso b dev no k)" if "k < mmpm b" for k
    by (rule read_mesoblk_image [OF assms img that]) (use room li in \<open>simp_all add: set_info_def bslice_blit_same length_blit\<close>)
  with run room li show ?thesis by (auto simp: length_blit nth_blit)
qed

theorem blockio_write_read_mesoblk_witness:
  "\<exists>b' dev'. blockio_dev_write_current_macroblock demo_gcrypt (demo_b, demo_dev) = Inr (b', dev') \<and>
     blockio_dev_read_mesoblk demo_gcrypt (b', dev') 0 0 = Inr (data_meso demo_b demo_dev 0 0)"
  using blockio_write_read_mesoblk [OF demo_write_ok] by (auto simp: demo_b_def)

text \<open>
  a macroblock that was written is found again: when a device with the same cipher scans the
  disk, the block is recognised, its descriptor gets back its sequence numbers, indices and the hash
  of its data, which checks; the block leaves the pool and enters the list of blocks to replay at
  the place its sequence number says; and if it is the newest block seen, the device gets its bitmap,
  its sizes and the hash of the schedule from it.
\<close>

theorem blockio_write_scan:
  assumes ok: "write_ok g (b, dev) no" and sq: "0 < bi_seqno (infos b no)" "bi_seqno (infos b no) < bi_next_seqno (infos b no)"
    and wr: "blockio_dev_write_current_macroblock g (b, dev) = Inr (b', dev')"
    and b2: "b2 = b'\<lparr>infos := bis, unallocated := un\<rparr>" and sc: "scan_ok g ((b2, dev2), acc)" and c2: "d_c dev2 = d_c dev"
    and no: "bi_dev (bis no) = None" "no \<in> set un" "no \<notin> set (replay_list dev2)"
    and new: "\<forall>x\<in>set (replay_list dev2). bi_seqno (bis x) \<noteq> bi_seqno (infos b no)" "acc < bi_seqno (infos b no)"
  shows "\<exists>b3 dev3. blockio_dev_scan_header g no ((b2, dev2), acc) = Inr ((b3, dev3), bi_seqno (infos b no)) \<and>
    bi_seqno (infos b3 no) = bi_seqno (infos b no) \<and> bi_next_seqno (infos b3 no) = bi_next_seqno (infos b no) \<and>
    no_indices (infos b3 no) = no_indices (infos b no) \<and> bi_dev (infos b3 no) = Some (d_id dev2) \<and>
    take (unat (no_indices (infos b no))) (indices (infos b3 no)) = take (unat (no_indices (infos b no))) (indices (infos b no)) \<and>
    blockio_check_data_hash g b3 no = Inr True \<and> unallocated b3 = remove1 no un \<and>
    seqno_ordered (infos b3) (replay_list dev3) \<and> mset (replay_list dev3) = add_mset no (mset (replay_list dev2)) \<and>
    status dev3 = status dev \<and> no_macroblocks dev3 = no_macroblocks dev \<and> reserved_macroblocks dev3 = reserved_macroblocks dev \<and>
    seqnos_hash dev3 = juggler_hash_scheduled_seqnos (g_sha256 g) (infos b) (d_j dev)"
proof -
  let ?M = "(2 :: nat) ^ macroblock_log b" and ?m = "(2 :: nat) ^ mesoblk_log b"
  obtain img where img: "image_of g b dev no img" and run: "blockio_dev_write_current_macroblock g (b, dev) =
    Inr ((set_info b no ((infos b no)\<lparr>no_nonobsolete := no_indices (infos b no)\<rparr>))\<lparr>disk := blit (no * ?M) img (disk b)\<rparr>,
      dev\<lparr>tmp_macroblock := img, writes := writes dev + 1, d_bi := None\<rparr>)"
    using write_current_image [OF ok] by blast
  have d2: "disk b2 = blit (no * ?M) img (disk b)" "infos b2 = bis" "unallocated b2 = un" "same_layout b b2"
    "total_macroblocks b2 = total_macroblocks b"
    using wr run b2 by (auto simp: same_layout_def set_info_def)
  have geo: "geometry b" and tot: "no < total_macroblocks b" using ok by (simp_all add: write_ok_def)
  have room: "no * ?M + ?M \<le> length (disk b)" and li: "length img = ?M"
    using macroblock_inside [OF geo tot] img by (auto simp: image_of_def)
  have dsk: "bslice (no * ?M) ?M (disk b2) = img" using d2(1) room li by (simp add: bslice_blit_same)
  let ?bi = "(scanned_info g b dev no (bis no))\<lparr>bi_dev := Some (d_id dev2)\<rparr>"
  obtain tmp rep dev3 where scan: "blockio_dev_scan_header g no ((b2, dev2), acc) =
      Inr (((set_info b2 no ?bi)\<lparr>unallocated := remove1 no un\<rparr>, dev3), max acc (bi_seqno (infos b no)))"
    and rep: "seqno_ordered (bis(no := ?bi)) rep" "mset rep = add_mset no (mset (replay_list dev2))"
    and dev3: "dev3 = dev2\<lparr>tmp_macroblock := tmp, replay_list := rep, status := status dev, no_macroblocks := no_macroblocks dev,
        reserved_macroblocks := reserved_macroblocks dev,
        seqnos_hash := juggler_hash_scheduled_seqnos (g_sha256 g) (infos b) (d_j dev)\<rparr>"
    using scan_header_image [OF ok img sq dsk d2(4) sc c2] d2 tot no new by auto
  have mm: "?M - ?m = mmpm b * ?m" "?m + mmpm b * ?m = ?M" "0 < mmpm b * ?m"
    using geometry_sizes(1,2,3) [OF geo] by (simp_all add: algebra_simps)
  have "bslice (no * ?M + ?m) (mmpm b * ?m) (disk b2) = bslice ?m (mmpm b * ?m) (bslice (no * ?M) ?M (disk b2))"
    using mm by (simp add: bslice_bslice)
  also have "\<dots> = bslice ?m (mmpm b * ?m) (data_base g b dev no)" using dsk img by (simp add: image_of_def)
  finally have data: "bslice (no * ?M + ?m) (mmpm b * ?m) (disk b2) = bslice ?m (mmpm b * ?m) (data_base g b dev no)" .
  have "stream_read (disk b2) (no * ?M + ?m) (mmpm b * ?m) = Inr (bslice ?m (mmpm b * ?m) (data_base g b dev no))"
    unfolding stream_read_def data using mm room d2(1) li by (simp add: length_blit)
  then have hash: "blockio_check_data_hash g ((set_info b2 no ?bi)\<lparr>unallocated := remove1 no un\<rparr>) no = Inr True"
    using d2 mm by (simp add: blockio_check_data_hash_def blockio_get_macroblock_index_def set_info_def scanned_info_def
        same_layout_def Let_def)
  have "unat (no_indices (infos b no)) \<le> length (indices (infos b no))" using ok by (simp add: write_ok_def info_ok_def)
  then show ?thesis
    using scan rep dev3 hash d2(2) new(2) by (auto simp: set_info_def scanned_info_def max_def)
qed

definition demo_rescan :: "blockio \<Rightarrow> blockio" where
  "demo_rescan b = b\<lparr>infos := (\<lambda>_. zero_info), unallocated := [0, 1]\<rparr>"

theorem blockio_write_scan_witness:
  "\<exists>b' dev' b3 dev3. blockio_dev_write_current_macroblock demo_gcrypt (demo_b, demo_dev) = Inr (b', dev') \<and>
     blockio_dev_scan_header demo_gcrypt 0 ((demo_rescan b', fresh_dev demo_b 1 demo_wide []), 0) = Inr ((b3, dev3), 1) \<and>
     bi_next_seqno (infos b3 0) = 3 \<and> unallocated b3 = [1]"
proof -
  obtain img where img: "image_of demo_gcrypt demo_b demo_dev 0 img" and wr: "blockio_dev_write_current_macroblock demo_gcrypt (demo_b, demo_dev) =
    Inr ((set_info demo_b 0 ((infos demo_b 0)\<lparr>no_nonobsolete := no_indices (infos demo_b 0)\<rparr>))\<lparr>disk := blit (0 * 2 ^ macroblock_log demo_b) img (disk demo_b)\<rparr>,
      demo_dev\<lparr>tmp_macroblock := img, writes := writes demo_dev + 1, d_bi := None\<rparr>)"
    using write_current_image [OF demo_write_ok] by blast
  have li: "length img = 1024" using img by (simp add: image_of_def demo_b_def)
  obtain b' dev' where w: "blockio_dev_write_current_macroblock demo_gcrypt (demo_b, demo_dev) = Inr (b', dev')"
    and b': "macroblock_log b' = 10" "mesoblk_log b' = 9" "total_macroblocks b' = 2" "max_macroblocks b' = 1984"
      "bitmap_offset b' = 264" "mmpm b' = 1" "length (disk b') = 2048"
  proof
    show "length (disk ((set_info demo_b 0 ((infos demo_b 0)\<lparr>no_nonobsolete := no_indices (infos demo_b 0)\<rparr>))
        \<lparr>disk := blit (0 * 2 ^ macroblock_log demo_b) img (disk demo_b)\<rparr>)) = 2048"
      using li by (simp add: demo_b_def length_blit)
  qed (use wr in \<open>simp_all add: demo_b_def set_info_def\<close>)
  let ?d = "fresh_dev demo_b 1 demo_wide []"
  have "geometry (demo_rescan b')" using b' by (simp add: demo_rescan_def) (simp add: geometry_def)
  moreover have "dev_ok (demo_rescan b') ?d"
    using bitmap_init_inv(1) [of 1984] b'
    by (simp add: demo_rescan_def) (simp add: dev_ok_def fresh_dev_def demo_b_def demo_wide_def cipher_size_def bitmap_init_def)
  ultimately have sc: "scan_ok demo_gcrypt ((demo_rescan b', ?d), 0)"
    using demo_dev_ok(2) by (simp add: scan_ok_def seqno_ordered_def fresh_dev_def)
  have sq: "bi_seqno (infos demo_b 0) = 1" "bi_next_seqno (infos demo_b 0) = 3" by (simp_all add: demo_b_def)
  have "d_c ?d = d_c demo_dev" "replay_list ?d = []" by (simp_all add: fresh_dev_def demo_dev_def)
  with blockio_write_scan [OF demo_write_ok _ _ w demo_rescan_def sc] sq w show ?thesis
    by (fastforce simp: zero_info_def)
qed

text \<open>
  allocating macroblocks either is refused without any change, when the pool is too small, or
  moves that many blocks from the pool to the device: they are prepared, marked as used, counted and
  handed to the juggler as unscheduled, whose invariant is kept, and nothing else changes. The only
  failure is an exhausted random source, and one zero per block is enough to finish.
\<close>

theorem blockio_allocate_macroblocks:
  assumes "alloc_ok s"
  shows "if length (unallocated (fst s)) < unat n then blockio_dev_allocate_macroblocks s n = Inr None
    else (case blockio_dev_allocate_macroblocks s n of
        Inl e \<Rightarrow> e = Fatal ''reading from /dev/urandom''
      | Inr None \<Rightarrow> False
      | Inr (Some s') \<Rightarrow> alloc_ok s' \<and> (\<exists>new. length new = unat n \<and> allocated s new s')) \<and>
      (unat n \<le> count_list (j_r (d_j (snd s))) 0 \<longrightarrow> (\<exists>s'. blockio_dev_allocate_macroblocks s n = Inr (Some s')))"
proof (cases "length (unallocated (fst s)) < unat n")
  case False
  then have "(case allocate_loop (unat n) s of Inl e \<Rightarrow> e = out_of_random
      | Inr s' \<Rightarrow> alloc_ok s' \<and> (\<exists>new. length new = unat n \<and> allocated s new s')) \<and>
    (unat n \<le> count_list (j_r (d_j (snd s))) 0 \<longrightarrow> (\<exists>s'. allocate_loop (unat n) s = Inr s'))"
    using allocate_loop_ok [OF assms, of "unat n"] by simp
  with False show ?thesis
    by (cases "allocate_loop (unat n) s") (auto simp: blockio_dev_allocate_macroblocks_def out_of_random_def)
qed (simp add: blockio_dev_allocate_macroblocks_def)

theorem blockio_allocate_macroblocks_witness:
  "\<exists>s'. blockio_dev_allocate_macroblocks (demo_b, demo_dev) 1 = Inr (Some s') \<and> alloc_ok s' \<and>
     blockio_dev_allocate_macroblocks (demo_b, demo_dev) 2 = Inr None"
proof -
  have "length (unallocated demo_b) = 1" "count_list (j_r (d_j demo_dev)) 0 = 2" by (simp_all add: demo_b_def demo_dev_def)
  with blockio_allocate_macroblocks [OF demo_alloc_ok, of 1] blockio_allocate_macroblocks [OF demo_alloc_ok, of 2]
  show ?thesis by (auto split: sum.splits option.splits)
qed

text \<open>
  closing a device gives back every block: the pool becomes the old pool followed by the
  blocks of the juggler and those still waiting for replay, and no descriptor refers to the device
  any more. With pending changes the current macroblock is written first.
\<close>

theorem blockio_dev_free_returns_blocks:
  assumes "updated dev \<longrightarrow> write_ok g (b, dev) no"
  shows "\<exists>b'. blockio_dev_free g (b, dev) = Inr b' \<and>
    unallocated b' = unallocated b @ scheduled (d_j dev) @ unscheduled (d_j dev) @ rev (replay_list dev) \<and>
    (\<forall>x<total_macroblocks b. bi_dev (infos b' x) = (if bi_dev (infos b x) = Some (d_id dev) then None else bi_dev (infos b x))) \<and>
    (updated dev \<longrightarrow> (\<exists>b1 dev1. blockio_dev_write_current_macroblock g (b, dev) = Inr (b1, dev1) \<and> disk b' = disk b1)) \<and>
    (\<not> updated dev \<longrightarrow> disk b' = disk b)"
proof -
  have "\<exists>b1 dev1. (if updated dev then blockio_dev_write_current_macroblock g (b, dev) else Inr (b, dev)) = Inr (b1, dev1) \<and>
      unallocated b1 = unallocated b \<and> (\<forall>x. bi_dev (infos b1 x) = bi_dev (infos b x)) \<and> total_macroblocks b1 = total_macroblocks b \<and>
      d_j dev1 = d_j dev \<and> d_id dev1 = d_id dev \<and> replay_list dev1 = replay_list dev \<and> (\<not> updated dev \<longrightarrow> disk b1 = disk b)"
    using assms write_current_image [of g b dev no] by (fastforce simp: set_info_def)
  then show ?thesis
    by (auto simp: blockio_dev_free_def juggler_free_and_empty_into_def empty_into_list release_infos)
qed

theorem blockio_dev_free_returns_blocks_witness:
  "\<exists>b'. blockio_dev_free demo_gcrypt (demo_b, demo_dev\<lparr>updated := True\<rparr>) = Inr b' \<and> unallocated b' = [1, 0]"
proof -
  have "write_ok demo_gcrypt (demo_b, demo_dev\<lparr>updated := True\<rparr>) 0" using demo_write_ok by (simp add: write_ok_def)
  then show ?thesis
    using blockio_dev_free_returns_blocks [of "demo_dev\<lparr>updated := True\<rparr>" demo_gcrypt demo_b 0]
    by (auto simp: demo_b_def demo_dev_def fresh_dev_def)
qed

text \<open>
  the list of blocks to replay at the level of pointers: searching the place with the comparison
  callback and inserting there implements \<open>sort_to_replay\<close>, which keeps the list strictly ordered by
  sequence number.
\<close>

theorem sort_to_replay_refines:
  assumes "dllarr_rep h a rep" "detached h no" "no \<notin> set rep" "seqno_ordered bis rep"
    and "\<forall>x\<in>set rep. bi_seqno (bis x) \<noteq> bi_seqno (bis no)"
  shows "\<exists>h' a' rep'. rbind (dllarr_iterate h a (compare_seqno bis (bi_seqno (bis no))) ()) (\<lambda>(at, _). dllarr_insert h a no at) = Inr (h', a') \<and>
    sort_to_replay bis rep no = Inr rep' \<and> dllarr_rep h' a' rep' \<and> seqno_ordered bis rep' \<and> set rep' = insert no (set rep)"
proof -
  let ?p = "\<lambda>y. bi_seqno (bis no) < bi_seqno (bis y)"
  have it: "iter_list (compare_seqno bis (bi_seqno (bis no))) rep () = Inr (find ?p rep, ())" by (rule iter_compare_seqno [OF assms(5)])
  have at: "find ?p rep = before (dropWhile (\<lambda>y. \<not> ?p y) rep)" by (induction rep) auto
  obtain rep' where r: "sort_to_replay bis rep no = Inr rep'" "seqno_ordered bis rep'" "mset rep' = add_mset no (mset rep)"
    using sort_to_replay_ordered [OF assms(4,5)] by blast
  then have "rep' = takeWhile (\<lambda>y. \<not> ?p y) rep @ no # dropWhile (\<lambda>y. \<not> ?p y) rep"
    using it insert_before_find [of rep no ?p] by (simp add: sort_to_replay_def)
  moreover have "\<exists>h' a'. dllarr_insert h a no (before (dropWhile (\<lambda>y. \<not> ?p y) rep)) = Inr (h', a') \<and>
      dllarr_rep h' a' (takeWhile (\<lambda>y. \<not> ?p y) rep @ no # dropWhile (\<lambda>y. \<not> ?p y) rep)"
    using dllarr_insert_rep [of h a "takeWhile (\<lambda>y. \<not> ?p y) rep" "dropWhile (\<lambda>y. \<not> ?p y) rep" no] assms(1-3) by auto
  moreover have "set rep' = insert no (set rep)" using mset_eq_setD [of rep' "no # rep"] r(3) by simp
  ultimately show ?thesis
    using r(1,2) it at by (simp add: dllarr_iterate_rep [OF assms(1)])
qed

theorem sort_to_replay_refines_witness:
  "\<exists>h' a'. rbind (dllarr_iterate demo_heap demo_list (compare_seqno (\<lambda>i. demo_info (if i = 3 then 6 else of_nat i) 0) 6) ())
       (\<lambda>(at, _). dllarr_insert demo_heap demo_list 3 at) = Inr (h', a') \<and> dllarr_rep h' a' [5, 3, 7]"
proof -
  let ?bis = "\<lambda>i. demo_info (if i = 3 then 6 else of_nat i) 0"
  have "sort_to_replay ?bis [5, 7] 3 = Inr [5, 3, 7]"
    by (simp add: sort_to_replay_def compare_seqno_def demo_info_def insert_before_def)
  then show ?thesis
    using sort_to_replay_refines [OF demo_rep(1,3), of ?bis] by (auto simp: seqno_ordered_def demo_info_def)
qed

end
