(* ===== verification/Pthd.thy ===== *)
theory Pthd
  imports Prelude
begin

text \<open>
  Model of src/src/pthd.c mutexes as one thread sees them, and the wrappers of the other functions. The build
  never defines NDEBUG, so the mutexes are of the error checking kind: locking a mutex that the
  thread holds already and unlocking or destroying one in the wrong state ends the process. The
  state is the set of mutexes that the thread holds.
\<close>

definition pthd_mutex_init :: "'m \<Rightarrow> 'm set \<Rightarrow> 'm set" where
  "pthd_mutex_init m held = held - {m}"

definition pthd_mutex_lock :: "'m \<Rightarrow> 'm set \<Rightarrow> 'm set res" where
  "pthd_mutex_lock m held = fatal_if (m \<in> held) ''trying to doubly lock an own mutex'' (Inr (insert m held))"

definition pthd_mutex_unlock :: "'m \<Rightarrow> 'm set \<Rightarrow> 'm set res" where
  "pthd_mutex_unlock m held = fatal_if (m \<notin> held) ''trying to unlock mutex we do not own'' (Inr (held - {m}))"

definition pthd_mutex_destroy :: "'m \<Rightarrow> 'm set \<Rightarrow> 'm set res" where
  "pthd_mutex_destroy m held = fatal_if (m \<in> held) ''trying to destroy locked mutex'' (Inr held)"

text \<open>Waiting gives the mutex back and takes it again before it returns.\<close>

definition pthd_cond_wait :: "'m \<Rightarrow> 'm set \<Rightarrow> 'm set res" where
  "pthd_cond_wait m held =
     fatal_if (m \<notin> held) ''unknown error trying to wait on condition variable'' (
       rbind (pthd_mutex_unlock m held) (pthd_mutex_lock m))"

section \<open>Wrappers\<close>

text \<open>
  The other functions call the function of the library with the same name and end the process unless it returns zero. That result is the argument \<open>err\<close>
  here. The program does not use the locks for readers and writers.
\<close>

definition pthd_rwlock_destroy :: "int \<Rightarrow> unit res" where
  "pthd_rwlock_destroy err =
     (if err \<noteq> 0 then fatal_if (err = 16) ''trying to destroy locked rwlock'' (Inl (Fatal ''unknown error trying to destroy rwlock'')) else Inr ())"

definition pthd_rwlock_rdlock :: "int \<Rightarrow> unit res" where
  "pthd_rwlock_rdlock err =
     (if err \<noteq> 0 then
        fatal_if (err = 22) ''trying to lock uninitialized rwlock'' (
        fatal_if (err = 35) ''trying to doubly lock an own rwlock'' (Inl (Fatal ''unknown error trying to lock rwlock'')))
      else Inr ())"

definition pthd_rwlock_wrlock :: "int \<Rightarrow> unit res" where
  "pthd_rwlock_wrlock err =
     (if err \<noteq> 0 then
        fatal_if (err = 22) ''trying to lock uninitialized rwlock'' (
        fatal_if (err = 35) ''trying to doubly lock an own rwlock'' (Inl (Fatal ''unknown error trying to lock rwlock'')))
      else Inr ())"

definition pthd_rwlock_unlock :: "int \<Rightarrow> unit res" where
  "pthd_rwlock_unlock err =
     (if err \<noteq> 0 then
        fatal_if (err = 22) ''trying to unlock uninitialized rwlock'' (
        fatal_if (err = 1) ''trying to unlock rwlock we do not own'' (Inl (Fatal ''unknown error trying to lock rwlock'')))
      else Inr ())"

definition pthd_rwlock_init :: "int \<Rightarrow> unit res" where
  "pthd_rwlock_init err = fatal_if (err \<noteq> 0) ''unknown error trying to initialize rwlock'' (Inr ())"

definition pthd_cond_init :: "int \<Rightarrow> unit res" where
  "pthd_cond_init err = fatal_if (err \<noteq> 0) ''unknown error trying to initialze condition variable'' (Inr ())"

definition pthd_cond_signal :: "int \<Rightarrow> unit res" where
  "pthd_cond_signal err = fatal_if (err \<noteq> 0) ''unknown error trying to signal condition variable'' (Inr ())"

definition pthd_cond_broadcast :: "int \<Rightarrow> unit res" where
  "pthd_cond_broadcast err = fatal_if (err \<noteq> 0) ''unknown error trying to broadcast condition variable'' (Inr ())"

definition pthd_cond_destroy :: "int \<Rightarrow> unit res" where
  "pthd_cond_destroy err =
     (if err \<noteq> 0 then
        fatal_if (err = 16) ''trying to destroy condition variable on which a thread is waiting'' (
        Inl (Fatal ''unknown error trying to destroy condition variable''))
      else Inr ())"

section \<open>One thread\<close>

lemma pthd_lock_simps [simp]:
  "m \<notin> held \<Longrightarrow> pthd_mutex_lock m held = Inr (insert m held)"
  "m \<in> held \<Longrightarrow> pthd_mutex_unlock m held = Inr (held - {m})"
  "m \<notin> held \<Longrightarrow> pthd_mutex_destroy m held = Inr held"
  "m \<in> held \<Longrightarrow> pthd_cond_wait m held = Inr held"
  by (auto simp: pthd_mutex_lock_def pthd_mutex_unlock_def pthd_mutex_destroy_def pthd_cond_wait_def)

lemma pthd_init_simps [simp]: "m \<notin> held \<Longrightarrow> pthd_mutex_init m held = held"
  by (simp add: pthd_mutex_init_def)

end
