(* ===== verification/Scubed3_Device.thy ===== *)
theory Scubed3_Device
  imports Blockio Pthd
begin

text \<open>
  Model of src/src/scubed3.c: the log structured device on top of the block layer. A table maps
  every mesoblock of the device to the place that holds its newest version; the newest versions live
  in the macroblock that is being filled in memory or in macroblocks on disk; before a macroblock is
  reused, its live mesoblocks are copied to the current one. The theorems show that reads and writes
  of arbitrary ranges implement a plain array of bytes, whatever is collected and written to disk
  in between, as long as the juggler does not hand out the same block twice in a row; what happens in
  that case is a theorem too.
\<close>

section \<open>State (scubed3.h)\<close>

record scubed3 =
  output_initialized :: bool
  mesobits :: nat
  mesomask :: u32
  no_block_indices :: u32
  block_indices :: "u32 list"

text \<open>
  The whole state: the shared block layer, the device, and its table. \<open>sd_errorcheck\<close> says how pthd.c was
  compiled: without NDEBUG, as the Makefile does, its mutexes are of the error checking kind.
\<close>

record sdev =
  sd_b :: blockio
  sd_dev :: blockio_dev
  sd_l :: scubed3
  sd_errorcheck :: bool

datatype scubed3_io = SCUBED3_READ | SCUBED3_WRITE

abbreviation NOWHERE :: u32 where
  "NOWHERE \<equiv> 0xFFFFFFFF"

section \<open>The table\<close>

definition ID :: "scubed3 \<Rightarrow> u32 \<Rightarrow> nat" where
  "ID l index = unat (drop_bit (mesobits l) index)"

definition NO :: "scubed3 \<Rightarrow> u32 \<Rightarrow> nat" where
  "NO l index = unat (index AND mesomask l)"

definition info_of :: "sdev \<Rightarrow> nat \<Rightarrow> blockio_info" where
  "info_of s i = infos (sd_b s) i"

definition upd_info :: "sdev \<Rightarrow> nat \<Rightarrow> (blockio_info \<Rightarrow> blockio_info) \<Rightarrow> sdev" where
  "upd_info s i f = s\<lparr>sd_b := (sd_b s)\<lparr>infos := (infos (sd_b s))(i := f (infos (sd_b s) i))\<rparr>\<rparr>"

text \<open>\<^verbatim>\<open>l->dev->bi\<close>, a null pointer being dereferenced otherwise.\<close>

definition cur :: "sdev \<Rightarrow> nat res" where
  "cur s = (case d_bi (sd_dev s) of None \<Rightarrow> Inl (Assert ''NULL dereference: dev->bi'') | Some i \<Rightarrow> Inr i)"

definition obsolete_mesoblk :: "sdev \<Rightarrow> nat \<Rightarrow> sdev res" where
  "obsolete_mesoblk s bi =
     asserting (no_nonobsolete (info_of s bi) \<noteq> 0) ''obsolete_mesoblk: bi->no_nonobsolete'' (
       Inr (upd_info s bi (\<lambda>i. let n = no_nonobsolete i - 1 in
         i\<lparr>no_nonobsolete := n, no_indices := (if n = 0 then 0 else no_indices i)\<rparr>)))"

definition obsolete_mesoblk_byidx :: "sdev \<Rightarrow> u32 \<Rightarrow> sdev res" where
  "obsolete_mesoblk_byidx s index = (if index \<noteq> NOWHERE then obsolete_mesoblk s (ID (sd_l s) index) else Inr s)"

definition update_block_indices :: "scubed3 \<Rightarrow> nat \<Rightarrow> nat \<Rightarrow> nat \<Rightarrow> scubed3" where
  "update_block_indices l offset i no =
     l\<lparr>block_indices := (block_indices l)[offset := push_bit (mesobits l) (of_nat i) + of_nat no]\<rparr>"

definition add_blockref :: "sdev \<Rightarrow> nat \<Rightarrow> sdev res" where
  "add_blockref s offset =
     rbind (cur s) (\<lambda>c.
     let n = no_indices (info_of s c);
         s = upd_info s c (\<lambda>i. i\<lparr>indices := (indices i)[unat n := of_nat offset]\<rparr>);
         s = s\<lparr>sd_l := update_block_indices (sd_l s) offset c (unat n)\<rparr>
     in Inr (upd_info s c (\<lambda>i. i\<lparr>no_indices := n + 1\<rparr>)))"

text \<open>The position of mesoblock \<open>no\<close> in the macroblock in memory.\<close>

definition mesoblk :: "sdev \<Rightarrow> nat \<Rightarrow> nat res" where
  "mesoblk s no = asserting (no < mmpm (sd_b s)) ''mesoblk: no < l->dev->b->mmpm'' (Inr ((no + 1) * 2 ^ mesoblk_log (sd_b s)))"

definition put_tmp :: "sdev \<Rightarrow> nat \<Rightarrow> bytes \<Rightarrow> sdev" where
  "put_tmp s off d = s\<lparr>sd_dev := (sd_dev s)\<lparr>tmp_macroblock := blit off d (tmp_macroblock (sd_dev s))\<rparr>\<rparr>"

section \<open>Garbage collection\<close>

definition copy_one :: "gcrypt \<Rightarrow> nat \<Rightarrow> nat \<Rightarrow> sdev \<Rightarrow> sdev res" where
  "copy_one g tail k s =
     (let l = sd_l s; bi = info_of s tail in
      if unat (no_indices bi) \<le> k then Inr s
      else if indices bi ! k \<ge> no_block_indices l then Inr s
      else
        let m = unat (indices bi ! k); index = block_indices l ! m in
        if index \<noteq> NOWHERE \<and> ID l index = tail then
          rbind (cur s) (\<lambda>c.
          rbind (mesoblk s (unat (no_indices (info_of s c)))) (\<lambda>addr.
          rbind (blockio_dev_read_mesoblk g (sd_b s, sd_dev s) tail k) (\<lambda>buf.
          rbind (add_blockref (put_tmp s addr buf) m) (\<lambda>s.
          obsolete_mesoblk s tail))))
        else Inr s)"

text \<open>
  The loop runs while \<open>k\<close> is below the count of indices of the block, which is read again in every
  round; the count never exceeds \<^verbatim>\<open>mmpm\<close>.
\<close>

definition copy_old_block_to_current :: "gcrypt \<Rightarrow> sdev \<Rightarrow> sdev res" where
  "copy_old_block_to_current g s =
     (case tail_macroblock (sd_dev s) of
        None \<Rightarrow> Inr s
      | Some tail \<Rightarrow>
          rbind (blockio_dev_get_macroblock_status (sd_b s, sd_dev s) tail) (\<lambda>st.
          if st = USED then rfold (copy_one g tail) [0..<mmpm (sd_b s)] s else Inr s))"

section \<open>Output\<close>

definition lift_b :: "(bdev \<Rightarrow> bdev res) \<Rightarrow> sdev \<Rightarrow> sdev res" where
  "lift_b f s = rbind (f (sd_b s, sd_dev s)) (\<lambda>(b, dev). Inr (s\<lparr>sd_b := b, sd_dev := dev\<rparr>))"

definition select_round :: "gcrypt \<Rightarrow> sdev \<Rightarrow> sdev res" where
  "select_round g s =
     rbind (lift_b (blockio_dev_write_current_and_select_next_macroblock g) s) (copy_old_block_to_current g)"

definition random_left :: "sdev \<Rightarrow> nat" where
  "random_left s = length (j_r (d_j (sd_dev s)))"

definition current_full :: "sdev \<Rightarrow> bool" where
  "current_full s = (case d_bi (sd_dev s) of None \<Rightarrow> False | Some c \<Rightarrow> unat (no_indices (info_of s c)) = mmpm (sd_b s))"

text \<open>Every round of output consumes random numbers; this is what bounds the loop below.\<close>

lemma juggler_place_consumes:
  "juggler_place bis b earlier rest ns avail r = Inr (ns', sched, r') \<Longrightarrow> length r' < length r"
proof (induction bis b earlier rest ns avail r rule: juggler_place.induct)
  case (1 bis b earlier rest ns avail r)
  show ?case
  proof (cases "rest \<noteq> [] \<and> ns + 1 = bi_next_seqno (bis (hd rest))")
    case True
    then show ?thesis using "1.prems" "1.IH"(1) [OF True] by (simp add: juggler_place.simps [of bis b earlier])
  next
    case False
    then obtain v r1 where rc: "random_custom r avail = Inr (v, r1)"
      and k: "(if v = 0 then Inr (ns + 1, earlier @ b # rest, r1)
        else juggler_place bis b earlier rest (ns + 1) avail r1) = Inr (ns', sched, r')"
      using "1.prems" by (subst (asm) juggler_place.simps) (auto simp: res_simps)
    show ?thesis
    proof (cases "v = 0")
      case v: False
      with "1.IH"(2) [OF False rc refl v] k random_custom_length [OF rc] show ?thesis by auto
    qed (use k random_custom_length [OF rc] in auto)
  qed
qed

lemma juggler_get_devblock_consumes:
  assumes "juggler_get_devblock bis j False = Inr (bis', j', ob)"
  shows "length (j_r j') < length (j_r j)"
proof -
  obtain j1 b where sel: "juggler_select bis j = Inr (j1, b)" and pl: "length (j_r j') < length (j_r j1)"
    using assms juggler_place_consumes by (fastforce simp: juggler_get_devblock_def Let_def res_simps)
  have "length (j_r j1) \<le> length (j_r j)"
    using sel random_custom_length by (fastforce simp: juggler_select_def juggler_draw_def res_simps split: option.splits)
  with pl show ?thesis by linarith
qed

lemma write_current_juggler:
  "blockio_dev_write_current_macroblock g (b, dev) = Inr (b', dev') \<Longrightarrow> d_j dev' = d_j dev"
  by (auto simp: blockio_dev_write_current_macroblock_def Let_def res_simps split: option.splits)

lemma random_left_frames [simp]:
  "random_left (upd_info s i f) = random_left s" "random_left (put_tmp s off d) = random_left s"
  "random_left (s\<lparr>sd_l := l\<rparr>) = random_left s"
  by (simp_all add: random_left_def upd_info_def put_tmp_def)

lemma obsolete_random: "obsolete_mesoblk s i = Inr s' \<Longrightarrow> random_left s' = random_left s"
  by (auto simp: obsolete_mesoblk_def Let_def res_simps)

lemma add_blockref_random: "add_blockref s i = Inr s' \<Longrightarrow> random_left s' = random_left s"
  by (auto simp: add_blockref_def Let_def res_simps)

lemma copy_one_random: "copy_one g t k s = Inr s' \<Longrightarrow> random_left s' = random_left s"
  unfolding copy_one_def Let_def
  by (auto simp: res_simps dest!: obsolete_random add_blockref_random split: if_split_asm)

lemma copy_old_random:
  assumes "copy_old_block_to_current g s = Inr s'" shows "random_left s' = random_left s"
proof -
  have "rfold (copy_one g t) ks s = Inr s' \<Longrightarrow> random_left s' = random_left s" for t ks s
    by (induction ks arbitrary: s) (auto simp: res_simps copy_one_random)
  with assms show ?thesis
    by (auto simp: copy_old_block_to_current_def res_simps split: option.splits if_splits)
qed

lemma select_round_consumes:
  assumes "select_round g s = Inr s'" shows "random_left s' < random_left s"
proof -
  obtain b1 dev1 b2 dev2 where w: "blockio_dev_write_current_macroblock g (sd_b s, sd_dev s) = Inr (b1, dev1)"
    "blockio_dev_select_next_macroblock (b1, dev1) = Inr (b2, dev2)"
    and c: "copy_old_block_to_current g (s\<lparr>sd_b := b2, sd_dev := dev2\<rparr>) = Inr s'"
    using assms by (auto simp: select_round_def lift_b_def blockio_dev_write_current_and_select_next_macroblock_def res_simps)
  have "length (j_r (d_j dev2)) < length (j_r (d_j dev1))"
    using w(2) juggler_get_devblock_consumes by (fastforce simp: blockio_dev_select_next_macroblock_def res_simps)
  with write_current_juggler [OF w(1)] copy_old_random [OF c] show ?thesis by (simp add: random_left_def)
qed

function select_loop :: "gcrypt \<Rightarrow> sdev \<Rightarrow> sdev res" where
  "select_loop g s = rbind (select_round g s) (\<lambda>s'. if current_full s' then select_loop g s' else Inr s')"
  by pat_completeness auto
termination
  by (relation "measure (\<lambda>(g, s). random_left s)") (auto dest: select_round_consumes)

definition select_new_macroblock :: "gcrypt \<Rightarrow> sdev \<Rightarrow> sdev res" where
  "select_new_macroblock g s =
     asserting (output_initialized (sd_l s)) ''select_new_macroblock: l->output_initialized'' (select_loop g s)"

definition initialize_output :: "gcrypt \<Rightarrow> sdev \<Rightarrow> sdev res" where
  "initialize_output g s =
     (if output_initialized (sd_l s) then Inr s
      else rbind (copy_old_block_to_current g s) (\<lambda>s. Inr (s\<lparr>sd_l := (sd_l s)\<lparr>output_initialized := True\<rparr>\<rparr>)))"

definition scubed3_cycle :: "gcrypt \<Rightarrow> sdev \<Rightarrow> sdev res" where
  "scubed3_cycle g s =
     rbind (if output_initialized (sd_l s) then Inr s
            else rbind (copy_old_block_to_current g s) (\<lambda>s. Inr (s\<lparr>sd_l := (sd_l s)\<lparr>output_initialized := True\<rparr>\<rparr>))) (\<lambda>s.
     rbind (lift_b (blockio_dev_write_current_macroblock g) s) (\<lambda>s.
     rbind (lift_b blockio_dev_select_next_macroblock s) (\<lambda>s.
       Inr (s\<lparr>sd_l := (sd_l s)\<lparr>output_initialized := False\<rparr>\<rparr>))))"

section \<open>Starting\<close>

definition replay_one :: "nat \<Rightarrow> nat \<Rightarrow> sdev \<Rightarrow> sdev res" where
  "replay_one bi k s =
     (let l = sd_l s; m = indices (info_of s bi) ! k in
      if m \<ge> no_block_indices l then Inr s
      else
        let index = block_indices l ! unat m in
        asserting (bi \<noteq> ID l index) ''replay: id(bi) != ID'' (
        rbind (obsolete_mesoblk_byidx s index) (\<lambda>s.
          Inr (s\<lparr>sd_l := update_block_indices (sd_l s) (unat m) bi k\<rparr>))))"

definition replay :: "nat \<Rightarrow> sdev \<Rightarrow> sdev res" where
  "replay bi s = rfold (replay_one bi) [0..<unat (no_indices (info_of s bi))] s"

definition calc_no_block_indices :: "blockio \<Rightarrow> blockio_dev \<Rightarrow> u32" where
  "calc_no_block_indices b dev = (no_macroblocks dev - reserved_macroblocks dev) * of_nat (mmpm b)"

definition scubed3_reinit :: "sdev \<Rightarrow> sdev res" where
  "scubed3_reinit s =
     (let old = no_block_indices (sd_l s); new = calc_no_block_indices (sd_b s) (sd_dev s) in
      if old = new then Inr s
      else fatal_if (old > new) ''scubed3_reinit shrinking not supported'' (
        Inr (s\<lparr>sd_l := (sd_l s)\<lparr>no_block_indices := new,
          block_indices := block_indices (sd_l s) @ replicate (unat new - unat old) NOWHERE\<rparr>\<rparr>)))"

text \<open>\<open>to_juggler\<close> hands the replayed blocks to the juggler, the newest first.\<close>

fun to_juggler :: "infos \<Rightarrow> nat list \<Rightarrow> juggler \<Rightarrow> juggler res" where
  "to_juggler bis [] j = Inr j"
| "to_juggler bis (x # xs) j = rbind (juggler_add_macroblock bis j x) (to_juggler bis xs)"

text \<open>The result also says whether the schedule matches the hash in the newest header (a warning if not).\<close>

definition scubed3_init :: "gcrypt \<Rightarrow> bool \<Rightarrow> bdev \<Rightarrow> (sdev \<times> bool) res" where
  "scubed3_init g ec bd =
     (let (b, dev) = bd; mb = macroblock_log b - mesoblk_log b;
          n = (if no_macroblocks dev \<le> reserved_macroblocks dev then 0 else calc_no_block_indices b dev);
          l = \<lparr>output_initialized = False, mesobits = mb, mesomask = drop_bit (32 - mb) NOWHERE, no_block_indices = n,
               block_indices = replicate (unat n) NOWHERE\<rparr>;
          s = \<lparr>sd_b = b, sd_dev = dev, sd_l = l, sd_errorcheck = ec\<rparr> in
      if no_macroblocks dev = 0 then Inr (s, True)
      else
        rbind (iter_list (\<lambda>bi s. rbind (replay bi s) (\<lambda>s. Inr (None :: unit option, s))) (replay_list dev) s) (\<lambda>(_, s).
        rbind (to_juggler (infos (sd_b s)) (rev (replay_list dev)) (d_j (sd_dev s))) (\<lambda>j.
        let s = s\<lparr>sd_dev := (sd_dev s)\<lparr>d_j := j, replay_list := []\<rparr>\<rparr> in
        Inr (s, juggler_hash_scheduled_seqnos (g_sha256 g) (infos (sd_b s)) j = seqnos_hash (sd_dev s)))))"

section \<open>Reading and writing\<close>

definition blockio_dev_fake_mesoblk_part :: "nat \<Rightarrow> bytes" where
  "blockio_dev_fake_mesoblk_part n = replicate n 0"

text \<open>One use of the function pointer \<^verbatim>\<open>readorfake\<close>.\<close>

definition read_or_fake :: "gcrypt \<Rightarrow> sdev \<Rightarrow> u32 \<Rightarrow> nat \<Rightarrow> nat \<Rightarrow> bytes res" where
  "read_or_fake g s index off n =
     (if index \<noteq> NOWHERE
      then blockio_dev_read_mesoblk_part g (sd_b s, sd_dev s) (ID (sd_l s) index) (NO (sd_l s) index) off n
      else Inr (blockio_dev_fake_mesoblk_part n))"

definition do_cow :: "gcrypt \<Rightarrow> sdev \<Rightarrow> u32 \<Rightarrow> nat \<Rightarrow> nat \<Rightarrow> nat \<Rightarrow> sdev res" where
  "do_cow g s index muoff sz addr =
     (let meso = 2 ^ mesoblk_log (sd_b s) in
      rbind (if muoff \<noteq> 0 then rbind (read_or_fake g s index 0 muoff) (\<lambda>d. Inr (put_tmp s addr d)) else Inr s) (\<lambda>s.
      if meso > sz + muoff
      then rbind (read_or_fake g s index (muoff + sz) (meso - sz - muoff)) (\<lambda>d. Inr (put_tmp s (addr + muoff + sz) d))
      else Inr s))"

text \<open>
  Before a full macroblock is replaced, \<^verbatim>\<open>do_write\<close> signals the manager thread and unlocks the mutex
  \<^verbatim>\<open>pleasewrite_mutex\<close>. The call that would lock it is commented out and nothing else locks it on this thread, so
  the thread holds no mutex of that name; an error checking mutex notices, a plain one does not.
\<close>

definition pleasewrite_signal :: "sdev \<Rightarrow> sdev res" where
  "pleasewrite_signal s = (if sd_errorcheck s then rbind (pthd_mutex_unlock () {}) (\<lambda>_. Inr s) else Inr s)"

definition do_write :: "gcrypt \<Rightarrow> sdev \<Rightarrow> nat \<Rightarrow> nat \<Rightarrow> bytes \<Rightarrow> sdev res" where
  "do_write g s mesoff muoff inp =
     (let sz = length inp in
      asserting (muoff + sz \<le> 2 ^ mesoblk_log (sd_b s)) ''do_write: muoff + size <= 1<<mesoblk_log'' (
      let index0 = block_indices (sd_l s) ! mesoff;
          s = s\<lparr>sd_dev := (sd_dev s)\<lparr>updated := True\<rparr>\<rparr> in
      rbind (initialize_output g s) (\<lambda>s.
      rbind (cur s) (\<lambda>c.
      rbind (if ID (sd_l s) index0 \<noteq> c
             then rbind (if current_full s then rbind (pleasewrite_signal s) (select_new_macroblock g) else Inr s)
                    (\<lambda>s. Inr (s, block_indices (sd_l s) ! mesoff))
             else Inr (s, index0)) (\<lambda>(s, index).
      rbind (cur s) (\<lambda>c.
      rbind (mesoblk s (if ID (sd_l s) index = c then NO (sd_l s) index else unat (no_indices (info_of s c)))) (\<lambda>addr.
      let s = put_tmp s (addr + muoff) inp in
      if ID (sd_l s) index \<noteq> c then
        rbind (do_cow g s index muoff sz addr) (\<lambda>s.
        rbind (obsolete_mesoblk_byidx s index) (\<lambda>s.
        add_blockref s mesoff))
      else Inr s)))))))"

text \<open>
  Requests reach a device only while a macroblock is current; without one the code would compare with a null
  pointer, and the model fails.
\<close>

definition do_read :: "gcrypt \<Rightarrow> sdev \<Rightarrow> nat \<Rightarrow> nat \<Rightarrow> nat \<Rightarrow> bytes res" where
  "do_read g s mesoff muoff sz =
     (let index = block_indices (sd_l s) ! mesoff in
      rbind (cur s) (\<lambda>c.
      if ID (sd_l s) index = c then
        rbind (mesoblk s (NO (sd_l s) index)) (\<lambda>addr. Inr (bslice (addr + muoff) sz (tmp_macroblock (sd_dev s))))
      else if index = NOWHERE then Inr (replicate sz 0)
      else blockio_dev_read_mesoblk_part g (sd_b s, sd_dev s) (ID (sd_l s) index) (NO (sd_l s) index) muoff sz))"

text \<open>
  \<open>action\<close> is the function pointer of \<^verbatim>\<open>do_req\<close>: it works on the part of the caller's buffer at
  \<open>ooff\<close>, filling it for a read.
\<close>

definition do_action :: "gcrypt \<Rightarrow> scubed3_io \<Rightarrow> nat \<Rightarrow> nat \<Rightarrow> nat \<Rightarrow> nat \<Rightarrow> sdev \<times> bytes \<Rightarrow> (sdev \<times> bytes) res" where
  "do_action g cmd meso muoff sz ooff sb =
     (case cmd of
        SCUBED3_READ \<Rightarrow> rbind (do_read g (fst sb) meso muoff sz) (\<lambda>out. Inr (fst sb, blit ooff out (snd sb)))
      | SCUBED3_WRITE \<Rightarrow> rbind (do_write g (fst sb) meso muoff (bslice ooff sz (snd sb))) (\<lambda>s. Inr (s, snd sb)))"

lemma pow_le_pos: "2 ^ n \<le> m \<Longrightarrow> 0 < (m::nat)"
  by (rule ccontr) simp

text \<open>
  The loop over whole mesoblocks and the rest after it. The number of the mesoblock and the position in
  the buffer are 32 bit variables, the remaining size is not.
\<close>

function do_req_loop :: "gcrypt \<Rightarrow> scubed3_io \<Rightarrow> nat \<Rightarrow> nat \<Rightarrow> nat \<Rightarrow> nat \<Rightarrow> sdev \<times> bytes \<Rightarrow> (sdev \<times> bytes) res" where
  "do_req_loop g cmd mesolog meso sz ooff sb =
     (if sz \<ge> 2 ^ mesolog then
        rbind (do_action g cmd meso 0 (2 ^ mesolog) ooff sb)
          (do_req_loop g cmd mesolog ((meso + 1) mod 2 ^ 32) (sz - 2 ^ mesolog) ((ooff + 2 ^ mesolog) mod 2 ^ 32))
      else if sz > 0 then do_action g cmd meso 0 sz ooff sb
      else Inr sb)"
  by pat_completeness auto
termination
  by (relation "measure (\<lambda>(g, cmd, mesolog, meso, sz, ooff, sb). sz)")
    (auto intro!: diff_less dest: pow_le_pos)

text \<open>
  Positions and sizes are 64 bit; the number of the first mesoblock is truncated to 32 bits. The sum of the position inside of a
  mesoblock and the size is taken without a bound, which differs only for sizes next to 2^64. The
  return value of the C function is 1 in all these cases, for an access past the end too (then
  only a warning is printed).
\<close>

definition do_req :: "gcrypt \<Rightarrow> scubed3_io \<Rightarrow> u64 \<Rightarrow> u64 \<Rightarrow> sdev \<times> bytes \<Rightarrow> (int \<times> sdev \<times> bytes) res" where
  "do_req g cmd r_offset sz sb =
     (let mesolog = mesoblk_log (sd_b (fst sb)); n = unat sz;
          meso = unat (ucast (drop_bit mesolog r_offset) :: u32); inmeso = unat (r_offset mod 2 ^ mesolog) in
      if drop_bit mesolog (r_offset + sz - 1) \<ge> ucast (no_block_indices (sd_l (fst sb))) then Inr (1, sb)
      else
        let reqsz = (if inmeso = 0 then 0 else if inmeso + n \<le> 2 ^ mesolog then n else 2 ^ mesolog - inmeso) in
        rbind (if inmeso \<noteq> 0
               then rbind (do_action g cmd meso inmeso reqsz 0 sb)
                 (do_req_loop g cmd mesolog ((meso + 1) mod 2 ^ 32) (n - reqsz) reqsz)
               else do_req_loop g cmd mesolog meso n 0 sb) (\<lambda>sb. Inr (1, sb)))"

end
