(* ===== verification/Scubed3_View.thy ===== *)
theory Scubed3_View
  imports Scubed3_Device
begin

text \<open>
  What the device of src/src/scubed3.c promises: an array of bytes. The contents of the array are a
  function of the state (\<open>content\<close> for a mesoblock, \<open>flat\<close> for the device), and the invariant
  relates the table of mesoblocks, the descriptors of the macroblocks, the schedule of the juggler,
  the macroblock in memory and the disk.
\<close>

section \<open>Entries of the table\<close>

definition place :: "scubed3 \<Rightarrow> nat \<Rightarrow> nat \<Rightarrow> u32" where
  "place l i k = push_bit (mesobits l) (of_nat i) + of_nat k"

definition bits_ok :: "scubed3 \<Rightarrow> bool" where
  "bits_ok l \<longleftrightarrow> 0 < mesobits l \<and> mesobits l \<le> 14 \<and> mesomask l = mask (mesobits l)"

lemma place_unat:
  assumes "bits_ok l" "i < 2 ^ (32 - mesobits l)" "k < 2 ^ mesobits l"
  shows "unat (place l i k) = i * 2 ^ mesobits l + k"
proof -
  have "(i + 1) * 2 ^ mesobits l \<le> 2 ^ (32 - mesobits l) * 2 ^ mesobits l"
    using assms(2) by (intro mult_le_mono1) simp
  also have "\<dots> = 2 ^ 32" using assms(1) by (simp add: bits_ok_def flip: power_add)
  finally have small: "i * 2 ^ mesobits l + k < 2 ^ 32" using assms(3) by simp
  have "place l i k = of_nat (i * 2 ^ mesobits l + k)" by (simp add: place_def push_bit_eq_mult)
  then show ?thesis using small by (simp del: of_nat_add of_nat_mult add: unat_of_nat)
qed

lemma ID_unat: "ID l x = unat x div 2 ^ mesobits l"
  unfolding ID_def unat_drop_bit_eq by (rule drop_bit_eq_div)

lemma NO_unat: "bits_ok l \<Longrightarrow> NO l x = unat x mod 2 ^ mesobits l"
  unfolding NO_def bits_ok_def by (simp add: unsigned_take_bit_eq flip: take_bit_eq_mask) (rule take_bit_eq_mod)

lemma place_decode:
  assumes "bits_ok l" "i < 2 ^ (32 - mesobits l)" "k < 2 ^ mesobits l"
  shows "ID l (place l i k) = i" "NO l (place l i k) = k"
  using place_unat [OF assms] assms by (simp_all add: ID_unat NO_unat)

lemma div_pred: "a * b = (n :: nat) \<Longrightarrow> 0 < a \<Longrightarrow> 0 < n \<Longrightarrow> (n - 1) div a = b - 1"
  by (intro div_nat_eqI) (auto simp: diff_mult_distrib2 Suc_leI)

lemma ID_nowhere:
  assumes "bits_ok l" shows "ID l NOWHERE = 2 ^ (32 - mesobits l) - 1"
proof -
  have "(2 :: nat) ^ mesobits l * 2 ^ (32 - mesobits l) = 2 ^ 32" using assms by (simp add: bits_ok_def flip: power_add)
  from div_pred [OF this] show ?thesis by (simp add: ID_unat)
qed

lemma place_somewhere:
  assumes "bits_ok l" "i + 1 < 2 ^ (32 - mesobits l)" "k < 2 ^ mesobits l"
  shows "place l i k \<noteq> NOWHERE"
  using place_decode(1) [OF assms(1) _ assms(3), of i] ID_nowhere [OF assms(1)] assms(2) by force

section \<open>The contents of the device\<close>

definition disk_meso :: "gcrypt \<Rightarrow> sdev \<Rightarrow> nat \<Rightarrow> nat \<Rightarrow> bytes" where
  "disk_meso g s i k =
     (let b = sd_b s in wide_dec g (d_c (sd_dev s)) (bi_seqno (info_of s i)) (of_nat (k + 1)) (of_nat i)
        (bslice (i * 2 ^ macroblock_log b + (k + 1) * 2 ^ mesoblk_log b) (2 ^ mesoblk_log b) (disk b)))"

text \<open>What slot \<open>k\<close> of macroblock \<open>i\<close> holds: the macroblock that is being filled is in memory.\<close>

definition slot :: "gcrypt \<Rightarrow> sdev \<Rightarrow> nat \<Rightarrow> nat \<Rightarrow> bytes" where
  "slot g s i k =
     (if d_bi (sd_dev s) = Some i then meso_at (2 ^ mesoblk_log (sd_b s)) (Suc k) (tmp_macroblock (sd_dev s))
      else disk_meso g s i k)"

definition content :: "gcrypt \<Rightarrow> sdev \<Rightarrow> nat \<Rightarrow> bytes" where
  "content g s m =
     (let x = block_indices (sd_l s) ! m in
      if x = NOWHERE then replicate (2 ^ mesoblk_log (sd_b s)) 0 else slot g s (ID (sd_l s) x) (NO (sd_l s) x))"

abbreviation size_of :: "sdev \<Rightarrow> nat" where
  "size_of s \<equiv> unat (no_block_indices (sd_l s))"

text \<open>The device as the user sees it.\<close>

definition flat :: "gcrypt \<Rightarrow> sdev \<Rightarrow> bytes" where
  "flat g s = concat (map (content g s) [0..<size_of s])"

section \<open>The invariant\<close>

abbreviation blocks :: "sdev \<Rightarrow> nat set" where
  "blocks s \<equiv> set (scheduled (d_j (sd_dev s)) @ unscheduled (d_j (sd_dev s)))"

abbreviation used_of :: "sdev \<Rightarrow> nat \<Rightarrow> nat" where
  "used_of s i \<equiv> unat (no_indices (info_of s i))"

abbreviation entry :: "sdev \<Rightarrow> nat \<Rightarrow> nat \<Rightarrow> nat" where
  "entry s i k \<equiv> unat (indices (info_of s i) ! k)"

text \<open>Slot \<open>k\<close> of macroblock \<open>i\<close> holds the newest version of a mesoblock.\<close>

definition live :: "sdev \<Rightarrow> nat \<Rightarrow> nat \<Rightarrow> bool" where
  "live s i k \<longleftrightarrow> k < used_of s i \<and> entry s i k < size_of s \<and>
     block_indices (sd_l s) ! entry s i k = place (sd_l s) i k"

text \<open>Sizes, and what does not depend on the table.\<close>

definition base_inv :: "gcrypt \<Rightarrow> sdev \<Rightarrow> bool" where
  "base_inv g s \<longleftrightarrow> geometry (sd_b s) \<and> dev_ok (sd_b s) (sd_dev s) \<and> cipher_ok g (d_c (sd_dev s)) \<and>
     mesobits (sd_l s) = macroblock_log (sd_b s) - mesoblk_log (sd_b s) \<and> bits_ok (sd_l s) \<and>
     total_macroblocks (sd_b s) < 2 ^ (32 - (macroblock_log (sd_b s) - mesoblk_log (sd_b s))) \<and> length (block_indices (sd_l s)) = size_of s \<and>
     juggler_inv (infos (sd_b s)) (d_j (sd_dev s)) \<and> juggler_ready (infos (sd_b s)) (d_j (sd_dev s))"

definition block_inv :: "sdev \<Rightarrow> nat \<Rightarrow> bool" where
  "block_inv s i \<longleftrightarrow> i < total_macroblocks (sd_b s) \<and> bi_dev (info_of s i) \<noteq> None \<and> i \<in> bitmap_abs (status (sd_dev s)) \<and>
     info_ok (sd_b s) (info_of s i) \<and> distinct (take (used_of s i) (indices (info_of s i))) \<and>
     (i \<in> set (unscheduled (d_j (sd_dev s))) \<longrightarrow> used_of s i = 0) \<and>
     (if d_bi (sd_dev s) = Some i then i \<in> set (scheduled (d_j (sd_dev s))) \<and> (\<forall>k < used_of s i. live s i k)
      else unat (no_nonobsolete (info_of s i)) = card {k. live s i k} \<and> (no_nonobsolete (info_of s i) = 0 \<longrightarrow> used_of s i = 0))"

definition table_inv :: "sdev \<Rightarrow> bool" where
  "table_inv s \<longleftrightarrow> (\<forall>m < size_of s. block_indices (sd_l s) ! m = NOWHERE \<or>
     (\<exists>i\<in>blocks s. \<exists>k. live s i k \<and> entry s i k = m))"

definition tail_inv :: "sdev \<Rightarrow> bool" where
  "tail_inv s \<longleftrightarrow> (\<forall>c. d_bi (sd_dev s) = Some c \<longrightarrow>
     c \<in> set (scheduled (d_j (sd_dev s))) \<and>
     tail_macroblock (sd_dev s) = juggler_get_obsoleted (infos (sd_b s)) (d_j (sd_dev s)) \<and>
     (if output_initialized (sd_l s) then \<forall>t. tail_macroblock (sd_dev s) = Some t \<and> t \<noteq> c \<longrightarrow> used_of s t = 0
      else used_of s c = 0))"

definition core_inv :: "gcrypt \<Rightarrow> sdev \<Rightarrow> bool" where
  "core_inv g s \<longleftrightarrow> base_inv g s \<and> (\<forall>i\<in>blocks s. block_inv s i) \<and> table_inv s"

definition sdev_inv :: "gcrypt \<Rightarrow> sdev \<Rightarrow> bool" where
  "sdev_inv g s \<longleftrightarrow> core_inv g s \<and> tail_inv s"

text \<open>
  What an operation of a device leaves alone: the geometry, the set of its blocks, and everything
  that belongs to other devices, their descriptors and their part of the disk.
\<close>

definition frame :: "sdev \<Rightarrow> sdev \<Rightarrow> bool" where
  "frame s s' \<longleftrightarrow> same_layout (sd_b s) (sd_b s') \<and> total_macroblocks (sd_b s') = total_macroblocks (sd_b s) \<and>
     length (disk (sd_b s')) = length (disk (sd_b s)) \<and> unallocated (sd_b s') = unallocated (sd_b s) \<and> blocks s' = blocks s \<and>
     no_block_indices (sd_l s') = no_block_indices (sd_l s) \<and>
     (\<forall>i. i \<notin> blocks s \<longrightarrow> info_of s' i = info_of s i \<and>
        bslice (i * 2 ^ macroblock_log (sd_b s)) (2 ^ macroblock_log (sd_b s)) (disk (sd_b s')) =
        bslice (i * 2 ^ macroblock_log (sd_b s)) (2 ^ macroblock_log (sd_b s)) (disk (sd_b s)))"

lemma frame_refl [simp]: "frame s s"
  by (simp add: frame_def same_layout_def)

lemma frame_trans: "frame s s' \<Longrightarrow> frame s' s'' \<Longrightarrow> frame s s''"
  by (simp add: frame_def same_layout_def)

text \<open>The results of a fallible step: it fails only when the random source is exhausted.\<close>

definition runs :: "'a res \<Rightarrow> ('a \<Rightarrow> bool) \<Rightarrow> bool" where
  "runs r Q \<longleftrightarrow> (case r of Inl e \<Rightarrow> e = out_of_random | Inr x \<Rightarrow> Q x)"

lemma runs_Inr [simp]: "runs (Inr x) Q = Q x"
  by (simp add: runs_def)

lemma runs_bind: "runs m Q \<Longrightarrow> (\<And>x. Q x \<Longrightarrow> runs (f x) R) \<Longrightarrow> runs (rbind m f) R"
  by (cases m) (auto simp: runs_def)

lemma runs_mono: "runs m Q \<Longrightarrow> (\<And>x. Q x \<Longrightarrow> R x) \<Longrightarrow> runs m R"
  by (cases m) (auto simp: runs_def)

section \<open>Facts about states that satisfy the invariant\<close>

lemma base_slots:
  assumes "base_inv g s"
  shows "mmpm (sd_b s) + 1 = 2 ^ mesobits (sd_l s)" "0 < mmpm (sd_b s)" "mmpm (sd_b s) < 2 ^ 14"
    "(mmpm (sd_b s) + 1) * 2 ^ mesoblk_log (sd_b s) = 2 ^ macroblock_log (sd_b s)"
    "length (tmp_macroblock (sd_dev s)) = (mmpm (sd_b s) + 1) * 2 ^ mesoblk_log (sd_b s)"
proof -
  have g: "geometry (sd_b s)" and d: "dev_ok (sd_b s) (sd_dev s)" using assms by (simp_all add: base_inv_def)
  show "mmpm (sd_b s) + 1 = 2 ^ mesobits (sd_l s)" using assms by (simp add: base_inv_def geometry_def)
  show "0 < mmpm (sd_b s)" "mmpm (sd_b s) < 2 ^ 14" using geometry_sizes(2,3,6) [OF g] by auto
  show *: "(mmpm (sd_b s) + 1) * 2 ^ mesoblk_log (sd_b s) = 2 ^ macroblock_log (sd_b s)" by (rule geometry_sizes(1) [OF g])
  show "length (tmp_macroblock (sd_dev s)) = (mmpm (sd_b s) + 1) * 2 ^ mesoblk_log (sd_b s)"
    using d unfolding * by (simp add: dev_ok_def)
qed

lemma slot_room:
  assumes "base_inv g s" "k < mmpm (sd_b s)"
  shows "Suc k * 2 ^ mesoblk_log (sd_b s) + 2 ^ mesoblk_log (sd_b s) \<le> length (tmp_macroblock (sd_dev s))"
    "Suc k * 2 ^ mesoblk_log (sd_b s) + 2 ^ mesoblk_log (sd_b s) \<le> 2 ^ macroblock_log (sd_b s)"
  using base_slots(4,5) [OF assms(1)] mult_le_mono1 [of "Suc k + 1" "mmpm (sd_b s) + 1" "2 ^ mesoblk_log (sd_b s)"] assms(2)
  by simp_all

lemma base_place:
  assumes "base_inv g s" "i < total_macroblocks (sd_b s)" "k < mmpm (sd_b s)"
  shows "ID (sd_l s) (place (sd_l s) i k) = i" "NO (sd_l s) (place (sd_l s) i k) = k" "place (sd_l s) i k \<noteq> NOWHERE"
proof -
  have "bits_ok (sd_l s)" "total_macroblocks (sd_b s) < 2 ^ (32 - mesobits (sd_l s))"
    using assms(1) by (simp_all add: base_inv_def)
  then have b: "bits_ok (sd_l s)" "i + 1 < 2 ^ (32 - mesobits (sd_l s))" "k < 2 ^ mesobits (sd_l s)"
    using assms(2,3) base_slots(1) [OF assms(1)] by linarith+
  then show "ID (sd_l s) (place (sd_l s) i k) = i" "NO (sd_l s) (place (sd_l s) i k) = k"
    using place_decode [of "sd_l s" i k] by simp_all
  show "place (sd_l s) i k \<noteq> NOWHERE" using b by (rule place_somewhere)
qed

lemma nowhere_not_block:
  "base_inv g s \<Longrightarrow> i < total_macroblocks (sd_b s) \<Longrightarrow> ID (sd_l s) NOWHERE \<noteq> i"
  by (auto simp: base_inv_def ID_nowhere)

lemma block_slot: "block_inv s i \<Longrightarrow> k < used_of s i \<Longrightarrow> k < mmpm (sd_b s) \<and> k < length (indices (info_of s i))"
  by (auto simp: block_inv_def info_ok_def)

text \<open>The entry of a mesoblock that was written names a live slot.\<close>

lemma entry_live:
  assumes "core_inv g s" "m < size_of s" "block_indices (sd_l s) ! m \<noteq> NOWHERE"
  defines "x \<equiv> block_indices (sd_l s) ! m"
  shows "ID (sd_l s) x \<in> blocks s" "live s (ID (sd_l s) x) (NO (sd_l s) x)" "entry s (ID (sd_l s) x) (NO (sd_l s) x) = m"
    "NO (sd_l s) x < mmpm (sd_b s)" "ID (sd_l s) x < total_macroblocks (sd_b s)"
proof -
  obtain i k where ik: "i \<in> blocks s" "live s i k" "entry s i k = m"
    using assms(1,2,3) unfolding core_inv_def table_inv_def by blast
  then have bi: "block_inv s i" using assms(1) by (simp add: core_inv_def)
  have k: "k < mmpm (sd_b s)" using block_slot [OF bi] ik(2) by (simp add: live_def)
  have i: "i < total_macroblocks (sd_b s)" using bi by (simp add: block_inv_def)
  have x: "x = place (sd_l s) i k" using ik(2,3) by (simp add: x_def live_def)
  have "ID (sd_l s) x = i" "NO (sd_l s) x = k"
    using base_place [of g s i k] assms(1) i k unfolding x by (simp_all add: core_inv_def)
  with ik k i show "ID (sd_l s) x \<in> blocks s" "live s (ID (sd_l s) x) (NO (sd_l s) x)"
    "entry s (ID (sd_l s) x) (NO (sd_l s) x) = m" "NO (sd_l s) x < mmpm (sd_b s)" "ID (sd_l s) x < total_macroblocks (sd_b s)"
    by simp_all
qed

lemma live_unique: "distinct (take (used_of s i) (indices (info_of s i))) \<Longrightarrow> info_ok (sd_b s) (info_of s i) \<Longrightarrow>
  k < used_of s i \<Longrightarrow> k' < used_of s i \<Longrightarrow> entry s i k = entry s i k' \<Longrightarrow> k = k'"
  using nth_eq_iff_index_eq [of "take (used_of s i) (indices (info_of s i))" k k'] by (simp add: info_ok_def word_unat_eq_iff)

lemma finite_live [simp]: "finite {k. live s i k}"
  by (rule finite_subset [of _ "{..<used_of s i}"]) (auto simp: live_def)

text \<open>Reading a slot from disk.\<close>

lemma read_mesoblk_disk:
  assumes "base_inv g s" "i < total_macroblocks (sd_b s)" "k < mmpm (sd_b s)"
  shows "blockio_dev_read_mesoblk g (sd_b s, sd_dev s) i k = Inr (disk_meso g s i k)"
    "length (disk_meso g s i k) = 2 ^ mesoblk_log (sd_b s)"
proof -
  let ?b = "sd_b s"
  have geo: "geometry ?b" and c: "cipher_ok g (d_c (sd_dev s))" "cipher_size (d_c (sd_dev s)) = 2 ^ mesoblk_log ?b"
    using assms(1) by (auto simp: base_inv_def dev_ok_def)
  have "i * 2 ^ macroblock_log ?b + Suc k * 2 ^ mesoblk_log ?b + 2 ^ mesoblk_log ?b \<le> length (disk ?b)"
    using macroblock_inside [OF geo assms(2)] slot_room(2) [OF assms(1,3)] by linarith
  then show "blockio_dev_read_mesoblk g (?b, sd_dev s) i k = Inr (disk_meso g s i k)"
    "length (disk_meso g s i k) = 2 ^ mesoblk_log ?b"
    using length_wide(2) [OF c(1)] c(2)
    by (simp_all add: blockio_dev_read_mesoblk_def stream_read_def disk_meso_def wide_dec_def info_of_def Let_def)
qed

lemma length_slot:
  assumes "base_inv g s" "i < total_macroblocks (sd_b s)" "k < mmpm (sd_b s)"
  shows "length (slot g s i k) = 2 ^ mesoblk_log (sd_b s)"
  using read_mesoblk_disk(2) [OF assms] slot_room(1) [OF assms(1,3)] by (simp add: slot_def)

lemma length_content:
  assumes "core_inv g s" "m < size_of s" shows "length (content g s m) = 2 ^ mesoblk_log (sd_b s)"
  using entry_live(4,5) [OF assms] length_slot assms(1) by (auto simp: content_def Let_def core_inv_def)

section \<open>Moving a mesoblock to the macroblock in memory\<close>

text \<open>
  Garbage collection and writing both store a new version of mesoblock \<open>m\<close> in the next slot of the
  current macroblock and make its old version obsolete, in different orders; this is the common
  result.
\<close>

definition obsoleted :: "blockio_info \<Rightarrow> blockio_info" where
  "obsoleted i = (let n = no_nonobsolete i - 1 in i\<lparr>no_nonobsolete := n, no_indices := (if n = 0 then 0 else no_indices i)\<rparr>)"

definition referenced :: "nat \<Rightarrow> blockio_info \<Rightarrow> blockio_info" where
  "referenced m i = i\<lparr>indices := (indices i)[unat (no_indices i) := of_nat m], no_indices := no_indices i + 1\<rparr>"

definition moved_info :: "sdev \<Rightarrow> nat \<Rightarrow> nat \<Rightarrow> nat \<Rightarrow> blockio_info" where
  "moved_info s c m i =
     (if i = c then referenced m (info_of s c)
      else if block_indices (sd_l s) ! m \<noteq> NOWHERE \<and> i = ID (sd_l s) (block_indices (sd_l s) ! m) then obsoleted (info_of s i)
      else info_of s i)"

definition relocated :: "sdev \<Rightarrow> nat \<Rightarrow> nat \<Rightarrow> bytes \<Rightarrow> sdev" where
  "relocated s c m d =
     s\<lparr>sd_b := (sd_b s)\<lparr>infos := moved_info s c m\<rparr>,
       sd_dev := (sd_dev s)\<lparr>tmp_macroblock := blit (Suc (used_of s c) * 2 ^ mesoblk_log (sd_b s)) d (tmp_macroblock (sd_dev s))\<rparr>,
       sd_l := (sd_l s)\<lparr>block_indices := (block_indices (sd_l s))[m := place (sd_l s) c (used_of s c)]\<rparr>\<rparr>"

definition movable :: "gcrypt \<Rightarrow> sdev \<Rightarrow> nat \<Rightarrow> nat \<Rightarrow> bytes \<Rightarrow> bool" where
  "movable g s c m d \<longleftrightarrow> core_inv g s \<and> d_bi (sd_dev s) = Some c \<and> c \<in> blocks s \<and> m < size_of s \<and> used_of s c < mmpm (sd_b s) \<and>
     ID (sd_l s) (block_indices (sd_l s) ! m) \<noteq> c \<and> length d = 2 ^ mesoblk_log (sd_b s)"

lemma obsoleted_fields [simp]:
  "bi_seqno (obsoleted i) = bi_seqno i" "bi_next_seqno (obsoleted i) = bi_next_seqno i" "bi_dev (obsoleted i) = bi_dev i"
  "indices (obsoleted i) = indices i" "no_nonobsolete (obsoleted i) = no_nonobsolete i - 1"
  "no_indices (obsoleted i) = (if no_nonobsolete i = 1 then 0 else no_indices i)"
  by (simp_all add: obsoleted_def Let_def)

lemma referenced_fields [simp]:
  "bi_seqno (referenced m i) = bi_seqno i" "bi_next_seqno (referenced m i) = bi_next_seqno i"
  "bi_dev (referenced m i) = bi_dev i" "no_indices (referenced m i) = no_indices i + 1"
  "indices (referenced m i) = (indices i)[unat (no_indices i) := of_nat m]"
  by (simp_all add: referenced_def)

lemma moved_info_kept [simp]:
  "bi_seqno (moved_info s c m i) = bi_seqno (info_of s i)" "bi_next_seqno (moved_info s c m i) = bi_next_seqno (info_of s i)"
  "bi_dev (moved_info s c m i) = bi_dev (info_of s i)"
  by (simp_all add: moved_info_def)

lemma relocated_fields [simp]:
  "info_of (relocated s c m d) = moved_info s c m" "infos (sd_b (relocated s c m d)) = moved_info s c m"
  "d_bi (sd_dev (relocated s c m d)) = d_bi (sd_dev s)" "d_j (sd_dev (relocated s c m d)) = d_j (sd_dev s)"
  "status (sd_dev (relocated s c m d)) = status (sd_dev s)" "d_c (sd_dev (relocated s c m d)) = d_c (sd_dev s)"
  "tail_macroblock (sd_dev (relocated s c m d)) = tail_macroblock (sd_dev s)"
  "no_block_indices (sd_l (relocated s c m d)) = no_block_indices (sd_l s)"
  "mesobits (sd_l (relocated s c m d)) = mesobits (sd_l s)" "mesomask (sd_l (relocated s c m d)) = mesomask (sd_l s)"
  "output_initialized (sd_l (relocated s c m d)) = output_initialized (sd_l s)"
  "place (sd_l (relocated s c m d)) = place (sd_l s)" "ID (sd_l (relocated s c m d)) = ID (sd_l s)"
  "NO (sd_l (relocated s c m d)) = NO (sd_l s)" "bits_ok (sd_l (relocated s c m d)) = bits_ok (sd_l s)"
  "block_indices (sd_l (relocated s c m d)) = (block_indices (sd_l s))[m := place (sd_l s) c (used_of s c)]"
  "tmp_macroblock (sd_dev (relocated s c m d)) =
     blit (Suc (used_of s c) * 2 ^ mesoblk_log (sd_b s)) d (tmp_macroblock (sd_dev s))"
  "mmpm (sd_b (relocated s c m d)) = mmpm (sd_b s)" "macroblock_log (sd_b (relocated s c m d)) = macroblock_log (sd_b s)"
  "mesoblk_log (sd_b (relocated s c m d)) = mesoblk_log (sd_b s)" "disk (sd_b (relocated s c m d)) = disk (sd_b s)"
  "total_macroblocks (sd_b (relocated s c m d)) = total_macroblocks (sd_b s)"
  "bitmap_offset (sd_b (relocated s c m d)) = bitmap_offset (sd_b s)"
  "max_macroblocks (sd_b (relocated s c m d)) = max_macroblocks (sd_b s)"
  "unallocated (sd_b (relocated s c m d)) = unallocated (sd_b s)" "geometry (sd_b (relocated s c m d)) = geometry (sd_b s)"
  by (auto simp: relocated_def info_of_def place_def ID_def NO_def bits_ok_def fun_eq_iff)

lemma juggler_cong:
  assumes "\<And>i. i \<in> set (scheduled j @ unscheduled j) \<Longrightarrow> bi_seqno (bis' i) = bi_seqno (bis i) \<and> bi_next_seqno (bis' i) = bi_next_seqno (bis i)"
  shows "juggler_inv bis' j = juggler_inv bis j" "juggler_get_obsoleted bis' j = juggler_get_obsoleted bis j"
    "juggler_ready bis' j = juggler_ready bis j"
proof -
  show *: "juggler_get_obsoleted bis' j = juggler_get_obsoleted bis j"
    using assms by (auto simp: juggler_get_obsoleted_def split: list.split)
  show "juggler_ready bis' j = juggler_ready bis j" using * by (simp add: juggler_ready_def)
  show "juggler_inv bis' j = juggler_inv bis j"
    using assms sched_ordered_cong [of "scheduled j" bis' bis] by (simp add: juggler_inv_def)
qed

lemma movable_facts:
  assumes "movable g s c m d"
  shows "base_inv g s" "core_inv g s" "block_inv s c" "unat (no_indices (info_of s c) + 1) = Suc (used_of s c)"
    "unat (of_nat m :: u32) = m" "m < length (block_indices (sd_l s))" "used_of s c < length (indices (info_of s c))"
    "c < total_macroblocks (sd_b s)"
proof -
  show *: "base_inv g s" "core_inv g s" "block_inv s c" using assms by (simp_all add: movable_def core_inv_def)
  have "used_of s c < mmpm (sd_b s)" "m < size_of s" using assms by (simp_all add: movable_def)
  moreover have "mmpm (sd_b s) < 2 ^ 14" using *(1) by (rule base_slots)
  ultimately show "unat (no_indices (info_of s c) + 1) = Suc (used_of s c)" by (simp add: unat_word_ariths)
  show "unat (of_nat m :: u32) = m"
    using \<open>m < size_of s\<close> unat_less_exp [of "no_block_indices (sd_l s)"] by (intro unat_of_nat_small) simp
  show "m < length (block_indices (sd_l s))" using \<open>m < size_of s\<close> *(1) by (simp add: base_inv_def)
  show "used_of s c < length (indices (info_of s c))" using \<open>used_of s c < mmpm (sd_b s)\<close> *(3) by (simp add: block_inv_def info_ok_def)
  show "c < total_macroblocks (sd_b s)" using *(3) by (simp add: block_inv_def)
qed

lemma relocated_base:
  assumes mv: "movable g s c m d" shows "base_inv g (relocated s c m d)"
proof -
  note b = movable_facts(1) [OF mv]
  have "Suc (used_of s c) * 2 ^ mesoblk_log (sd_b s) + length d \<le> length (tmp_macroblock (sd_dev s))"
    using slot_room(1) [OF b, of "used_of s c"] mv by (simp add: movable_def)
  then have "dev_ok (sd_b (relocated s c m d)) (sd_dev (relocated s c m d))"
    using b by (simp add: base_inv_def dev_ok_def relocated_def length_blit)
  moreover have "juggler_inv (moved_info s c m) (d_j (sd_dev s)) = juggler_inv (infos (sd_b s)) (d_j (sd_dev s))"
    "juggler_ready (moved_info s c m) (d_j (sd_dev s)) = juggler_ready (infos (sd_b s)) (d_j (sd_dev s))"
    by (rule juggler_cong; simp add: info_of_def)+
  ultimately show ?thesis using b by (simp add: base_inv_def)
qed

text \<open>The block that holds the old version, if there is one.\<close>

lemma movable_owner:
  assumes mv: "movable g s c m d" and x: "block_indices (sd_l s) ! m \<noteq> NOWHERE"
  defines "x \<equiv> block_indices (sd_l s) ! m"
  shows "ID (sd_l s) x \<in> blocks s" "live s (ID (sd_l s) x) (NO (sd_l s) x)" "entry s (ID (sd_l s) x) (NO (sd_l s) x) = m"
    "unat (no_nonobsolete (info_of s (ID (sd_l s) x))) = card {k. live s (ID (sd_l s) x) k}"
    "no_nonobsolete (info_of s (ID (sd_l s) x)) \<noteq> 0"
proof -
  have ci: "core_inv g s" "m < size_of s" "ID (sd_l s) x \<noteq> c" "d_bi (sd_dev s) = Some c"
    using mv by (simp_all add: movable_def x_def)
  note el = entry_live [OF ci(1,2) x, folded x_def]
  show "ID (sd_l s) x \<in> blocks s" "live s (ID (sd_l s) x) (NO (sd_l s) x)" "entry s (ID (sd_l s) x) (NO (sd_l s) x) = m"
    by (fact el)+
  have "block_inv s (ID (sd_l s) x)" using ci(1) el(1) by (simp add: core_inv_def)
  then show *: "unat (no_nonobsolete (info_of s (ID (sd_l s) x))) = card {k. live s (ID (sd_l s) x) k}"
    using ci(3,4) by (simp add: block_inv_def)
  have "0 < card {k. live s (ID (sd_l s) x) k}" using el(2) by (auto simp: card_gt_0_iff)
  then show "no_nonobsolete (info_of s (ID (sd_l s) x)) \<noteq> 0" using * by auto
qed

lemma live_entry_unique:
  assumes "block_inv s i" "live s i k" "live s i k'" "entry s i k = entry s i k'" shows "k = k'"
  using assms live_unique [of s i k k'] by (simp add: block_inv_def live_def)

lemma movable_card:
  assumes mv: "movable g s c m d" and i: "i \<in> blocks s" "i \<noteq> c"
    and o: "block_indices (sd_l s) ! m \<noteq> NOWHERE" "i = ID (sd_l s) (block_indices (sd_l s) ! m)"
  shows "card {k. live s i k \<and> entry s i k \<noteq> m} = card {k. live s i k} - 1"
    "card {k. live s i k} = 1 \<Longrightarrow> \<not> (live s i k \<and> entry s i k \<noteq> m)"
proof -
  let ?k = "NO (sd_l s) (block_indices (sd_l s) ! m)"
  have bi: "block_inv s i" using mv i by (simp add: movable_def core_inv_def)
  have k: "live s i ?k" "entry s i ?k = m" using movable_owner(2,3) [OF mv o(1)] o(2) by simp_all
  then have "{k. live s i k \<and> entry s i k \<noteq> m} = {k. live s i k} - {?k}"
    using live_entry_unique [OF bi] by auto
  with k(1) show *: "card {k. live s i k \<and> entry s i k \<noteq> m} = card {k. live s i k} - 1" by simp
  show "\<not> (live s i k \<and> entry s i k \<noteq> m)" if "card {k. live s i k} = 1"
    using that * finite_subset [OF _ finite_live, of "{k. live s i k \<and> entry s i k \<noteq> m}" s i] by (auto simp: card_eq_0_iff)
qed

lemma relocated_live_other:
  assumes mv: "movable g s c m d" and i: "i \<in> blocks s" "i \<noteq> c"
  shows "live (relocated s c m d) i k \<longleftrightarrow> live s i k \<and> entry s i k \<noteq> m"
proof -
  note f = movable_facts [OF mv]
  have bi: "block_inv s i" using f(2) i by (simp add: core_inv_def)
  then have it: "i < total_macroblocks (sd_b s)" by (simp add: block_inv_def)
  have n: "used_of s c < mmpm (sd_b s)" using mv by (simp add: movable_def)
  have ne: "place (sd_l s) c (used_of s c) \<noteq> place (sd_l s) i k" if "k < used_of s i"
    using base_place(1) [OF f(1) it, of k] base_place(1) [OF f(1) f(8) n] block_slot [OF bi that] i(2) by metis
  have same: "k < used_of s i \<and> entry s i k < size_of s \<and>
      (block_indices (sd_l s))[m := place (sd_l s) c (used_of s c)] ! entry s i k = place (sd_l s) i k
    \<longleftrightarrow> live s i k \<and> entry s i k \<noteq> m"
    using f(6) ne by (auto simp: live_def nth_list_update)
  show ?thesis
  proof (cases "block_indices (sd_l s) ! m \<noteq> NOWHERE \<and> i = ID (sd_l s) (block_indices (sd_l s) ! m)")
    case True
    show ?thesis
    proof (cases "no_nonobsolete (info_of s i) = 1")
      case one: True
      then have "card {k. live s i k} = 1" using movable_owner(4) [OF mv] True by simp
      with movable_card(2) [OF mv i] True one i show ?thesis by (auto simp: live_def moved_info_def)
    next
      case False
      with True i same show ?thesis by (simp add: live_def moved_info_def)
    qed
  next
    case False
    then show ?thesis using same i by (auto simp: live_def moved_info_def)
  qed
qed

lemma relocated_live_cur:
  assumes mv: "movable g s c m d"
  shows "live (relocated s c m d) c k \<longleftrightarrow> k \<le> used_of s c"
    "k < used_of s c \<Longrightarrow> entry s c k \<noteq> m \<and> entry (relocated s c m d) c k = entry s c k"
    "entry (relocated s c m d) c (used_of s c) = m"
proof -
  note f = movable_facts [OF mv]
  have m: "m < size_of s" "d_bi (sd_dev s) = Some c" "ID (sd_l s) (block_indices (sd_l s) ! m) \<noteq> c"
    using mv by (simp_all add: movable_def)
  have lv: "live s c k" if "k < used_of s c" for k using f(3) m(2) that by (simp add: block_inv_def)
  have ne: "entry s c k \<noteq> m" if "k < used_of s c" for k
    using lv [OF that] base_place(1) [OF f(1) f(8), of k] block_slot [OF f(3) that] m(3) by (auto simp: live_def)
  then show "k < used_of s c \<Longrightarrow> entry s c k \<noteq> m \<and> entry (relocated s c m d) c k = entry s c k"
    by (simp add: moved_info_def)
  show last: "entry (relocated s c m d) c (used_of s c) = m" using f(5,7) by (simp add: moved_info_def)
  show "live (relocated s c m d) c k \<longleftrightarrow> k \<le> used_of s c"
  proof (cases "k < used_of s c")
    case True
    then show ?thesis using lv [OF True] ne [OF True] f(4) by (simp add: live_def moved_info_def)
  next
    case False
    then show ?thesis using f(4,6) m(1) last by (auto simp: live_def moved_info_def le_less)
  qed
qed

lemma scheduled_once:
  "base_inv g s \<Longrightarrow> set (scheduled (d_j (sd_dev s))) \<inter> set (unscheduled (d_j (sd_dev s))) = {}"
  by (auto simp: base_inv_def juggler_inv_def)

lemma relocated_block_cur:
  assumes mv: "movable g s c m d" shows "block_inv (relocated s c m d) c"
proof -
  note f = movable_facts [OF mv] and l = relocated_live_cur [OF mv]
  let ?n = "used_of s c" and ?is = "indices (info_of s c)"
  have mm: "d_bi (sd_dev s) = Some c" "?n < mmpm (sd_b s)" using mv by (simp_all add: movable_def)
  have "of_nat m \<notin> set (take ?n ?is)"
  proof
    assume "of_nat m \<in> set (take ?n ?is)"
    then obtain k where "k < ?n" "entry s c k = m" using f(5) by (auto simp: in_set_conv_nth)
    with l(2) show False by blast
  qed
  moreover have "take (Suc ?n) (?is[?n := of_nat m]) = take ?n ?is @ [of_nat m]"
    using f(7) by (simp add: take_Suc_conv_app_nth)
  ultimately show ?thesis
    using f(3,4) mm l(1) scheduled_once [OF f(1)] by (auto simp: block_inv_def info_ok_def moved_info_def)
qed

lemma relocated_block_other:
  assumes mv: "movable g s c m d" and i: "i \<in> blocks s" "i \<noteq> c" shows "block_inv (relocated s c m d) i"
proof -
  note f = movable_facts [OF mv] and l = relocated_live_other [OF mv i]
  have bi: "block_inv s i" using f(2) i by (simp add: core_inv_def)
  have cur: "d_bi (sd_dev s) = Some c" using mv by (simp add: movable_def)
  show ?thesis
  proof (cases "block_indices (sd_l s) ! m \<noteq> NOWHERE \<and> i = ID (sd_l s) (block_indices (sd_l s) ! m)")
    case True
    have nz: "no_nonobsolete (info_of s i) \<noteq> 0" using movable_owner(5) [OF mv] True by simp
    have "unat (no_nonobsolete (info_of s i) - 1) = card {k. live s i k} - 1"
      using movable_owner(4) [OF mv] True unat_minus_one [OF nz] by simp
    then have cnt: "unat (no_nonobsolete (info_of s i) - 1) = card {k. live (relocated s c m d) i k}"
      using movable_card(1) [OF mv i] True l by simp
    show ?thesis using True bi i cur cnt by (auto simp: block_inv_def info_ok_def moved_info_def)
  next
    case False
    have "entry s i k \<noteq> m" if "live s i k" for k
      using that False base_place [OF f(1), of i k] block_slot [OF bi, of k] bi by (auto simp: live_def block_inv_def)
    with l have "{k. live (relocated s c m d) i k} = {k. live s i k}" by auto
    then show ?thesis using False bi i cur by (auto simp: block_inv_def info_ok_def moved_info_def)
  qed
qed

lemma relocated_table:
  assumes mv: "movable g s c m d" shows "table_inv (relocated s c m d)"
  unfolding table_inv_def
proof (intro allI impI)
  fix m' assume m': "m' < size_of (relocated s c m d)"
  let ?s = "relocated s c m d"
  note f = movable_facts [OF mv] and l = relocated_live_cur [OF mv]
  have c: "c \<in> blocks s" using mv by (simp add: movable_def)
  show "block_indices (sd_l ?s) ! m' = NOWHERE \<or> (\<exists>i\<in>blocks ?s. \<exists>k. live ?s i k \<and> entry ?s i k = m')"
  proof (cases "m' = m \<or> block_indices (sd_l s) ! m' = NOWHERE")
    case True
    then show ?thesis using l(1) [of "used_of s c"] l(3) c by (cases "m' = m") auto
  next
    case False
    then obtain i k where ik: "i \<in> blocks s" "live s i k" "entry s i k = m'"
      using entry_live(1,2,3) [OF f(2), of m'] m' by simp
    have "live ?s i k \<and> entry ?s i k = m'"
    proof (cases "i = c")
      case True
      then have "k < used_of s c" using ik(2) by (simp add: live_def)
      with True l(1,2) [of k] ik show ?thesis by auto
    next
      case i: False
      then show ?thesis using relocated_live_other [OF mv ik(1) i] ik False by (auto simp: moved_info_def)
    qed
    with ik(1) show ?thesis by auto
  qed
qed

lemma relocated_core:
  assumes mv: "movable g s c m d" shows "core_inv g (relocated s c m d)"
  using relocated_base [OF mv] relocated_block_cur [OF mv] relocated_block_other [OF mv] relocated_table [OF mv]
  by (auto simp: core_inv_def)

lemma relocated_content:
  assumes mv: "movable g s c m d" and m': "m' < size_of s"
  shows "content g (relocated s c m d) m' = (if m' = m then d else content g s m')"
proof -
  note f = movable_facts [OF mv]
  let ?sz = "2 ^ mesoblk_log (sd_b s) :: nat" and ?n = "used_of s c"
  have n: "?n < mmpm (sd_b s)" "length d = ?sz" "d_bi (sd_dev s) = Some c" using mv by (simp_all add: movable_def)
  note room = slot_room(1) [OF f(1)]
  show ?thesis
  proof (cases "m' = m")
    case True
    have "slot g (relocated s c m d) c ?n = d" using room [OF n(1)] n by (simp add: slot_def bslice_blit_same)
    then show ?thesis using True f(6) base_place [OF f(1) f(8) n(1)] by (simp add: content_def)
  next
    case False
    let ?x = "block_indices (sd_l s) ! m'"
    have "slot g (relocated s c m d) (ID (sd_l s) ?x) (NO (sd_l s) ?x) = slot g s (ID (sd_l s) ?x) (NO (sd_l s) ?x)"
      if x: "?x \<noteq> NOWHERE"
    proof (cases "ID (sd_l s) ?x = c")
      case True
      have "NO (sd_l s) ?x < ?n" "NO (sd_l s) ?x < mmpm (sd_b s)"
        using entry_live(2,4) [OF f(2) m' x] True by (simp_all add: live_def)
      then show ?thesis
        using True n room [OF n(1)] room [of "NO (sd_l s) ?x"] meso_disjoint [of "Suc (NO (sd_l s) ?x)" "Suc ?n" ?sz]
        by (auto simp: slot_def bslice_blit_disjoint)
    next
      case o: False
      then show ?thesis using n by (simp add: slot_def disk_meso_def Let_def)
    qed
    then show ?thesis using False by (simp add: content_def Let_def)
  qed
qed

lemma relocated_frame:
  assumes mv: "movable g s c m d" shows "frame s (relocated s c m d)"
proof -
  have "block_indices (sd_l s) ! m \<noteq> NOWHERE \<Longrightarrow> ID (sd_l s) (block_indices (sd_l s) ! m) \<in> blocks s"
    by (rule movable_owner(1) [OF mv])
  moreover have "c \<in> blocks s" using mv by (simp add: movable_def)
  ultimately show ?thesis by (auto simp: frame_def same_layout_def moved_info_def)
qed

section \<open>Output\<close>

lemma bslice_blit_outside:
  assumes "off + length d \<le> length b" "a + n \<le> off \<or> off + length d \<le> a"
  shows "bslice a n (blit off d b) = bslice a n b"
proof (cases "off + length d \<le> a")
  case True
  then show ?thesis using assms(1) by (simp add: bslice_def blit_def)
next
  case False
  with assms show ?thesis by (intro bslice_blit_disjoint) auto
qed

lemma write_ok_current:
  "base_inv g s \<Longrightarrow> block_inv s c \<Longrightarrow> d_bi (sd_dev s) = Some c \<Longrightarrow> write_ok g (sd_b s, sd_dev s) c"
  by (simp add: write_ok_def base_inv_def block_inv_def info_of_def)

text \<open>The block that is handed out is empty and not the one that was just written.\<close>

text \<open>The state after the current macroblock \<open>c\<close> was written as \<open>img\<close>: no macroblock is current.\<close>

definition flushed_info :: "sdev \<Rightarrow> nat \<Rightarrow> nat \<Rightarrow> blockio_info" where
  "flushed_info s c i = (if i = c then (info_of s c)\<lparr>no_nonobsolete := no_indices (info_of s c)\<rparr> else info_of s i)"

definition flushed :: "sdev \<Rightarrow> nat \<Rightarrow> bytes \<Rightarrow> sdev" where
  "flushed s c img =
     s\<lparr>sd_b := (sd_b s)\<lparr>infos := flushed_info s c, disk := blit (c * 2 ^ macroblock_log (sd_b s)) img (disk (sd_b s))\<rparr>,
       sd_dev := (sd_dev s)\<lparr>tmp_macroblock := img, writes := writes (sd_dev s) + 1, d_bi := None\<rparr>\<rparr>"

definition flushing :: "gcrypt \<Rightarrow> sdev \<Rightarrow> nat \<Rightarrow> bytes \<Rightarrow> bool" where
  "flushing g s c img \<longleftrightarrow> core_inv g s \<and> d_bi (sd_dev s) = Some c \<and> c \<in> set (scheduled (d_j (sd_dev s))) \<and>
     image_of g (sd_b s) (sd_dev s) c img"

lemma flushed_fields [simp]:
  "sd_l (flushed s c img) = sd_l s" "info_of (flushed s c img) = flushed_info s c" "infos (sd_b (flushed s c img)) = flushed_info s c"
  "disk (sd_b (flushed s c img)) = blit (c * 2 ^ macroblock_log (sd_b s)) img (disk (sd_b s))"
  "macroblock_log (sd_b (flushed s c img)) = macroblock_log (sd_b s)" "mesoblk_log (sd_b (flushed s c img)) = mesoblk_log (sd_b s)"
  "mmpm (sd_b (flushed s c img)) = mmpm (sd_b s)" "bitmap_offset (sd_b (flushed s c img)) = bitmap_offset (sd_b s)"
  "max_macroblocks (sd_b (flushed s c img)) = max_macroblocks (sd_b s)"
  "total_macroblocks (sd_b (flushed s c img)) = total_macroblocks (sd_b s)" "unallocated (sd_b (flushed s c img)) = unallocated (sd_b s)"
  "d_j (sd_dev (flushed s c img)) = d_j (sd_dev s)" "d_bi (sd_dev (flushed s c img)) = None" "d_c (sd_dev (flushed s c img)) = d_c (sd_dev s)"
  "status (sd_dev (flushed s c img)) = status (sd_dev s)" "tmp_macroblock (sd_dev (flushed s c img)) = img"
  "d_id (sd_dev (flushed s c img)) = d_id (sd_dev s)" "no_macroblocks (sd_dev (flushed s c img)) = no_macroblocks (sd_dev s)"
  "reserved_macroblocks (sd_dev (flushed s c img)) = reserved_macroblocks (sd_dev s)"
  "replay_list (sd_dev (flushed s c img)) = replay_list (sd_dev s)"
  by (auto simp: flushed_def info_of_def)

lemma flushed_info_kept [simp]:
  "indices (flushed_info s c i) = indices (info_of s i)" "no_indices (flushed_info s c i) = no_indices (info_of s i)"
  "bi_dev (flushed_info s c i) = bi_dev (info_of s i)" "bi_seqno (flushed_info s c i) = bi_seqno (info_of s i)"
  "bi_next_seqno (flushed_info s c i) = bi_next_seqno (info_of s i)"
  by (simp_all add: flushed_info_def)

lemma flushed_live [simp]: "live (flushed s c img) = live s"
  by (simp add: live_def fun_eq_iff)

lemma flushed_juggler [simp]:
  "juggler_inv (flushed_info s c) j = juggler_inv (infos (sd_b s)) j"
  "juggler_get_obsoleted (flushed_info s c) j = juggler_get_obsoleted (infos (sd_b s)) j"
  "juggler_ready (flushed_info s c) j = juggler_ready (infos (sd_b s)) j"
  by (rule juggler_cong; simp add: info_of_def)+

lemma flushed_disk:
  assumes "flushing g s c img"
  shows "length img = 2 ^ macroblock_log (sd_b s)" "c * 2 ^ macroblock_log (sd_b s) + length img \<le> length (disk (sd_b s))"
    "length (disk (sd_b (flushed s c img))) = length (disk (sd_b s))" "c < total_macroblocks (sd_b s)"
    "bslice (c * 2 ^ macroblock_log (sd_b s)) (2 ^ macroblock_log (sd_b s)) (disk (sd_b (flushed s c img))) = img"
    "i \<noteq> c \<Longrightarrow> bslice (i * 2 ^ macroblock_log (sd_b s)) (2 ^ macroblock_log (sd_b s)) (disk (sd_b (flushed s c img))) =
      bslice (i * 2 ^ macroblock_log (sd_b s)) (2 ^ macroblock_log (sd_b s)) (disk (sd_b s))"
proof -
  let ?M = "2 ^ macroblock_log (sd_b s) :: nat"
  have c: "geometry (sd_b s)" "block_inv s c" using assms by (auto simp: flushing_def core_inv_def base_inv_def)
  show l: "length img = ?M" using assms by (simp add: flushing_def image_of_def)
  moreover show "c < total_macroblocks (sd_b s)" using c(2) by (simp add: block_inv_def)
  ultimately show r: "c * ?M + length img \<le> length (disk (sd_b s))" using macroblock_inside [OF c(1)] by simp
  then show "length (disk (sd_b (flushed s c img))) = length (disk (sd_b s))" by (simp add: length_blit)
  show "bslice (c * ?M) ?M (disk (sd_b (flushed s c img))) = img" using l r by (simp add: bslice_blit_same)
  show "bslice (i * ?M) ?M (disk (sd_b (flushed s c img))) = bslice (i * ?M) ?M (disk (sd_b s))" if "i \<noteq> c"
    using l r meso_disjoint [OF that, of ?M] by (auto intro: bslice_blit_outside)
qed

lemma flushed_core:
  assumes fl: "flushing g s c img" shows "core_inv g (flushed s c img)"
proof -
  let ?s = "flushed s c img"
  note d = flushed_disk [OF fl]
  have t: "core_inv g s" "d_bi (sd_dev s) = Some c" using fl by (simp_all add: flushing_def)
  have "geometry (sd_b ?s) = geometry (sd_b s)" using d(3) by (simp add: geometry_def)
  moreover have "dev_ok (sd_b s) (sd_dev s) \<Longrightarrow> dev_ok (sd_b ?s) (sd_dev ?s)" using d(1) by (simp add: dev_ok_def)
  ultimately have "base_inv g ?s" using t(1) by (auto simp: core_inv_def base_inv_def)
  moreover have "block_inv ?s i" if "i \<in> blocks s" for i
  proof -
    have bi: "block_inv s i" using t(1) that by (simp add: core_inv_def)
    have "{k. live s c k} = {..<used_of s c}" if "i = c"
      using that bi t(2) by (auto simp: block_inv_def live_def)
    then have "card {k. live s c k} = used_of s c" if "i = c" using that by simp
    then show ?thesis
      using bi t by (auto simp: block_inv_def info_ok_def flushed_info_def unat_eq_zero)
  qed
  moreover have "table_inv ?s" using t(1) by (simp add: core_inv_def table_inv_def)
  ultimately show ?thesis by (simp add: core_inv_def)
qed

lemma flushed_content:
  assumes fl: "flushing g s c img" and m: "m < size_of s"
  shows "content g (flushed s c img) m = content g s m"
proof (cases "block_indices (sd_l s) ! m = NOWHERE")
  case True
  then show ?thesis by (simp add: content_def)
next
  case False
  let ?s = "flushed s c img" and ?M = "2 ^ macroblock_log (sd_b s) :: nat"
  let ?x = "block_indices (sd_l s) ! m" let ?i = "ID (sd_l s) ?x" and ?k = "NO (sd_l s) ?x"
  have t: "core_inv g s" "d_bi (sd_dev s) = Some c" "image_of g (sd_b s) (sd_dev s) c img" "block_inv s c"
    using fl by (auto simp: flushing_def core_inv_def)
  have base: "base_inv g s" "base_inv g ?s" using t(1) flushed_core [OF fl] by (simp_all add: core_inv_def)
  note el = entry_live [OF t(1) m False] and d = flushed_disk [OF fl]
  have geo: "geometry (sd_b s)" using base(1) by (simp add: base_inv_def)
  have "disk_meso g ?s ?i ?k = slot g s ?i ?k"
  proof (cases "?i = c")
    case True
    have "blockio_dev_read_mesoblk g (sd_b ?s, sd_dev ?s) c ?k = Inr (data_meso (sd_b s) (sd_dev s) c ?k)"
      by (rule read_mesoblk_image [OF write_ok_current [OF base(1) t(4,2)] t(3) el(4) d(5)])
        (use d in \<open>simp_all add: info_of_def length_blit\<close>)
    moreover have "blockio_dev_read_mesoblk g (sd_b ?s, sd_dev ?s) c ?k = Inr (disk_meso g ?s c ?k)"
      using read_mesoblk_disk(1) [OF base(2), of c ?k] el(4,5) True by simp
    ultimately show ?thesis
      using el(2) True t(2) by (simp add: slot_def data_meso_def live_def info_of_def)
  next
    case o: False
    have "bslice (?i * ?M + Suc ?k * 2 ^ mesoblk_log (sd_b s)) (2 ^ mesoblk_log (sd_b s)) (blit (c * ?M) img (disk (sd_b s))) =
        bslice (?i * ?M + Suc ?k * 2 ^ mesoblk_log (sd_b s)) (2 ^ mesoblk_log (sd_b s)) (disk (sd_b s))"
      using o d macroblock_inside [OF geo el(5)] slot_room(2) [OF base(1) el(4)] by (intro macroblock_disjoint) auto
    then show ?thesis using o t(2) by (simp add: slot_def disk_meso_def Let_def)
  qed
  then show ?thesis using False by (simp add: content_def slot_def [of g ?s])
qed

lemma flushed_frame:
  assumes fl: "flushing g s c img" shows "frame s (flushed s c img)"
proof -
  have "c \<in> blocks s" using fl by (auto simp: flushing_def)
  then have "i \<noteq> c" if "i \<notin> blocks s" for i using that by auto
  then show ?thesis
    using flushed_disk(3,6) [OF fl] unfolding frame_def by (simp add: same_layout_def flushed_info_def)
qed

text \<open>The state after an empty macroblock \<open>b\<close> was selected.\<close>

definition picked_info :: "sdev \<Rightarrow> nat \<Rightarrow> u64 \<Rightarrow> nat \<Rightarrow> blockio_info" where
  "picked_info s b ns = (info_of s)(b := set_seqnos (j_seqno (d_j (sd_dev s)) + 1) ns (info_of s b))"

definition picked :: "sdev \<Rightarrow> nat \<Rightarrow> u64 \<Rightarrow> juggler \<Rightarrow> sdev" where
  "picked s b ns j =
     s\<lparr>sd_b := (sd_b s)\<lparr>infos := picked_info s b ns\<rparr>,
       sd_dev := (sd_dev s)\<lparr>updated := False, d_j := j, d_bi := Some b, tail_macroblock := juggler_get_obsoleted (picked_info s b ns) j\<rparr>\<rparr>"

definition picking :: "gcrypt \<Rightarrow> sdev \<Rightarrow> nat \<Rightarrow> u64 \<Rightarrow> juggler \<Rightarrow> bool" where
  "picking g s b ns j \<longleftrightarrow> core_inv g s \<and> d_bi (sd_dev s) = None \<and> used_of s b = 0 \<and>
     set (scheduled j @ unscheduled j) = blocks s \<and> set (unscheduled j) \<subseteq> set (unscheduled (d_j (sd_dev s))) \<and>
     b \<in> set (scheduled j) \<and> j_seqno j = j_seqno (d_j (sd_dev s)) + 1 \<and>
     juggler_inv (picked_info s b ns) j \<and> juggler_ready (picked_info s b ns) j"

lemma picked_fields [simp]:
  "sd_l (picked s b ns j) = sd_l s" "info_of (picked s b ns j) = picked_info s b ns" "infos (sd_b (picked s b ns j)) = picked_info s b ns"
  "disk (sd_b (picked s b ns j)) = disk (sd_b s)" "macroblock_log (sd_b (picked s b ns j)) = macroblock_log (sd_b s)"
  "mesoblk_log (sd_b (picked s b ns j)) = mesoblk_log (sd_b s)" "mmpm (sd_b (picked s b ns j)) = mmpm (sd_b s)"
  "bitmap_offset (sd_b (picked s b ns j)) = bitmap_offset (sd_b s)" "max_macroblocks (sd_b (picked s b ns j)) = max_macroblocks (sd_b s)"
  "total_macroblocks (sd_b (picked s b ns j)) = total_macroblocks (sd_b s)" "unallocated (sd_b (picked s b ns j)) = unallocated (sd_b s)"
  "geometry (sd_b (picked s b ns j)) = geometry (sd_b s)" "dev_ok (sd_b (picked s b ns j)) (sd_dev (picked s b ns j)) = dev_ok (sd_b s) (sd_dev s)"
  "d_j (sd_dev (picked s b ns j)) = j" "d_bi (sd_dev (picked s b ns j)) = Some b" "d_c (sd_dev (picked s b ns j)) = d_c (sd_dev s)"
  "status (sd_dev (picked s b ns j)) = status (sd_dev s)" "tmp_macroblock (sd_dev (picked s b ns j)) = tmp_macroblock (sd_dev s)"
  "tail_macroblock (sd_dev (picked s b ns j)) = juggler_get_obsoleted (picked_info s b ns) j"
  "d_id (sd_dev (picked s b ns j)) = d_id (sd_dev s)" "no_macroblocks (sd_dev (picked s b ns j)) = no_macroblocks (sd_dev s)"
  "reserved_macroblocks (sd_dev (picked s b ns j)) = reserved_macroblocks (sd_dev s)"
  "replay_list (sd_dev (picked s b ns j)) = replay_list (sd_dev s)"
  by (auto simp: picked_def info_of_def geometry_def dev_ok_def)

lemma picked_info_kept [simp]:
  "indices (picked_info s b ns i) = indices (info_of s i)" "no_indices (picked_info s b ns i) = no_indices (info_of s i)"
  "no_nonobsolete (picked_info s b ns i) = no_nonobsolete (info_of s i)" "bi_dev (picked_info s b ns i) = bi_dev (info_of s i)"
  "i \<noteq> b \<Longrightarrow> picked_info s b ns i = info_of s i" "bi_seqno (picked_info s b ns b) = j_seqno (d_j (sd_dev s)) + 1"
  by (simp_all add: picked_info_def)

lemma picked_live [simp]: "live (picked s b ns j) = live s"
  by (simp add: live_def fun_eq_iff)

lemma picked_core:
  assumes pk: "picking g s b ns j" shows "core_inv g (picked s b ns j)"
proof -
  have t: "core_inv g s" "d_bi (sd_dev s) = None" "used_of s b = 0" "set (scheduled j @ unscheduled j) = blocks s"
    "set (unscheduled j) \<subseteq> set (unscheduled (d_j (sd_dev s)))" "b \<in> set (scheduled j)"
    "juggler_inv (picked_info s b ns) j" "juggler_ready (picked_info s b ns) j"
    using pk by (simp_all add: picking_def)
  have "base_inv g (picked s b ns j)" using t(1,7,8) by (simp add: core_inv_def base_inv_def)
  moreover have "block_inv (picked s b ns j) i" if "i \<in> blocks s" for i
  proof -
    have "block_inv s i" using t(1) that by (simp add: core_inv_def)
    then show ?thesis using t(2,3,5,6) by (auto simp: block_inv_def info_ok_def)
  qed
  moreover have "table_inv (picked s b ns j)" using t(1,4) by (simp add: core_inv_def table_inv_def)
  ultimately show ?thesis using t(4) by (simp add: core_inv_def)
qed

lemma picked_content:
  assumes pk: "picking g s b ns j" and m: "m < size_of s" shows "content g (picked s b ns j) m = content g s m"
proof (cases "block_indices (sd_l s) ! m = NOWHERE")
  case False
  have t: "core_inv g s" "d_bi (sd_dev s) = None" "used_of s b = 0" using pk by (simp_all add: picking_def)
  have "ID (sd_l s) (block_indices (sd_l s) ! m) \<noteq> b" using entry_live(2) [OF t(1) m False] t(3) by (auto simp: live_def)
  then show ?thesis using False t(2) by (simp add: content_def slot_def disk_meso_def Let_def)
qed (simp add: content_def)

lemma picked_frame: "picking g s b ns j \<Longrightarrow> frame s (picked s b ns j)"
  by (auto simp: picking_def frame_def same_layout_def picked_info_def)

lemma put_tmp_fields [simp]:
  "sd_b (put_tmp s a d) = sd_b s" "sd_l (put_tmp s a d) = sd_l s" "info_of (put_tmp s a d) = info_of s"
  "d_bi (sd_dev (put_tmp s a d)) = d_bi (sd_dev s)" "d_c (sd_dev (put_tmp s a d)) = d_c (sd_dev s)"
  "tail_macroblock (sd_dev (put_tmp s a d)) = tail_macroblock (sd_dev s)" "d_j (sd_dev (put_tmp s a d)) = d_j (sd_dev s)"
  "status (sd_dev (put_tmp s a d)) = status (sd_dev s)"
  "tmp_macroblock (sd_dev (put_tmp s a d)) = blit a d (tmp_macroblock (sd_dev s))"
  by (simp_all add: put_tmp_def info_of_def fun_eq_iff)

text \<open>A mesoblock that is already in memory is changed there.\<close>

definition patched :: "sdev \<Rightarrow> nat \<Rightarrow> nat \<Rightarrow> bytes \<Rightarrow> sdev" where
  "patched s k off d = put_tmp s (Suc k * 2 ^ mesoblk_log (sd_b s) + off) d"

lemma patched_fields [simp]:
  "sd_b (patched s k off d) = sd_b s" "sd_l (patched s k off d) = sd_l s" "info_of (patched s k off d) = info_of s"
  "d_bi (sd_dev (patched s k off d)) = d_bi (sd_dev s)" "d_c (sd_dev (patched s k off d)) = d_c (sd_dev s)"
  "tail_macroblock (sd_dev (patched s k off d)) = tail_macroblock (sd_dev s)" "d_j (sd_dev (patched s k off d)) = d_j (sd_dev s)"
  "status (sd_dev (patched s k off d)) = status (sd_dev s)" "live (patched s k off d) = live s"
  by (simp_all add: patched_def live_def fun_eq_iff)

lemma patched_inv:
  assumes si: "sdev_inv g s" and k: "k < mmpm (sd_b s)" and d: "off + length d \<le> 2 ^ mesoblk_log (sd_b s)"
  shows "sdev_inv g (patched s k off d)" "frame s (patched s k off d)"
proof -
  have base: "base_inv g s" using si by (simp add: sdev_inv_def core_inv_def)
  have "dev_ok (sd_b s) (sd_dev (patched s k off d)) = dev_ok (sd_b s) (sd_dev s)"
    using slot_room(1) [OF base k] d by (simp add: dev_ok_def patched_def put_tmp_def length_blit)
  moreover have "block_inv (patched s k off d) i = block_inv s i" for i by (simp add: block_inv_def)
  ultimately show "sdev_inv g (patched s k off d)"
    using si by (simp add: sdev_inv_def core_inv_def base_inv_def table_inv_def tail_inv_def)
  show "frame s (patched s k off d)" by (simp add: frame_def same_layout_def)
qed

lemma patched_content:
  assumes ci: "core_inv g s" and c: "d_bi (sd_dev s) = Some c" "block_indices (sd_l s) ! m \<noteq> NOWHERE" "ID (sd_l s) (block_indices (sd_l s) ! m) = c"
    and m: "m < size_of s" "m' < size_of s" and d: "off + length d \<le> 2 ^ mesoblk_log (sd_b s)"
  shows "content g (patched s (NO (sd_l s) (block_indices (sd_l s) ! m)) off d) m' =
    (if m' = m then blit off d (content g s m) else content g s m')"
proof -
  let ?sz = "2 ^ mesoblk_log (sd_b s) :: nat" and ?T = "tmp_macroblock (sd_dev s)"
  let ?x = "block_indices (sd_l s) ! m" let ?k = "NO (sd_l s) ?x"
  have base: "base_inv g s" using ci by (simp add: core_inv_def)
  note el = entry_live [OF ci m(1) c(2)] and room = slot_room(1) [OF base]
  show ?thesis
  proof (cases "m' = m")
    case True
    have "meso_at ?sz (Suc ?k) (blit (Suc ?k * ?sz + off) d ?T) = blit off d (meso_at ?sz (Suc ?k) ?T)"
      using room [OF el(4)] d by (intro nth_equalityI) (auto simp: length_blit nth_blit)
    then show ?thesis using True c by (simp add: content_def slot_def patched_def)
  next
    case False
    let ?y = "block_indices (sd_l s) ! m'" let ?k' = "NO (sd_l s) ?y"
    have "slot g (patched s ?k off d) (ID (sd_l s) ?y) ?k' = slot g s (ID (sd_l s) ?y) ?k'" if y: "?y \<noteq> NOWHERE"
    proof (cases "ID (sd_l s) ?y = c")
      case True
      note el' = entry_live [OF ci m(2) y]
      have "?k' \<noteq> ?k" using el(3) el'(3) c(3) True False by auto
      then have "Suc ?k' * ?sz + ?sz \<le> Suc ?k * ?sz \<or> Suc ?k * ?sz + ?sz \<le> Suc ?k' * ?sz" by (intro meso_disjoint) simp
      then have "meso_at ?sz (Suc ?k') (blit (Suc ?k * ?sz + off) d ?T) = meso_at ?sz (Suc ?k') ?T"
        using room [OF el(4)] room [OF el'(4)] d by (intro bslice_blit_disjoint) auto
      then show ?thesis using True c by (simp add: slot_def patched_def)
    qed (use c in \<open>simp add: slot_def disk_meso_def Let_def\<close>)
    then show ?thesis using False by (simp add: content_def Let_def)
  qed
qed

text \<open>The flags of the device and of its table play no role in its contents.\<close>

abbreviation set_started :: "bool \<Rightarrow> sdev \<Rightarrow> sdev" where
  "set_started v s \<equiv> s\<lparr>sd_l := (sd_l s)\<lparr>output_initialized := v\<rparr>\<rparr>"

abbreviation set_updated :: "bool \<Rightarrow> sdev \<Rightarrow> sdev" where
  "set_updated v s \<equiv> s\<lparr>sd_dev := (sd_dev s)\<lparr>updated := v\<rparr>\<rparr>"

lemma flag_fields:
  "place (l\<lparr>output_initialized := v\<rparr>) = place l" "ID (l\<lparr>output_initialized := v\<rparr>) = ID l"
  "NO (l\<lparr>output_initialized := v\<rparr>) = NO l" "bits_ok (l\<lparr>output_initialized := v\<rparr>) = bits_ok l"
  "info_of (set_started v s) = info_of s" "info_of (set_updated v s) = info_of s"
  by (auto simp: fun_eq_iff place_def ID_def NO_def bits_ok_def info_of_def)

lemma flag_live: "live (set_started v s) = live s" "live (set_updated v s) = live s"
  by (simp_all add: live_def fun_eq_iff flag_fields)

lemma flag_block: "block_inv (set_started v s) i = block_inv s i" "block_inv (set_updated v s) i = block_inv s i"
  by (simp_all add: block_inv_def flag_live flag_fields cong: if_cong)

lemma flag_core [simp]: "core_inv g (set_started v s) = core_inv g s" "core_inv g (set_updated v s) = core_inv g s"
  by (simp_all add: core_inv_def base_inv_def table_inv_def flag_live flag_fields flag_block)

lemma flag_inv [simp]: "sdev_inv g (set_updated v s) = sdev_inv g s"
  by (simp add: sdev_inv_def tail_inv_def flag_fields)

lemma flag_content [simp]: "content g (set_started v s) = content g s" "content g (set_updated v s) = content g s"
  by (simp_all add: content_def slot_def disk_meso_def Let_def fun_eq_iff flag_fields)
end
