(* ===== verification/Scubed3_Log.thy ===== *)
theory Scubed3_Log
  imports Scubed3_View
begin

text \<open>
  What the device of src/src/scubed3.c keeps on disk: a log. Every macroblock that was written carries a header with its
  sequence number and the list of the mesoblocks it holds; the table in memory names, for every mesoblock, the macroblock
  with the highest sequence number that lists it. This theory states that as an invariant and shows that storing a mesoblock,
  writing the current macroblock, selecting the next one and changing bytes in memory keep it. Theory
  Scubed3_Reopen shows that a device that is opened again finds its contents in the log.
\<close>

section \<open>The log\<close>

text \<open>The part of the disk that belongs to macroblock \<open>i\<close>, and its decrypted header.\<close>

definition macro_at :: "blockio \<Rightarrow> nat \<Rightarrow> bytes" where
  "macro_at b i = bslice (i * 2 ^ macroblock_log b) (2 ^ macroblock_log b) (disk b)"

definition recognised :: "gcrypt \<Rightarrow> cipher \<Rightarrow> blockio \<Rightarrow> nat \<Rightarrow> bool" where
  "recognised g c b i \<longleftrightarrow> header_valid g b (wide_dec g c 0 0 (of_nat i) (bslice 0 (2 ^ mesoblk_log b) (macro_at b i)))"

text \<open>Macroblock \<open>i\<close> is on disk as it was written when it held the mesoblocks \<open>L\<close>.\<close>

definition written_as :: "gcrypt \<Rightarrow> sdev \<Rightarrow> nat \<Rightarrow> u32 list \<Rightarrow> bdev \<Rightarrow> bool" where
  "written_as g s i L bd \<longleftrightarrow> write_ok g bd i \<and> same_layout (fst bd) (sd_b s) \<and> d_c (snd bd) = d_c (sd_dev s) \<and>
     image_of g (fst bd) (snd bd) i (macro_at (sd_b s) i) \<and> bi_seqno (infos (fst bd) i) = bi_seqno (info_of s i) \<and>
     bi_next_seqno (infos (fst bd) i) = bi_next_seqno (info_of s i) \<and>
     take (unat (no_indices (infos (fst bd) i))) (indices (infos (fst bd) i)) = L"

text \<open>
  The invariant of the log; \<open>lg i\<close> are the mesoblocks that macroblock \<open>i\<close> lists. A block that is not current
  is on disk; the descriptor in memory has the same list, or none when everything in the block is obsolete.
\<close>

definition block_log :: "gcrypt \<Rightarrow> (nat \<Rightarrow> u32 list) \<Rightarrow> sdev \<Rightarrow> nat \<Rightarrow> bool" where
  "block_log g lg s i \<longleftrightarrow> distinct (lg i) \<and>
     (if d_bi (sd_dev s) = Some i then lg i = take (used_of s i) (indices (info_of s i))
      else (\<exists>bd. written_as g s i (lg i) bd) \<and> (used_of s i = 0 \<or> lg i = take (used_of s i) (indices (info_of s i)))) \<and>
     (\<forall>m\<in>set (lg i). unat m < size_of s \<and> block_indices (sd_l s) ! unat m \<noteq> NOWHERE \<and>
        bi_seqno (info_of s i) \<le> bi_seqno (info_of s (ID (sd_l s) (block_indices (sd_l s) ! unat m))))"

text \<open>
  Who owns which macroblock: the device owns the blocks of its juggler, they are the ones in its bitmap, everything that
  belongs to nobody is in the pool; no block outside of the log looks like one of the device.
\<close>

definition block_owner :: "gcrypt \<Rightarrow> sdev \<Rightarrow> nat \<Rightarrow> bool" where
  "block_owner g s i \<longleftrightarrow> (bi_dev (info_of s i) = Some (d_id (sd_dev s)) \<longleftrightarrow> i \<in> blocks s) \<and>
     (bi_dev (info_of s i) = None \<longleftrightarrow> i \<in> set (unallocated (sd_b s))) \<and>
     (i \<in> set (unallocated (sd_b s)) \<or> i \<in> set (unscheduled (d_j (sd_dev s))) \<longrightarrow> \<not> recognised g (d_c (sd_dev s)) (sd_b s) i)"

definition owner_inv :: "gcrypt \<Rightarrow> sdev \<Rightarrow> bool" where
  "owner_inv g s \<longleftrightarrow> replay_list (sd_dev s) = [] \<and> bitmap_abs (status (sd_dev s)) = blocks s \<and>
     no_macroblocks (sd_dev s) = of_nat (card (blocks s)) \<and> distinct (unallocated (sd_b s)) \<and>
     (\<forall>i < total_macroblocks (sd_b s). block_owner g s i) \<and>
     no_block_indices (sd_l s) = (if no_macroblocks (sd_dev s) \<le> reserved_macroblocks (sd_dev s) then 0
       else calc_no_block_indices (sd_b s) (sd_dev s))"

definition log_inv :: "gcrypt \<Rightarrow> (nat \<Rightarrow> u32 list) \<Rightarrow> sdev \<Rightarrow> bool" where
  "log_inv g lg s \<longleftrightarrow> owner_inv g s \<and> (\<forall>i\<in>set (scheduled (d_j (sd_dev s))). block_log g lg s i) \<and>
     inj_on (\<lambda>i. bi_seqno (info_of s i)) (set (scheduled (d_j (sd_dev s)))) \<and>
     (\<forall>c. d_bi (sd_dev s) = Some c \<longrightarrow> bi_seqno (info_of s c) = j_seqno (d_j (sd_dev s)))"

definition log_ok :: "gcrypt \<Rightarrow> sdev \<Rightarrow> bool" where
  "log_ok g s \<longleftrightarrow> (\<exists>lg. log_inv g lg s)"

section \<open>Facts about the log\<close>

lemma scheduled_seqno:
  "base_inv g s \<Longrightarrow> i \<in> set (scheduled (d_j (sd_dev s))) \<Longrightarrow> bi_seqno (info_of s i) \<le> j_seqno (d_j (sd_dev s)) \<and>
    0 < bi_seqno (info_of s i) \<and> bi_seqno (info_of s i) < bi_next_seqno (info_of s i)"
  by (auto simp: base_inv_def juggler_inv_def info_of_def)

lemma unscheduled_seqno:
  "base_inv g s \<Longrightarrow> i \<in> set (unscheduled (d_j (sd_dev s))) \<Longrightarrow> bi_seqno (info_of s i) = 0"
  by (auto simp: base_inv_def juggler_inv_def info_of_def)

lemma live_scheduled:
  assumes "core_inv g s" "i \<in> blocks s" "live s i k" shows "i \<in> set (scheduled (d_j (sd_dev s)))"
  using assms by (auto simp: core_inv_def block_inv_def live_def)

text \<open>The table is determined by the log: every entry names a block that lists the mesoblock, the newest one.\<close>

lemma entry_logged:
  assumes ci: "core_inv g s" and lg: "log_inv g lg s" and m: "m < size_of s" "block_indices (sd_l s) ! m \<noteq> NOWHERE"
  defines "p \<equiv> ID (sd_l s) (block_indices (sd_l s) ! m)" and "q \<equiv> NO (sd_l s) (block_indices (sd_l s) ! m)"
  shows "p \<in> set (scheduled (d_j (sd_dev s)))" "q < length (lg p)" "unat (lg p ! q) = m" "block_indices (sd_l s) ! m = place (sd_l s) p q"
proof -
  note el = entry_live [OF ci m, folded p_def q_def]
  show p: "p \<in> set (scheduled (d_j (sd_dev s)))" by (rule live_scheduled [OF ci el(1,2)])
  have "info_ok (sd_b s) (info_of s p)" using ci el(1) by (auto simp: core_inv_def block_inv_def)
  then have in_p: "q < used_of s p" "used_of s p \<le> length (indices (info_of s p))"
    using el(2) by (auto simp: live_def info_ok_def)
  moreover have "block_log g lg s p" using lg p by (simp add: log_inv_def)
  ultimately have "lg p = take (used_of s p) (indices (info_of s p))" by (auto simp: block_log_def split: if_splits)
  then show "q < length (lg p)" "unat (lg p ! q) = m" using in_p el(3) by simp_all
  show "block_indices (sd_l s) ! m = place (sd_l s) p q" using el(2,3) by (simp add: live_def)
qed

lemma table_newest:
  assumes ci: "core_inv g s" and lg: "log_inv g lg s" and i: "i \<in> set (scheduled (d_j (sd_dev s)))" "k < length (lg i)"
    "\<And>j. j \<in> set (scheduled (d_j (sd_dev s))) \<Longrightarrow> lg i ! k \<in> set (lg j) \<Longrightarrow> bi_seqno (info_of s j) \<le> bi_seqno (info_of s i)"
  shows "block_indices (sd_l s) ! unat (lg i ! k) = place (sd_l s) i k"
proof -
  let ?m = "unat (lg i ! k)" let ?x = "block_indices (sd_l s) ! ?m"
  have bl: "block_log g lg s i" using lg i(1) by (simp add: log_inv_def)
  then have x: "?m < size_of s" "?x \<noteq> NOWHERE" "bi_seqno (info_of s i) \<le> bi_seqno (info_of s (ID (sd_l s) ?x))"
    using i(2) by (auto simp: block_log_def)
  let ?p = "ID (sd_l s) ?x" and ?q = "NO (sd_l s) ?x"
  note p = entry_logged [OF ci lg x(1,2)]
  have lp: "lg ?p ! ?q = lg i ! k" using p(3) by (simp add: word_unat_eq_iff)
  then have "lg i ! k \<in> set (lg ?p)" using p(2) by (metis nth_mem)
  then have "bi_seqno (info_of s ?p) = bi_seqno (info_of s i)" using i(3) [OF p(1)] x(3) by simp
  then have "?p = i" using lg p(1) i(1) unfolding log_inv_def inj_on_def by blast
  moreover have "?q = k" using lp p(2) i(2) bl \<open>?p = i\<close> by (simp add: block_log_def nth_eq_iff_index_eq)
  ultimately show ?thesis using p(4) by simp
qed

section \<open>Storing a mesoblock\<close>

lemma relocated_owner: "owner_inv g (relocated s c m d) = owner_inv g s"
  by (simp add: owner_inv_def block_owner_def recognised_def macro_at_def header_valid_def) (simp add: relocated_def calc_no_block_indices_def)

lemma relocated_written_as [simp]: "written_as g (relocated s c m d) i L bd = written_as g s i L bd"
  by (simp add: written_as_def macro_at_def same_layout_def)

lemma relocated_log:
  assumes mv: "movable g s c m d" and lg: "log_inv g lg s"
  shows "log_inv g (lg(c := lg c @ [of_nat m])) (relocated s c m d)"
proof -
  let ?s = "relocated s c m d" and ?lg = "lg(c := lg c @ [of_nat m])"
  have mf: "core_inv g s" "d_bi (sd_dev s) = Some c" "c \<in> blocks s" "m < size_of s" "used_of s c < mmpm (sd_b s)"
    "ID (sd_l s) (block_indices (sd_l s) ! m) \<noteq> c" using mv by (auto simp: movable_def)
  have base: "base_inv g s" and bc: "block_inv s c" using mf(1,3) by (auto simp: core_inv_def)
  have ct: "c < total_macroblocks (sd_b s)" and cs: "c \<in> set (scheduled (d_j (sd_dev s)))" and il: "length (indices (info_of s c)) = mmpm (sd_b s)"
    using bc mf(2) by (auto simp: block_inv_def info_ok_def)
  have um: "unat (of_nat m :: u32) = m" using mf(4) unat_less_exp [of "no_block_indices (sd_l s)"] by (simp add: unat_of_nat_small)
  have cj: "bi_seqno (info_of s c) = j_seqno (d_j (sd_dev s))" using lg mf(2) by (simp add: log_inv_def)
  have lc: "lg c = take (used_of s c) (indices (info_of s c))" using lg cs mf(2) by (auto simp: log_inv_def block_log_def)
  have pl: "ID (sd_l s) (place (sd_l s) c (used_of s c)) = c" "place (sd_l s) c (used_of s c) \<noteq> NOWHERE"
    using base_place [OF base ct mf(5)] by simp_all
  have lb: "length (block_indices (sd_l s)) = size_of s" using base by (simp add: base_inv_def)
  have uc: "unat (no_indices (info_of s c) + 1) = Suc (used_of s c)"
    using mf(5) base_slots(3) [OF base] by (simp add: unat_word_ariths)
  have new: "unat w < size_of s \<and> block_indices (sd_l ?s) ! unat w \<noteq> NOWHERE \<and>
      bi_seqno (info_of s i) \<le> bi_seqno (info_of s (ID (sd_l s) (block_indices (sd_l ?s) ! unat w)))"
    if i: "i \<in> set (scheduled (d_j (sd_dev s)))" "w \<in> set (lg i) \<or> w = of_nat m" for i w
  proof (cases "unat w = m")
    case True
    then show ?thesis using scheduled_seqno [OF base i(1)] cj mf(4) lb pl by simp
  next
    case False
    then have "w \<in> set (lg i)" using i(2) um by auto
    then show ?thesis using lg i(1) False by (auto simp: log_inv_def block_log_def)
  qed
  have "block_log g ?lg ?s i" if i: "i \<in> set (scheduled (d_j (sd_dev s)))" for i
  proof (cases "i = c")
    case True
    have dt: "distinct (take (used_of ?s c) (indices (info_of ?s c)))"
      using relocated_core [OF mv] mf(3) by (auto simp: core_inv_def block_inv_def)
    have d: "?lg c = take (used_of ?s c) (indices (info_of ?s c))"
      using lc uc mf(5) il by (simp add: moved_info_def take_Suc_conv_app_nth)
    have "unat w < size_of ?s \<and> block_indices (sd_l ?s) ! unat w \<noteq> NOWHERE \<and>
        bi_seqno (info_of ?s c) \<le> bi_seqno (info_of ?s (ID (sd_l ?s) (block_indices (sd_l ?s) ! unat w)))" if "w \<in> set (?lg c)" for w
      using new [OF cs, of w] that by auto
    with dt d mf(2) True show ?thesis unfolding block_log_def by simp
  next
    case False
    have keep: "indices (moved_info s c m i) = indices (info_of s i)" "no_indices (moved_info s c m i) = no_indices (info_of s i) \<or> no_indices (moved_info s c m i) = 0"
      using False by (auto simp: moved_info_def)
    have bl: "block_log g lg s i" using lg i by (simp add: log_inv_def)
    then have "used_of ?s i = 0 \<or> lg i = take (used_of ?s i) (indices (info_of ?s i))"
      using keep mf(2) False by (auto simp: block_log_def)
    moreover have "unat w < size_of ?s \<and> block_indices (sd_l ?s) ! unat w \<noteq> NOWHERE \<and>
        bi_seqno (info_of ?s i) \<le> bi_seqno (info_of ?s (ID (sd_l ?s) (block_indices (sd_l ?s) ! unat w)))" if "w \<in> set (lg i)" for w
      using new [OF i, of w] that by simp
    ultimately show ?thesis using bl mf(2) False unfolding block_log_def by simp
  qed
  then show ?thesis using lg by (simp add: log_inv_def relocated_owner)
qed

section \<open>Writing the current macroblock\<close>

lemma recognised_cong:
  "macro_at b' i = macro_at b i \<Longrightarrow> same_layout b b' \<Longrightarrow> recognised g c b' i = recognised g c b i"
  by (simp add: recognised_def header_valid_def same_layout_def)

lemma flushed_macro:
  assumes "flushing g s c img"
  shows "macro_at (sd_b (flushed s c img)) i = (if i = c then img else macro_at (sd_b s) i)"
  using flushed_disk(5,6) [OF assms] by (simp add: macro_at_def)

lemma flushed_owner:
  assumes fl: "flushing g s c img" and ow: "owner_inv g s" shows "owner_inv g (flushed s c img)"
proof -
  have c: "core_inv g s" "c \<in> set (scheduled (d_j (sd_dev s)))" using fl by (simp_all add: flushing_def)
  then have "c \<notin> set (unscheduled (d_j (sd_dev s)))" "bi_dev (info_of s c) \<noteq> None"
    using scheduled_once [of g s] by (auto simp: core_inv_def block_inv_def)
  moreover have "recognised g cc (sd_b (flushed s c img)) i = recognised g cc (sd_b s) i" if "i \<noteq> c" for i cc
    using that by (intro recognised_cong) (simp_all add: flushed_macro [OF fl] same_layout_def)
  ultimately have "block_owner g s i \<Longrightarrow> block_owner g (flushed s c img) i" for i
    by (cases "i = c") (auto simp: block_owner_def)
  moreover have "calc_no_block_indices (sd_b (flushed s c img)) (sd_dev (flushed s c img)) = calc_no_block_indices (sd_b s) (sd_dev s)"
    by (simp add: calc_no_block_indices_def)
  ultimately show ?thesis using ow unfolding owner_inv_def by simp
qed

lemma flushed_written_as:
  assumes "flushing g s c img" "i \<noteq> c" shows "written_as g (flushed s c img) i L bd = written_as g s i L bd"
  using flushed_macro [OF assms(1), of i] assms(2) by (simp add: written_as_def same_layout_def)

lemma flushed_current:
  assumes fl: "flushing g s c img"
  shows "written_as g (flushed s c img) c (take (used_of s c) (indices (info_of s c))) (sd_b s, sd_dev s)"
proof -
  have "base_inv g s" "block_inv s c" "d_bi (sd_dev s) = Some c" using fl by (auto simp: flushing_def core_inv_def)
  from write_ok_current [OF this] show ?thesis
    using fl flushed_macro [OF fl, of c] by (simp add: written_as_def flushing_def same_layout_def info_of_def)
qed

lemma header_valid_meso:
  assumes "geometry b" shows "header_valid g b (bslice 0 (2 ^ mesoblk_log b) base) = header_valid g b base"
proof -
  have "(264 :: nat) \<le> 2 ^ mesoblk_log b" using geometry_sizes(2,4) [OF assms] by linarith
  then show ?thesis by (simp add: header_valid_def layout bslice_bslice)
qed

lemma written_recognised:
  assumes "written_as g s i L bd"
  shows "recognised g (d_c (sd_dev s)) (sd_b s) i"
proof -
  obtain b dev where bd: "bd = (b, dev)" by (cases bd)
  let ?h = "write_header g b dev (infos b i) (data_base g b dev i)"
  have w: "write_ok g (b, dev) i" "same_layout b (sd_b s)" "d_c dev = d_c (sd_dev s)" "image_of g b dev i (macro_at (sd_b s) i)"
    using assms by (simp_all add: written_as_def bd)
  have k: "geometry b" "dev_ok b dev" "info_ok b (infos b i)" "gcrypt_ok g" "length (data_base g b dev i) = 2 ^ macroblock_log b"
    using w(1) data_base_meso(1) [OF w(1)] by (auto simp: write_ok_def cipher_ok_def)
  have sha: "length (g_sha256 g x) = 32" for x using k(4) by (simp add: gcrypt_ok_def)
  have "length ?h = 2 ^ macroblock_log b"
    using write_header_body [OF k] geometry_sizes [OF k(1)] sha by (simp add: length_blit)
  then have "header_valid g b ?h" by (intro carries_header_valid [OF k]) (simp add: carries_header_def)
  then have "header_valid g b (meso_at (2 ^ mesoblk_log b) 0 ?h)"
    using header_valid_meso [OF k(1)] by simp
  then show ?thesis using w(2-4) by (simp add: recognised_def image_of_def same_layout_def header_valid_def)
qed

lemma flushed_log:
  assumes fl: "flushing g s c img" and lg: "log_inv g lg s"
  shows "log_inv g lg (flushed s c img)"
proof -
  have c: "d_bi (sd_dev s) = Some c" "c \<in> set (scheduled (d_j (sd_dev s)))" using fl by (simp_all add: flushing_def)
  have "block_log g lg (flushed s c img) i" if i: "i \<in> set (scheduled (d_j (sd_dev s)))" for i
  proof -
    have bl: "block_log g lg s i" using lg i by (simp add: log_inv_def)
    show ?thesis
    proof (cases "i = c")
      case True
      with bl c(1) flushed_current [OF fl] show ?thesis by (auto simp: block_log_def)
    next
      case False
      with bl c(1) show ?thesis by (simp add: block_log_def flushed_written_as [OF fl])
    qed
  qed
  then show ?thesis using lg by (simp add: log_inv_def flushed_owner [OF fl])
qed

section \<open>Selecting the next macroblock\<close>

lemma picked_scheduled:
  assumes pk: "picking g s b ns j" and i: "i \<in> set (scheduled j)" "i \<noteq> b" shows "i \<in> set (scheduled (d_j (sd_dev s)))"
proof -
  have "i \<in> blocks s" "0 < bi_seqno (picked_info s b ns i)" and base: "base_inv g s"
    using pk i(1) by (auto simp: picking_def juggler_inv_def core_inv_def)
  moreover have "bi_seqno (picked_info s b ns i) = bi_seqno (info_of s i)" using i(2) by simp
  ultimately show ?thesis using unscheduled_seqno [OF base, of i] by auto
qed

lemma picked_owner:
  assumes pk: "picking g s b ns j" and ow: "owner_inv g s" shows "owner_inv g (picked s b ns j)"
proof -
  have "recognised g cc (sd_b (picked s b ns j)) i = recognised g cc (sd_b s) i" for i cc
    by (intro recognised_cong) (simp_all add: macro_at_def same_layout_def)
  moreover have "calc_no_block_indices (sd_b (picked s b ns j)) (sd_dev (picked s b ns j)) = calc_no_block_indices (sd_b s) (sd_dev s)"
    by (simp add: calc_no_block_indices_def)
  moreover have "set (scheduled j @ unscheduled j) = blocks s" "set (unscheduled j) \<subseteq> set (unscheduled (d_j (sd_dev s)))"
    using pk by (simp_all add: picking_def)
  ultimately show ?thesis using ow unfolding owner_inv_def block_owner_def by auto
qed

lemma le_less_succ: "0 < a + 1 \<Longrightarrow> x \<le> a \<Longrightarrow> x < a + (1 :: 'a::len word)"
  using unat_eq_0 [of "a + 1"] unat_less_exp [of a]
  by (auto simp: word_less_nat_alt word_le_nat_alt unat_word_ariths mod_Suc split: if_splits)

lemma picked_log:
  assumes pk: "picking g s b ns j" and lg: "log_inv g lg s"
  shows "log_inv g (lg(b := [])) (picked s b ns j)"
proof -
  let ?s = "picked s b ns j"
  have t: "core_inv g s" "d_bi (sd_dev s) = None" "used_of s b = 0" "b \<in> set (scheduled j)" "j_seqno j = j_seqno (d_j (sd_dev s)) + 1"
    "juggler_inv (picked_info s b ns) j"
    using pk by (simp_all add: picking_def)
  have base: "base_inv g s" using t(1) by (simp add: core_inv_def)
  have "0 < bi_seqno (picked_info s b ns b)" using t(4,6) by (auto simp: juggler_inv_def)
  then have gt: "x < j_seqno (d_j (sd_dev s)) + 1" if "x \<le> j_seqno (d_j (sd_dev s))" for x
    using that by (simp add: le_less_succ)
  have "block_log g (lg(b := [])) ?s i" if i: "i \<in> set (scheduled j)" for i
  proof (cases "i = b")
    case True
    then show ?thesis using t(3) by (simp add: block_log_def)
  next
    case False
    have bl: "block_log g lg s i" using lg picked_scheduled [OF pk i False] by (simp add: log_inv_def)
    have "ID (sd_l s) (block_indices (sd_l s) ! unat w) \<noteq> b" if "w \<in> set (lg i)" for w
      using bl that entry_live(2) [OF t(1), of "unat w"] t(3) by (auto simp: block_log_def live_def)
    moreover have "written_as g ?s i L bd = written_as g s i L bd" for L bd
      using False by (simp add: written_as_def macro_at_def same_layout_def)
    ultimately show ?thesis using bl t(2) False by (auto simp: block_log_def)
  qed
  moreover have "inj_on (\<lambda>i. bi_seqno (picked_info s b ns i)) (set (scheduled j))"
  proof (rule inj_onI)
    fix x y assume xy: "x \<in> set (scheduled j)" "y \<in> set (scheduled j)" "bi_seqno (picked_info s b ns x) = bi_seqno (picked_info s b ns y)"
    have old: "bi_seqno (info_of s z) < j_seqno (d_j (sd_dev s)) + 1" if "z \<in> set (scheduled j)" "z \<noteq> b" for z
      using gt scheduled_seqno [OF base picked_scheduled [OF pk that]] by blast
    show "x = y"
    proof (cases "x = b \<or> y = b")
      case True
      then show ?thesis using xy old [of x] old [of y] by (cases "x = b"; cases "y = b") auto
    next
      case False
      then have "x \<in> set (scheduled (d_j (sd_dev s)))" "y \<in> set (scheduled (d_j (sd_dev s)))" "bi_seqno (info_of s x) = bi_seqno (info_of s y)"
        using picked_scheduled [OF pk] xy by auto
      with lg show ?thesis unfolding log_inv_def inj_on_def by blast
    qed
  qed
  ultimately show ?thesis using lg picked_owner [OF pk] t(5) by (simp add: log_inv_def)
qed

section \<open>Changing bytes in memory, and flags\<close>

lemma memory_log [simp]:
  "log_ok g (patched s k off d) = log_ok g s" "log_ok g (set_started v s) = log_ok g s" "log_ok g (set_updated v s) = log_ok g s"
proof -
  have "written_as g (patched s k off d) = written_as g s" "written_as g (set_started v s) = written_as g s" "written_as g (set_updated v s) = written_as g s"
    by (auto simp: written_as_def fun_eq_iff flag_fields)
  moreover have "owner_inv g (patched s k off d) = owner_inv g s" "owner_inv g (set_started v s) = owner_inv g s"
    "owner_inv g (set_updated v s) = owner_inv g s"
    by (simp_all add: owner_inv_def block_owner_def flag_fields calc_no_block_indices_def) (simp add: patched_def put_tmp_def)
  ultimately show "log_ok g (patched s k off d) = log_ok g s" "log_ok g (set_started v s) = log_ok g s" "log_ok g (set_updated v s) = log_ok g s"
    by (simp_all add: log_ok_def log_inv_def block_log_def flag_fields)
qed

lemma log_ok_steps:
  "movable g s c m d \<Longrightarrow> log_ok g s \<Longrightarrow> log_ok g (relocated s c m d)"
  "flushing g s c img \<Longrightarrow> log_ok g s \<Longrightarrow> log_ok g (flushed s c img)"
  "picking g s b ns j \<Longrightarrow> log_ok g s \<Longrightarrow> log_ok g (picked s b ns j)"
  using relocated_log flushed_log picked_log unfolding log_ok_def by blast+

end
