(* ===== verification/Scubed3_Ops.thy ===== *)
theory Scubed3_Ops
  imports Scubed3_Log
begin

text \<open>
  The operations of src/src/scubed3.c on a device that satisfies its invariant: garbage collection, output of macroblocks,
  reading and writing of parts of a mesoblock. Each of them keeps the invariant and the log, changes nothing outside of its own
  blocks, and has the effect on the contents that it means to have.
\<close>

section \<open>Garbage collection\<close>

lemma add_blockref_eq:
  "d_bi (sd_dev s) = Some c \<Longrightarrow>
    add_blockref s m = Inr ((upd_info s c (referenced m))\<lparr>sd_l := update_block_indices (sd_l s) m c (used_of s c)\<rparr>)"
  by (simp add: add_blockref_def cur_def Let_def upd_info_def info_of_def referenced_def)

lemma obsolete_eq:
  "no_nonobsolete (info_of s i) \<noteq> 0 \<Longrightarrow> obsolete_mesoblk s i = Inr (upd_info s i obsoleted)"
  by (simp add: obsolete_mesoblk_def obsoleted_def [abs_def])

text \<open>The two orders in which a new version is stored and the old one made obsolete.\<close>

lemma store_then_obsolete:
  assumes mv: "movable g s c m d" and x: "block_indices (sd_l s) ! m \<noteq> NOWHERE"
    and t: "t = ID (sd_l s) (block_indices (sd_l s) ! m)"
  shows "rbind (add_blockref (put_tmp s (Suc (used_of s c) * 2 ^ mesoblk_log (sd_b s)) d) m) (\<lambda>s. obsolete_mesoblk s t) =
    Inr (relocated s c m d)"
proof -
  have c: "d_bi (sd_dev s) = Some c" "t \<noteq> c" "no_nonobsolete (info_of s t) \<noteq> 0"
    using mv movable_owner(5) [OF mv x] t by (simp_all add: movable_def)
  show ?thesis
    using c x t
    by (simp add: add_blockref_eq obsolete_eq put_tmp_def upd_info_def info_of_def update_block_indices_def relocated_def
        place_def moved_info_def [abs_def] fun_eq_iff)
qed

lemma obsolete_then_store:
  assumes mv: "movable g s c m d"
  shows "rbind (obsolete_mesoblk_byidx (put_tmp s (Suc (used_of s c) * 2 ^ mesoblk_log (sd_b s)) d) (block_indices (sd_l s) ! m))
    (\<lambda>s. add_blockref s m) = Inr (relocated s c m d)"
proof -
  have c: "d_bi (sd_dev s) = Some c" "ID (sd_l s) (block_indices (sd_l s) ! m) \<noteq> c" using mv by (simp_all add: movable_def)
  then show ?thesis
    using movable_owner(5) [OF mv]
    by (simp add: obsolete_mesoblk_byidx_def add_blockref_eq obsolete_eq put_tmp_def upd_info_def info_of_def
        update_block_indices_def relocated_def place_def moved_info_def [abs_def] fun_eq_iff)
qed

text \<open>The user sees no difference, and the log on disk stays consistent.\<close>

definition same_view :: "gcrypt \<Rightarrow> sdev \<Rightarrow> sdev \<Rightarrow> bool" where
  "same_view g s s' \<longleftrightarrow> frame s s' \<and> (\<forall>m < size_of s. content g s' m = content g s m) \<and> (log_ok g s \<longrightarrow> log_ok g s')"

lemma same_view_refl [simp]: "same_view g s s"
  by (simp add: same_view_def)

lemma same_view_trans: "same_view g s s' \<Longrightarrow> same_view g s' s'' \<Longrightarrow> same_view g s s''"
  by (auto simp: same_view_def frame_def same_layout_def intro: frame_trans)

lemma relocated_same_view:
  "movable g s c m (content g s m) \<Longrightarrow> same_view g s (relocated s c m (content g s m))"
  by (simp add: same_view_def relocated_frame relocated_content log_ok_steps)

lemma copy_one_live:
  assumes ci: "core_inv g s" and c: "d_bi (sd_dev s) = Some c" "c \<in> blocks s" "used_of s c < mmpm (sd_b s)"
    and t: "t \<in> blocks s" "t \<noteq> c" "live s t k"
  shows "movable g s c (entry s t k) (content g s (entry s t k))"
    "copy_one g t k s = Inr (relocated s c (entry s t k) (content g s (entry s t k)))"
proof -
  let ?m = "entry s t k" and ?x = "block_indices (sd_l s) ! entry s t k"
  have b: "base_inv g s" and bt: "block_inv s t" using ci t(1) by (auto simp: core_inv_def)
  have k: "k < used_of s t" "?m < size_of s" "?x = place (sd_l s) t k" using t(3) by (simp_all add: live_def)
  then have kt: "k < mmpm (sd_b s)" "t < total_macroblocks (sd_b s)" using bt block_slot [OF bt] by (auto simp: block_inv_def)
  note pl = base_place [OF b kt(2,1), folded k(3)]
  show mv: "movable g s c ?m (content g s ?m)"
    using ci c t(2) k(2) pl length_content [OF ci k(2)] by (simp add: movable_def)
  have buf: "disk_meso g s t k = content g s ?m" using pl c t(2) by (simp add: content_def slot_def)
  have sz: "mesoblk s (used_of s c) = Inr (Suc (used_of s c) * 2 ^ mesoblk_log (sd_b s))" using c(3) by (simp add: mesoblk_def)
  have "copy_one g t k s = rbind (add_blockref (put_tmp s (Suc (used_of s c) * 2 ^ mesoblk_log (sd_b s)) (content g s ?m)) ?m)
      (\<lambda>s. obsolete_mesoblk s t)"
    using k pl(1,3) c sz buf read_mesoblk_disk(1) [OF b kt(2,1)]
    by (simp add: copy_one_def Let_def cur_def word_le_nat_alt)
  also have "\<dots> = Inr (relocated s c ?m (content g s ?m))" using pl by (intro store_then_obsolete [OF mv]) simp_all
  finally show "copy_one g t k s = Inr (relocated s c ?m (content g s ?m))" .
qed

lemma copy_one_dead:
  assumes ci: "core_inv g s" and t: "t \<in> blocks s" "\<not> live s t k"
  shows "copy_one g t k s = Inr s"
proof (cases "k < used_of s t \<and> entry s t k < size_of s")
  case True
  let ?m = "entry s t k"
  have bt: "block_inv s t" using ci t(1) by (simp add: core_inv_def)
  have "\<not> (block_indices (sd_l s) ! ?m \<noteq> NOWHERE \<and> ID (sd_l s) (block_indices (sd_l s) ! ?m) = t)"
  proof
    assume x: "block_indices (sd_l s) ! ?m \<noteq> NOWHERE \<and> ID (sd_l s) (block_indices (sd_l s) ! ?m) = t"
    then have l: "live s t (NO (sd_l s) (block_indices (sd_l s) ! ?m))" "entry s t (NO (sd_l s) (block_indices (sd_l s) ! ?m)) = ?m"
      using entry_live(2,3) [OF ci, of ?m] True by auto
    then have "NO (sd_l s) (block_indices (sd_l s) ! ?m) = k"
      using live_unique [of s t _ k] bt True by (auto simp: block_inv_def live_def)
    with l(1) t(2) show False by simp
  qed
  with True show ?thesis by (auto simp: copy_one_def Let_def)
next
  case False
  then show ?thesis by (auto simp: copy_one_def Let_def word_le_nat_alt)
qed

text \<open>What garbage collection does not touch.\<close>

definition same_control :: "sdev \<Rightarrow> sdev \<Rightarrow> bool" where
  "same_control s s' \<longleftrightarrow> d_bi (sd_dev s') = d_bi (sd_dev s) \<and> tail_macroblock (sd_dev s') = tail_macroblock (sd_dev s) \<and>
     d_j (sd_dev s') = d_j (sd_dev s) \<and> output_initialized (sd_l s') = output_initialized (sd_l s) \<and>
     (\<forall>i. bi_seqno (info_of s' i) = bi_seqno (info_of s i) \<and> bi_next_seqno (info_of s' i) = bi_next_seqno (info_of s i))"

lemma same_control_refl [simp]: "same_control s s"
  by (simp add: same_control_def)

lemma same_control_trans: "same_control s s' \<Longrightarrow> same_control s' s'' \<Longrightarrow> same_control s s''"
  by (simp add: same_control_def)

lemma relocated_same_control [simp]: "same_control s (relocated s c m d)"
  by (simp add: same_control_def)

text \<open>The loop: the live slots of the tail fit into the current macroblock and are gone afterwards.\<close>

definition collecting :: "gcrypt \<Rightarrow> nat \<Rightarrow> nat \<Rightarrow> nat \<Rightarrow> sdev \<Rightarrow> bool" where
  "collecting g c t k s \<longleftrightarrow> core_inv g s \<and> d_bi (sd_dev s) = Some c \<and> c \<in> blocks s \<and> t \<in> blocks s \<and> t \<noteq> c \<and>
     used_of s c + card {k. live s t k} \<le> mmpm (sd_b s) \<and> (\<forall>k' < k. \<not> live s t k')"

lemma copy_one_step:
  assumes cl: "collecting g c t k s"
  shows "\<exists>s'. copy_one g t k s = Inr s' \<and> collecting g c t (Suc k) s' \<and> same_view g s s' \<and> same_control s s'"
proof (cases "live s t k")
  case True
  let ?m = "entry s t k" let ?s = "relocated s c (entry s t k) (content g s (entry s t k))"
  have c: "core_inv g s" "d_bi (sd_dev s) = Some c" "c \<in> blocks s" "t \<in> blocks s" "t \<noteq> c"
    "used_of s c + card {k. live s t k} \<le> mmpm (sd_b s)" "\<And>k'. k' < k \<Longrightarrow> \<not> live s t k'"
    using cl by (auto simp: collecting_def)
  have pos: "0 < card {k. live s t k}" using True by (auto simp: card_gt_0_iff)
  then have "used_of s c < mmpm (sd_b s)" using c(6) by linarith
  note mv = copy_one_live [OF c(1-3) this c(4,5) True]
  have bt: "block_inv s t" using c(1,4) by (simp add: core_inv_def)
  have lv: "live ?s t k' \<longleftrightarrow> live s t k' \<and> k' \<noteq> k" for k'
    using relocated_live_other [OF mv(1) c(4,5)] live_entry_unique [OF bt _ True] by auto
  then have "{k. live ?s t k} = {k. live s t k} - {k}" by auto
  then have "card {k. live ?s t k} + 1 = card {k. live s t k}" using True pos by simp
  moreover have "used_of ?s c = Suc (used_of s c)" using movable_facts(4) [OF mv(1)] by (simp add: moved_info_def)
  ultimately have "collecting g c t (Suc k) ?s"
    using relocated_core [OF mv(1)] c lv by (auto simp: collecting_def less_Suc_eq)
  with mv(2) relocated_same_view [OF mv(1)] show ?thesis by auto
next
  case False
  then have "copy_one g t k s = Inr s" using cl by (intro copy_one_dead) (auto simp: collecting_def)
  with False cl show ?thesis by (auto simp: collecting_def less_Suc_eq)
qed

lemma copy_loop:
  assumes "collecting g c t 0 s"
  shows "\<exists>s'. rfold (copy_one g t) [0..<n] s = Inr s' \<and> collecting g c t n s' \<and> same_view g s s' \<and> same_control s s'"
proof (induction n)
  case 0
  with assms show ?case by simp
next
  case (Suc n)
  then obtain s1 where s1: "rfold (copy_one g t) [0..<n] s = Inr s1" "collecting g c t n s1" "same_view g s s1" "same_control s s1"
    by auto
  from copy_one_step [OF s1(2)] s1 show ?case
    by (auto simp: rfold_append intro: same_view_trans same_control_trans)
qed

lemma copy_loop_empty: "used_of s t = 0 \<Longrightarrow> rfold (copy_one g t) ks s = Inr s"
  by (induction ks) (simp_all add: copy_one_def Let_def)

lemma status_used:
  assumes "base_inv g s" "block_inv s t"
  shows "blockio_dev_get_macroblock_status (sd_b s, sd_dev s) t = Inr USED"
proof -
  have t: "t < total_macroblocks (sd_b s)" "bi_dev (info_of s t) \<noteq> None" "t \<in> bitmap_abs (status (sd_dev s))"
    using assms(2) by (simp_all add: block_inv_def)
  have b: "geometry (sd_b s)" "dev_ok (sd_b s) (sd_dev s)" "bitmap_inv (status (sd_dev s))"
    using assms(1) by (auto simp: base_inv_def dev_ok_def)
  have "unat (of_nat t :: u32) = t \<and> of_nat t < no_bits (status (sd_dev s))"
    by (rule of_nat_index [OF b(3) status_no_bits [OF b(1,2) t(1)]])
  then show ?thesis
    using t bitmap_getbits_single [OF b(3), of "of_nat t"]
    by (simp add: blockio_dev_get_macroblock_status_def blockio_get_macroblock_index_def info_of_def
        blockio_dev_get_macroblock_status_bynum_def)
qed

lemma obsoleted_scheduled: "juggler_get_obsoleted bis j = Some t \<Longrightarrow> t \<in> set (scheduled j)"
  by (auto simp: juggler_get_obsoleted_def split: list.splits if_splits)

lemma collect:
  assumes ci: "core_inv g s" and c: "d_bi (sd_dev s) = Some c" "used_of s c = 0"
    and cs: "c \<in> set (scheduled (d_j (sd_dev s)))"
    and tl: "tail_macroblock (sd_dev s) = juggler_get_obsoleted (infos (sd_b s)) (d_j (sd_dev s))"
  shows "\<exists>s'. copy_old_block_to_current g s = Inr s' \<and> core_inv g s' \<and> same_view g s s' \<and> same_control s s' \<and>
    (\<forall>t. tail_macroblock (sd_dev s) = Some t \<and> t \<noteq> c \<longrightarrow> used_of s' t = 0)"
proof (cases "tail_macroblock (sd_dev s)")
  case None
  with ci show ?thesis by (simp add: copy_old_block_to_current_def)
next
  case (Some t)
  have ts: "t \<in> set (scheduled (d_j (sd_dev s)))" using tl Some by (auto intro: obsoleted_scheduled)
  have bt: "base_inv g s" "block_inv s t" using ci ts by (auto simp: core_inv_def)
  have run: "copy_old_block_to_current g s = rfold (copy_one g t) [0..<mmpm (sd_b s)] s"
    using Some status_used [OF bt] by (simp add: copy_old_block_to_current_def)
  show ?thesis
  proof (cases "t = c")
    case True
    then show ?thesis using run c copy_loop_empty [of s t] ci Some by simp
  next
    case False
    have "{k. live s t k} \<subseteq> {..<used_of s t}" by (auto simp: live_def)
    then have "card {k. live s t k} \<le> used_of s t" using card_mono [OF finite_lessThan] by fastforce
    also have "\<dots> \<le> mmpm (sd_b s)" using bt(2) by (simp add: block_inv_def info_ok_def)
    finally have "collecting g c t 0 s" using ci c cs ts False by (simp add: collecting_def)
    from copy_loop [OF this] obtain s' where s': "copy_old_block_to_current g s = Inr s'"
      "collecting g c t (mmpm (sd_b s)) s'" "same_view g s s'" "same_control s s'"
      using run by metis
    have "mmpm (sd_b s') = mmpm (sd_b s)" using s'(3) by (simp add: same_view_def frame_def same_layout_def)
    then have l: "\<not> live s' t k" for k
      using s'(2) block_slot [of s' t k] by (auto simp: collecting_def core_inv_def live_def)
    then have "{k. live s' t k} = {}" by blast
    moreover have "block_inv s' t" "d_bi (sd_dev s') = Some c" using s'(2) by (auto simp: collecting_def core_inv_def)
    ultimately have "unat (no_nonobsolete (info_of s' t)) = 0" "no_nonobsolete (info_of s' t) = 0 \<longrightarrow> used_of s' t = 0"
      using False by (simp_all add: block_inv_def)
    then have "used_of s' t = 0" by (simp only: unat_eq_0)
    with s' Some show ?thesis by (auto simp: collecting_def)
  qed
qed

section \<open>Output\<close>

text \<open>A macroblock was just selected and nothing was stored in it.\<close>

definition fresh_output :: "gcrypt \<Rightarrow> sdev \<Rightarrow> bool" where
  "fresh_output g s \<longleftrightarrow> core_inv g s \<and> (\<exists>c. d_bi (sd_dev s) = Some c \<and> used_of s c = 0 \<and> c \<in> set (scheduled (d_j (sd_dev s)))) \<and>
     tail_macroblock (sd_dev s) = juggler_get_obsoleted (infos (sd_b s)) (d_j (sd_dev s))"

text \<open>
  The juggler does not hand out the current macroblock again in the next step. When it does, the
  macroblock in memory has already been encrypted and the device goes on as if it still held data.
\<close>

definition calm :: "sdev \<Rightarrow> bool" where
  "calm s \<longleftrightarrow> tail_macroblock (sd_dev s) \<noteq> d_bi (sd_dev s)"

text \<open>The block that is handed out next, if it is due already, holds nothing that is still needed.\<close>

definition next_empty :: "sdev \<Rightarrow> bool" where
  "next_empty s \<longleftrightarrow> (\<forall>t. juggler_get_obsoleted (infos (sd_b s)) (d_j (sd_dev s)) = Some t \<longrightarrow> used_of s t = 0)"

lemma write_flushed:
  assumes ci: "core_inv g s" and c: "d_bi (sd_dev s) = Some c" "c \<in> set (scheduled (d_j (sd_dev s)))"
  shows "\<exists>img. flushing g s c img \<and> lift_b (blockio_dev_write_current_macroblock g) s = Inr (flushed s c img)"
proof -
  have "base_inv g s" "block_inv s c" using ci c by (auto simp: core_inv_def)
  from write_current_image [OF write_ok_current [OF this c(1)]] obtain img
    where img: "image_of g (sd_b s) (sd_dev s) c img" "blockio_dev_write_current_macroblock g (sd_b s, sd_dev s) =
      Inr ((set_info (sd_b s) c ((infos (sd_b s) c)\<lparr>no_nonobsolete := no_indices (infos (sd_b s) c)\<rparr>))
          \<lparr>disk := blit (c * 2 ^ macroblock_log (sd_b s)) img (disk (sd_b s))\<rparr>,
        (sd_dev s)\<lparr>tmp_macroblock := img, writes := writes (sd_dev s) + 1, d_bi := None\<rparr>)" by auto
  have "(infos (sd_b s))(c := (infos (sd_b s) c)\<lparr>no_nonobsolete := no_indices (infos (sd_b s) c)\<rparr>) = flushed_info s c"
    by (auto simp: flushed_info_def info_of_def fun_eq_iff)
  with img ci c show ?thesis
    by (intro exI [of _ img]) (simp add: flushing_def lift_b_def flushed_def set_info_def)
qed

lemma picked_fresh: "picking g s b ns j \<Longrightarrow> fresh_output g (picked s b ns j)"
  using picked_core [of g s b ns j] by (simp add: fresh_output_def picking_def)

lemma flushed_same_view: "flushing g s c img \<Longrightarrow> same_view g s (flushed s c img)"
  by (simp add: same_view_def flushed_frame flushed_content log_ok_steps)

lemma picked_same_view: "picking g s b ns j \<Longrightarrow> same_view g s (picked s b ns j)"
  by (simp add: same_view_def picked_frame picked_content log_ok_steps)

lemma select_picked:
  assumes ci: "core_inv g s" and q: "d_bi (sd_dev s) = None" and ne: "next_empty s"
  shows "runs (lift_b blockio_dev_select_next_macroblock s) (\<lambda>s'. \<exists>b ns j. picking g s b ns j \<and> s' = picked s b ns j)"
proof -
  let ?b = "sd_b s" and ?j = "d_j (sd_dev s)"
  have base: "base_inv g s" using ci by (simp add: core_inv_def)
  then have j: "juggler_inv (infos ?b) ?j" "juggler_ready (infos ?b) ?j" by (simp_all add: base_inv_def)
  show ?thesis
  proof (cases "juggler_get_devblock (infos ?b) ?j False")
    case (Inl e)
    then have "e = out_of_random" using juggler_get_devblock_total [OF j, of e] by simp
    with Inl q show ?thesis by (simp add: lift_b_def blockio_dev_select_next_macroblock_def runs_def)
  next
    case (Inr r)
    obtain bis' j' ob where r: "juggler_get_devblock (infos ?b) ?j False = Inr (bis', j', ob)" using Inr by (cases r) auto
    obtain b j1 ns ys zs where g: "ob = Some b" "juggler_select (infos ?b) ?j = Inr (j1, b)" "juggler_holds (infos ?b) ?j b j1"
      "bis' = (infos ?b)(b := set_seqnos (j_seqno ?j + 1) ns (infos ?b b))" "j_seqno j' = j_seqno ?j + 1" "unscheduled j' = unscheduled j1"
      "scheduled j1 = ys @ zs" "scheduled j' = ys @ b # zs" "juggler_inv bis' j'"
      "unscheduled j1 = [] \<longrightarrow> juggler_get_obsoleted bis' j' \<noteq> None"
      using juggler_get_devblock_spec [OF j(1) r] by blast
    have bis': "bis' = picked_info s b ns" using g(4) by (auto simp: picked_info_def info_of_def fun_eq_iff)
    have "used_of s b = 0"
    proof (cases "juggler_get_obsoleted (infos ?b) ?j")
      case None
      then have "b \<in> set (unscheduled ?j)" using g(2) by (auto simp: juggler_select_def juggler_draw_def res_simps)
      then show ?thesis using ci by (auto simp: core_inv_def block_inv_def)
    qed (use g(2) ne in \<open>auto simp: juggler_select_def next_empty_def\<close>)
    then have "picking g s b ns j'"
      using ci q g(3,5-10) bis' by (auto simp: picking_def juggler_holds_def juggler_ready_def)
    moreover have "lift_b blockio_dev_select_next_macroblock s = Inr (picked s b ns j')"
      using r q g(1) bis' by (simp add: lift_b_def blockio_dev_select_next_macroblock_def picked_def)
    ultimately show ?thesis by auto
  qed
qed

lemma lift_b_bind: "rbind (lift_b f s) (lift_b h) = lift_b (\<lambda>x. rbind (f x) h) s"
  by (cases "f (sd_b s, sd_dev s)") (auto simp: lift_b_def)

lemma flushed_next_empty:
  assumes si: "sdev_inv g s" "output_initialized (sd_l s)" "calm s" "d_bi (sd_dev s) = Some c"
  shows "next_empty (flushed s c img)"
  using si by (auto simp: next_empty_def sdev_inv_def tail_inv_def calm_def)

lemma write_and_select:
  assumes si: "sdev_inv g s" "output_initialized (sd_l s)" "calm s" "d_bi (sd_dev s) = Some c"
  shows "runs (lift_b (blockio_dev_write_current_and_select_next_macroblock g) s)
    (\<lambda>s'. fresh_output g s' \<and> same_view g s s' \<and> sd_l s' = sd_l s)"
proof -
  have ci: "core_inv g s" and cs: "c \<in> set (scheduled (d_j (sd_dev s)))" using si by (auto simp: sdev_inv_def tail_inv_def)
  obtain img where fl: "flushing g s c img" "lift_b (blockio_dev_write_current_macroblock g) s = Inr (flushed s c img)"
    using write_flushed [OF ci si(4) cs] by blast
  have "lift_b (blockio_dev_write_current_and_select_next_macroblock g) s = lift_b blockio_dev_select_next_macroblock (flushed s c img)"
    using fl(2) lift_b_bind [of "blockio_dev_write_current_macroblock g" s blockio_dev_select_next_macroblock]
    by (simp add: blockio_dev_write_current_and_select_next_macroblock_def [abs_def])
  moreover have "runs (lift_b blockio_dev_select_next_macroblock (flushed s c img))
      (\<lambda>s'. fresh_output g s' \<and> same_view g s s' \<and> sd_l s' = sd_l s)"
    by (rule runs_mono [OF select_picked [OF flushed_core [OF fl(1)] _ flushed_next_empty [OF si]]])
      (auto intro: picked_fresh same_view_trans [OF flushed_same_view [OF fl(1)] picked_same_view])
  ultimately show ?thesis by simp
qed

lemma flag_view [simp]:
  "same_view g s (set_started v s')  = same_view g s s'" "same_view g s (set_updated v s')  = same_view g s s'"
  "same_view g (set_updated v s) s'  = same_view g s s'"
  by (simp_all add: same_view_def frame_def flag_fields)

lemma flag_fresh [simp]: "fresh_output g (set_started v s) = fresh_output g s"
  by (simp add: fresh_output_def flag_fields)

lemma collect_fresh:
  assumes fo: "fresh_output g s"
  shows "\<exists>s'. copy_old_block_to_current g s = Inr s' \<and> core_inv g s' \<and> tail_inv (set_started True s') \<and>
    same_view g s s' \<and> same_control s s'"
proof -
  obtain c where c: "core_inv g s" "d_bi (sd_dev s) = Some c" "used_of s c = 0" "c \<in> set (scheduled (d_j (sd_dev s)))"
    "tail_macroblock (sd_dev s) = juggler_get_obsoleted (infos (sd_b s)) (d_j (sd_dev s))"
    using fo by (auto simp: fresh_output_def)
  obtain s' where s': "copy_old_block_to_current g s = Inr s'" "core_inv g s'" "same_view g s s'" "same_control s s'"
    "\<And>t. tail_macroblock (sd_dev s) = Some t \<Longrightarrow> t \<noteq> c \<Longrightarrow> used_of s' t = 0"
    using collect [OF c] by auto
  have "juggler_get_obsoleted (infos (sd_b s')) (d_j (sd_dev s')) = juggler_get_obsoleted (infos (sd_b s)) (d_j (sd_dev s))"
    using s'(4) juggler_cong(2) [of "d_j (sd_dev s)" "infos (sd_b s')" "infos (sd_b s)"] by (simp add: same_control_def info_of_def)
  then have "tail_inv (set_started True s')" using c s'(4,5) by (auto simp: tail_inv_def same_control_def flag_fields)
  with s' show ?thesis by auto
qed

lemma started_tail: "output_initialized (sd_l s) \<Longrightarrow> tail_inv (set_started True s) \<Longrightarrow> tail_inv s"
  by (simp add: tail_inv_def flag_fields)

lemma fresh_has_current: "fresh_output g s \<Longrightarrow> d_bi (sd_dev s) \<noteq> None"
  by (auto simp: fresh_output_def)

lemma select_round_ok:
  assumes "sdev_inv g s" "output_initialized (sd_l s)" "calm s" "d_bi (sd_dev s) \<noteq> None"
  shows "runs (select_round g s)
    (\<lambda>s'. sdev_inv g s' \<and> same_view g s s' \<and> output_initialized (sd_l s') \<and> d_bi (sd_dev s') \<noteq> None)"
proof -
  obtain c where c: "d_bi (sd_dev s) = Some c" using assms(4) by auto
  show ?thesis
    unfolding select_round_def
  proof (rule runs_bind [OF write_and_select [OF assms(1-3) c]])
    fix s1 assume s1: "fresh_output g s1 \<and> same_view g s s1 \<and> sd_l s1 = sd_l s"
    then show "runs (copy_old_block_to_current g s1)
        (\<lambda>s'. sdev_inv g s' \<and> same_view g s s' \<and> output_initialized (sd_l s') \<and> d_bi (sd_dev s') \<noteq> None)"
      using collect_fresh [of g s1] assms(2) fresh_has_current [of g s1]
      by (auto simp: same_control_def sdev_inv_def intro: same_view_trans started_tail)
  qed
qed

text \<open>The loop of \<open>select_new_macroblock\<close> stays calm: no macroblock that it writes is handed out again at once.\<close>

function select_calm :: "gcrypt \<Rightarrow> sdev \<Rightarrow> bool" where
  "select_calm g s \<longleftrightarrow> calm s \<and>
     (case select_round g s of Inl e \<Rightarrow> True | Inr s' \<Rightarrow> current_full s' \<longrightarrow> select_calm g s')"
  by pat_completeness auto
termination
  by (relation "measure (\<lambda>(g, s). random_left s)") (auto dest: select_round_consumes)

declare select_calm.simps [simp del] select_loop.simps [simp del]

lemma select_loop_ok:
  assumes "sdev_inv g s" "output_initialized (sd_l s)" "select_calm g s" "d_bi (sd_dev s) \<noteq> None"
  shows "runs (select_loop g s)
    (\<lambda>s'. sdev_inv g s' \<and> same_view g s s' \<and> output_initialized (sd_l s') \<and> d_bi (sd_dev s') \<noteq> None \<and> \<not> current_full s')"
  using assms
proof (induction g s rule: select_loop.induct)
  case (1 g s)
  have calm: "calm s" using "1.prems"(3) by (simp add: select_calm.simps [of g s])
  have "runs (select_round g s)
      (\<lambda>s'. sdev_inv g s' \<and> same_view g s s' \<and> output_initialized (sd_l s') \<and> d_bi (sd_dev s') \<noteq> None)"
    by (rule select_round_ok [OF "1.prems"(1,2) calm "1.prems"(4)])
  then show ?case
  proof (cases "select_round g s")
    case (Inl e)
    with \<open>runs (select_round g s) _\<close> show ?thesis by (simp add: select_loop.simps [of g s] runs_def)
  next
    case (Inr s1)
    with \<open>runs (select_round g s) _\<close> have s1: "sdev_inv g s1" "same_view g s s1" "output_initialized (sd_l s1)"
      "d_bi (sd_dev s1) \<noteq> None" by simp_all
    show ?thesis
    proof (cases "current_full s1")
      case True
      then have "select_calm g s1" using "1.prems"(3) Inr by (simp add: select_calm.simps [of g s])
      from "1.IH" [OF Inr True s1(1,3) this s1(4)] show ?thesis
        using Inr True s1(2) by (auto simp: select_loop.simps [of g s] intro: same_view_trans elim!: runs_mono)
    qed (use Inr s1 in \<open>simp add: select_loop.simps [of g s]\<close>)
  qed
qed

lemma unstarted_fresh:
  "sdev_inv g s \<Longrightarrow> \<not> output_initialized (sd_l s) \<Longrightarrow> d_bi (sd_dev s) \<noteq> None \<Longrightarrow> fresh_output g s"
  by (auto simp: sdev_inv_def tail_inv_def fresh_output_def)

lemma fresh_unstarted: "fresh_output g s \<Longrightarrow> sdev_inv g (set_started False s)"
  by (auto simp: sdev_inv_def tail_inv_def fresh_output_def flag_fields)

lemma initialize_output_ok:
  assumes "sdev_inv g s" "d_bi (sd_dev s) \<noteq> None"
  shows "\<exists>s'. initialize_output g s = Inr s' \<and> sdev_inv g s' \<and> same_view g s s' \<and> output_initialized (sd_l s') \<and>
    d_bi (sd_dev s') = d_bi (sd_dev s) \<and> tail_macroblock (sd_dev s') = tail_macroblock (sd_dev s)"
  using assms collect_fresh [OF unstarted_fresh [OF assms(1) _ assms(2)]]
  by (auto simp: initialize_output_def sdev_inv_def same_control_def)

lemma cycle_ok:
  assumes si: "sdev_inv g s" "d_bi (sd_dev s) \<noteq> None" "calm s"
  shows "runs (scubed3_cycle g s) (\<lambda>s'. sdev_inv g s' \<and> same_view g s s' \<and> d_bi (sd_dev s') \<noteq> None)"
proof -
  obtain s1 where s1: "initialize_output g s = Inr s1" "sdev_inv g s1" "same_view g s s1" "output_initialized (sd_l s1)"
    "d_bi (sd_dev s1) = d_bi (sd_dev s)" "tail_macroblock (sd_dev s1) = tail_macroblock (sd_dev s)"
    using initialize_output_ok [OF si(1,2)] by auto
  then have "calm s1" using si(3) by (simp add: calm_def)
  obtain c where c: "d_bi (sd_dev s1) = Some c" using si(2) s1(5) by auto
  have "scubed3_cycle g s = rbind (lift_b (blockio_dev_write_current_and_select_next_macroblock g) s1) (\<lambda>s. Inr (set_started False s))"
    using s1(1) unfolding scubed3_cycle_def initialize_output_def
    by (simp add: blockio_dev_write_current_and_select_next_macroblock_def [abs_def] lift_b_bind [symmetric])
      (simp add: rbind_def split: sum.split)
  moreover have "runs \<dots> (\<lambda>s'. sdev_inv g s' \<and> same_view g s s' \<and> d_bi (sd_dev s') \<noteq> None)"
    by (rule runs_bind [OF runs_mono [OF write_and_select [OF s1(2,4) \<open>calm s1\<close> c]], of "\<lambda>s'. fresh_output g s' \<and> same_view g s1 s'"])
      (use s1(3) in \<open>auto simp: fresh_unstarted dest: fresh_has_current intro: same_view_trans\<close>)
  ultimately show ?thesis by simp
qed

section \<open>Reading\<close>

lemma read_part_ok:
  assumes "core_inv g s" "m < size_of s" "off + n \<le> 2 ^ mesoblk_log (sd_b s)"
    and x: "block_indices (sd_l s) ! m \<noteq> NOWHERE" "Some (ID (sd_l s) (block_indices (sd_l s) ! m)) \<noteq> d_bi (sd_dev s)"
  shows "blockio_dev_read_mesoblk_part g (sd_b s, sd_dev s) (ID (sd_l s) (block_indices (sd_l s) ! m))
      (NO (sd_l s) (block_indices (sd_l s) ! m)) off n = Inr (bslice off n (content g s m))"
proof -
  note el = entry_live(4,5) [OF assms(1,2) x(1)]
  have "base_inv g s" using assms(1) by (simp add: core_inv_def)
  note rd = read_mesoblk_disk(1) [OF this el(2,1)]
  show ?thesis using rd el x by (simp add: blockio_dev_read_mesoblk_part_def content_def slot_def Let_def)
qed

lemma bslice_zeros: "off + n \<le> k \<Longrightarrow> bslice off n (replicate k x) = replicate n x"
  by (simp add: bslice_def)

lemma do_read_ok:
  assumes ci: "core_inv g s" and c: "d_bi (sd_dev s) = Some c" "c \<in> blocks s" and m: "m < size_of s"
    and sz: "off + n \<le> 2 ^ mesoblk_log (sd_b s)"
  shows "do_read g s m off n = Inr (bslice off n (content g s m))"
proof -
  let ?x = "block_indices (sd_l s) ! m"
  have base: "base_inv g s" "c < total_macroblocks (sd_b s)" using ci c(2) by (auto simp: core_inv_def block_inv_def)
  consider "?x = NOWHERE" | "?x \<noteq> NOWHERE" "ID (sd_l s) ?x = c" | "?x \<noteq> NOWHERE" "ID (sd_l s) ?x \<noteq> c" by blast
  then show ?thesis
  proof cases
    case 1
    with nowhere_not_block [OF base] c sz show ?thesis by (simp add: do_read_def cur_def content_def bslice_zeros)
  next
    case 2
    have "NO (sd_l s) ?x < mmpm (sd_b s)" by (rule entry_live(4) [OF ci m 2(1)])
    with 2 c sz show ?thesis
      by (simp add: do_read_def cur_def mesoblk_def content_def slot_def bslice_bslice)
  next
    case 3
    with read_part_ok [OF ci m sz 3(1)] c show ?thesis by (simp add: do_read_def cur_def)
  qed
qed

section \<open>Writing\<close>

lemma blit_Nil [simp]: "blit off [] b = b"
  by (simp add: blit_def)

text \<open>Copy on write: the new bytes and the rest of the old mesoblock end up in the slot.\<close>

lemma cow_bytes:
  assumes "addr + length old \<le> length T" "off + length d \<le> length old"
  shows "blit (addr + off + length d) (bslice (off + length d) (length old - length d - off) old)
      (blit addr (bslice 0 off old) (blit (addr + off) d T)) = blit addr (blit off d old) T"
  using assms by (intro nth_equalityI) (auto simp: length_blit nth_blit)

lemma read_or_fake_ok:
  assumes "core_inv g s" "m < size_of s" "off + n \<le> 2 ^ mesoblk_log (sd_b s)"
    and "Some (ID (sd_l s) (block_indices (sd_l s) ! m)) \<noteq> d_bi (sd_dev s)"
  shows "read_or_fake g s (block_indices (sd_l s) ! m) off n = Inr (bslice off n (content g s m))"
  using read_part_ok [OF assms(1-3) _ assms(4)] assms(3)
  by (simp add: read_or_fake_def blockio_dev_fake_mesoblk_part_def content_def bslice_zeros)

lemma read_or_fake_tmp [simp]: "read_or_fake g (put_tmp s a d) x off n = read_or_fake g s x off n"
  by (simp add: read_or_fake_def blockio_dev_read_mesoblk_part_def blockio_dev_read_mesoblk_def)

lemma put_tmp_Nil [simp]: "put_tmp s a [] = s"
  by (simp add: put_tmp_def)

lemma do_cow_ok:
  assumes ci: "core_inv g s" and m: "m < size_of s" and k: "k < mmpm (sd_b s)"
    and d: "off + length d \<le> 2 ^ mesoblk_log (sd_b s)"
    and x: "Some (ID (sd_l s) (block_indices (sd_l s) ! m)) \<noteq> d_bi (sd_dev s)"
  defines "addr \<equiv> Suc k * 2 ^ mesoblk_log (sd_b s)"
  shows "do_cow g (put_tmp s (addr + off) d) (block_indices (sd_l s) ! m) off (length d) addr =
    Inr (put_tmp s addr (blit off d (content g s m)))"
proof -
  let ?sz = "2 ^ mesoblk_log (sd_b s) :: nat" and ?old = "content g s m" and ?T = "tmp_macroblock (sd_dev s)"
  have old: "length ?old = ?sz" by (rule length_content [OF ci m])
  have room: "addr + ?sz \<le> length ?T" using slot_room(1) [of g s k] ci k by (simp add: core_inv_def addr_def)
  note rd = read_or_fake_ok [OF ci m _ x]
  have "do_cow g (put_tmp s (addr + off) d) (block_indices (sd_l s) ! m) off (length d) addr =
      Inr (put_tmp (put_tmp (put_tmp s (addr + off) d) addr (bslice 0 off ?old)) (addr + off + length d)
        (bslice (off + length d) (?sz - length d - off) ?old))"
    using d rd [of 0 off] rd [of "off + length d" "?sz - length d - off"]
    by (auto simp: do_cow_def Let_def bslice_def)
  also have "\<dots> = Inr (put_tmp s addr (blit off d ?old))"
    using cow_bytes [of addr ?old ?T off d] room old d by (simp add: put_tmp_def)
  finally show ?thesis .
qed

text \<open>What a write of \<open>d\<close> at offset \<open>off\<close> of mesoblock \<open>m\<close> promises.\<close>

definition keeps :: "gcrypt \<Rightarrow> sdev \<Rightarrow> sdev \<Rightarrow> bool" where
  "keeps g s s' \<longleftrightarrow> frame s s' \<and> (log_ok g s \<longrightarrow> log_ok g s')"

lemma keeps_refl [simp]: "keeps g s s"
  by (simp add: keeps_def)

lemma keeps_trans: "keeps g s s' \<Longrightarrow> keeps g s' s'' \<Longrightarrow> keeps g s s''"
  by (auto simp: keeps_def intro: frame_trans)

definition written :: "gcrypt \<Rightarrow> sdev \<Rightarrow> nat \<Rightarrow> nat \<Rightarrow> bytes \<Rightarrow> sdev \<Rightarrow> bool" where
  "written g s m off d s' \<longleftrightarrow> sdev_inv g s' \<and> d_bi (sd_dev s') \<noteq> None \<and> output_initialized (sd_l s') \<and> keeps g s s' \<and>
     (\<forall>m' < size_of s. content g s' m' = (if m' = m then blit off d (content g s m) else content g s m'))"

lemma relocated_tail:
  assumes mv: "movable g s c m d" and ti: "tail_inv s" "output_initialized (sd_l s)" shows "tail_inv (relocated s c m d)"
proof -
  have "d_bi (sd_dev s) = Some c" using mv by (simp add: movable_def)
  moreover have "juggler_get_obsoleted (moved_info s c m) j = juggler_get_obsoleted (infos (sd_b s)) j" for j
    by (rule juggler_cong(2)) (simp_all add: info_of_def)
  ultimately show ?thesis using ti by (auto simp: tail_inv_def moved_info_def)
qed

text \<open>The two halves of \<open>do_write\<close> after the output was started: finding a place, and storing.\<close>

definition write_target :: "gcrypt \<Rightarrow> nat \<Rightarrow> u32 \<Rightarrow> nat \<Rightarrow> sdev \<Rightarrow> (sdev \<times> u32) res" where
  "write_target g m index0 c s =
     (if ID (sd_l s) index0 \<noteq> c
      then rbind (if current_full s then rbind (pleasewrite_signal s) (select_new_macroblock g) else Inr s) (\<lambda>s. Inr (s, block_indices (sd_l s) ! m))
      else Inr (s, index0))"

definition write_store :: "gcrypt \<Rightarrow> nat \<Rightarrow> nat \<Rightarrow> bytes \<Rightarrow> u32 \<Rightarrow> sdev \<Rightarrow> sdev res" where
  "write_store g m off d index s =
     rbind (cur s) (\<lambda>c.
     rbind (mesoblk s (if ID (sd_l s) index = c then NO (sd_l s) index else used_of s c)) (\<lambda>addr.
     let s = put_tmp s (addr + off) d in
     if ID (sd_l s) index \<noteq> c then
       rbind (do_cow g s index off (length d) addr) (\<lambda>s. rbind (obsolete_mesoblk_byidx s index) (\<lambda>s. add_blockref s m))
     else Inr s))"

lemma do_write_halves:
  assumes "off + length d \<le> 2 ^ mesoblk_log (sd_b s)" "initialize_output g (set_updated True s) = Inr s1"
    "d_bi (sd_dev s1) = Some c"
  shows "do_write g s m off d = rbind (write_target g m (block_indices (sd_l s) ! m) c s1) (\<lambda>(s, x). write_store g m off d x s)"
  using assms unfolding do_write_def write_target_def write_store_def by (simp add: cur_def)

lemma store_ok:
  assumes si: "sdev_inv g s" "output_initialized (sd_l s)" "d_bi (sd_dev s) = Some c" and m: "m < size_of s"
    and d: "off + length d \<le> 2 ^ mesoblk_log (sd_b s)"
  defines "x \<equiv> block_indices (sd_l s) ! m"
  assumes room: "ID (sd_l s) x = c \<or> \<not> current_full s"
  shows "\<exists>s'. write_store g m off d x s = Inr s' \<and> written g s m off d s'"
proof -
  have ci: "core_inv g s" and base: "base_inv g s" and cs: "c \<in> blocks s" and bc: "block_inv s c" and ti: "tail_inv s"
    using si by (auto simp: sdev_inv_def core_inv_def tail_inv_def)
  have ct: "c < total_macroblocks (sd_b s)" using bc by (simp add: block_inv_def)
  show ?thesis
  proof (cases "ID (sd_l s) x = c")
    case True
    then have nn: "x \<noteq> NOWHERE" using nowhere_not_block [OF base ct] by auto
    note k = entry_live(4) [OF ci m nn [unfolded x_def], folded x_def]
    have "written g s m off d (patched s (NO (sd_l s) x) off d)"
      using patched_inv [OF si(1) k d] patched_content [OF ci si(3) _ _ m _ d] si(2,3) True nn
      by (auto simp: written_def x_def keeps_def)
    with True k si(3) show ?thesis by (simp add: write_store_def cur_def mesoblk_def patched_def)
  next
    case False
    have n: "used_of s c < mmpm (sd_b s)"
      using room False bc si(3) by (simp add: current_full_def block_inv_def info_ok_def)
    let ?new = "blit off d (content g s m)"
    have mv: "movable g s c m ?new"
      using ci si(3) cs m n False d length_content [OF ci m] by (simp add: movable_def x_def length_blit)
    have "rbind (do_cow g (put_tmp s (Suc (used_of s c) * 2 ^ mesoblk_log (sd_b s) + off) d) x off (length d)
          (Suc (used_of s c) * 2 ^ mesoblk_log (sd_b s))) (\<lambda>s. rbind (obsolete_mesoblk_byidx s x) (\<lambda>s. add_blockref s m)) =
        Inr (relocated s c m ?new)"
      using do_cow_ok [OF ci m n d] False si(3) obsolete_then_store [OF mv] by (simp add: x_def)
    moreover have "written g s m off d (relocated s c m ?new)"
      using relocated_core [OF mv] relocated_tail [OF mv ti si(2)] relocated_frame [OF mv] relocated_content [OF mv]
        log_ok_steps(1) [OF mv] si(2,3)
      by (simp add: written_def sdev_inv_def keeps_def)
    ultimately show ?thesis using False n si(3) by (simp add: write_store_def cur_def mesoblk_def)
  qed
qed

text \<open>
  The macroblocks that a write to mesoblock \<open>m\<close> pushes out are not handed out again at once, and if there are
  any then the mutexes are plain ones.
\<close>

definition write_calm :: "gcrypt \<Rightarrow> sdev \<Rightarrow> nat \<Rightarrow> bool" where
  "write_calm g s m \<longleftrightarrow>
     (case initialize_output g (set_updated True s) of
        Inl e \<Rightarrow> True
      | Inr s1 \<Rightarrow> Some (ID (sd_l s1) (block_indices (sd_l s) ! m)) \<noteq> d_bi (sd_dev s1) \<and> current_full s1 \<longrightarrow>
          \<not> sd_errorcheck s1 \<and> select_calm g s1)"

lemma written_after: "same_view g s s1 \<Longrightarrow> m < size_of s \<Longrightarrow> written g s1 m off d s' \<Longrightarrow> written g s m off d s'"
  by (auto simp: written_def same_view_def keeps_def frame_def same_layout_def intro: frame_trans)

lemma view_sizes: "same_view g s s' \<Longrightarrow> size_of s' = size_of s \<and> mesoblk_log (sd_b s') = mesoblk_log (sd_b s)"
  by (simp add: same_view_def frame_def same_layout_def)

lemma write_target_ok:
  assumes si: "sdev_inv g s" "d_bi (sd_dev s) = Some c" "write_calm g s m" and m: "m < size_of s"
    and s1: "initialize_output g (set_updated True s) = Inr s1" "sdev_inv g s1" "same_view g s s1" "output_initialized (sd_l s1)"
      "d_bi (sd_dev s1) = Some c"
  shows "runs (write_target g m (block_indices (sd_l s) ! m) c s1)
    (\<lambda>(s2, x). sdev_inv g s2 \<and> same_view g s s2 \<and> output_initialized (sd_l s2) \<and> d_bi (sd_dev s2) \<noteq> None \<and>
      x = block_indices (sd_l s2) ! m \<and> (Some (ID (sd_l s2) x) = d_bi (sd_dev s2) \<or> \<not> current_full s2))"
proof (cases "ID (sd_l s1) (block_indices (sd_l s) ! m) = c")
  case True
  let ?x0 = "block_indices (sd_l s) ! m"
  have "base_inv g s1" "c \<in> blocks s1" "block_inv s1 c" using s1(2,5) by (auto simp: sdev_inv_def core_inv_def tail_inv_def)
  then have nn: "?x0 \<noteq> NOWHERE" using True nowhere_not_block [of g s1 c] by (auto simp: block_inv_def)
  have "sd_l s1 = sd_l s"
  proof (cases "output_initialized (sd_l s)")
    case True
    then show ?thesis using s1(1) by (auto simp: initialize_output_def)
  next
    case False
    have "mesobits (sd_l s1) = mesobits (sd_l s)"
      using s1(2,3) si(1) by (simp add: sdev_inv_def core_inv_def base_inv_def same_view_def frame_def same_layout_def)
    then have "ID (sd_l s) ?x0 = c" using True by (simp add: ID_def)
    then have "live s c (NO (sd_l s) ?x0)" using entry_live(2) [of g s m] si(1) m nn by (auto simp: sdev_inv_def)
    then show ?thesis using False si(1,2) by (auto simp: sdev_inv_def tail_inv_def live_def)
  qed
  with True s1 show ?thesis by (simp add: write_target_def)
next
  case False
  have "runs (if current_full s1 then rbind (pleasewrite_signal s1) (select_new_macroblock g) else Inr s1)
      (\<lambda>s'. sdev_inv g s' \<and> same_view g s1 s' \<and> output_initialized (sd_l s') \<and> d_bi (sd_dev s') \<noteq> None \<and> \<not> current_full s')"
    using select_loop_ok [OF s1(2,4)] si s1 False by (auto simp: write_calm_def select_new_macroblock_def pleasewrite_signal_def)
  then have "runs (if current_full s1 then rbind (pleasewrite_signal s1) (select_new_macroblock g) else Inr s1)
      (\<lambda>s'. sdev_inv g s' \<and> same_view g s s' \<and> output_initialized (sd_l s') \<and> d_bi (sd_dev s') \<noteq> None \<and> \<not> current_full s')"
    by (rule runs_mono) (blast intro: same_view_trans [OF s1(3)])
  then show ?thesis using False unfolding write_target_def by (auto elim!: runs_bind)
qed

lemma do_write_ok:
  assumes si: "sdev_inv g s" "d_bi (sd_dev s) \<noteq> None" "write_calm g s m" and m: "m < size_of s"
    and d: "off + length d \<le> 2 ^ mesoblk_log (sd_b s)"
  shows "runs (do_write g s m off d) (written g s m off d)"
proof -
  obtain s1 where s1: "initialize_output g (set_updated True s) = Inr s1" "sdev_inv g s1" "same_view g s s1"
    "output_initialized (sd_l s1)" "d_bi (sd_dev s1) = d_bi (sd_dev s)"
    using initialize_output_ok [of g "set_updated True s"] si by auto
  obtain c where c: "d_bi (sd_dev s) = Some c" "d_bi (sd_dev s1) = Some c" using si(2) s1(5) by auto
  show ?thesis
    unfolding do_write_halves [OF d s1(1) c(2)]
  proof (rule runs_bind [OF write_target_ok [OF si(1) c(1) si(3) m s1(1-4) c(2)]], clarify)
    fix s2 c2
    assume s2: "sdev_inv g s2" "same_view g s s2" "output_initialized (sd_l s2)" "d_bi (sd_dev s2) = Some c2"
      "Some (ID (sd_l s2) (block_indices (sd_l s2) ! m)) = d_bi (sd_dev s2) \<or> \<not> current_full s2"
    show "runs (write_store g m off d (block_indices (sd_l s2) ! m) s2) (written g s m off d)"
      using store_ok [OF s2(1,3,4), of m off d] s2(4,5) m d view_sizes [OF s2(2)] written_after [OF s2(2) m] by auto
  qed
qed

end
