(* ===== verification/Scubed3_Array.thy ===== *)
theory Scubed3_Array
  imports Scubed3_Ops
begin

text \<open>
  The device of src/src/scubed3.c as an array of bytes: requests of arbitrary position and size are
  cut into pieces inside one mesoblock, and the pieces together read and write one range of the
  array \<open>flat\<close>.
\<close>

section \<open>The array\<close>

lemma concat_blocks:
  assumes "\<And>m. m < n \<Longrightarrow> length (f m) = sz"
  shows "length (concat (map f [0..<n])) = n * sz"
    "m < n \<Longrightarrow> o' < sz \<Longrightarrow> concat (map f [0..<n]) ! (m * sz + o') = f m ! o'"
  using assms
proof (induction n)
  case (Suc n)
  {
    case 1
    then show ?case using Suc.IH(1) by simp
  next
    case 2
    have len: "length (concat (map f [0..<n])) = n * sz" using Suc.IH(1) 2 by simp
    show ?case
    proof (cases "m = n")
      case True
      then show ?thesis using 2 len by (simp add: nth_append)
    next
      case False
      then have "(m + 1) * sz \<le> n * sz" using 2 by (intro mult_le_mono1) simp
      then show ?thesis using Suc.IH(2) False 2 len by (simp add: nth_append)
    qed
  }
qed simp_all

lemma length_flat: "core_inv g s \<Longrightarrow> length (flat g s) = size_of s * 2 ^ mesoblk_log (sd_b s)"
  unfolding flat_def by (rule concat_blocks(1)) (rule length_content)

lemma nth_flat:
  "core_inv g s \<Longrightarrow> m < size_of s \<Longrightarrow> i < 2 ^ mesoblk_log (sd_b s) \<Longrightarrow>
    flat g s ! (m * 2 ^ mesoblk_log (sd_b s) + i) = content g s m ! i"
  unfolding flat_def by (rule concat_blocks(2)) (simp_all add: length_content)

lemma flat_piece:
  assumes "core_inv g s" "m < size_of s" "off + n \<le> 2 ^ mesoblk_log (sd_b s)"
  shows "m * 2 ^ mesoblk_log (sd_b s) + off + n \<le> length (flat g s)"
    "bslice off n (content g s m) = bslice (m * 2 ^ mesoblk_log (sd_b s) + off) n (flat g s)"
proof -
  let ?sz = "2 ^ mesoblk_log (sd_b s) :: nat"
  have "(m + 1) * ?sz \<le> size_of s * ?sz" using assms(2) by (intro mult_le_mono1) simp
  then show *: "m * ?sz + off + n \<le> length (flat g s)" using assms by (simp add: length_flat)
  show "bslice off n (content g s m) = bslice (m * ?sz + off) n (flat g s)"
    using * assms nth_flat [OF assms(1,2)] by (intro bslice_eq_nthI) (auto simp: length_content add.assoc)
qed

lemma div_mod_range:
  assumes "0 < sz" "off + n \<le> (sz :: nat)"
  shows "i div sz = m \<and> off \<le> i mod sz \<and> i mod sz < off + n \<longleftrightarrow> m * sz + off \<le> i \<and> i < m * sz + off + n"
    "i div sz = m \<Longrightarrow> i mod sz - off = i - (m * sz + off)"
proof -
  have md: "i mod sz = i - i div sz * sz" "i div sz * sz \<le> i" by (simp_all add: minus_div_mult_eq_mod)
  then show "i div sz = m \<Longrightarrow> i mod sz - off = i - (m * sz + off)" by auto
  show "i div sz = m \<and> off \<le> i mod sz \<and> i mod sz < off + n \<longleftrightarrow> m * sz + off \<le> i \<and> i < m * sz + off + n"
  proof
    assume r: "m * sz + off \<le> i \<and> i < m * sz + off + n"
    then have "i div sz = m" using assms(2) by (intro div_nat_eqI) (auto simp: mult.commute)
    with r md show "i div sz = m \<and> off \<le> i mod sz \<and> i mod sz < off + n" by auto
  next
    assume r: "i div sz = m \<and> off \<le> i mod sz \<and> i mod sz < off + n"
    then have e: "i div sz = m" by blast
    show "m * sz + off \<le> i \<and> i < m * sz + off + n" using r md unfolding e by (intro conjI) linarith+
  qed
qed

lemma written_flat:
  assumes ci: "core_inv g s" and w: "written g s m off d s'" and m: "m < size_of s"
    and d: "off + length d \<le> 2 ^ mesoblk_log (sd_b s)"
  shows "flat g s' = blit (m * 2 ^ mesoblk_log (sd_b s) + off) d (flat g s)"
proof -
  let ?sz = "2 ^ mesoblk_log (sd_b s) :: nat"
  have ci': "core_inv g s'" and sz: "size_of s' = size_of s" "mesoblk_log (sd_b s') = mesoblk_log (sd_b s)"
    using w by (auto simp: written_def sdev_inv_def keeps_def frame_def same_layout_def)
  note fp = flat_piece(1) [OF ci m d]
  show ?thesis
  proof (rule nth_equalityI)
    show "length (flat g s') = length (blit (m * ?sz + off) d (flat g s))"
      using fp ci ci' sz by (simp add: length_blit length_flat)
    fix i assume "i < length (flat g s')"
    then have i: "i < size_of s * ?sz" using ci' sz by (simp add: length_flat)
    let ?m = "i div ?sz" and ?o = "i mod ?sz"
    have q: "?m < size_of s" "?o < ?sz" "i = ?m * ?sz + ?o"
      using i by (simp_all add: less_mult_imp_div_less del: div_mult_mod_eq) (simp only: div_mult_mod_eq)
    have "flat g s' ! i = content g s' ?m ! ?o" using nth_flat [OF ci', of ?m ?o] q sz by simp
    also have "\<dots> = (if ?m = m then blit off d (content g s m) ! ?o else content g s ?m ! ?o)"
      using w q by (simp add: written_def)
    also have "\<dots> = (if ?m = m \<and> off \<le> ?o \<and> ?o < off + length d then d ! (?o - off) else flat g s ! i)"
      using nth_flat [OF ci, of ?m ?o] q d length_content [OF ci m] by (auto simp: nth_blit)
    also have "\<dots> = blit (m * ?sz + off) d (flat g s) ! i"
      using div_mod_range [OF _ d, of i m] i fp ci by (subst nth_blit) (simp_all add: length_flat, metis)
    finally show "flat g s' ! i = blit (m * ?sz + off) d (flat g s) ! i" .
  qed
qed

section \<open>Cutting a request into pieces\<close>

text \<open>A piece: the mesoblock, the offset in it, the length, and the position in the caller's buffer.\<close>

type_synonym piece = "nat \<times> nat \<times> nat \<times> nat"

function whole_pieces :: "nat \<Rightarrow> nat \<Rightarrow> nat \<Rightarrow> nat \<Rightarrow> piece list" where
  "whole_pieces mesolog meso sz ooff =
     (if sz \<ge> 2 ^ mesolog
      then (meso, 0, 2 ^ mesolog, ooff) #
        whole_pieces mesolog ((meso + 1) mod 2 ^ 32) (sz - 2 ^ mesolog) ((ooff + 2 ^ mesolog) mod 2 ^ 32)
      else if sz > 0 then [(meso, 0, sz, ooff)] else [])"
  by pat_completeness auto
termination
  by (relation "measure (\<lambda>(mesolog, meso, sz, ooff). sz)") (auto intro!: diff_less dest: pow_le_pos)

definition pieces :: "nat \<Rightarrow> nat \<Rightarrow> nat \<Rightarrow> piece list" where
  "pieces mesolog pos n =
     (let meso = pos div 2 ^ mesolog; inmeso = pos mod 2 ^ mesolog;
          reqsz = (if inmeso + n \<le> 2 ^ mesolog then n else 2 ^ mesolog - inmeso) in
      if inmeso = 0 then whole_pieces mesolog meso n 0
      else (meso, inmeso, reqsz, 0) # whole_pieces mesolog ((meso + 1) mod 2 ^ 32) (n - reqsz) reqsz)"

definition do_piece :: "gcrypt \<Rightarrow> scubed3_io \<Rightarrow> piece \<Rightarrow> sdev \<times> bytes \<Rightarrow> (sdev \<times> bytes) res" where
  "do_piece g cmd p sb = (case p of (m, off, n, o') \<Rightarrow> do_action g cmd m off n o' sb)"

declare whole_pieces.simps [simp del] do_req_loop.simps [simp del]

lemma do_req_loop_pieces:
  "do_req_loop g cmd mesolog meso sz ooff sb = rfold (do_piece g cmd) (whole_pieces mesolog meso sz ooff) sb"
proof (induction g cmd mesolog meso sz ooff sb rule: do_req_loop.induct)
  case (1 g cmd mesolog meso sz ooff sb)
  show ?case
    using "1.IH"
    by (cases "do_action g cmd meso 0 (2 ^ mesolog) ooff sb"; cases "do_action g cmd meso 0 sz ooff sb")
      (auto simp: do_req_loop.simps [of g cmd mesolog meso] whole_pieces.simps [of mesolog meso] do_piece_def)
qed

lemma do_req_loop_fun:
  "do_req_loop g cmd mesolog meso sz ooff = rfold (do_piece g cmd) (whole_pieces mesolog meso sz ooff)"
  by (rule ext) (rule do_req_loop_pieces)

text \<open>The pieces follow each other without gaps, on the device and in the buffer.\<close>

fun covers :: "nat \<Rightarrow> nat \<Rightarrow> nat \<Rightarrow> piece list \<Rightarrow> nat \<Rightarrow> bool" where
  "covers msz pos o' [] e \<longleftrightarrow> o' = e"
| "covers msz pos o' ((m, off, n, q) # ps) e \<longleftrightarrow>
     q = o' \<and> m * msz + off = pos + o' \<and> off + n \<le> msz \<and> 0 < n \<and> covers msz pos (o' + n) ps e"

lemma covers_end: "covers msz pos o' ps e \<Longrightarrow> o' \<le> e"
proof (induction ps arbitrary: o')
  case (Cons p ps)
  obtain m off n q where "p = (m, off, n, q)" by (cases p)
  with Cons.prems Cons.IH [of "o' + n"] show ?case by simp
qed simp

lemma whole_pieces_cover:
  assumes "meso * 2 ^ mesolog = pos + ooff" "pos + ooff + sz \<le> S * 2 ^ mesolog" "S < 2 ^ 32" "ooff + sz < 2 ^ 32"
  shows "covers (2 ^ mesolog) pos ooff (whole_pieces mesolog meso sz ooff) (ooff + sz)"
  using assms
proof (induction mesolog meso sz ooff rule: whole_pieces.induct)
  case (1 mesolog meso sz ooff)
  show ?case
  proof (cases "2 ^ mesolog \<le> sz")
    case True
    have "(meso + 1) * 2 ^ mesolog \<le> S * 2 ^ mesolog" using True "1.prems"(1,2) by simp
    then have "meso + 1 \<le> S" by (simp only: mult_le_cancel2) simp
    then have md: "(meso + 1) mod 2 ^ 32 = meso + 1" "(ooff + 2 ^ mesolog) mod 2 ^ 32 = ooff + 2 ^ mesolog"
      using True "1.prems"(3,4) by simp_all
    have "covers (2 ^ mesolog) pos (ooff + 2 ^ mesolog)
        (whole_pieces mesolog (meso + 1) (sz - 2 ^ mesolog) (ooff + 2 ^ mesolog)) (ooff + 2 ^ mesolog + (sz - 2 ^ mesolog))"
      using "1.IH" [OF True, unfolded md] "1.prems" True by simp
    then show ?thesis using True "1.prems"(1) md by (simp add: whole_pieces.simps [of mesolog meso])
  qed (use "1.prems" in \<open>auto simp: whole_pieces.simps [of mesolog meso]\<close>)
qed

lemma pieces_cover:
  assumes "0 < n" "pos + n \<le> S * 2 ^ mesolog" "S < 2 ^ 32" "n < 2 ^ 32"
  shows "covers (2 ^ mesolog) pos 0 (pieces mesolog pos n) n"
proof -
  let ?sz = "2 ^ mesolog :: nat"
  let ?meso = "pos div ?sz" and ?in = "pos mod ?sz"
  have pos: "?meso * ?sz + ?in = pos" "?in < ?sz" by (rule div_mult_mod_eq) simp
  show ?thesis
  proof (cases "?in = 0")
    case True
    have "covers ?sz pos 0 (whole_pieces mesolog ?meso n 0) (0 + n)"
      using pos True assms by (intro whole_pieces_cover) auto
    with True show ?thesis by (simp add: pieces_def)
  next
    case False
    define r where "r = (if ?in + n \<le> ?sz then n else ?sz - ?in)"
    have r: "0 < r" "r \<le> n" "?in + r \<le> ?sz" using pos(2) assms(1) by (auto simp: r_def)
    have "covers ?sz pos r (whole_pieces mesolog ((?meso + 1) mod 2 ^ 32) (n - r) r) n"
    proof (cases "?in + n \<le> ?sz")
      case True
      then have "r = n" by (simp add: r_def)
      then show ?thesis by (simp add: whole_pieces.simps)
    next
      case big: False
      then have e: "(?meso + 1) * ?sz = pos + r" using pos by (simp add: r_def)
      then have "(?meso + 1) * ?sz \<le> S * ?sz" using assms(2) r(2) by linarith
      then have "?meso + 1 \<le> S" by (simp only: mult_le_cancel2) simp
      then have "(?meso + 1) mod 2 ^ 32 = ?meso + 1" using assms(3) by simp
      moreover have "covers ?sz pos r (whole_pieces mesolog (?meso + 1) (n - r) r) (r + (n - r))"
        using e assms r(2) by (intro whole_pieces_cover) auto
      ultimately show ?thesis using r(2) by simp
    qed
    with False r pos show ?thesis by (simp add: pieces_def r_def [symmetric] Let_def)
  qed
qed

section \<open>Requests\<close>

text \<open>
  No macroblock that the request writes to disk is handed out again at once, and the mutexes are plain ones if it
  writes any.
\<close>

fun pieces_calm :: "gcrypt \<Rightarrow> scubed3_io \<Rightarrow> piece list \<Rightarrow> sdev \<times> bytes \<Rightarrow> bool" where
  "pieces_calm g cmd [] sb = True"
| "pieces_calm g cmd (p # ps) sb \<longleftrightarrow> (cmd = SCUBED3_WRITE \<longrightarrow> write_calm g (fst sb) (fst p)) \<and>
     (case do_piece g cmd p sb of Inl e \<Rightarrow> True | Inr sb' \<Rightarrow> pieces_calm g cmd ps sb')"

definition req_calm :: "gcrypt \<Rightarrow> u64 \<Rightarrow> u64 \<Rightarrow> sdev \<times> bytes \<Rightarrow> bool" where
  "req_calm g r_offset sz sb = pieces_calm g SCUBED3_WRITE (pieces (mesoblk_log (sd_b (fst sb))) (unat r_offset) (unat sz)) sb"

definition in_range :: "sdev \<Rightarrow> u64 \<Rightarrow> u64 \<Rightarrow> bytes \<Rightarrow> bool" where
  "in_range s r_offset sz buf \<longleftrightarrow> 0 < sz \<and> unat r_offset + unat sz \<le> size_of s * 2 ^ mesoblk_log (sd_b s) \<and>
     sz < 2 ^ 32 \<and> unat sz \<le> length buf"

definition device_ok :: "gcrypt \<Rightarrow> sdev \<Rightarrow> bool" where
  "device_ok g s \<longleftrightarrow> sdev_inv g s \<and> d_bi (sd_dev s) \<noteq> None"

lemma piece_inside:
  assumes "m * msz + off = pos + o'" "0 < n" "covers msz pos (o' + n) ps e" "pos + e \<le> S * (msz :: nat)"
  shows "m < S"
proof (rule ccontr)
  assume "\<not> m < S"
  then have "S * msz \<le> m * msz" by (intro mult_le_mono1) simp
  with assms(1,2,4) covers_end [OF assms(3)] show False by linarith
qed

lemma read_pieces:
  assumes "device_ok g s" "covers (2 ^ mesoblk_log (sd_b s)) pos o' ps e" "pos + e \<le> size_of s * 2 ^ mesoblk_log (sd_b s)"
    "e \<le> length buf" "cur_buf = blit 0 (bslice pos o' (flat g s)) buf"
  shows "rfold (do_piece g SCUBED3_READ) ps (s, cur_buf) = Inr (s, blit 0 (bslice pos e (flat g s)) buf)"
  using assms(2,5)
proof (induction ps arbitrary: o' cur_buf)
  case (Cons p ps)
  let ?msz = "2 ^ mesoblk_log (sd_b s) :: nat"
  obtain m off n where p: "p = (m, off, n, o')" "m * ?msz + off = pos + o'" "off + n \<le> ?msz" "0 < n"
    "covers ?msz pos (o' + n) ps e"
    using Cons.prems(1) by (cases p) auto
  have m: "m < size_of s" by (rule piece_inside [OF p(2,4,5) assms(3)])
  obtain c where c: "core_inv g s" "d_bi (sd_dev s) = Some c" "c \<in> blocks s"
    using assms(1) by (auto simp: device_ok_def sdev_inv_def tail_inv_def)
  have len: "length (flat g s) = size_of s * ?msz" by (rule length_flat [OF c(1)])
  have o: "o' + n \<le> e" by (rule covers_end [OF p(5)])
  have "do_read g s m off n = Inr (bslice (pos + o') n (flat g s))"
    using do_read_ok [OF c m p(3)] flat_piece(2) [OF c(1) m p(3)] p(2) by simp
  moreover have "blit o' (bslice (pos + o') n (flat g s)) cur_buf = blit 0 (bslice pos (o' + n) (flat g s)) buf"
    using Cons.prems(2) o assms(3,4) len blit_blit_adjacent [of 0 "bslice pos o' (flat g s)" "bslice (pos + o') n (flat g s)" buf]
    by (simp add: bslice_append_adjacent)
  ultimately show ?case using Cons.IH [OF p(5)] p(1) by (simp add: do_piece_def do_action_def)
qed (use assms in simp)

lemma written_device: "written g s m off d s' \<Longrightarrow> device_ok g s' \<and> keeps g s s'"
  by (simp add: written_def device_ok_def)

lemma write_pieces:
  assumes "device_ok g s" "keeps g s0 s" "covers (2 ^ mesoblk_log (sd_b s0)) pos o' ps e" "pieces_calm g SCUBED3_WRITE ps (s, buf)"
    "flat g s = blit pos (bslice 0 o' buf) F"
    and lim: "pos + e \<le> size_of s0 * 2 ^ mesoblk_log (sd_b s0)" "e \<le> length buf" "length F = size_of s0 * 2 ^ mesoblk_log (sd_b s0)"
  shows "runs (rfold (do_piece g SCUBED3_WRITE) ps (s, buf))
    (\<lambda>(s', buf'). device_ok g s' \<and> keeps g s0 s' \<and> buf' = buf \<and> flat g s' = blit pos (bslice 0 e buf) F)"
  using assms(1-5)
proof (induction ps arbitrary: o' s)
  case (Cons p ps)
  let ?msz = "2 ^ mesoblk_log (sd_b s0) :: nat"
  obtain m off n where p: "p = (m, off, n, o')" "m * ?msz + off = pos + o'" "off + n \<le> ?msz" "0 < n"
    "covers ?msz pos (o' + n) ps e"
    using Cons.prems(3) by (cases p) auto
  have sz: "size_of s = size_of s0" "mesoblk_log (sd_b s) = mesoblk_log (sd_b s0)"
    using Cons.prems(2) by (simp_all add: keeps_def frame_def same_layout_def)
  have m: "m < size_of s" unfolding sz by (rule piece_inside [OF p(2,4,5) lim(1)])
  have ci: "sdev_inv g s" "core_inv g s" "d_bi (sd_dev s) \<noteq> None"
    using Cons.prems(1) by (simp_all add: device_ok_def sdev_inv_def)
  let ?d = "bslice o' n buf"
  have o: "o' + n \<le> e" by (rule covers_end [OF p(5)])
  then have d: "length ?d = n" "off + length ?d \<le> 2 ^ mesoblk_log (sd_b s)" using lim(2) p(3) sz by simp_all
  have w: "runs (do_write g s m off ?d) (written g s m off ?d)"
    using do_write_ok [OF ci(1,3) _ m d(2)] Cons.prems(4) p(1) by simp
  show ?case
  proof (cases "do_write g s m off ?d")
    case (Inl e')
    with w show ?thesis by (simp add: runs_def p(1) do_piece_def do_action_def)
  next
    case (Inr s')
    with w have ws: "written g s m off ?d s'" by simp
    have dp: "do_piece g SCUBED3_WRITE p (s, buf) = Inr (s', buf)" using Inr by (simp add: p(1) do_piece_def do_action_def)
    have "flat g s' = blit (pos + o') ?d (flat g s)"
      using written_flat [OF ci(2) ws m d(2)] p(2) sz by simp
    also have "\<dots> = blit pos (bslice 0 (o' + n) buf) F"
      using Cons.prems(5) o lim blit_blit_adjacent [of pos "bslice 0 o' buf" ?d F] bslice_append_adjacent [of 0 o' buf n]
      by simp
    finally have "runs (rfold (do_piece g SCUBED3_WRITE) ps (s', buf))
        (\<lambda>(s', buf'). device_ok g s' \<and> keeps g s0 s' \<and> buf' = buf \<and> flat g s' = blit pos (bslice 0 e buf) F)"
      using Cons.IH [OF _ _ p(5)] written_device [OF ws] keeps_trans [OF Cons.prems(2)] Cons.prems(4) dp by simp
    with dp show ?thesis by simp
  qed
qed simp

lemma unat_drop_bit_div: "unat (drop_bit k (w :: 'a::len word)) = unat w div 2 ^ k"
  unfolding unat_drop_bit_eq by (rule drop_bit_eq_div)

lemma request_words:
  assumes "in_range s r_offset sz buf" "geometry (sd_b s)"
  defines "k \<equiv> mesoblk_log (sd_b s)"
  shows "\<not> drop_bit k (r_offset + sz - 1) \<ge> (ucast (no_block_indices (sd_l s)) :: u64)"
    "unat (ucast (drop_bit k r_offset) :: u32) = unat r_offset div 2 ^ k" "unat (r_offset mod 2 ^ k) = unat r_offset mod 2 ^ k"
proof -
  have k: "k \<le> 29" using assms(2) by (simp add: k_def geometry_def)
  have r: "0 < unat sz" "unat r_offset + unat sz \<le> size_of s * 2 ^ k"
    using assms(1) by (simp_all add: in_range_def k_def word_less_nat_alt)
  have s: "size_of s < 2 ^ 32" using unat_less_exp [of "no_block_indices (sd_l s)"] by simp
  have "(2 :: nat) ^ k \<le> 2 ^ 29" using k by (intro power_increasing) simp_all
  with s have "size_of s * 2 ^ k \<le> 2 ^ 32 * 2 ^ 29" by (intro mult_le_mono) simp_all
  with r have small: "unat r_offset + unat sz < 2 ^ 64" by simp
  have "r_offset + sz - 1 = of_nat (unat r_offset + unat sz - 1)" using r(1) by (simp add: of_nat_diff)
  then have "unat (r_offset + sz - 1) = unat r_offset + unat sz - 1"
    using small by (simp only: unat_of_nat) (simp add: take_bit_nat_eq_self)
  then have "unat (drop_bit k (r_offset + sz - 1)) = (unat r_offset + unat sz - 1) div 2 ^ k"
    by (simp only: unat_drop_bit_div)
  also have "\<dots> < size_of s" using r by (intro less_mult_imp_div_less) linarith
  finally show "\<not> drop_bit k (r_offset + sz - 1) \<ge> (ucast (no_block_indices (sd_l s)) :: u64)"
    using take_bit_nat_eq_self [of "size_of s" 64] s by (simp add: word_le_nat_alt unsigned_ucast_eq)
  have "unat (drop_bit k r_offset) = unat r_offset div 2 ^ k" by (simp only: unat_drop_bit_div)
  moreover have "unat r_offset div 2 ^ k < size_of s" using r by (intro less_mult_imp_div_less) linarith
  then have "unat r_offset div 2 ^ k < 2 ^ 32" using s by linarith
  ultimately show "unat (ucast (drop_bit k r_offset) :: u32) = unat r_offset div 2 ^ k"
    by (simp add: unsigned_ucast_eq take_bit_nat_eq_self)
  have "(2 :: nat) ^ k < 2 ^ 64" using k by (intro power_strict_increasing) simp_all
  then have "unat ((2 :: u64) ^ k) = 2 ^ k" using unat_of_nat_small [of "2 ^ k", where 'a = 64] by simp
  then show "unat (r_offset mod 2 ^ k) = unat r_offset mod 2 ^ k" by (simp add: unat_mod_distrib)
qed

lemma do_req_pieces:
  assumes "in_range s r_offset sz buf" "geometry (sd_b s)"
  shows "do_req g cmd r_offset sz (s, buf) =
    rbind (rfold (do_piece g cmd) (pieces (mesoblk_log (sd_b s)) (unat r_offset) (unat sz)) (s, buf)) (\<lambda>sb. Inr (1, sb))"
  using request_words [OF assms]
  by (simp add: do_req_def Let_def pieces_def do_req_loop_fun do_piece_def [of g cmd "(a, b, c, d)" for a b c d])

lemma range_cover:
  assumes "in_range s r_offset sz buf"
  shows "covers (2 ^ mesoblk_log (sd_b s)) (unat r_offset) 0 (pieces (mesoblk_log (sd_b s)) (unat r_offset) (unat sz)) (unat sz)"
  using assms unat_less_exp [of "no_block_indices (sd_l s)"]
  by (intro pieces_cover [of _ _ "size_of s"]) (simp_all add: in_range_def word_less_nat_alt)

lemma read_request:
  assumes dv: "device_ok g s" and r: "in_range s r_offset sz buf"
  shows "do_req g SCUBED3_READ r_offset sz (s, buf) =
    Inr (1, s, blit 0 (bslice (unat r_offset) (unat sz) (flat g s)) buf)"
proof -
  have "geometry (sd_b s)" using dv by (simp add: device_ok_def sdev_inv_def core_inv_def base_inv_def)
  moreover have "rfold (do_piece g SCUBED3_READ) (pieces (mesoblk_log (sd_b s)) (unat r_offset) (unat sz)) (s, buf) =
      Inr (s, blit 0 (bslice (unat r_offset) (unat sz) (flat g s)) buf)"
    by (rule read_pieces [OF dv range_cover [OF r]]) (use r in \<open>auto simp: in_range_def bslice_def\<close>)
  ultimately show ?thesis by (simp add: do_req_pieces [OF r])
qed

lemma write_request:
  assumes dv: "device_ok g s" and r: "in_range s r_offset sz buf" and calm: "req_calm g r_offset sz (s, buf)"
  shows "runs (do_req g SCUBED3_WRITE r_offset sz (s, buf)) (\<lambda>(ret, s', buf'). ret = 1 \<and> buf' = buf \<and> device_ok g s' \<and> keeps g s s' \<and>
    flat g s' = blit (unat r_offset) (take (unat sz) buf) (flat g s))"
proof -
  have ci: "core_inv g s" "geometry (sd_b s)" using dv by (simp_all add: device_ok_def sdev_inv_def core_inv_def base_inv_def)
  have "runs (rfold (do_piece g SCUBED3_WRITE) (pieces (mesoblk_log (sd_b s)) (unat r_offset) (unat sz)) (s, buf))
      (\<lambda>(s', buf'). device_ok g s' \<and> keeps g s s' \<and> buf' = buf \<and>
         flat g s' = blit (unat r_offset) (bslice 0 (unat sz) buf) (flat g s))"
    by (rule write_pieces [OF dv keeps_refl range_cover [OF r]])
      (use r calm length_flat [OF ci(1)] in \<open>auto simp: in_range_def req_calm_def bslice_def\<close>)
  then show ?thesis
    unfolding do_req_pieces [OF r ci(2)] by (rule runs_bind) (auto simp: bslice_def)
qed

lemma blits_append: "blits (ws @ vs) b = blits ws (blits vs b)"
  by (induction ws) auto

section \<open>The interface of a store of bytes\<close>

text \<open>
  What the users of a device (fuse_io.c) rely on: a read returns the bytes of the range, a write that
  returns has replaced exactly the bytes of the range. \<open>admit\<close> is the condition on the write.
\<close>

locale byte_store =
  fixes ok :: "'s \<Rightarrow> bool"
    and contents :: "'s \<Rightarrow> bytes"
    and fits_in :: "'s \<Rightarrow> nat \<Rightarrow> nat \<Rightarrow> bool"
    and rd :: "'s \<Rightarrow> nat \<Rightarrow> nat \<Rightarrow> bytes res"
    and wr :: "'s \<Rightarrow> nat \<Rightarrow> bytes \<Rightarrow> 's res"
    and admit :: "'s \<Rightarrow> nat \<Rightarrow> bytes \<Rightarrow> bool"
  assumes fits_inside: "ok s \<Longrightarrow> fits_in s off n \<Longrightarrow> off + n \<le> length (contents s)"
    and rd_law: "ok s \<Longrightarrow> fits_in s off n \<Longrightarrow> rd s off n = Inr (bslice off n (contents s))"
    and wr_law: "ok s \<Longrightarrow> fits_in s off (length d) \<Longrightarrow> admit s off d \<Longrightarrow> wr s off d = Inr s' \<Longrightarrow>
      ok s' \<and> contents s' = blit off d (contents s) \<and> (\<forall>a n. fits_in s' a n \<longleftrightarrow> fits_in s a n)"
begin

fun wr_all :: "(nat \<times> bytes) list \<Rightarrow> 's \<Rightarrow> 's res" where
  "wr_all [] s = Inr s"
| "wr_all ((off, d) # ws) s = rbind (wr s off d) (wr_all ws)"

fun admit_all :: "(nat \<times> bytes) list \<Rightarrow> 's \<Rightarrow> bool" where
  "admit_all [] s = True"
| "admit_all ((off, d) # ws) s \<longleftrightarrow> fits_in s off (length d) \<and> admit s off d \<and>
     (case wr s off d of Inl e \<Rightarrow> True | Inr s' \<Rightarrow> admit_all ws s')"

lemma wr_all_contents:
  "ok s \<Longrightarrow> admit_all ws s \<Longrightarrow> wr_all ws s = Inr s' \<Longrightarrow>
    ok s' \<and> contents s' = blits (rev ws) (contents s) \<and> (\<forall>a n. fits_in s' a n \<longleftrightarrow> fits_in s a n)"
proof (induction ws arbitrary: s)
  case (Cons w ws)
  obtain off d where w: "w = (off, d)" by (cases w)
  obtain s1 where s1: "wr s off d = Inr s1" "wr_all ws s1 = Inr s'" using Cons.prems(3) w by (auto simp: res_simps)
  show ?case
    using wr_law [OF Cons.prems(1), of off d s1] Cons.IH [of s1] Cons.prems(2) s1 w by (auto simp: blits_append)
qed simp

lemma read_back:
  assumes "ok s" "admit_all ws s" "wr_all ws s = Inr s'" "fits_in s off n"
  shows "rd s' off n = Inr (bslice off n (blits (rev ws) (contents s)))"
  using wr_all_contents [OF assms(1-3)] rd_law [of s' off n] assms(4) by simp

end

text \<open>The device provides this interface; the requests are the ones that fuse_io.c makes.\<close>

definition dev_read :: "gcrypt \<Rightarrow> sdev \<Rightarrow> nat \<Rightarrow> nat \<Rightarrow> bytes res" where
  "dev_read g s off n = rbind (do_req g SCUBED3_READ (of_nat off) (of_nat n) (s, replicate n 0)) (\<lambda>(ret, s, buf). Inr buf)"

definition dev_write :: "gcrypt \<Rightarrow> sdev \<Rightarrow> nat \<Rightarrow> bytes \<Rightarrow> sdev res" where
  "dev_write g s off d = rbind (do_req g SCUBED3_WRITE (of_nat off) (of_nat (length d)) (s, d)) (\<lambda>(ret, s, buf). Inr s)"

definition dev_fits :: "sdev \<Rightarrow> nat \<Rightarrow> nat \<Rightarrow> bool" where
  "dev_fits s off n \<longleftrightarrow> 0 < n \<and> n < 2 ^ 32 \<and> off + n \<le> size_of s * 2 ^ mesoblk_log (sd_b s)"

definition dev_calm :: "gcrypt \<Rightarrow> sdev \<Rightarrow> nat \<Rightarrow> bytes \<Rightarrow> bool" where
  "dev_calm g s off d = req_calm g (of_nat off) (of_nat (length d)) (s, d)"

lemma dev_fits_words:
  assumes "device_ok g s" "dev_fits s off (length buf)"
  shows "unat (of_nat off :: u64) = off" "unat (of_nat (length buf) :: u64) = length buf"
    "in_range s (of_nat off) (of_nat (length buf)) buf"
proof -
  have "mesoblk_log (sd_b s) \<le> 29" using assms(1) by (simp add: device_ok_def sdev_inv_def core_inv_def base_inv_def geometry_def)
  then have "(2 :: nat) ^ mesoblk_log (sd_b s) \<le> 2 ^ 29" by (intro power_increasing) simp_all
  then have "size_of s * 2 ^ mesoblk_log (sd_b s) \<le> 2 ^ 32 * 2 ^ 29"
    using unat_less_exp [of "no_block_indices (sd_l s)"] by (intro mult_le_mono) simp_all
  then have b: "off + length buf < 2 ^ 64" "length buf < 2 ^ 32" using assms(2) by (simp_all add: dev_fits_def)
  then show u: "unat (of_nat off :: u64) = off" "unat (of_nat (length buf) :: u64) = length buf"
    by (simp_all add: unat_of_nat_small)
  show "in_range s (of_nat off) (of_nat (length buf)) buf"
    using assms(2) u b(2) by (simp add: in_range_def dev_fits_def word_less_nat_alt)
qed

lemma dev_write_runs:
  assumes "device_ok g s" "dev_fits s off (length d)" "dev_calm g s off d"
  shows "runs (dev_write g s off d) (\<lambda>s'. device_ok g s' \<and> keeps g s s' \<and> flat g s' = blit off d (flat g s))"
proof -
  note w = dev_fits_words [OF assms(1,2)]
  show ?thesis
    unfolding dev_write_def
    by (rule runs_bind [OF write_request [OF assms(1) w(3) assms(3) [unfolded dev_calm_def]]]) (auto simp: w)
qed

interpretation device_store: byte_store "device_ok g" "flat g" dev_fits "dev_read g" "dev_write g" "dev_calm g" for g
proof
  fix s off n and d :: bytes and s'
  show "device_ok g s \<Longrightarrow> dev_fits s off n \<Longrightarrow> off + n \<le> length (flat g s)"
    by (simp add: dev_fits_def device_ok_def sdev_inv_def length_flat)
  show "dev_read g s off n = Inr (bslice off n (flat g s))" if s: "device_ok g s" "dev_fits s off n"
  proof -
    have "length (flat g s) = size_of s * 2 ^ mesoblk_log (sd_b s)" using s(1) by (simp add: device_ok_def sdev_inv_def length_flat)
    then have "length (bslice off n (flat g s)) = n" using s(2) by (auto simp: dev_fits_def min_def)
    then show ?thesis
      using dev_fits_words [OF s(1), of off "replicate n 0"] s read_request [OF s(1), of "of_nat off" "of_nat n" "replicate n 0"]
      by (simp add: dev_read_def blit_def)
  qed
  show "device_ok g s' \<and> flat g s' = blit off d (flat g s) \<and> (\<forall>a n. dev_fits s' a n \<longleftrightarrow> dev_fits s a n)"
    if "device_ok g s" "dev_fits s off (length d)" "dev_calm g s off d" "dev_write g s off d = Inr s'"
    using dev_write_runs [OF that(1-3)] that(4) by (simp add: dev_fits_def keeps_def frame_def same_layout_def)
qed

section \<open>A small device\<close>

text \<open>
  Two macroblocks of one mesoblock each; the first one is in memory and holds mesoblock 0. It comes
  back at sequence number \<open>ns\<close>.
\<close>

definition demo_status :: bitmap where
  "demo_status = (case rbind (bitmap_setbit (bitmap_init 1984) 0) (\<lambda>b. bitmap_setbit b 1) of Inl e \<Rightarrow> bitmap_init 0 | Inr b \<Rightarrow> b)"

definition demo_sdev :: "u64 \<Rightarrow> sdev" where
  "demo_sdev ns =
     \<lparr>sd_b = demo_b\<lparr>unallocated := [], infos := (\<lambda>_. zero_info)(
        0 := zero_info\<lparr>bi_seqno := 1, bi_next_seqno := ns, no_indices := 1, indices := [0], bi_dev := Some 0\<rparr>,
        1 := zero_info\<lparr>indices := [0], bi_dev := Some 0\<rparr>)\<rparr>,
      sd_dev = demo_dev\<lparr>status := demo_status, no_macroblocks := 2, reserved_macroblocks := 1,
        tail_macroblock := (if ns = 2 then Some 0 else None),
        d_j := \<lparr>scheduled = [0], unscheduled = [1], no_scheduled = 1, no_unscheduled = 1, j_seqno = 1, j_r = [0, 0, 0]\<rparr>\<rparr>,
      sd_l = \<lparr>output_initialized = True, mesobits = 1, mesomask = 1, no_block_indices = 1, block_indices = [0]\<rparr>, sd_errorcheck = True\<rparr>"

lemma demo_status_ok: "bitmap_inv demo_status" "no_bits demo_status = 1984" "bitmap_abs demo_status = {0, 1}"
proof -
  have i: "bitmap_inv (bitmap_init 1984)" "bitmap_abs (bitmap_init 1984) = {}" "no_bits (bitmap_init 1984) = 1984"
    using bitmap_init_inv [of 1984] by (simp_all add: bitmap_init_def)
  obtain b1 where b1: "bitmap_setbit (bitmap_init 1984) 0 = Inr b1" "bitmap_inv b1" "no_bits b1 = 1984" "bitmap_abs b1 = {0}"
    using bitmap_setbit_ok [OF i(1), of 0] i by (auto simp: word_less_nat_alt)
  obtain b2 where b2: "bitmap_setbit b1 1 = Inr b2" "bitmap_inv b2" "no_bits b2 = 1984" "bitmap_abs b2 = {0, 1}"
    using bitmap_setbit_ok [OF b1(2), of 1] b1 by (auto simp: word_less_nat_alt)
  with b1 show "bitmap_inv demo_status" "no_bits demo_status = 1984" "bitmap_abs demo_status = {0, 1}"
    by (simp_all add: demo_status_def)
qed

lemma demo_live: "live (demo_sdev ns) i k \<longleftrightarrow> i = 0 \<and> k = 0"
proof -
  have "place (sd_l (demo_sdev ns)) 0 0 = 0" by (simp add: demo_sdev_def place_def)
  then show ?thesis by (auto simp: live_def demo_sdev_def demo_b_def info_of_def zero_info_def)
qed

lemma demo_device_ok:
  assumes "ns = 2 \<or> ns = 3 \<or> ns = 9" shows "device_ok demo_gcrypt (demo_sdev ns)"
proof -
  let ?s = "demo_sdev ns"
  have "geometry (sd_b ?s)" "dev_ok (sd_b ?s) (sd_dev ?s)" "cipher_ok demo_gcrypt (d_c (sd_dev ?s))"
    using demo_geometry demo_dev_ok demo_status_ok
    by (simp_all add: demo_sdev_def dev_ok_def) (simp_all add: demo_dev_def demo_b_def fresh_dev_def)
  moreover have "juggler_inv (infos (sd_b ?s)) (d_j (sd_dev ?s))" "juggler_ready (infos (sd_b ?s)) (d_j (sd_dev ?s))"
    using assms by (auto simp: juggler_inv_def juggler_ready_def sched_ordered_def demo_sdev_def zero_info_def)
  ultimately have "base_inv demo_gcrypt ?s"
    by (simp add: base_inv_def) (simp add: demo_sdev_def demo_b_def bits_ok_def mask_eq_exp_minus_1)
  moreover have "block_inv ?s 0" "block_inv ?s 1"
    using demo_status_ok demo_live [of ns]
    by (simp_all add: block_inv_def) (simp_all add: demo_sdev_def demo_b_def demo_dev_def zero_info_def info_of_def info_ok_def)
  moreover have "table_inv ?s"
    using demo_live [of ns]
    by (simp add: table_inv_def) (simp add: demo_sdev_def demo_b_def info_of_def)
  moreover have "tail_inv ?s"
    using assms by (auto simp: tail_inv_def demo_sdev_def demo_dev_def juggler_get_obsoleted_def)
  moreover have "blocks ?s = {0, 1}" "d_bi (sd_dev ?s) \<noteq> None" by (simp_all add: demo_sdev_def demo_dev_def)
  ultimately show ?thesis by (simp add: device_ok_def sdev_inv_def core_inv_def)
qed

section \<open>A block that is handed out twice in a row\<close>

lemma reselected_state:
  assumes dv: "device_ok g s" and c: "d_bi (sd_dev s) = Some c" "tail_macroblock (sd_dev s) = Some c"
    and run: "lift_b (blockio_dev_write_current_and_select_next_macroblock g) s = Inr s'"
  shows "\<exists>img. image_of g (sd_b s) (sd_dev s) c img \<and> write_ok g (sd_b s, sd_dev s) c \<and> sd_l s' = sd_l s \<and>
    d_bi (sd_dev s') = Some c \<and> tmp_macroblock (sd_dev s') = img \<and> mmpm (sd_b s') = mmpm (sd_b s) \<and>
    mesoblk_log (sd_b s') = mesoblk_log (sd_b s)"
proof -
  let ?b = "sd_b s" and ?dev = "sd_dev s"
  have tl: "juggler_get_obsoleted (infos ?b) (d_j ?dev) = Some c" "base_inv g s" "block_inv s c"
    using dv c by (auto simp: device_ok_def sdev_inv_def core_inv_def tail_inv_def)
  note ok = write_ok_current [OF tl(2,3) c(1)]
  obtain img where img: "image_of g ?b ?dev c img" and wr: "blockio_dev_write_current_macroblock g (?b, ?dev) =
      Inr ((set_info ?b c ((infos ?b c)\<lparr>no_nonobsolete := no_indices (infos ?b c)\<rparr>))\<lparr>disk := blit (c * 2 ^ macroblock_log ?b) img (disk ?b)\<rparr>,
      ?dev\<lparr>tmp_macroblock := img, writes := writes ?dev + 1, d_bi := None\<rparr>)"
    using write_current_image [OF ok] by auto
  define bis where "bis = (infos ?b)(c := (infos ?b c)\<lparr>no_nonobsolete := no_indices (infos ?b c)\<rparr>)"
  have "juggler_get_obsoleted bis (d_j ?dev) = Some c"
    using tl(1) juggler_cong(2) [of "d_j ?dev" bis "infos ?b"] by (simp add: bis_def)
  then have sel: "juggler_select bis (d_j ?dev) = Inr (j1, n) \<Longrightarrow> n = c" for j1 n by (auto simp: juggler_select_def)
  obtain bis' j' where "juggler_get_devblock bis (d_j ?dev) False = Inr (bis', j', Some c)" and
    s': "s' = s\<lparr>sd_b := ?b\<lparr>infos := bis', disk := blit (c * 2 ^ macroblock_log ?b) img (disk ?b)\<rparr>,
      sd_dev := ?dev\<lparr>tmp_macroblock := img, writes := writes ?dev + 1, updated := False, d_j := j', d_bi := Some c,
        tail_macroblock := juggler_get_obsoleted bis' j'\<rparr>\<rparr>"
    using run wr sel
    by (auto simp: lift_b_def blockio_dev_write_current_and_select_next_macroblock_def set_info_def res_simps
        blockio_dev_select_next_macroblock_def bis_def [symmetric] juggler_get_devblock_def Let_def)
  with img ok show ?thesis by auto
qed

lemma reselected_read:
  assumes dv: "device_ok g s" and c: "d_bi (sd_dev s) = Some c" "tail_macroblock (sd_dev s) = Some c"
    and run: "lift_b (blockio_dev_write_current_and_select_next_macroblock g) s = Inr s'"
    and m: "m < size_of s" "ID (sd_l s) (block_indices (sd_l s) ! m) = c"
  shows "do_read g s' m 0 (2 ^ mesoblk_log (sd_b s)) = Inr (wide_enc g (d_c (sd_dev s)) (bi_seqno (info_of s c))
    (of_nat (Suc (NO (sd_l s) (block_indices (sd_l s) ! m)))) (of_nat c) (content g s m))"
proof -
  let ?x = "block_indices (sd_l s) ! m" let ?k = "NO (sd_l s) ?x"
  obtain img where r: "image_of g (sd_b s) (sd_dev s) c img" "write_ok g (sd_b s, sd_dev s) c" "sd_l s' = sd_l s"
    "d_bi (sd_dev s') = Some c" "tmp_macroblock (sd_dev s') = img" "mmpm (sd_b s') = mmpm (sd_b s)"
    "mesoblk_log (sd_b s') = mesoblk_log (sd_b s)"
    using reselected_state [OF dv c run] by auto
  have ci: "core_inv g s" "base_inv g s" "block_inv s c"
    using dv c by (auto simp: device_ok_def sdev_inv_def core_inv_def tail_inv_def)
  then have nn: "?x \<noteq> NOWHERE" using nowhere_not_block [of g s c] m(2) by (auto simp: block_inv_def)
  note el = entry_live [OF ci(1) m(1) nn]
  have "do_read g s' m 0 (2 ^ mesoblk_log (sd_b s)) = Inr (meso_at (2 ^ mesoblk_log (sd_b s)) (Suc ?k) img)"
    using r m(2) el(4) by (simp add: do_read_def cur_def mesoblk_def)
  moreover have "data_meso (sd_b s) (sd_dev s) c ?k = content g s m"
    using el(2) nn m(2) c(1) by (simp add: data_meso_def content_def slot_def live_def info_of_def)
  ultimately show ?thesis using image_meso [OF r(2,1) el(4)] by (simp add: info_of_def)
qed

section \<open>Growing\<close>

definition grown :: "u32 \<Rightarrow> sdev \<Rightarrow> sdev" where
  "grown new s = s\<lparr>sd_l := (sd_l s)\<lparr>no_block_indices := new,
     block_indices := block_indices (sd_l s) @ replicate (unat new - size_of s) NOWHERE\<rparr>\<rparr>"

lemma grown_fields [simp]:
  "sd_b (grown new s) = sd_b s" "sd_dev (grown new s) = sd_dev s" "info_of (grown new s) = info_of s"
  "no_block_indices (sd_l (grown new s)) = new" "mesobits (sd_l (grown new s)) = mesobits (sd_l s)"
  "ID (sd_l (grown new s)) = ID (sd_l s)" "NO (sd_l (grown new s)) = NO (sd_l s)" "place (sd_l (grown new s)) = place (sd_l s)"
  "bits_ok (sd_l (grown new s)) = bits_ok (sd_l s)" "output_initialized (sd_l (grown new s)) = output_initialized (sd_l s)"
  "block_indices (sd_l (grown new s)) = block_indices (sd_l s) @ replicate (unat new - size_of s) NOWHERE"
  by (auto simp: grown_def info_of_def ID_def NO_def place_def bits_ok_def fun_eq_iff)

text \<open>The new mesoblocks are free, so no slot becomes live.\<close>

lemma grown_live:
  assumes "core_inv g s" "no_block_indices (sd_l s) < new" "i \<in> blocks s"
  shows "live (grown new s) i k = live s i k"
proof -
  have b: "base_inv g s" "block_inv s i" using assms(1,3) by (auto simp: core_inv_def)
  have len: "length (block_indices (sd_l s)) = size_of s" using b(1) by (simp add: base_inv_def)
  have lt: "size_of s < unat new" using assms(2) by (simp add: word_less_nat_alt)
  have "place (sd_l s) i k \<noteq> NOWHERE" if "k < used_of s i"
    using base_place(3) [OF b(1), of i k] block_slot [OF b(2) that] b(2) by (simp add: block_inv_def)
  then show ?thesis using len lt by (auto simp: live_def nth_append)
qed

lemma grown_inv:
  assumes "sdev_inv g s" "no_block_indices (sd_l s) < new" shows "sdev_inv g (grown new s)"
proof -
  have ci: "core_inv g s" "tail_inv s" using assms(1) by (simp_all add: sdev_inv_def)
  have lt: "size_of s < unat new" using assms(2) by (simp add: word_less_nat_alt)
  note lv = grown_live [OF ci(1) assms(2)]
  have len: "length (block_indices (sd_l s)) = size_of s" using ci(1) by (simp add: core_inv_def base_inv_def)
  have "base_inv g (grown new s)" using ci(1) lt by (simp add: core_inv_def base_inv_def)
  moreover have "block_inv (grown new s) i" if "i \<in> blocks s" for i
    using ci(1) that lv [OF that] by (simp add: core_inv_def block_inv_def cong: if_cong)
  moreover have "table_inv (grown new s)"
    unfolding table_inv_def
  proof (intro allI impI)
    fix m assume m: "m < size_of (grown new s)"
    show "block_indices (sd_l (grown new s)) ! m = NOWHERE \<or>
        (\<exists>i\<in>blocks (grown new s). \<exists>k. live (grown new s) i k \<and> entry (grown new s) i k = m)"
    proof (cases "m < size_of s \<and> block_indices (sd_l s) ! m \<noteq> NOWHERE")
      case True
      then show ?thesis using entry_live(1-3) [OF ci(1), of m] lv by auto
    qed (use m len in \<open>auto simp: nth_append\<close>)
  qed
  ultimately show ?thesis using ci by (simp add: sdev_inv_def core_inv_def tail_inv_def)
qed

lemma grown_flat:
  assumes ci: "core_inv g s" and n: "no_block_indices (sd_l s) < new"
  shows "flat g (grown new s) = flat g s @ replicate ((unat new - size_of s) * 2 ^ mesoblk_log (sd_b s)) 0"
proof -
  let ?sz = "2 ^ mesoblk_log (sd_b s) :: nat"
  have len: "length (block_indices (sd_l s)) = size_of s" using ci by (simp add: core_inv_def base_inv_def)
  have lt: "size_of s < unat new" using n by (simp add: word_less_nat_alt)
  have slot: "slot g (grown new s) = slot g s" by (simp add: slot_def disk_meso_def fun_eq_iff)
  have zeros: "concat (map (\<lambda>_. replicate ?sz (0 :: u8)) [a..<b]) = replicate ((b - a) * ?sz) 0" for a b
    by (induction b) (auto simp: Suc_diff_le replicate_add [symmetric] add.commute)
  have "[0..<unat new] = [0..<size_of s] @ [size_of s..<unat new]"
    using lt upt_add_eq_append [of 0 "size_of s" "unat new - size_of s"] by simp
  moreover have "map (content g (grown new s)) [0..<size_of s] = map (content g s) [0..<size_of s]"
    using len slot by (simp add: content_def Let_def nth_append)
  moreover have "map (content g (grown new s)) [size_of s..<unat new] = map (\<lambda>_. replicate ?sz 0) [size_of s..<unat new]"
    using len by (auto simp: content_def Let_def nth_append)
  ultimately show ?thesis unfolding flat_def grown_fields by (simp only: map_append concat_append zeros)
qed

lemma reinit_grown:
  "no_block_indices (sd_l s) < calc_no_block_indices (sd_b s) (sd_dev s) \<Longrightarrow>
    scubed3_reinit s = Inr (grown (calc_no_block_indices (sd_b s) (sd_dev s)) s)"
  by (auto simp: scubed3_reinit_def grown_def Let_def fatal_if_def dest: less_not_sym)

section \<open>Properties\<close>

lemma demo_range: "in_range (demo_sdev ns) 3 4 [1, 2, 3, 4]"
  by (simp add: in_range_def demo_sdev_def demo_b_def)

lemma demo_write_calm: "write_calm g (demo_sdev ns) 0"
  by (simp add: write_calm_def initialize_output_def demo_sdev_def demo_dev_def ID_def)

lemma demo_pieces: "pieces 9 3 4 = [(0, 3, 4, 0)]"
  by (simp add: pieces_def whole_pieces.simps)

lemma demo_calm: "req_calm g 3 4 (demo_sdev ns, [1, 2, 3, 4])"
proof -
  have "mesoblk_log (sd_b (demo_sdev ns)) = 9" by (simp add: demo_sdev_def demo_b_def)
  then show ?thesis using demo_write_calm [of g ns] by (simp add: req_calm_def demo_pieces split: sum.split)
qed

text \<open>The state after this write: the mesoblock is in memory and is changed there.\<close>

definition demo_after :: "u64 \<Rightarrow> sdev" where
  "demo_after ns = put_tmp (set_updated True (demo_sdev ns)) 515 [1, 2, 3, 4]"

lemma demo_do_write: "do_write g (demo_sdev ns) 0 3 [1, 2, 3, 4] = Inr (demo_after ns)"
proof -
  have "sd_l (demo_sdev ns) = \<lparr>output_initialized = True, mesobits = 1, mesomask = 1, no_block_indices = 1, block_indices = [0]\<rparr>"
    "d_bi (sd_dev (demo_sdev ns)) = Some 0" "mmpm (sd_b (demo_sdev ns)) = 1" "mesoblk_log (sd_b (demo_sdev ns)) = 9"
    by (simp_all add: demo_sdev_def demo_dev_def demo_b_def)
  then show ?thesis
    by (simp add: do_write_def initialize_output_def cur_def ID_def NO_def mesoblk_def demo_after_def Let_def)
qed

lemma demo_do_req: "do_req g SCUBED3_WRITE 3 4 (demo_sdev ns, [1, 2, 3, 4]) = Inr (1, demo_after ns, [1, 2, 3, 4])"
proof -
  have "geometry (sd_b (demo_sdev ns))" "mesoblk_log (sd_b (demo_sdev ns)) = 9"
    using demo_geometry by (simp_all add: demo_sdev_def) (simp add: demo_b_def)
  then show ?thesis
    using do_req_pieces [OF demo_range, of ns g SCUBED3_WRITE] demo_do_write [of g ns]
    by (simp add: demo_pieces do_piece_def do_action_def bslice_def)
qed

lemma demo_dev_write: "dev_write g (demo_sdev ns) 3 [1, 2, 3, 4] = Inr (demo_after ns)"
  using demo_do_req [of g ns] by (simp add: dev_write_def)

lemma demo_dev_calm: "dev_calm g (demo_sdev ns) 3 [1, 2, 3, 4]"
  using demo_calm [of g ns] by (simp add: dev_calm_def)

lemma demo_dev_fits: "0 < n \<Longrightarrow> off + n \<le> 512 \<Longrightarrow> dev_fits (demo_sdev ns) off n"
  by (simp add: dev_fits_def demo_sdev_def demo_b_def)

text \<open>
  C1: a write request inside the device replaces exactly its range of the array of bytes that the
  device stands for, whatever garbage collection and output happens on the way, and keeps the
  invariant; it cannot fail except for lack of random numbers. The condition \<open>req_calm\<close> concerns
  requests that find the current macroblock full: no macroblock that is written out during the request is handed out again in the
  very next step, and the mutexes are not of the error checking kind (with those the process ends at that point, which has its
  own theorem below).
\<close>

theorem device_write_refines:
  assumes "device_ok g s" "in_range s r_offset sz buf" "req_calm g r_offset sz (s, buf)"
  shows "case do_req g SCUBED3_WRITE r_offset sz (s, buf) of
      Inl e \<Rightarrow> e = out_of_random
    | Inr (ret, s', buf') \<Rightarrow> ret = 1 \<and> buf' = buf \<and> device_ok g s' \<and>
        flat g s' = blit (unat r_offset) (take (unat sz) buf) (flat g s)"
  using write_request [OF assms] by (auto simp: runs_def split: sum.splits)

theorem device_write_refines_witness:
  "case do_req demo_gcrypt SCUBED3_WRITE 3 4 (demo_sdev 3, [1, 2, 3, 4]) of
      Inl e \<Rightarrow> e = out_of_random
    | Inr (ret, s', buf') \<Rightarrow> ret = 1 \<and> buf' = [1, 2, 3, 4] \<and> device_ok demo_gcrypt s' \<and>
        flat demo_gcrypt s' = blit 3 [1, 2, 3, 4] (flat demo_gcrypt (demo_sdev 3))"
  using device_write_refines [OF demo_device_ok demo_range demo_calm, of 3] by (auto split: sum.splits)

text \<open>
  C2: a read request inside the device returns exactly its range of the array, leaves the state as
  it is and always returns.
\<close>

theorem device_read_refines:
  assumes "device_ok g s" "in_range s r_offset sz buf"
  shows "do_req g SCUBED3_READ r_offset sz (s, buf) = Inr (1, s, blit 0 (bslice (unat r_offset) (unat sz) (flat g s)) buf)"
  by (rule read_request [OF assms])

theorem device_read_refines_witness:
  "do_req demo_gcrypt SCUBED3_READ 3 4 (demo_sdev 3, [1, 2, 3, 4]) =
    Inr (1, demo_sdev 3, blit 0 (bslice 3 4 (flat demo_gcrypt (demo_sdev 3))) [1, 2, 3, 4])"
  using device_read_refines [OF demo_device_ok demo_range, of 3] by simp

text \<open>
  any sequence of writes followed by a read: the read returns what the writes, applied in
  order to an array of bytes, leave in its range.
\<close>

theorem device_write_sequence:
  assumes "device_ok g s" "device_store.admit_all g ws s" "device_store.wr_all g ws s = Inr s'" "dev_fits s off n"
  shows "dev_read g s' off n = Inr (bslice off n (blits (rev ws) (flat g s)))"
  by (rule device_store.read_back [OF assms])

theorem device_write_sequence_witness:
  "dev_read demo_gcrypt (demo_after 3) 1 5 = Inr (bslice 1 5 (blits (rev [(3, [1, 2, 3, 4])]) (flat demo_gcrypt (demo_sdev 3))))"
  by (rule device_write_sequence [where ws = "[(3, [1, 2, 3, 4])]"])
    (simp_all add: demo_device_ok demo_dev_write demo_dev_calm demo_dev_fits)

text \<open>
  C6: a write request of a device leaves everything that belongs to other devices and to the pool as
  it is: the descriptors of their macroblocks, their part of the disk, and the list of
  unallocated macroblocks. The request is one that the previous condition \<open>req_calm\<close> admits.
\<close>

theorem device_isolation:
  assumes "device_ok g s" "in_range s r_offset sz buf" "req_calm g r_offset sz (s, buf)"
    "do_req g SCUBED3_WRITE r_offset sz (s, buf) = Inr (ret, s', buf')"
    "i \<notin> set (scheduled (d_j (sd_dev s)) @ unscheduled (d_j (sd_dev s)))"
  shows "infos (sd_b s') i = infos (sd_b s) i \<and> unallocated (sd_b s') = unallocated (sd_b s) \<and>
    bslice (i * 2 ^ macroblock_log (sd_b s)) (2 ^ macroblock_log (sd_b s)) (disk (sd_b s')) =
    bslice (i * 2 ^ macroblock_log (sd_b s)) (2 ^ macroblock_log (sd_b s)) (disk (sd_b s))"
  using write_request [OF assms(1-3)] assms(4,5) by (simp add: keeps_def frame_def info_of_def)

theorem device_isolation_witness:
  "infos (sd_b (demo_after 3)) 5 = infos (sd_b (demo_sdev 3)) 5 \<and> unallocated (sd_b (demo_after 3)) = unallocated (sd_b (demo_sdev 3)) \<and>
    bslice (5 * 2 ^ macroblock_log (sd_b (demo_sdev 3))) (2 ^ macroblock_log (sd_b (demo_sdev 3))) (disk (sd_b (demo_after 3))) =
    bslice (5 * 2 ^ macroblock_log (sd_b (demo_sdev 3))) (2 ^ macroblock_log (sd_b (demo_sdev 3))) (disk (sd_b (demo_sdev 3)))"
proof -
  have "5 \<notin> set (scheduled (d_j (sd_dev (demo_sdev 3))) @ unscheduled (d_j (sd_dev (demo_sdev 3))))" by (simp add: demo_sdev_def)
  from device_isolation [OF demo_device_ok demo_range demo_calm demo_do_req this] show ?thesis by simp
qed

lemma select_source:
  assumes "base_inv g s" "lift_b blockio_dev_select_next_macroblock s = Inr s'" "d_bi (sd_dev s') = Some n"
  shows "juggler_get_obsoleted (infos (sd_b s)) (d_j (sd_dev s)) = Some n \<or> n \<in> set (unscheduled (d_j (sd_dev s)))"
proof -
  let ?b = "sd_b s" and ?j = "d_j (sd_dev s)"
  have j: "juggler_inv (infos ?b) ?j" using assms(1) by (simp add: base_inv_def)
  obtain bis' j' where r: "juggler_get_devblock (infos ?b) ?j False = Inr (bis', j', Some n)"
    using assms(2,3) by (auto simp: lift_b_def blockio_dev_select_next_macroblock_def res_simps split: option.splits)
  obtain j1 where "juggler_select (infos ?b) ?j = Inr (j1, n)" using juggler_get_devblock_spec [OF j r] by blast
  then show ?thesis by (auto simp: juggler_select_def juggler_draw_def res_simps split: option.splits)
qed

lemma small_steps_dev:
  "add_blockref s m = Inr s' \<Longrightarrow> sd_dev s' = sd_dev s" "obsolete_mesoblk s t = Inr s' \<Longrightarrow> sd_dev s' = sd_dev s"
  by (auto simp: add_blockref_def obsolete_mesoblk_def upd_info_def Let_def res_simps)

lemma copy_one_writes:
  assumes "copy_one g t k s = Inr s'" shows "writes (sd_dev s') = writes (sd_dev s)"
proof (cases "s' = s")
  case False
  then obtain a d m s1 where "add_blockref (put_tmp s a d) m = Inr s1" "obsolete_mesoblk s1 t = Inr s'"
    using assms unfolding copy_one_def Let_def by (auto simp only: rbind_eq_Inr sum.inject split: if_splits)
  then have "sd_dev s' = sd_dev (put_tmp s a d)" using small_steps_dev by simp
  then show ?thesis by (simp add: put_tmp_def)
qed simp

lemma initialize_output_writes:
  assumes "initialize_output g s = Inr s'" shows "writes (sd_dev s') = writes (sd_dev s)"
proof -
  have "writes (sd_dev s2) = writes (sd_dev s1)" if "rfold (copy_one g t) ks s1 = Inr s2" for t ks s1 s2
    using that by (induction ks arbitrary: s1) (auto simp: res_simps dest!: copy_one_writes)
  then have "writes (sd_dev s2) = writes (sd_dev s)" if "copy_old_block_to_current g s = Inr s2" for s2
    using that by (auto simp: copy_old_block_to_current_def res_simps split: option.splits if_splits)
  then show ?thesis using assms by (auto simp: initialize_output_def res_simps split: if_splits)
qed

text \<open>What a cycle does, step by step.\<close>

lemma cycle_steps:
  assumes dv: "device_ok g s" "calm s" and c: "d_bi (sd_dev s) = Some c" and run: "scubed3_cycle g s = Inr s'"
  shows "\<exists>s1 img n ns j. initialize_output g s = Inr s1 \<and> same_view g s s1 \<and> flushing g s1 c img \<and> n \<noteq> c \<and>
    picking g (flushed s1 c img) n ns j \<and> s' = set_started False (picked (flushed s1 c img) n ns j)"
proof -
  have si: "sdev_inv g s" "d_bi (sd_dev s) \<noteq> None" using dv by (simp_all add: device_ok_def)
  obtain s1 where s1: "initialize_output g s = Inr s1" "sdev_inv g s1" "same_view g s s1" "output_initialized (sd_l s1)"
    "d_bi (sd_dev s1) = Some c" "tail_macroblock (sd_dev s1) = tail_macroblock (sd_dev s)"
    using initialize_output_ok [OF si] c by auto
  have calm: "calm s1" using dv(2) s1(5,6) c by (simp add: calm_def)
  have cs: "core_inv g s1" "c \<in> set (scheduled (d_j (sd_dev s1)))" "base_inv g s1"
    and tail: "tail_macroblock (sd_dev s1) = juggler_get_obsoleted (infos (sd_b s1)) (d_j (sd_dev s1))"
    using s1(2,5) by (auto simp: sdev_inv_def tail_inv_def core_inv_def)
  obtain img where fl: "flushing g s1 c img" "lift_b (blockio_dev_write_current_macroblock g) s1 = Inr (flushed s1 c img)"
    using write_flushed [OF cs(1) s1(5) cs(2)] by blast
  obtain s2 where s2: "lift_b blockio_dev_select_next_macroblock (flushed s1 c img) = Inr s2" "s' = set_started False s2"
    using run s1(1) fl(2) by (auto simp: scubed3_cycle_def initialize_output_def res_simps)
  from select_picked [OF flushed_core [OF fl(1)] _ flushed_next_empty [OF s1(2,4) calm s1(5)]] s2(1)
  obtain n ns j where pk: "picking g (flushed s1 c img) n ns j" "s2 = picked (flushed s1 c img) n ns j" by auto
  have "base_inv g (flushed s1 c img)" using flushed_core [OF fl(1)] by (simp add: core_inv_def)
  from select_source [OF this s2(1), of n] pk(2)
  have "juggler_get_obsoleted (infos (sd_b s1)) (d_j (sd_dev s1)) = Some n \<or> n \<in> set (unscheduled (d_j (sd_dev s1)))" by simp
  then have "n \<noteq> c" using tail calm s1(5) cs(2) scheduled_once [OF cs(3)] by (auto simp: calm_def)
  with s1(1,3) fl(1) pk s2(2) show ?thesis by blast
qed

lemma cycle_on_disk:
  assumes "core_inv g s" "d_bi (sd_dev s) = Some n" "used_of s n = 0" "m < size_of s" "block_indices (sd_l s) ! m \<noteq> NOWHERE"
  shows "blockio_dev_read_mesoblk g (sd_b s, sd_dev s) (ID (sd_l s) (block_indices (sd_l s) ! m)) (NO (sd_l s) (block_indices (sd_l s) ! m)) =
    Inr (content g s m)"
proof -
  note el = entry_live [OF assms(1,4,5)]
  have "ID (sd_l s) (block_indices (sd_l s) ! m) \<noteq> n" using el(2) assms(3) by (auto simp: live_def)
  moreover have "base_inv g s" using assms(1) by (simp add: core_inv_def)
  ultimately show ?thesis
    using read_mesoblk_disk(1) [OF _ el(5,4)] assms(2,5) by (simp add: content_def slot_def Let_def)
qed

text \<open>
  C7: a cycle of a device whose current macroblock is not the one that is due next (\<open>calm\<close>) writes the current
  macroblock out and selects another one. It returns unless the random numbers run out. The macroblock that was current is
  then on disk in a form that a scan recognises and one more write is counted; the new current macroblock is a different
  one and holds nothing; every mesoblock of the device is read back from the disk with the bytes that the device held
  before, or was never written; and nothing of what the device holds has changed.
\<close>

theorem device_cycle_invisible:
  assumes "device_ok g s" "calm s"
  shows "case scubed3_cycle g s of
      Inl e \<Rightarrow> e = out_of_random
    | Inr s' \<Rightarrow> device_ok g s' \<and> flat g s' = flat g s \<and>
        (\<exists>c n. d_bi (sd_dev s) = Some c \<and> recognised g (d_c (sd_dev s')) (sd_b s') c \<and> writes (sd_dev s') = writes (sd_dev s) + 1 \<and>
           d_bi (sd_dev s') = Some n \<and> n \<noteq> c \<and> no_indices (infos (sd_b s') n) = 0) \<and>
        (\<forall>m < size_of s. let x = block_indices (sd_l s') ! m; old = bslice (m * 2 ^ mesoblk_log (sd_b s)) (2 ^ mesoblk_log (sd_b s)) (flat g s) in
           if x = NOWHERE then old = replicate (2 ^ mesoblk_log (sd_b s)) 0
           else blockio_dev_read_mesoblk g (sd_b s', sd_dev s') (ID (sd_l s') x) (NO (sd_l s') x) = Inr old)"
proof (cases "scubed3_cycle g s")
  case (Inl e)
  have "runs (scubed3_cycle g s) (\<lambda>_. True)"
    by (rule runs_mono [OF cycle_ok [of g s]]) (use assms in \<open>auto simp: device_ok_def\<close>)
  with Inl show ?thesis by (simp add: runs_def)
next
  case (Inr s')
  have ok: "sdev_inv g s'" "same_view g s s'" "d_bi (sd_dev s') \<noteq> None"
    using cycle_ok [of g s] assms Inr by (simp_all add: device_ok_def runs_def)
  then have ci: "core_inv g s'" and fr: "frame s s'" and same: "\<forall>m < size_of s. content g s' m = content g s m"
    by (simp_all add: sdev_inv_def same_view_def)
  have lay: "no_block_indices (sd_l s') = no_block_indices (sd_l s)" "mesoblk_log (sd_b s') = mesoblk_log (sd_b s)"
    using fr by (simp_all add: frame_def same_layout_def)
  have flat: "flat g s' = flat g s"
    using same lay by (auto simp: flat_def intro!: arg_cong [where f = concat])
  obtain c where c: "d_bi (sd_dev s) = Some c" using assms(1) by (auto simp: device_ok_def)
  obtain s1 img n ns j where st: "initialize_output g s = Inr s1" "flushing g s1 c img" "n \<noteq> c"
    "picking g (flushed s1 c img) n ns j" "s' = set_started False (picked (flushed s1 c img) n ns j)"
    using cycle_steps [OF assms c Inr] by blast
  have "info_of s' = picked_info (flushed s1 c img) n ns" by (rule ext) (simp add: st(5) info_of_def [of "_ \<lparr>sd_l := _\<rparr>"])
  then have new: "d_bi (sd_dev s') = Some n" "used_of s' n = 0" using st(4,5) by (simp_all add: picking_def)
  have "macro_at (sd_b s') c = macro_at (sd_b (flushed s1 c img)) c" "same_layout (sd_b (flushed s1 c img)) (sd_b s')"
    "d_c (sd_dev s') = d_c (sd_dev (flushed s1 c img))"
    by (simp_all add: st(5) flag_fields macro_at_def same_layout_def)
  then have rec: "recognised g (d_c (sd_dev s')) (sd_b s') c"
    using written_recognised [OF flushed_current [OF st(2)]] recognised_cong by metis
  have wr: "writes (sd_dev s') = writes (sd_dev s) + 1"
    using initialize_output_writes [OF st(1)] by (simp add: st(5) flag_fields picked_def flushed_def)
  have "let x = block_indices (sd_l s') ! m; old = bslice (m * 2 ^ mesoblk_log (sd_b s)) (2 ^ mesoblk_log (sd_b s)) (flat g s) in
      if x = NOWHERE then old = replicate (2 ^ mesoblk_log (sd_b s)) 0
      else blockio_dev_read_mesoblk g (sd_b s', sd_dev s') (ID (sd_l s') x) (NO (sd_l s') x) = Inr old" if m: "m < size_of s" for m
  proof -
    have "content g s' m = bslice (m * 2 ^ mesoblk_log (sd_b s)) (2 ^ mesoblk_log (sd_b s)) (flat g s)"
      using flat_piece(2) [OF ci, of m 0 "2 ^ mesoblk_log (sd_b s)"] m lay flat length_content [OF ci, of m] by simp
    then show ?thesis
      using cycle_on_disk [OF ci new, of m] m lay by (auto simp: Let_def content_def)
  qed
  then show ?thesis using Inr ok flat c rec wr new st(3) by (simp add: device_ok_def unat_eq_0 info_of_def)
qed

theorem device_cycle_invisible_witness:
  "case scubed3_cycle demo_gcrypt (demo_sdev 3) of Inl e \<Rightarrow> e = out_of_random
    | Inr s' \<Rightarrow> device_ok demo_gcrypt s' \<and> flat demo_gcrypt s' = flat demo_gcrypt (demo_sdev 3) \<and>
        (\<exists>n. recognised demo_gcrypt (d_c (sd_dev s')) (sd_b s') 0 \<and> d_bi (sd_dev s') = Some n \<and> n \<noteq> 0)"
proof -
  have "calm (demo_sdev 3)" "d_bi (sd_dev (demo_sdev 3)) = Some 0" by (simp_all add: calm_def demo_sdev_def demo_dev_def)
  then show ?thesis using device_cycle_invisible [OF demo_device_ok, of 3] by (auto split: sum.splits)
qed

text \<open>
  C8: garbage collection: when a macroblock was just selected, copying the live mesoblocks of the
  block that comes next always succeeds (they fit), changes nothing of what the device
  holds, and leaves that block without any mesoblock, so that it can be overwritten.
\<close>

theorem collection_empties_tail:
  assumes "core_inv g s" "d_bi (sd_dev s) = Some c" "no_indices (infos (sd_b s) c) = 0" "c \<in> set (scheduled (d_j (sd_dev s)))"
    "tail_macroblock (sd_dev s) = juggler_get_obsoleted (infos (sd_b s)) (d_j (sd_dev s))"
  shows "\<exists>s'. copy_old_block_to_current g s = Inr s' \<and> core_inv g s' \<and> flat g s' = flat g s \<and>
    (\<forall>t. tail_macroblock (sd_dev s) = Some t \<longrightarrow> t = c \<or> no_indices (infos (sd_b s') t) = 0)"
proof -
  obtain s' where "copy_old_block_to_current g s = Inr s'" "core_inv g s'" "same_view g s s'"
    "\<forall>t. tail_macroblock (sd_dev s) = Some t \<and> t \<noteq> c \<longrightarrow> used_of s' t = 0"
    using collect [OF assms(1,2) _ assms(4,5)] assms(3) by (auto simp: info_of_def)
  then show ?thesis
    by (intro exI [of _ s']) (auto simp: flat_def same_view_def frame_def info_of_def unat_eq_zero intro!: arg_cong [where f = concat])
qed

text \<open>
  The same device one step later: the first macroblock is on disk with a live mesoblock and comes
  next, the second one has just been selected.
\<close>

definition demo_collect :: sdev where
  "demo_collect = (demo_sdev 3)\<lparr>
     sd_b := (sd_b (demo_sdev 3))\<lparr>infos := (\<lambda>_. zero_info)(
       0 := zero_info\<lparr>bi_seqno := 1, bi_next_seqno := 3, no_indices := 1, no_nonobsolete := 1, indices := [0], bi_dev := Some 0\<rparr>,
       1 := zero_info\<lparr>bi_seqno := 2, bi_next_seqno := 4, indices := [0], bi_dev := Some 0\<rparr>)\<rparr>,
     sd_dev := (sd_dev (demo_sdev 3))\<lparr>d_bi := Some 1, tail_macroblock := Some 0,
       d_j := \<lparr>scheduled = [0, 1], unscheduled = [], no_scheduled = 2, no_unscheduled = 0, j_seqno = 2, j_r = [0]\<rparr>\<rparr>\<rparr>"

lemma demo_collect_live: "live demo_collect i k \<longleftrightarrow> i = 0 \<and> k = 0"
proof -
  have "place (sd_l demo_collect) 0 0 = 0" by (simp add: demo_collect_def demo_sdev_def place_def)
  then show ?thesis by (auto simp: live_def demo_collect_def demo_sdev_def demo_b_def info_of_def zero_info_def)
qed

lemma demo_collect_core: "core_inv demo_gcrypt demo_collect"
proof -
  let ?s = demo_collect
  have "base_inv demo_gcrypt (demo_sdev 3)" using demo_device_ok [of 3] by (simp add: device_ok_def sdev_inv_def core_inv_def)
  moreover have "juggler_inv (infos (sd_b ?s)) (d_j (sd_dev ?s))" "juggler_ready (infos (sd_b ?s)) (d_j (sd_dev ?s))"
    by (auto simp: juggler_inv_def juggler_ready_def juggler_get_obsoleted_def sched_ordered_def demo_collect_def zero_info_def)
  ultimately have "base_inv demo_gcrypt ?s" by (simp add: base_inv_def) (simp add: demo_collect_def)
  moreover have "block_inv ?s 0" "block_inv ?s 1"
    using demo_status_ok demo_collect_live
    by (simp_all add: block_inv_def)
      (simp_all add: demo_collect_def demo_sdev_def demo_b_def demo_dev_def zero_info_def info_of_def info_ok_def)
  moreover have "table_inv ?s"
    using demo_collect_live by (simp add: table_inv_def) (simp add: demo_collect_def demo_sdev_def demo_b_def info_of_def)
  moreover have "blocks ?s = {0, 1}" by (simp add: demo_collect_def)
  ultimately show ?thesis by (simp add: core_inv_def)
qed

theorem collection_empties_tail_witness:
  "\<exists>s'. copy_old_block_to_current demo_gcrypt demo_collect = Inr s' \<and> core_inv demo_gcrypt s' \<and>
    flat demo_gcrypt s' = flat demo_gcrypt demo_collect \<and>
    (\<forall>t. tail_macroblock (sd_dev demo_collect) = Some t \<longrightarrow> t = 1 \<or> no_indices (infos (sd_b s') t) = 0)"
  by (rule collection_empties_tail [OF demo_collect_core])
    (simp_all add: demo_collect_def zero_info_def juggler_get_obsoleted_def)

lemma output_succeeds:
  assumes "device_ok g s" "2 \<le> count_list (j_r (d_j (sd_dev s))) 0"
  shows "\<exists>s'. lift_b (blockio_dev_write_current_and_select_next_macroblock g) s = Inr s'"
proof -
  let ?b = "sd_b s" and ?dev = "sd_dev s"
  obtain c where c: "d_bi ?dev = Some c" "base_inv g s" "block_inv s c"
    using assms(1) by (auto simp: device_ok_def sdev_inv_def core_inv_def tail_inv_def)
  define bis where "bis = (infos ?b)(c := (infos ?b c)\<lparr>no_nonobsolete := no_indices (infos ?b c)\<rparr>)"
  have j: "juggler_inv bis (d_j ?dev)" "juggler_ready bis (d_j ?dev)"
    using c(2) juggler_cong [of "d_j ?dev" bis "infos ?b"] by (simp_all add: base_inv_def bis_def)
  obtain bis' j' ob where r: "juggler_get_devblock bis (d_j ?dev) False = Inr (bis', j', ob)"
    using juggler_get_devblock_total [OF j] assms(2) by (metis prod_cases3)
  moreover obtain n where "ob = Some n" using juggler_get_devblock_spec [OF j(1) r] by blast
  ultimately show ?thesis
    using write_current_image [OF write_ok_current [OF c(2,3,1)]]
    by (auto simp: lift_b_def blockio_dev_write_current_and_select_next_macroblock_def set_info_def bis_def
        blockio_dev_select_next_macroblock_def)
qed

text \<open>
  C31: when the juggler hands out the current macroblock again in the next step, the device does
  not do a dummy write as the README says: after the output every mesoblock of that macroblock
  reads as its encryption.
\<close>

theorem reselected_block_reads_ciphertext:
  assumes "device_ok g s" "d_bi (sd_dev s) = Some c" "tail_macroblock (sd_dev s) = Some c"
    "lift_b (blockio_dev_write_current_and_select_next_macroblock g) s = Inr s'"
    "m < unat (no_block_indices (sd_l s))" "ID (sd_l s) (block_indices (sd_l s) ! m) = c"
  shows "do_read g s' m 0 (2 ^ mesoblk_log (sd_b s)) = Inr (wide_enc g (d_c (sd_dev s)) (bi_seqno (infos (sd_b s) c))
    (of_nat (Suc (NO (sd_l s) (block_indices (sd_l s) ! m)))) (of_nat c) (content g s m))"
  using reselected_read [OF assms] by (simp add: info_of_def)

theorem reselected_block_reads_ciphertext_witness:
  "\<exists>s'. lift_b (blockio_dev_write_current_and_select_next_macroblock demo_gcrypt) (demo_sdev 2) = Inr s' \<and>
    do_read demo_gcrypt s' 0 0 512 = Inr (wide_enc demo_gcrypt demo_wide 1 1 0 (content demo_gcrypt (demo_sdev 2) 0))"
proof -
  have f: "d_bi (sd_dev (demo_sdev 2)) = Some 0" "tail_macroblock (sd_dev (demo_sdev 2)) = Some 0"
    "0 < unat (no_block_indices (sd_l (demo_sdev 2)))" "ID (sd_l (demo_sdev 2)) (block_indices (sd_l (demo_sdev 2)) ! 0) = 0"
    "NO (sd_l (demo_sdev 2)) (block_indices (sd_l (demo_sdev 2)) ! 0) = 0" "mesoblk_log (sd_b (demo_sdev 2)) = 9"
    "d_c (sd_dev (demo_sdev 2)) = demo_wide" "bi_seqno (infos (sd_b (demo_sdev 2)) 0) = 1"
    by (simp_all add: demo_sdev_def demo_dev_def demo_b_def fresh_dev_def ID_def NO_def zero_info_def)
  have ok: "device_ok demo_gcrypt (demo_sdev 2)" by (rule demo_device_ok) simp
  have "2 \<le> count_list (j_r (d_j (sd_dev (demo_sdev 2)))) 0" by (simp add: demo_sdev_def)
  from output_succeeds [OF ok this] obtain s'
    where s': "lift_b (blockio_dev_write_current_and_select_next_macroblock demo_gcrypt) (demo_sdev 2) = Inr s'" ..
  from reselected_block_reads_ciphertext [OF ok f(1,2) s' f(3,4)] s' show ?thesis by (simp add: f)
qed

text \<open>
  an access that reaches past the end of the device changes nothing and fills no buffer, but its
  result is the one of success.
\<close>

theorem access_past_end_reports_success:
  assumes "geometry (sd_b s)" "0 < sz" "unat r_offset + unat sz < 2 ^ 64"
    "unat (no_block_indices (sd_l s)) * 2 ^ mesoblk_log (sd_b s) < unat r_offset + unat sz"
  shows "do_req g cmd r_offset sz (s, buf) = Inr (1, s, buf)"
proof -
  have "r_offset + sz - 1 = of_nat (unat r_offset + unat sz - 1)" using assms(2) by (simp add: of_nat_diff word_less_nat_alt)
  then have u: "unat (r_offset + sz - 1) = unat r_offset + unat sz - 1"
    using assms(3) by (simp only: unat_of_nat) (simp add: take_bit_nat_eq_self)
  have "size_of s * 2 ^ mesoblk_log (sd_b s) \<le> unat r_offset + unat sz - 1" using assms(4) by simp
  then have "size_of s \<le> (unat r_offset + unat sz - 1) div 2 ^ mesoblk_log (sd_b s)"
    by (simp add: less_eq_div_iff_mult_less_eq)
  then have "ucast (no_block_indices (sd_l s)) \<le> drop_bit (mesoblk_log (sd_b s)) (r_offset + sz - 1)"
    using take_bit_nat_eq_self [of "size_of s" 64] unat_less_exp [of "no_block_indices (sd_l s)"]
    by (simp add: word_le_nat_alt unsigned_ucast_eq unat_drop_bit_div u)
  then show ?thesis by (simp add: do_req_def)
qed

theorem access_past_end_reports_success_witness:
  "do_req demo_gcrypt SCUBED3_READ 511 2 (demo_sdev 3, [9, 9]) = Inr (1, demo_sdev 3, [9, 9])"
proof -
  have "geometry (sd_b (demo_sdev 3))" using demo_geometry by (simp add: demo_sdev_def)
  moreover have "unat (no_block_indices (sd_l (demo_sdev 3))) * 2 ^ mesoblk_log (sd_b (demo_sdev 3)) = 512"
    by (simp add: demo_sdev_def demo_b_def)
  ultimately show ?thesis using access_past_end_reports_success [of "demo_sdev 3" 2 511] by simp
qed

text \<open>
  C29: resizing: when macroblocks were added, the device grows by mesoblocks of zeros behind its old
  contents and keeps its invariant; without a change of size nothing happens; shrinking ends the process.
\<close>

theorem reinit_grows_with_zeros:
  assumes "device_ok g s" "new = calc_no_block_indices (sd_b s) (sd_dev s)"
  shows "case scubed3_reinit s of
      Inl e \<Rightarrow> new < no_block_indices (sd_l s) \<and> e = Fatal ''scubed3_reinit shrinking not supported''
    | Inr s' \<Rightarrow> no_block_indices (sd_l s) \<le> new \<and> no_block_indices (sd_l s') = new \<and> device_ok g s' \<and>
        flat g s' = flat g s @ replicate ((unat new - unat (no_block_indices (sd_l s))) * 2 ^ mesoblk_log (sd_b s)) 0"
proof -
  consider "no_block_indices (sd_l s) < new" | "no_block_indices (sd_l s) = new" | "new < no_block_indices (sd_l s)" by fastforce
  then show ?thesis
  proof cases
    case 1
    then show ?thesis
      using reinit_grown [of s] grown_inv [of g s new] grown_flat [of g s new] assms
      by (auto simp: device_ok_def sdev_inv_def less_imp_le)
  qed (use assms in \<open>auto simp: scubed3_reinit_def Let_def\<close>)
qed

lemma macroblocks_device_ok:
  "device_ok g (s\<lparr>sd_dev := (sd_dev s)\<lparr>no_macroblocks := n\<rparr>\<rparr>) = device_ok g s"
proof -
  let ?s = "s\<lparr>sd_dev := (sd_dev s)\<lparr>no_macroblocks := n\<rparr>\<rparr>"
  have i: "info_of ?s = info_of s" by (simp add: info_of_def fun_eq_iff)
  then have "live ?s = live s" by (simp add: live_def fun_eq_iff)
  with i show ?thesis
    by (simp add: device_ok_def sdev_inv_def core_inv_def base_inv_def block_inv_def table_inv_def tail_inv_def cong: if_cong)
qed

definition demo_grow :: sdev where
  "demo_grow = (demo_sdev 3)\<lparr>sd_dev := (sd_dev (demo_sdev 3))\<lparr>no_macroblocks := 3\<rparr>\<rparr>"

theorem reinit_grows_with_zeros_witness:
  "case scubed3_reinit demo_grow of
      Inl e \<Rightarrow> (2 :: u32) < no_block_indices (sd_l demo_grow) \<and> e = Fatal ''scubed3_reinit shrinking not supported''
    | Inr s' \<Rightarrow> no_block_indices (sd_l demo_grow) \<le> 2 \<and> no_block_indices (sd_l s') = 2 \<and> device_ok demo_gcrypt s' \<and>
        flat demo_gcrypt s' = flat demo_gcrypt demo_grow @
          replicate ((unat (2 :: u32) - unat (no_block_indices (sd_l demo_grow))) * 2 ^ mesoblk_log (sd_b demo_grow)) 0"
proof (rule reinit_grows_with_zeros)
  show "device_ok demo_gcrypt demo_grow" by (simp add: demo_grow_def macroblocks_device_ok demo_device_ok)
  show "2 = calc_no_block_indices (sd_b demo_grow) (sd_dev demo_grow)"
    by (simp add: calc_no_block_indices_def demo_grow_def demo_sdev_def demo_b_def)
qed

text \<open>
  C30: in a build without NDEBUG the first write that finds the current macroblock full ends the process: it
  unlocks a mutex that its thread never locked.
\<close>

theorem full_block_write_aborts:
  assumes "sd_errorcheck s" "output_initialized (sd_l s)" "d_bi (sd_dev s) = Some c" "current_full s"
    "ID (sd_l s) (block_indices (sd_l s) ! m) \<noteq> c" "off + length d \<le> 2 ^ mesoblk_log (sd_b s)"
  shows "do_write g s m off d = Inl (Fatal ''trying to unlock mutex we do not own'')"
proof -
  have "initialize_output g (set_updated True s) = Inr (set_updated True s)" using assms(2) by (simp add: initialize_output_def)
  from do_write_halves [OF assms(6) this, of c m] show ?thesis
    using assms by (simp add: write_target_def current_full_def info_of_def pleasewrite_signal_def pthd_mutex_unlock_def)
qed

theorem full_block_write_aborts_witness:
  "do_write demo_gcrypt (grown 2 demo_grow) 1 0 [7] = Inl (Fatal ''trying to unlock mutex we do not own'')"
  by (rule full_block_write_aborts [of _ 0])
    (simp_all add: grown_def demo_grow_def demo_sdev_def demo_dev_def demo_b_def current_full_def info_of_def ID_def)

end
