(* ===== verification/Scubed3_Replay.thy ===== *)
theory Scubed3_Replay
  imports Scubed3_Array
begin

text \<open>
  The replay of src/src/scubed3.c: the macroblocks found on disk are visited in the order of their sequence numbers, and
  every mesoblock that a macroblock lists replaces the older version of it. The theory shows that the loop never trips an
  assertion, and that in the end every entry of the table names the macroblock with the highest sequence number that lists the
  mesoblock, with exact counts of the live mesoblocks of every macroblock.
\<close>

section \<open>The state during replay\<close>

text \<open>
  \<open>seen\<close> are the slots that were visited. The slots of macroblock \<open>i\<close> that are not obsolete are those not visited yet
  and those that the table refers to.
\<close>

type_synonym slots = "(nat \<times> nat) set"

definition pending :: "(nat \<Rightarrow> u32 list) \<Rightarrow> scubed3 \<Rightarrow> slots \<Rightarrow> u32 list \<Rightarrow> nat \<Rightarrow> nat set" where
  "pending lg l seen tbl i = {k. k < length (lg i) \<and> ((i, k) \<notin> seen \<or> tbl ! unat (lg i ! k) = place l i k)}"

definition replay_info :: "(nat \<Rightarrow> u32 list) \<Rightarrow> sdev \<Rightarrow> nat set \<Rightarrow> slots \<Rightarrow> u32 list \<Rightarrow> nat \<Rightarrow> blockio_info" where
  "replay_info lg s R seen tbl i =
     (if i \<in> R then
        let p = pending lg (sd_l s) seen tbl i in
        (info_of s i)\<lparr>no_nonobsolete := of_nat (card p), no_indices := (if p = {} then 0 else of_nat (length (lg i)))\<rparr>
      else info_of s i)"

definition replay_state :: "(nat \<Rightarrow> u32 list) \<Rightarrow> sdev \<Rightarrow> nat set \<Rightarrow> slots \<Rightarrow> u32 list \<Rightarrow> sdev" where
  "replay_state lg s R seen tbl =
     s\<lparr>sd_b := (sd_b s)\<lparr>infos := replay_info lg s R seen tbl\<rparr>, sd_l := (sd_l s)\<lparr>block_indices := tbl\<rparr>\<rparr>"

text \<open>The blocks \<open>R\<close> as the scan leaves them.\<close>

definition replay_ok :: "(nat \<Rightarrow> u32 list) \<Rightarrow> sdev \<Rightarrow> nat set \<Rightarrow> bool" where
  "replay_ok lg s R \<longleftrightarrow> bits_ok (sd_l s) \<and> total_macroblocks (sd_b s) < 2 ^ (32 - mesobits (sd_l s)) \<and>
     mmpm (sd_b s) + 1 = 2 ^ mesobits (sd_l s) \<and>
     (\<forall>i\<in>R. i < total_macroblocks (sd_b s) \<and> length (lg i) \<le> mmpm (sd_b s) \<and> distinct (lg i) \<and>
        length (indices (info_of s i)) = mmpm (sd_b s) \<and> take (length (lg i)) (indices (info_of s i)) = lg i \<and>
        (\<forall>m\<in>set (lg i). unat m < size_of s)) \<and>
     inj_on (\<lambda>i. bi_seqno (info_of s i)) R"

definition newest :: "(nat \<Rightarrow> u32 list) \<Rightarrow> sdev \<Rightarrow> slots \<Rightarrow> u32 list \<Rightarrow> bool" where
  "newest lg s seen tbl \<longleftrightarrow> length tbl = size_of s \<and>
     (\<forall>m < size_of s. (tbl ! m = NOWHERE \<and> (\<forall>(i, k)\<in>seen. unat (lg i ! k) \<noteq> m)) \<or>
        (\<exists>(i, k)\<in>seen. tbl ! m = place (sd_l s) i k \<and> unat (lg i ! k) = m \<and>
           (\<forall>(j, k')\<in>seen. unat (lg j ! k') = m \<longrightarrow> bi_seqno (info_of s j) \<le> bi_seqno (info_of s i))))"

definition slots_of :: "(nat \<Rightarrow> u32 list) \<Rightarrow> nat set \<Rightarrow> slots" where
  "slots_of lg P = {(i, k). i \<in> P \<and> k < length (lg i)}"

lemma replay_fields [simp]:
  "sd_dev (replay_state lg s R seen tbl) = sd_dev s" "info_of (replay_state lg s R seen tbl) = replay_info lg s R seen tbl"
  "block_indices (sd_l (replay_state lg s R seen tbl)) = tbl" "no_block_indices (sd_l (replay_state lg s R seen tbl)) = no_block_indices (sd_l s)"
  "ID (sd_l (replay_state lg s R seen tbl)) = ID (sd_l s)" "place (sd_l (replay_state lg s R seen tbl)) = place (sd_l s)"
  "indices (replay_info lg s R seen tbl i) = indices (info_of s i)"
  by (simp_all add: replay_state_def info_of_def fun_eq_iff ID_def place_def replay_info_def Let_def)

lemma finite_pending [simp]: "finite (pending lg l seen tbl i)"
  by (rule finite_subset [of _ "{..<length (lg i)}"]) (auto simp: pending_def)

lemma card_pending: "card (pending lg l seen tbl i) \<le> length (lg i)"
  using card_mono [of "{..<length (lg i)}" "pending lg l seen tbl i"] by (auto simp: pending_def)

section \<open>One step\<close>


lemma replay_place:
  assumes "replay_ok lg s R" "i \<in> R" "k < length (lg i)"
  shows "ID (sd_l s) (place (sd_l s) i k) = i" "NO (sd_l s) (place (sd_l s) i k) = k" "place (sd_l s) i k \<noteq> NOWHERE"
    "ID (sd_l s) NOWHERE \<noteq> i" "indices (info_of s i) ! k = lg i ! k" "unat (lg i ! k) < size_of s"
proof -
  have a: "bits_ok (sd_l s)" "i + 1 < 2 ^ (32 - mesobits (sd_l s))" "k < 2 ^ mesobits (sd_l s)" "take (length (lg i)) (indices (info_of s i)) = lg i"
    "\<forall>m\<in>set (lg i). unat m < size_of s"
    using assms by (force simp: replay_ok_def)+
  then show "ID (sd_l s) (place (sd_l s) i k) = i" "NO (sd_l s) (place (sd_l s) i k) = k" using place_decode [of "sd_l s" i k] by simp_all
  show "place (sd_l s) i k \<noteq> NOWHERE" by (rule place_somewhere [OF a(1-3)])
  show "ID (sd_l s) NOWHERE \<noteq> i" using a(2) by (simp add: ID_nowhere [OF a(1)])
  show "indices (info_of s i) ! k = lg i ! k" using a(4) assms(3) by (metis nth_take)
  show "unat (lg i ! k) < size_of s" using a(5) assms(3) by simp
qed

lemma replay_place_inj:
  assumes "replay_ok lg s R" "i \<in> R" "k < length (lg i)" "j \<in> R" "k' < length (lg j)"
  shows "place (sd_l s) i k = place (sd_l s) j k' \<longleftrightarrow> i = j \<and> k = k'"
  using replay_place(1,2) [OF assms(1-3)] replay_place(1,2) [OF assms(1,4,5)] by metis

lemma newest_entry:
  assumes "newest lg s seen tbl" "m < size_of s" "tbl ! m \<noteq> NOWHERE"
  shows "\<exists>i k. (i, k) \<in> seen \<and> tbl ! m = place (sd_l s) i k \<and> unat (lg i ! k) = m"
  using assms unfolding newest_def by blast

lemma newest_place:
  assumes ok: "replay_ok lg s R" and nw: "newest lg s seen tbl" "seen \<subseteq> slots_of lg R" "m < size_of s"
    and j: "j \<in> R" "q < length (lg j)" "tbl ! m = place (sd_l s) j q"
  shows "(j, q) \<in> seen \<and> unat (lg j ! q) = m"
proof -
  obtain i k where ik: "(i, k) \<in> seen" "tbl ! m = place (sd_l s) i k" "unat (lg i ! k) = m"
    using newest_entry [OF nw(1,3)] replay_place(3) [OF ok j(1,2)] j(3) by metis
  then have "i \<in> R" "k < length (lg i)" using nw(2) by (auto simp: slots_of_def)
  then show ?thesis using replay_place_inj [OF ok j(1,2)] ik j(3) by metis
qed

text \<open>Only the slot that the table named before stops being pending.\<close>

lemma pending_step:
  assumes ok: "replay_ok lg s R" and nw: "newest lg s seen tbl" and seen: "seen \<subseteq> slots_of lg R"
    and ik: "i \<in> R" "k < length (lg i)" "(i, k) \<notin> seen" and j: "j \<in> R"
  defines "m \<equiv> unat (lg i ! k)"
  shows "pending lg (sd_l s) (insert (i, k) seen) (tbl[m := place (sd_l s) i k]) j =
    pending lg (sd_l s) seen tbl j - {q. tbl ! m = place (sd_l s) j q}" (is "?L = ?R")
proof (rule set_eqI)
  fix q
  have m: "m < length tbl" "m < size_of s" using replay_place(6) [OF ok ik(1,2)] nw by (simp_all add: m_def newest_def)
  show "q \<in> ?L \<longleftrightarrow> q \<in> ?R"
  proof (cases "q < length (lg j)")
    case q: True
    note inj = replay_place_inj [OF ok j q ik(1,2)] and np = newest_place [OF ok nw seen m(2) j q]
    show ?thesis
    proof (cases "(j, q) = (i, k)")
      case True
      then show ?thesis using np ik m by (auto simp: pending_def m_def)
    next
      case False
      then have "place (sd_l s) j q \<noteq> place (sd_l s) i k" using inj by auto
      then show ?thesis using np q False m by (cases "unat (lg j ! q) = m") (auto simp: pending_def)
    qed
  qed (simp add: pending_def)
qed

lemma newest_step:
  assumes ok: "replay_ok lg s R" and nw: "newest lg s seen tbl" and ik: "i \<in> R" "k < length (lg i)"
    and later: "\<And>j k'. (j, k') \<in> seen \<Longrightarrow> bi_seqno (info_of s j) \<le> bi_seqno (info_of s i)"
  shows "newest lg s (insert (i, k) seen) (tbl[unat (lg i ! k) := place (sd_l s) i k])" (is "newest lg s ?S ?T")
  unfolding newest_def
proof (intro conjI allI impI)
  show "length ?T = size_of s" using nw by (simp add: newest_def)
  fix m assume m: "m < size_of s"
  show "?T ! m = NOWHERE \<and> (\<forall>(i, k)\<in>?S. unat (lg i ! k) \<noteq> m) \<or>
    (\<exists>(i, k)\<in>?S. ?T ! m = place (sd_l s) i k \<and> unat (lg i ! k) = m \<and>
       (\<forall>(j, k')\<in>?S. unat (lg j ! k') = m \<longrightarrow> bi_seqno (info_of s j) \<le> bi_seqno (info_of s i)))"
  proof (cases "unat (lg i ! k) = m")
    case True
    have "\<forall>(j, k')\<in>?S. unat (lg j ! k') = m \<longrightarrow> bi_seqno (info_of s j) \<le> bi_seqno (info_of s i)" using later by auto
    moreover have "?T ! m = place (sd_l s) i k" using True m nw by (simp add: newest_def)
    ultimately show ?thesis using True by blast
  next
    case False
    then have "?T ! m = tbl ! m" "\<And>P. (\<exists>(j, k')\<in>seen. P j k') \<Longrightarrow> (\<exists>(j, k')\<in>?S. P j k')" by auto
    moreover have "tbl ! m = NOWHERE \<and> (\<forall>(i, k)\<in>seen. unat (lg i ! k) \<noteq> m) \<or>
      (\<exists>(i, k)\<in>seen. tbl ! m = place (sd_l s) i k \<and> unat (lg i ! k) = m \<and>
         (\<forall>(j, k')\<in>seen. unat (lg j ! k') = m \<longrightarrow> bi_seqno (info_of s j) \<le> bi_seqno (info_of s i)))"
      using nw m by (simp add: newest_def)
    ultimately show ?thesis using False by auto
  qed
qed

lemma replay_one_step:
  assumes ok: "replay_ok lg s R" and nw: "newest lg s seen tbl" and seen: "seen \<subseteq> slots_of lg R"
    and ik: "i \<in> R" "k < length (lg i)" "(i, k) \<notin> seen"
  shows "replay_one i k (replay_state lg s R seen tbl) =
    Inr (replay_state lg s R (insert (i, k) seen) (tbl[unat (lg i ! k) := place (sd_l s) i k]))"
proof -
  let ?m = "unat (lg i ! k)" and ?s = "replay_state lg s R seen tbl"
  let ?T = "tbl[unat (lg i ! k) := place (sd_l s) i k]" and ?S = "insert (i, k) seen"
  note pl = replay_place [OF ok ik(1,2)]
  have m: "?m < size_of s" by (rule pl(6))
  have other: "(p, q) \<in> seen \<and> p \<in> R \<and> q < length (lg p) \<and> p \<noteq> i" if "tbl ! ?m = place (sd_l s) p q" "(p, q) \<in> seen" "unat (lg p ! q) = ?m" for p q
  proof -
    have "q \<noteq> k" if "p = i" using that ik(3) \<open>(p, q) \<in> seen\<close> by auto
    moreover have "distinct (lg i)" using ok ik(1) by (simp add: replay_ok_def)
    moreover have pq: "p \<in> R" "q < length (lg p)" using seen \<open>(p, q) \<in> seen\<close> by (auto simp: slots_of_def)
    moreover have "lg p ! q = lg i ! k" using \<open>unat (lg p ! q) = ?m\<close> by (simp add: word_unat_eq_iff)
    ultimately have "p \<noteq> i" using ik(2) by (auto simp: nth_eq_iff_index_eq)
    with pq that show ?thesis by simp
  qed
  have ne: "i \<noteq> ID (sd_l s) (tbl ! ?m)"
  proof (cases "tbl ! ?m = NOWHERE")
    case False
    then obtain p q where "(p, q) \<in> seen" "tbl ! ?m = place (sd_l s) p q" "unat (lg p ! q) = ?m" using newest_entry [OF nw m] by blast
    with other [of p q] replay_place(1) [OF ok, of p q] show ?thesis by auto
  qed (use pl(4) in simp)
  have obs: "obsolete_mesoblk_byidx ?s (tbl ! ?m) = Inr (?s\<lparr>sd_b := (sd_b s)\<lparr>infos := replay_info lg s R ?S ?T\<rparr>\<rparr>)"
  proof (cases "tbl ! ?m = NOWHERE")
    case True
    have "pending lg (sd_l s) ?S ?T j = pending lg (sd_l s) seen tbl j" if "j \<in> R" for j
      using pending_step [OF ok nw seen ik that] True replay_place(3) [OF ok that] by (auto simp: pending_def)
    then have "replay_info lg s R ?S ?T = replay_info lg s R seen tbl" by (auto simp: replay_info_def fun_eq_iff Let_def)
    then show ?thesis using True by (simp add: obsolete_mesoblk_byidx_def replay_state_def)
  next
    case False
    then obtain p q where pq: "(p, q) \<in> seen" "tbl ! ?m = place (sd_l s) p q" "unat (lg p ! q) = ?m" using newest_entry [OF nw m] by blast
    then have p: "p \<in> R" "q < length (lg p)" "p \<noteq> i" using other [of p q] by auto
    have inj: "place (sd_l s) p q = place (sd_l s) j k' \<longleftrightarrow> p = j \<and> q = k'" if "j \<in> R" "k' < length (lg j)" for j k'
      by (rule replay_place_inj [OF ok p(1,2) that])
    have "pending lg (sd_l s) ?S ?T j = pending lg (sd_l s) seen tbl j" if "j \<in> R" "j \<noteq> p" for j
      using pending_step [OF ok nw seen ik that(1)] that inj [OF that(1)] pq(2) by (auto simp: pending_def)
    then have rest: "replay_info lg s R ?S ?T j = replay_info lg s R seen tbl j" if "j \<noteq> p" for j
      using that by (auto simp: replay_info_def Let_def)
    let ?p = "pending lg (sd_l s) seen tbl p"
    have "pending lg (sd_l s) ?S ?T p = ?p - {q}"
      using pending_step [OF ok nw seen ik p(1)] inj [OF p(1)] pq(2) by (auto simp: pending_def)
    moreover have q: "q \<in> ?p" using pq p(2) by (simp add: pending_def)
    ultimately have cp: "card (pending lg (sd_l s) ?S ?T p) = card ?p - 1" "0 < card ?p" "pending lg (sd_l s) ?S ?T p = {} \<longleftrightarrow> card ?p = 1"
      by (auto simp: card_gt_0_iff card_1_singleton_iff)
    have "card ?p \<le> length (lg p)" by (rule card_pending)
    moreover have "length (lg p) < 2 ^ 14" using ok p(1) by (auto simp: replay_ok_def bits_ok_def intro: order_le_less_trans dest!: power_increasing [of _ 14 "2 :: nat"])
    ultimately have sm: "card ?p < 2 ^ 32" by simp
    have new: "replay_info lg s R ?S ?T p = obsoleted (replay_info lg s R seen tbl p)"
    proof -
      have "(of_nat (card ?p) :: u32) - 1 = of_nat (card ?p - 1)" using cp(2) by (cases "card ?p") auto
      moreover have "(of_nat (card ?p) :: u32) = 1 \<longleftrightarrow> card ?p = 1"
        using sm by (simp add: word_unat_eq_iff unat_of_nat_small)
      moreover have "?p \<noteq> {}" using q by auto
      ultimately show ?thesis using cp p(1) by (simp add: replay_info_def Let_def obsoleted_def)
    qed
    have "no_nonobsolete (info_of ?s p) \<noteq> 0"
      using cp(2) sm p(1) q by (auto simp: replay_info_def Let_def word_unat_eq_iff unat_of_nat_small)
    then have "obsolete_mesoblk ?s p = Inr (upd_info ?s p obsoleted)" by (simp add: obsolete_eq)
    moreover have "(replay_info lg s R seen tbl)(p := obsoleted (replay_info lg s R seen tbl p)) = replay_info lg s R ?S ?T"
      using rest new by (auto simp: fun_eq_iff)
    ultimately show ?thesis
      using False pq(2) replay_place(1) [OF ok p(1,2)]
      by (simp add: obsolete_mesoblk_byidx_def upd_info_def) (simp add: replay_state_def)
  qed
  have le: "\<not> no_block_indices (sd_l s) \<le> lg i ! k" using m by (simp add: word_le_nat_alt)
  show ?thesis
    using obs ne le pl(5) by (simp add: replay_one_def Let_def) (simp add: replay_state_def update_block_indices_def place_def)
qed

section \<open>The loops\<close>

lemma slots_of_insert: "slots_of lg (insert i P) = slots_of lg P \<union> {(i, k) | k. k < length (lg i)}"
  by (auto simp: slots_of_def)

lemma replay_block:
  assumes ok: "replay_ok lg s R" and nw: "newest lg s (slots_of lg P) tbl" and P: "P \<subseteq> R" and i: "i \<in> R" "i \<notin> P"
    and later: "\<And>j. j \<in> P \<Longrightarrow> bi_seqno (info_of s j) < bi_seqno (info_of s i)"
  shows "\<exists>tbl'. replay i (replay_state lg s R (slots_of lg P) tbl) = Inr (replay_state lg s R (slots_of lg (insert i P)) tbl') \<and>
    newest lg s (slots_of lg (insert i P)) tbl'"
proof -
  let ?S = "\<lambda>n. slots_of lg P \<union> {(i, k) | k. k < n}"
  have loop: "\<exists>tbl'. rfold (replay_one i) [0..<n] (replay_state lg s R (slots_of lg P) tbl) = Inr (replay_state lg s R (?S n) tbl') \<and>
      newest lg s (?S n) tbl'" if "n \<le> length (lg i)" for n
    using that
  proof (induction n)
    case (Suc n)
    then obtain t where t: "rfold (replay_one i) [0..<n] (replay_state lg s R (slots_of lg P) tbl) = Inr (replay_state lg s R (?S n) t)"
      "newest lg s (?S n) t" by auto
    have n: "n < length (lg i)" "(i, n) \<notin> ?S n" "?S n \<subseteq> slots_of lg R"
      using Suc.prems i P by (auto simp: slots_of_def)
    have ins: "insert (i, n) (?S n) = ?S (Suc n)" by (auto simp: less_Suc_eq)
    have "bi_seqno (info_of s j) \<le> bi_seqno (info_of s i)" if "(j, k') \<in> ?S n" for j k'
      using that later by (auto simp: slots_of_def less_imp_le)
    from newest_step [OF ok t(2) i(1) n(1) this] replay_one_step [OF ok t(2) n(3) i(1) n(1,2)]
    show ?case using t(1) unfolding ins by (auto simp: rfold_append)
  qed (use nw in \<open>auto simp: slots_of_def\<close>)
  have "unat (no_indices (replay_info lg s R (slots_of lg P) tbl i)) = length (lg i)"
  proof -
    have "pending lg (sd_l s) (slots_of lg P) tbl i = {..<length (lg i)}" using i(2) by (auto simp: pending_def slots_of_def)
    moreover have "length (lg i) < 2 ^ 32"
      using ok i(1) by (auto simp: replay_ok_def bits_ok_def intro: order_le_less_trans dest!: power_increasing [of _ 14 "2 :: nat"])
    moreover have "{..<length (lg i)} = {} \<longleftrightarrow> lg i = []" by auto
    ultimately show ?thesis using i(1) by (simp add: replay_info_def unat_of_nat_small)
  qed
  with loop [of "length (lg i)"] show ?thesis by (simp add: replay_def slots_of_insert)
qed

lemma replay_all:
  assumes ok: "replay_ok lg s R" and nw: "newest lg s (slots_of lg P) tbl" and P: "P \<subseteq> R" "set rl \<subseteq> R" "P \<inter> set rl = {}"
    and ord: "sorted_wrt (\<lambda>x y. bi_seqno (info_of s x) < bi_seqno (info_of s y)) rl"
      "\<And>i j. j \<in> P \<Longrightarrow> i \<in> set rl \<Longrightarrow> bi_seqno (info_of s j) < bi_seqno (info_of s i)"
  shows "\<exists>tbl'. iter_list (\<lambda>bi s. rbind (replay bi s) (\<lambda>s. Inr (None :: unit option, s))) rl (replay_state lg s R (slots_of lg P) tbl) =
      Inr (None, replay_state lg s R (slots_of lg (P \<union> set rl)) tbl') \<and> newest lg s (slots_of lg (P \<union> set rl)) tbl'"
  using nw P ord
proof (induction rl arbitrary: P tbl)
  case (Cons i rl)
  have i: "i \<in> R" "i \<notin> P" using Cons.prems by auto
  from replay_block [OF ok Cons.prems(1,2) i] Cons.prems(6) obtain t
    where t: "replay i (replay_state lg s R (slots_of lg P) tbl) = Inr (replay_state lg s R (slots_of lg (insert i P)) t)"
      "newest lg s (slots_of lg (insert i P)) t" by auto
  have "i \<notin> set rl" using Cons.prems(5) by auto
  then have "\<exists>tbl'. iter_list (\<lambda>bi s. rbind (replay bi s) (\<lambda>s. Inr (None :: unit option, s))) rl (replay_state lg s R (slots_of lg (insert i P)) t) =
      Inr (None, replay_state lg s R (slots_of lg (insert i P \<union> set rl)) tbl') \<and> newest lg s (slots_of lg (insert i P \<union> set rl)) tbl'"
    using Cons.prems by (intro Cons.IH [OF t(2)]) auto
  with t(1) show ?case by simp
qed auto

section \<open>The result\<close>

lemma newest_empty: "newest lg s {} (replicate (size_of s) NOWHERE)"
  by (simp add: newest_def)

text \<open>After the replay of all blocks.\<close>

abbreviation replay_end :: "(nat \<Rightarrow> u32 list) \<Rightarrow> sdev \<Rightarrow> nat set \<Rightarrow> u32 list \<Rightarrow> sdev" where
  "replay_end lg s R tbl \<equiv> replay_state lg s R (slots_of lg R) tbl"

lemma replay_end_live:
  assumes ok: "replay_ok lg s R" and i: "i \<in> R"
  shows "live (replay_end lg s R tbl) i k \<longleftrightarrow> k \<in> pending lg (sd_l s) (slots_of lg R) tbl i"
proof -
  have sm: "length (lg i) < 2 ^ 32" and idx: "\<And>k. k < length (lg i) \<Longrightarrow> indices (info_of s i) ! k = lg i ! k \<and> unat (lg i ! k) < size_of s"
    using ok i replay_place(5,6) [OF ok i]
    by (auto simp: replay_ok_def bits_ok_def intro: order_le_less_trans dest!: power_increasing [of _ 14 "2 :: nat"])
  have "unat (no_indices (replay_info lg s R (slots_of lg R) tbl i)) = (if pending lg (sd_l s) (slots_of lg R) tbl i = {} then 0 else length (lg i))"
    using i sm by (simp add: replay_info_def Let_def unat_of_nat_small)
  then show ?thesis using idx i by (auto simp: live_def pending_def slots_of_def)
qed

lemma replay_end_table:
  assumes ok: "replay_ok lg s R" and nw: "newest lg s (slots_of lg R) tbl" and ik: "i \<in> R" "k < length (lg i)"
  shows "\<exists>j k'. j \<in> R \<and> k' < length (lg j) \<and> lg j ! k' = lg i ! k \<and> tbl ! unat (lg i ! k) = place (sd_l s) j k' \<and>
    (\<forall>p\<in>R. lg i ! k \<in> set (lg p) \<longrightarrow> bi_seqno (info_of s p) \<le> bi_seqno (info_of s j))"
proof -
  let ?m = "unat (lg i ! k)"
  have "(i, k) \<in> slots_of lg R" using ik by (simp add: slots_of_def)
  then have "\<exists>(j, k')\<in>slots_of lg R. tbl ! ?m = place (sd_l s) j k' \<and> unat (lg j ! k') = ?m \<and>
      (\<forall>(p, q)\<in>slots_of lg R. unat (lg p ! q) = ?m \<longrightarrow> bi_seqno (info_of s p) \<le> bi_seqno (info_of s j))"
    using nw replay_place(6) [OF ok ik] unfolding newest_def by blast
  then show ?thesis by (fastforce simp: slots_of_def in_set_conv_nth word_unat_eq_iff)
qed

lemma replay_end_nowhere:
  assumes "newest lg s (slots_of lg R) tbl" "m < size_of s" "\<And>i. i \<in> R \<Longrightarrow> of_nat m \<notin> set (lg i)"
  shows "tbl ! m = NOWHERE"
proof (rule ccontr)
  assume "tbl ! m \<noteq> NOWHERE"
  then obtain i k where "i \<in> R" "k < length (lg i)" "unat (lg i ! k) = m"
    using newest_entry [OF assms(1,2)] by (auto simp: slots_of_def)
  moreover from this have "lg i ! k = of_nat m" by auto
  ultimately show False using assms(3) by (metis nth_mem)
qed

end
