(* ===== verification/Scubed3_Scan.thy ===== *)
theory Scubed3_Scan
  imports Scubed3_Replay
begin

text \<open>
  Finding the macroblocks of a device (blockio_dev_init of src/src/blockio.c). The scan reads the header of every macroblock
  that belongs to nobody: it takes the ones in the log of the device and leaves all others; the newest header gives the
  bitmap, and the bitmap gives the macroblocks that hold nothing. The result is stated for a device that was closed properly.
\<close>

section \<open>The state that is closed\<close>

text \<open>
  \<open>q\<close> is the device after its last write to disk, without a current macroblock. The newest header tells the sizes, the
  bitmap and the schedule.
\<close>

definition headed :: "gcrypt \<Rightarrow> (nat \<Rightarrow> u32 list) \<Rightarrow> sdev \<Rightarrow> bool" where
  "headed g lg q \<longleftrightarrow> (\<exists>c\<in>set (scheduled (d_j (sd_dev q))). \<exists>bd. bi_seqno (info_of q c) = j_seqno (d_j (sd_dev q)) \<and>
     written_as g q c (lg c) bd \<and> status (snd bd) = status (sd_dev q) \<and> no_macroblocks (snd bd) = no_macroblocks (sd_dev q) \<and>
     reserved_macroblocks (snd bd) = reserved_macroblocks (sd_dev q) \<and>
     juggler_hash_scheduled_seqnos (g_sha256 g) (infos (fst bd)) (d_j (snd bd)) =
       juggler_hash_scheduled_seqnos (g_sha256 g) (infos (sd_b q)) (d_j (sd_dev q)))"

definition quiet :: "gcrypt \<Rightarrow> (nat \<Rightarrow> u32 list) \<Rightarrow> sdev \<Rightarrow> bool" where
  "quiet g lg q \<longleftrightarrow> core_inv g q \<and> d_bi (sd_dev q) = None \<and> log_inv g lg q \<and> headed g lg q"

text \<open>
  The block layer when the device is opened: the blocks of the device are in the pool and unchanged on disk, and no other
  block looks like one of them.
\<close>

definition closed :: "gcrypt \<Rightarrow> sdev \<Rightarrow> blockio \<Rightarrow> nat \<Rightarrow> bool" where
  "closed g q b i \<longleftrightarrow> same_layout (sd_b q) b \<and> total_macroblocks b = total_macroblocks (sd_b q) \<and> geometry b \<and> distinct (unallocated b) \<and>
     (\<forall>x < total_macroblocks b. (bi_dev (infos b x) = None \<longleftrightarrow> x \<in> set (unallocated b)) \<and> bi_dev (infos b x) \<noteq> Some i \<and>
        (x \<in> blocks q \<longrightarrow> bi_dev (infos b x) = None \<and> macro_at b x = macro_at (sd_b q) x) \<and>
        (bi_dev (infos b x) = None \<and> x \<notin> set (scheduled (d_j (sd_dev q))) \<longrightarrow> \<not> recognised g (d_c (sd_dev q)) b x))"

section \<open>The scan\<close>

lemma seqno_ordered_distinct: "seqno_ordered bis xs \<Longrightarrow> distinct xs"
  by (induction xs) (auto simp: seqno_ordered_def)

lemma scan_unrecognised:
  assumes geo: "geometry b" and dv: "dev_ok b dev" and c: "cipher_ok g (d_c dev)"
    and no: "no < total_macroblocks b" "bi_dev (infos b no) = None" "\<not> recognised g (d_c dev) b no"
  shows "\<exists>tmp. length tmp = 2 ^ macroblock_log b \<and> blockio_dev_scan_header g no ((b, dev), acc) = Inr ((b, dev\<lparr>tmp_macroblock := tmp\<rparr>), acc)"
proof -
  let ?m = "(2 :: nat) ^ mesoblk_log b" and ?M = "(2 :: nat) ^ macroblock_log b"
  have sz: "cipher_size (d_c dev) = ?m" "length (tmp_macroblock dev) = ?M" "?m \<le> ?M"
    using dv geometry_sizes(5) [OF geo] by (simp_all add: dev_ok_def)
  have room: "no * ?M + ?M \<le> length (disk b)" by (rule macroblock_inside [OF geo no(1)])
  let ?buf = "bslice 0 ?m (macro_at b no)"
  have "\<not> length (disk b) < no * ?M + ?m" using room sz(3) by linarith
  then have rd: "stream_read (disk b) (no * ?M) ?m = Inr ?buf"
    using sz(3) by (simp add: stream_read_def macro_at_def bslice_bslice)
  define t where "t = blit 0 ?buf (tmp_macroblock dev)"
  define d where "d = wide_dec g (d_c dev) 0 0 (of_nat no) ?buf"
  have lb: "length ?buf = ?m" using room sz(3) by (simp add: macro_at_def)
  then have t: "length t = ?M" "bslice 0 ?m t = ?buf" using sz by (simp_all add: t_def length_blit bslice_blit_same)
  have dec: "cipher_dec g (d_c dev) t 0 0 0 0 (of_nat no) = blit 0 d t"
    using cipher_dec_local(1) [OF c, of 0 t] sz t by (simp add: d_def)
  have ld: "length d = ?m" using length_wide(2) [OF c] sz lb by (simp add: d_def)
  then have "bslice 0 ?m (blit 0 d t) = d" "length (blit 0 d t) = ?M" using t sz by (simp_all add: bslice_blit_same length_blit)
  moreover from this have "\<not> header_valid g b (blit 0 d t)"
    using no(3) header_valid_meso [OF geo, of g "blit 0 d t"] by (simp add: recognised_def d_def)
  ultimately show ?thesis
    using no rd dec by (intro exI [of _ "blit 0 d t"]) (simp add: blockio_dev_scan_header_def Let_def t_def)
qed

text \<open>The descriptor of a block of the log after the scan, and the state after \<open>n\<close> blocks.\<close>

definition found_info :: "(nat \<Rightarrow> u32 list) \<Rightarrow> sdev \<Rightarrow> blockio \<Rightarrow> nat \<Rightarrow> bytes \<Rightarrow> nat \<Rightarrow> blockio_info" where
  "found_info lg q b i h x = (infos b x)\<lparr>data_hash := h, bi_seqno := bi_seqno (info_of q x), bi_next_seqno := bi_next_seqno (info_of q x),
     no_indices := of_nat (length (lg x)), no_nonobsolete := of_nat (length (lg x)),
     indices := lg x @ replicate (mmpm b - length (lg x)) 0, bi_dev := Some i\<rparr>"

definition found :: "sdev \<Rightarrow> nat \<Rightarrow> nat set" where
  "found q n = {x \<in> set (scheduled (d_j (sd_dev q))). x < n}"

definition scanned :: "gcrypt \<Rightarrow> (nat \<Rightarrow> u32 list) \<Rightarrow> sdev \<Rightarrow> blockio \<Rightarrow> nat \<Rightarrow> random_t \<Rightarrow> nat \<Rightarrow> blockio \<Rightarrow> blockio_dev \<Rightarrow> u64 \<Rightarrow> bool" where
  "scanned g lg q b i r n b' dev acc \<longleftrightarrow>
     b' = b\<lparr>infos := infos b', unallocated := filter (\<lambda>x. x \<notin> found q n) (unallocated b)\<rparr> \<and>
     (\<forall>x. x \<notin> found q n \<longrightarrow> infos b' x = infos b x) \<and> (\<forall>x\<in>found q n. \<exists>h. infos b' x = found_info lg q b i h x) \<and>
     dev_ok b dev \<and> set (replay_list dev) = found q n \<and> seqno_ordered (infos b') (replay_list dev) \<and>
     (\<forall>x\<in>found q n. bi_seqno (info_of q x) \<le> acc) \<and> acc \<in> insert 0 ((\<lambda>x. bi_seqno (info_of q x)) ` found q n) \<and>
     d_id dev = i \<and> d_c dev = d_c (sd_dev q) \<and> d_j dev = juggler_init r \<and> d_bi dev = None \<and>
     (\<forall>x\<in>found q n. bi_seqno (info_of q x) = j_seqno (d_j (sd_dev q)) \<longrightarrow> status dev = status (sd_dev q) \<and>
        no_macroblocks dev = no_macroblocks (sd_dev q) \<and> reserved_macroblocks dev = reserved_macroblocks (sd_dev q) \<and>
        seqnos_hash dev = juggler_hash_scheduled_seqnos (g_sha256 g) (infos (sd_b q)) (d_j (sd_dev q)))"

lemma scanned_layout:
  assumes "scanned g lg q b i r n b' dev acc"
  shows "total_macroblocks b' = total_macroblocks b" "max_macroblocks b' = max_macroblocks b" "mmpm b' = mmpm b"
    "unallocated b' = filter (\<lambda>x. x \<notin> found q n) (unallocated b)" "geometry b' = geometry b" "dev_ok b' d = dev_ok b d"
    "same_layout b b'" "macro_at b' = macro_at b"
proof -
  obtain bis where "b' = b\<lparr>infos := bis, unallocated := filter (\<lambda>x. x \<notin> found q n) (unallocated b)\<rparr>"
    using assms unfolding scanned_def by blast
  then show "total_macroblocks b' = total_macroblocks b" "max_macroblocks b' = max_macroblocks b" "mmpm b' = mmpm b"
    "unallocated b' = filter (\<lambda>x. x \<notin> found q n) (unallocated b)" "geometry b' = geometry b" "dev_ok b' d = dev_ok b d"
    "same_layout b b'" "macro_at b' = macro_at b"
    by (simp_all add: same_layout_def macro_at_def fun_eq_iff)
qed

lemma found_Suc: "found q (Suc n) = (if n \<in> set (scheduled (d_j (sd_dev q))) then insert n (found q n) else found q n)"
  by (auto simp: found_def less_Suc_eq)

lemma written_as_info:
  assumes "written_as g q x L bd" "same_layout (sd_b q) b"
  shows "(scanned_info g (fst bd) (snd bd) x bi)\<lparr>bi_dev := Some i\<rparr> =
    bi\<lparr>data_hash := data_hash (scanned_info g (fst bd) (snd bd) x bi), bi_seqno := bi_seqno (info_of q x),
      bi_next_seqno := bi_next_seqno (info_of q x), no_indices := of_nat (length L), no_nonobsolete := of_nat (length L),
      indices := L @ replicate (mmpm b - length L) 0, bi_dev := Some i\<rparr>"
    "length L \<le> mmpm b" "unat (no_indices (infos (fst bd) x)) = length L"
proof -
  have ok: "info_ok (fst bd) (infos (fst bd) x)" and l: "take (unat (no_indices (infos (fst bd) x))) (indices (infos (fst bd) x)) = L"
    and m: "mmpm (fst bd) = mmpm b"
    using assms by (auto simp: written_as_def write_ok_def same_layout_def)
  show n: "unat (no_indices (infos (fst bd) x)) = length L" using ok l by (auto simp: info_ok_def)
  then show "length L \<le> mmpm b" using ok m by (simp add: info_ok_def)
  have "no_indices (infos (fst bd) x) = of_nat (length L)" using n by (metis ucast_id of_nat_unat)
  then show "(scanned_info g (fst bd) (snd bd) x bi)\<lparr>bi_dev := Some i\<rparr> =
    bi\<lparr>data_hash := data_hash (scanned_info g (fst bd) (snd bd) x bi), bi_seqno := bi_seqno (info_of q x),
      bi_next_seqno := bi_next_seqno (info_of q x), no_indices := of_nat (length L), no_nonobsolete := of_nat (length L),
      indices := L @ replicate (mmpm b - length L) 0, bi_dev := Some i\<rparr>"
    using assms l m n by (simp add: scanned_info_def written_as_def)
qed

text \<open>What is known at every step of the scan.\<close>

lemma scan_facts:
  assumes q: "quiet g lg q" and cl: "closed g q b i" and n: "n < total_macroblocks b" and sc: "scanned g lg q b i r n b' dev acc"
  shows "core_inv g q" "base_inv g q" "log_inv g lg q" "d_bi (sd_dev q) = None"
    "same_layout (sd_b q) b" "distinct (unallocated b)" "bi_dev (infos b n) = None \<longleftrightarrow> n \<in> set (unallocated b)"
    "n \<in> blocks q \<Longrightarrow> bi_dev (infos b n) = None \<and> macro_at b n = macro_at (sd_b q) n"
    "bi_dev (infos b n) = None \<Longrightarrow> n \<notin> set (scheduled (d_j (sd_dev q))) \<Longrightarrow> \<not> recognised g (d_c (sd_dev q)) b n"
    "dev_ok b dev" "d_c dev = d_c (sd_dev q)" "infos b' n = infos b n" "set (replay_list dev) = found q n" "d_id dev = i"
    "geometry b'" "dev_ok b' dev" "total_macroblocks b' = total_macroblocks b" "same_layout b b'" "macro_at b' = macro_at b"
    "unallocated b' = filter (\<lambda>x. x \<notin> found q n) (unallocated b)" "cipher_ok g (d_c dev)" "n \<notin> found q n"
proof -
  show ci: "core_inv g q" "base_inv g q" and "log_inv g lg q" "d_bi (sd_dev q) = None"
    using q by (simp_all add: quiet_def core_inv_def)
  show "same_layout (sd_b q) b" "distinct (unallocated b)" "bi_dev (infos b n) = None \<longleftrightarrow> n \<in> set (unallocated b)"
    "n \<in> blocks q \<Longrightarrow> bi_dev (infos b n) = None \<and> macro_at b n = macro_at (sd_b q) n"
    "bi_dev (infos b n) = None \<Longrightarrow> n \<notin> set (scheduled (d_j (sd_dev q))) \<Longrightarrow> \<not> recognised g (d_c (sd_dev q)) b n"
    using cl n unfolding closed_def by blast+
  show k: "dev_ok b dev" "d_c dev = d_c (sd_dev q)" "infos b' n = infos b n" "set (replay_list dev) = found q n" "d_id dev = i" "n \<notin> found q n"
    using sc by (auto simp: scanned_def found_def)
  show "geometry b'" "dev_ok b' dev" "total_macroblocks b' = total_macroblocks b" "same_layout b b'" "macro_at b' = macro_at b"
    "unallocated b' = filter (\<lambda>x. x \<notin> found q n) (unallocated b)"
    using scanned_layout [OF sc] k(1) cl by (simp_all add: closed_def)
  show "cipher_ok g (d_c dev)" using ci k(2) by (simp add: base_inv_def)
qed

text \<open>Every block of the log was written once, the newest one by the device as it is now.\<close>

lemma log_writer:
  assumes q: "quiet g lg q" and sched: "n \<in> set (scheduled (d_j (sd_dev q)))"
  shows "\<exists>bd. written_as g q n (lg n) bd \<and> (bi_seqno (info_of q n) = j_seqno (d_j (sd_dev q)) \<longrightarrow> status (snd bd) = status (sd_dev q) \<and>
    no_macroblocks (snd bd) = no_macroblocks (sd_dev q) \<and> reserved_macroblocks (snd bd) = reserved_macroblocks (sd_dev q) \<and>
    juggler_hash_scheduled_seqnos (g_sha256 g) (infos (fst bd)) (d_j (snd bd)) =
      juggler_hash_scheduled_seqnos (g_sha256 g) (infos (sd_b q)) (d_j (sd_dev q)))"
proof (cases "bi_seqno (info_of q n) = j_seqno (d_j (sd_dev q))")
  case True
  obtain x bd where x: "x \<in> set (scheduled (d_j (sd_dev q)))" "bi_seqno (info_of q x) = j_seqno (d_j (sd_dev q))" and
    bd: "written_as g q x (lg x) bd" "status (snd bd) = status (sd_dev q)"
    "no_macroblocks (snd bd) = no_macroblocks (sd_dev q)" "reserved_macroblocks (snd bd) = reserved_macroblocks (sd_dev q)"
    "juggler_hash_scheduled_seqnos (g_sha256 g) (infos (fst bd)) (d_j (snd bd)) =
      juggler_hash_scheduled_seqnos (g_sha256 g) (infos (sd_b q)) (d_j (sd_dev q))"
    using q unfolding quiet_def headed_def by blast
  have "x = n" using q x sched True unfolding quiet_def log_inv_def inj_on_def by simp
  with bd show ?thesis by blast
next
  case False
  then show ?thesis using q sched by (auto simp: quiet_def log_inv_def block_log_def)
qed

lemma scan_found:
  assumes q: "quiet g lg q" and cl: "closed g q b i" and n: "n < total_macroblocks b" and sc: "scanned g lg q b i r n b' dev acc"
    and sched: "n \<in> set (scheduled (d_j (sd_dev q)))"
  shows "\<exists>b2 dev2 acc2. blockio_dev_scan_header g n ((b', dev), acc) = Inr ((b2, dev2), acc2) \<and> scanned g lg q b i r (Suc n) b2 dev2 acc2"
proof -
  let ?s = "\<lambda>x. bi_seqno (info_of q x)"
  note f = scan_facts [OF q cl n sc]
  have free: "bi_dev (infos b n) = None" using f(8) sched by simp
  obtain bb dd where wa: "written_as g q n (lg n) (bb, dd)" and hd: "?s n = j_seqno (d_j (sd_dev q)) \<longrightarrow> status dd = status (sd_dev q) \<and>
      no_macroblocks dd = no_macroblocks (sd_dev q) \<and> reserved_macroblocks dd = reserved_macroblocks (sd_dev q) \<and>
      juggler_hash_scheduled_seqnos (g_sha256 g) (infos bb) (d_j dd) =
        juggler_hash_scheduled_seqnos (g_sha256 g) (infos (sd_b q)) (d_j (sd_dev q))"
    using log_writer [OF q sched] by auto
  have w: "write_ok g (bb, dd) n" "same_layout bb (sd_b q)" "d_c dd = d_c (sd_dev q)" "image_of g bb dd n (macro_at (sd_b q) n)"
    "bi_seqno (infos bb n) = ?s n" "bi_next_seqno (infos bb n) = bi_next_seqno (info_of q n)"
    using wa by (simp_all add: written_as_def)
  have lay: "same_layout bb b'" "macroblock_log bb = macroblock_log b" using w(2) f(5) f(18) by (simp_all add: same_layout_def)
  have dsk: "bslice (n * 2 ^ macroblock_log bb) (2 ^ macroblock_log bb) (disk b') = macro_at (sd_b q) n"
    using f(8) sched f(19) lay by (simp add: macro_at_def same_layout_def fun_eq_iff)
  have fs: "bi_seqno (infos b' x) = ?s x" if "x \<in> found q n" for x
    using sc that by (auto simp: scanned_def found_info_def)
  have ne: "\<forall>x\<in>found q n. ?s x \<noteq> ?s n"
    using f(3) sched f(22) unfolding log_inv_def inj_on_def found_def by auto
  have pos: "0 < ?s n" "?s n < bi_next_seqno (info_of q n)" using scheduled_seqno [OF f(2) sched] by auto
  have ac: "acc = 0 \<or> acc \<in> ?s ` found q n" "\<And>x. x \<in> found q n \<Longrightarrow> ?s x \<le> acc" using sc by (simp_all add: scanned_def)
  have acc: "acc \<noteq> ?s n" using ac(1) ne pos(1) by auto
  have so: "scan_ok g ((b', dev), acc)"
    using f(15,16) f(21) sc fs ac(2) f(13) by (simp add: scan_ok_def scanned_def)
  define bi' where "bi' = (scanned_info g bb dd n (infos b' n))\<lparr>bi_dev := Some (d_id dev)\<rparr>"
  have "n \<in> set (unallocated b')" using f(7) free f(22) f(20) by simp
  then obtain tmp rep dev3 where run: "blockio_dev_scan_header g n ((b', dev), acc) =
      Inr (((set_info b' n bi')\<lparr>unallocated := remove1 n (unallocated b')\<rparr>, dev3), max acc (?s n))"
    and rep: "seqno_ordered ((infos b')(n := bi')) rep" "mset rep = add_mset n (mset (replay_list dev))" "length tmp = 2 ^ macroblock_log bb"
    and dev3: "dev3 = (if acc < ?s n
      then dev\<lparr>tmp_macroblock := tmp, replay_list := rep, status := status dd, no_macroblocks := no_macroblocks dd,
        reserved_macroblocks := reserved_macroblocks dd,
        seqnos_hash := juggler_hash_scheduled_seqnos (g_sha256 g) (infos bb) (d_j dd)\<rparr>
      else dev\<lparr>tmp_macroblock := tmp, replay_list := rep\<rparr>)"
    using scan_header_image [OF w(1,4) _ _ dsk lay(1) so] w(3,5,6) pos f(11,12,13) n f(17) free f(22) fs ne acc
    unfolding bi'_def by auto
  have bi': "bi' = found_info lg q b i (data_hash bi') n"
    using written_as_info(1) [OF wa f(5), where bi = "infos b' n" and i = i] f(12,14) unfolding bi'_def found_info_def by simp
  define b2 where "b2 = (set_info b' n bi')\<lparr>unallocated := remove1 n (unallocated b')\<rparr>"
  obtain bis where bis: "b' = b\<lparr>infos := bis, unallocated := filter (\<lambda>x. x \<notin> found q n) (unallocated b)\<rparr>" using sc unfolding scanned_def by blast
  have rm: "remove1 n (filter (\<lambda>x. x \<notin> found q n) (unallocated b)) = filter (\<lambda>x. x \<notin> insert n (found q n)) (unallocated b)"
    using f(6) by (auto simp: distinct_remove1_removeAll removeAll_filter_not_eq intro!: filter_cong)
  have i2: "infos b2 = (infos b')(n := bi')" by (simp add: b2_def set_info_def)
  have "b2 = b\<lparr>infos := infos b2, unallocated := filter (\<lambda>x. x \<notin> insert n (found q n)) (unallocated b)\<rparr>"
    by (simp add: b2_def set_info_def bis rm)
  moreover have "\<forall>x. x \<notin> insert n (found q n) \<longrightarrow> infos b2 x = infos b x" using sc by (simp add: scanned_def i2)
  moreover have "\<forall>x\<in>insert n (found q n). \<exists>h. infos b2 x = found_info lg q b i h x" using sc bi' f(22) by (auto simp: scanned_def i2)
  moreover have "dev_ok b dev3" using f(10) w(1,2) rep(3) lay(2) f(5) unfolding dev3
    by (auto simp: dev_ok_def write_ok_def same_layout_def)
  moreover have "set (replay_list dev3) = insert n (found q n)"
    using mset_eq_setD [of rep "n # replay_list dev"] rep(2) f(13) by (simp add: dev3)
  moreover have "seqno_ordered (infos b2) (replay_list dev3)" using rep(1) by (simp add: i2 dev3)
  moreover have "\<forall>x\<in>insert n (found q n). ?s x \<le> max acc (?s n)" using ac(2) by (auto simp: le_max_iff_disj)
  moreover have "max acc (?s n) \<in> insert 0 (?s ` insert n (found q n))" using ac(1) by (auto simp: max_def)
  moreover have "d_id dev3 = i" "d_c dev3 = d_c (sd_dev q)" "d_j dev3 = juggler_init r" "d_bi dev3 = None"
    using sc by (simp_all add: dev3 scanned_def)
  moreover have "\<forall>x\<in>insert n (found q n). ?s x = j_seqno (d_j (sd_dev q)) \<longrightarrow> status dev3 = status (sd_dev q) \<and>
      no_macroblocks dev3 = no_macroblocks (sd_dev q) \<and> reserved_macroblocks dev3 = reserved_macroblocks (sd_dev q) \<and>
      seqnos_hash dev3 = juggler_hash_scheduled_seqnos (g_sha256 g) (infos (sd_b q)) (d_j (sd_dev q))"
  proof (intro ballI impI)
    fix x assume x: "x \<in> insert n (found q n)" "?s x = j_seqno (d_j (sd_dev q))"
    show "status dev3 = status (sd_dev q) \<and> no_macroblocks dev3 = no_macroblocks (sd_dev q) \<and>
      reserved_macroblocks dev3 = reserved_macroblocks (sd_dev q) \<and>
      seqnos_hash dev3 = juggler_hash_scheduled_seqnos (g_sha256 g) (infos (sd_b q)) (d_j (sd_dev q))"
    proof (cases "x = n")
      case True
      have "?s y \<le> ?s n" if "y \<in> found q n" for y
        using that scheduled_seqno [OF f(2), of y] x True by (simp add: found_def)
      then have "acc < ?s n" using ac(1) acc by (auto simp: order_less_le)
      with hd x True show ?thesis by (simp add: dev3)
    next
      case False
      then have "\<not> acc < ?s n" using x ac(2) [of x] scheduled_seqno [OF f(2) sched] by (auto simp: not_less)
      with False x sc show ?thesis by (simp add: scanned_def dev3) blast
    qed
  qed
  ultimately have "scanned g lg q b i r (Suc n) b2 dev3 (max acc (?s n))"
    unfolding scanned_def found_Suc using sched by (simp only: if_True simp_thms)
  then have "scanned g lg q b i r (Suc n) ((set_info b' n bi')\<lparr>unallocated := remove1 n (unallocated b')\<rparr>) dev3 (max acc (?s n))"
    by (simp only: b2_def)
  with run show ?thesis by blast
qed

lemma scan_step:
  assumes q: "quiet g lg q" and cl: "closed g q b i" and n: "n < total_macroblocks b" and sc: "scanned g lg q b i r n b' dev acc"
  shows "\<exists>b2 dev2 acc2. blockio_dev_scan_header g n ((b', dev), acc) = Inr ((b2, dev2), acc2) \<and> scanned g lg q b i r (Suc n) b2 dev2 acc2"
proof (cases "n \<in> set (scheduled (d_j (sd_dev q)))")
  case True
  then show ?thesis by (rule scan_found [OF q cl n sc])
next
  case other: False
  note f = scan_facts [OF q cl n sc]
  show ?thesis
  proof (cases "bi_dev (infos b n) = None")
    case False
    with other n f(12,17) sc show ?thesis by (simp add: blockio_dev_scan_header_def scanned_def found_Suc)
  next
    case True
    have "mesoblk_log b' = mesoblk_log b" using f(18) by (simp add: same_layout_def)
    then have "\<not> recognised g (d_c dev) b' n" using f(9) [OF True other] f(11,19) by (simp add: recognised_def header_valid_def)
    then obtain tmp where tmp: "length tmp = 2 ^ macroblock_log b'"
      "blockio_dev_scan_header g n ((b', dev), acc) = Inr ((b', dev\<lparr>tmp_macroblock := tmp\<rparr>), acc)"
      using scan_unrecognised [OF f(15,16,21), of n acc] n f(12,17) True by auto
    have "dev_ok b (dev\<lparr>tmp_macroblock := tmp\<rparr>)" using f(10,18) tmp(1) by (simp add: dev_ok_def same_layout_def)
    then have "scanned g lg q b i r (Suc n) b' (dev\<lparr>tmp_macroblock := tmp\<rparr>) acc" using sc other by (simp add: scanned_def found_Suc)
    with tmp(2) show ?thesis by blast
  qed
qed

lemma scan_all:
  assumes q: "quiet g lg q" and cl: "closed g q b i"
  shows "\<exists>b' dev acc. rfold (blockio_dev_scan_header g) [0..<total_macroblocks b] ((b, fresh_dev b i (d_c (sd_dev q)) r), 0) = Inr ((b', dev), acc) \<and>
    scanned g lg q b i r (total_macroblocks b) b' dev acc"
proof -
  let ?d = "fresh_dev b i (d_c (sd_dev q)) r"
  have geo: "geometry b" and lay: "same_layout (sd_b q) b" using cl by (simp_all add: closed_def)
  have "unat (of_nat (max_macroblocks b) :: u32) + 31 < 2 ^ 32"
    using geometry_sizes(7) [OF geo] by (simp add: unat_of_nat_small)
  then have "dev_ok b ?d"
    using bitmap_init_inv(1) [of "of_nat (max_macroblocks b)"] q lay
    by (simp add: dev_ok_def fresh_dev_def bitmap_init_def quiet_def core_inv_def base_inv_def same_layout_def)
  then have start: "scanned g lg q b i r 0 b ?d 0"
    by (simp add: scanned_def found_def fresh_dev_def seqno_ordered_def)
  have "\<exists>b' dev acc. rfold (blockio_dev_scan_header g) [0..<n] ((b, ?d), 0) = Inr ((b', dev), acc) \<and> scanned g lg q b i r n b' dev acc"
    if "n \<le> total_macroblocks b" for n
    using that
  proof (induction n)
    case (Suc n)
    then obtain b' dev acc where *: "rfold (blockio_dev_scan_header g) [0..<n] ((b, ?d), 0) = Inr ((b', dev), acc)"
      "scanned g lg q b i r n b' dev acc" by auto
    with scan_step [OF q cl _ *(2)] Suc.prems show ?case by (auto simp: rfold_append)
  qed (use start in auto)
  then show ?thesis by blast
qed

section \<open>Claiming the blocks that hold nothing\<close>

definition empties :: "sdev \<Rightarrow> nat \<Rightarrow> nat list" where
  "empties q n = filter (\<lambda>x. x \<in> set (unscheduled (d_j (sd_dev q)))) [0..<n]"

definition claimed_b :: "sdev \<Rightarrow> blockio \<Rightarrow> blockio_dev \<Rightarrow> nat \<Rightarrow> blockio" where
  "claimed_b q b dev n = b\<lparr>infos := (\<lambda>x. if x \<in> set (empties q n) then prepared b dev (infos b x) else infos b x),
     unallocated := filter (\<lambda>x. x \<notin> set (empties q n)) (unallocated b)\<rparr>"

definition claimed_dev :: "sdev \<Rightarrow> blockio_dev \<Rightarrow> nat \<Rightarrow> blockio_dev" where
  "claimed_dev q dev n = dev\<lparr>d_j := (d_j dev)\<lparr>unscheduled := rev (empties q n), no_unscheduled := of_nat (length (empties q n))\<rparr>\<rparr>"

lemma empties_Suc: "empties q (Suc n) = (if n \<in> set (unscheduled (d_j (sd_dev q))) then empties q n @ [n] else empties q n)"
  by (simp add: empties_def)

lemma claim_empty:
  assumes used: "blockio_dev_get_macroblock_status_bynum dev n = Inr USED" and n: "n < total_macroblocks b" "bi_dev (infos b n) = None"
    "n \<in> set (unallocated b)" "distinct (unallocated b)" and un: "n \<in> set (unscheduled (d_j (sd_dev q)))" and j: "scheduled (d_j dev) = []"
  shows "claim_unwritten n (claimed_b q b dev n, claimed_dev q dev n) = Inr (claimed_b q b dev (Suc n), claimed_dev q dev (Suc n))"
proof -
  have new: "n \<notin> set (empties q n)" by (simp add: empties_def)
  have nx: "juggler_next (d_j (claimed_dev q dev n)) n = None"
    using j new by (simp add: juggler_next_def claimed_dev_def list_next_notin)
  have st: "blockio_dev_get_macroblock_status_bynum (claimed_dev q dev n) n = Inr USED"
    using used by (simp add: blockio_dev_get_macroblock_status_bynum_def claimed_dev_def)
  have rm: "remove1 n (filter (\<lambda>x. x \<notin> set (empties q n)) (unallocated b)) = filter (\<lambda>x. x \<notin> set (empties q (Suc n))) (unallocated b)"
    using n(4) un by (auto simp: empties_Suc distinct_remove1_removeAll removeAll_filter_not_eq intro!: filter_cong)
  let ?b = "set_info ((claimed_b q b dev n)\<lparr>unallocated := remove1 n (unallocated (claimed_b q b dev n))\<rparr>) n
    ((infos (claimed_b q b dev n) n)\<lparr>bi_dev := Some (d_id dev)\<rparr>)"
  have "blockio_prepare_block ?b n = Inr (claimed_b q b dev (Suc n))"
    using new un rm by (auto simp: blockio_prepare_block_def set_info_def claimed_b_def empties_Suc prepared_def fun_eq_iff)
  moreover have "juggler_add_macroblock (infos (claimed_b q b dev (Suc n))) (d_j (claimed_dev q dev n)) n = Inr (d_j (claimed_dev q dev (Suc n)))"
    using nx un by (simp add: juggler_add_macroblock_def claimed_b_def claimed_dev_def empties_Suc prepared_def)
  moreover have "(claimed_dev q dev n)\<lparr>d_j := d_j (claimed_dev q dev (Suc n))\<rparr> = claimed_dev q dev (Suc n)"
    by (simp add: claimed_dev_def)
  moreover have "d_id (claimed_dev q dev n) = d_id dev" "total_macroblocks (claimed_b q b dev n) = total_macroblocks b"
    "infos (claimed_b q b dev n) n = infos b n" "n \<in> set (unallocated (claimed_b q b dev n))"
    using new n by (simp_all add: claimed_b_def claimed_dev_def)
  ultimately show ?thesis
    using st n by (simp add: claim_unwritten_def Let_def)
qed

text \<open>The scan is complete: every scheduled block was found, and the device has its sizes back.\<close>

lemma scan_complete:
  assumes q: "quiet g lg q" and cl: "closed g q b i" and sc: "scanned g lg q b i r (total_macroblocks b) b' dev acc"
  shows "found q (total_macroblocks b) = set (scheduled (d_j (sd_dev q)))" "status dev = status (sd_dev q)"
    "no_macroblocks dev = no_macroblocks (sd_dev q)" "reserved_macroblocks dev = reserved_macroblocks (sd_dev q)"
    "seqnos_hash dev = juggler_hash_scheduled_seqnos (g_sha256 g) (infos (sd_b q)) (d_j (sd_dev q))"
    "distinct (replay_list dev)" "replay_list dev \<noteq> []" "bitmap_abs (status dev) = blocks q"
    "x \<in> blocks q \<Longrightarrow> x < total_macroblocks b" "set (scheduled (d_j (sd_dev q))) \<inter> set (unscheduled (d_j (sd_dev q))) = {}"
proof -
  have "\<forall>x\<in>blocks q. x < total_macroblocks (sd_b q)" using q by (auto simp: quiet_def core_inv_def block_inv_def)
  then show t: "x < total_macroblocks b" if "x \<in> blocks q" for x using cl that by (simp add: closed_def)
  then show f: "found q (total_macroblocks b) = set (scheduled (d_j (sd_dev q)))" by (auto simp: found_def)
  obtain c where c: "c \<in> set (scheduled (d_j (sd_dev q)))" "bi_seqno (info_of q c) = j_seqno (d_j (sd_dev q))"
    using q by (auto simp: quiet_def headed_def)
  then show s: "status dev = status (sd_dev q)" and "no_macroblocks dev = no_macroblocks (sd_dev q)"
    "reserved_macroblocks dev = reserved_macroblocks (sd_dev q)"
    "seqnos_hash dev = juggler_hash_scheduled_seqnos (g_sha256 g) (infos (sd_b q)) (d_j (sd_dev q))"
    using sc f unfolding scanned_def by blast+
  show "bitmap_abs (status dev) = blocks q" using q s by (simp add: quiet_def log_inv_def owner_inv_def)
  have "set (replay_list dev) = set (scheduled (d_j (sd_dev q)))" using sc f by (simp add: scanned_def)
  then show "replay_list dev \<noteq> []" using c(1) by auto
  have "seqno_ordered (infos b') (replay_list dev)" using sc by (simp add: scanned_def)
  then show "distinct (replay_list dev)" by (rule seqno_ordered_distinct)
  show "set (scheduled (d_j (sd_dev q))) \<inter> set (unscheduled (d_j (sd_dev q))) = {}"
    using q scheduled_once by (auto simp: quiet_def core_inv_def)
qed

lemma claim_all:
  assumes q: "quiet g lg q" and cl: "closed g q b i" and sc: "scanned g lg q b i r (total_macroblocks b) b' dev acc"
    and n: "n \<le> max_macroblocks b"
  shows "rfold claim_unwritten [0..<n] (b', dev) = Inr (claimed_b q b' dev n, claimed_dev q dev n)"
  using n
proof (induction n)
  case 0
  have "d_j dev = juggler_init r" using sc by (simp add: scanned_def)
  then have "claimed_b q b' dev 0 = b'" "claimed_dev q dev 0 = dev"
    by (simp_all add: claimed_b_def claimed_dev_def empties_def juggler_init_def)
  then show ?case by simp
next
  case (Suc n)
  note cp = scan_complete [OF q cl sc]
  have k: "dev_ok b dev" "d_j dev = juggler_init r" "d_id dev = i" "total_macroblocks b' = total_macroblocks b"
    "unallocated b' = filter (\<lambda>x. x \<notin> found q (total_macroblocks b)) (unallocated b)"
    using sc scanned_layout [OF sc] by (simp_all add: scanned_def)
  have "n < unat (no_bits (status dev))" 
    using Suc.prems k(1) geometry_sizes(7) [of b] cl by (simp add: dev_ok_def unat_of_nat_small closed_def)
  then have st: "blockio_dev_get_macroblock_status_bynum dev n = Inr (if n \<in> blocks q then USED else FREE)"
    using of_nat_index [of "status dev" n] bitmap_getbits_single [of "status dev" "of_nat n"] k(1) cp(8)
    by (simp add: blockio_dev_get_macroblock_status_bynum_def dev_ok_def)
  have "claim_unwritten n (claimed_b q b' dev n, claimed_dev q dev n) = Inr (claimed_b q b' dev (Suc n), claimed_dev q dev (Suc n))"
  proof (cases "n \<in> set (unscheduled (d_j (sd_dev q)))")
    case True
    then have x: "n < total_macroblocks b" "n \<notin> found q (total_macroblocks b)" using cp(1,9,10) by auto
    then have "infos b' n = infos b n" using sc by (simp add: scanned_def)
    moreover have "bi_dev (infos b n) = None" "n \<in> set (unallocated b)" "distinct (unallocated b)"
      using cl x(1) True unfolding closed_def by auto
    ultimately show ?thesis
      using x True k st by (intro claim_empty) (simp_all add: juggler_init_def)
  next
    case False
    then have same: "claimed_b q b' dev (Suc n) = claimed_b q b' dev n" "claimed_dev q dev (Suc n) = claimed_dev q dev n"
      by (simp_all add: claimed_b_def claimed_dev_def empties_Suc)
    have st': "blockio_dev_get_macroblock_status_bynum (claimed_dev q dev n) n = blockio_dev_get_macroblock_status_bynum dev n"
      by (simp add: blockio_dev_get_macroblock_status_bynum_def claimed_dev_def)
    show ?thesis
    proof (cases "n \<in> set (scheduled (d_j (sd_dev q)))")
      case True
      then have "\<exists>h. infos b' n = found_info lg q b i h n" using sc cp(1) by (simp add: scanned_def)
      then have "bi_dev (infos (claimed_b q b' dev n) n) = Some i"
        using False by (auto simp: claimed_b_def empties_def found_info_def)
      moreover have "d_id (claimed_dev q dev n) = i" "\<not> total_macroblocks (claimed_b q b' dev n) \<le> n"
        using k(3,4) cp(9) [of n] True by (simp_all add: claimed_dev_def claimed_b_def)
      ultimately show ?thesis using st st' True same by (simp add: claim_unwritten_def)
    qed (use st st' False same in \<open>simp add: claim_unwritten_def\<close>)
  qed
  with Suc show ?case by (simp add: rfold_append)
qed

section \<open>The device before its replay\<close>

definition opened :: "gcrypt \<Rightarrow> (nat \<Rightarrow> u32 list) \<Rightarrow> sdev \<Rightarrow> blockio \<Rightarrow> nat \<Rightarrow> random_t \<Rightarrow> blockio \<Rightarrow> blockio_dev \<Rightarrow> bool" where
  "opened g lg q b i r b0 d0 \<longleftrightarrow>
     b0 = b\<lparr>infos := infos b0, unallocated := filter (\<lambda>x. x \<notin> blocks q) (unallocated b)\<rparr> \<and>
     (\<forall>x. x \<notin> blocks q \<longrightarrow> infos b0 x = infos b x) \<and>
     (\<forall>x\<in>set (scheduled (d_j (sd_dev q))). \<exists>h. infos b0 x = found_info lg q b i h x) \<and>
     (\<forall>x\<in>set (unscheduled (d_j (sd_dev q))). infos b0 x = prepared b d0 (infos b x)) \<and>
     dev_ok b0 d0 \<and> set (replay_list d0) = set (scheduled (d_j (sd_dev q))) \<and> seqno_ordered (infos b0) (replay_list d0) \<and>
     d_id d0 = i \<and> d_c d0 = d_c (sd_dev q) \<and> d_bi d0 = None \<and> status d0 = status (sd_dev q) \<and> no_macroblocks d0 = no_macroblocks (sd_dev q) \<and>
     reserved_macroblocks d0 = reserved_macroblocks (sd_dev q) \<and>
     seqnos_hash d0 = juggler_hash_scheduled_seqnos (g_sha256 g) (infos (sd_b q)) (d_j (sd_dev q)) \<and>
     (\<exists>us. mset us = mset (unscheduled (d_j (sd_dev q))) \<and>
        d_j d0 = (juggler_init r)\<lparr>unscheduled := us, no_unscheduled := of_nat (length us)\<rparr>)"

lemma dev_init_opened:
  assumes q: "quiet g lg q" and cl: "closed g q b i"
  shows "\<exists>b0 d0. blockio_dev_init g b i (d_c (sd_dev q)) (Some r) = Inr (b0, d0) \<and> opened g lg q b i r b0 d0"
proof -
  obtain b' dev acc where run: "rfold (blockio_dev_scan_header g) [0..<total_macroblocks b] ((b, fresh_dev b i (d_c (sd_dev q)) r), 0) =
      Inr ((b', dev), acc)" and sc: "scanned g lg q b i r (total_macroblocks b) b' dev acc"
    using scan_all [OF q cl] by blast
  note cp = scan_complete [OF q cl sc]
  have geo: "geometry b" using cl by (simp add: closed_def)
  let ?us = "empties q (max_macroblocks b)" and ?b = "claimed_b q b' dev (max_macroblocks b)" and ?d = "claimed_dev q dev (max_macroblocks b)"
  let ?j = "d_j (sd_dev q)"
  have jq: "juggler_inv (infos (sd_b q)) ?j" using q by (simp add: quiet_def core_inv_def base_inv_def)
  have "total_macroblocks b \<le> max_macroblocks b" using geo unfolding geometry_def by blast
  then have us: "set ?us = set (unscheduled ?j)" "distinct ?us" using cp(9) by (auto simp: empties_def dest: order_less_le_trans)
  then have ms: "mset ?us = mset (unscheduled ?j)" using jq by (simp add: set_eq_iff_mset_eq_distinct juggler_inv_def)
  have fd: "set (replay_list dev) = set (scheduled ?j)" "max_macroblocks b' = max_macroblocks b"
    using sc cp(1) scanned_layout [OF sc] by (simp_all add: scanned_def)
  have ms2: "mset (replay_list dev) = mset (scheduled ?j)"
    using fd(1) cp(6) jq by (simp add: set_eq_iff_mset_eq_distinct juggler_inv_def)
  have "card (blocks q) = length (scheduled ?j) + length (unscheduled ?j)"
    using jq distinct_card [of "scheduled ?j @ unscheduled ?j"] by (simp add: juggler_inv_def)
  moreover have "no_macroblocks (sd_dev q) = of_nat (card (blocks q))" using q by (simp add: quiet_def log_inv_def owner_inv_def)
  ultimately have count: "no_macroblocks ?d = of_nat (length (replay_list ?d)) + juggler_count (d_j ?d)"
    using mset_eq_length [OF ms] mset_eq_length [OF ms2] cp(3) sc
    by (simp add: claimed_dev_def juggler_count_def scanned_def juggler_init_def)
  have rep: "replay_list ?d = replay_list dev" by (simp add: claimed_dev_def)
  have "blockio_dev_init g b i (d_c (sd_dev q)) (Some r) = Inr (?b, ?d)"
    using geo bitmap_fits [OF geo] run cp(7) claim_all [OF q cl sc order_refl] fd(2) count
    by (simp add: blockio_dev_init_def random_init_def Let_def fresh_dev_def geometry_def)
  moreover have "opened g lg q b i r ?b ?d" unfolding opened_def
  proof (intro conjI ballI allI impI)
    obtain bis where "b' = b\<lparr>infos := bis, unallocated := filter (\<lambda>x. x \<notin> found q (total_macroblocks b)) (unallocated b)\<rparr>"
      using sc unfolding scanned_def by blast
    then show "?b = b\<lparr>infos := infos ?b, unallocated := filter (\<lambda>x. x \<notin> blocks q) (unallocated b)\<rparr>"
      using us(1) cp(1) by (simp add: claimed_b_def conj_commute)
    have b': "infos b' x = infos b x" if "x \<notin> set (scheduled ?j)" for x using sc that cp(1) by (simp add: scanned_def)
    then show "infos ?b x = infos b x" if "x \<notin> blocks q" for x using that us(1) by (simp add: claimed_b_def)
    show "\<exists>h. infos ?b x = found_info lg q b i h x" if "x \<in> set (scheduled ?j)" for x
      using that us(1) cp(1,10) sc by (auto simp: claimed_b_def scanned_def)
    show "infos ?b x = prepared b ?d (infos b x)" if "x \<in> set (unscheduled ?j)" for x
    proof -
      have "infos b' x = infos b x" using that cp(10) b' by blast
      then show ?thesis using that us(1) scanned_layout(3) [OF sc] by (simp add: claimed_b_def prepared_def claimed_dev_def)
    qed
    show "dev_ok ?b ?d" using sc scanned_layout(6) [OF sc] by (simp add: claimed_b_def claimed_dev_def scanned_def)
    show "set (replay_list ?d) = set (scheduled ?j)" using fd(1) rep by simp
    have "seqno_ordered (infos ?b) (replay_list dev) = seqno_ordered (infos b') (replay_list dev)"
      using fd(1) us(1) cp(10) by (intro seqno_ordered_cong) (auto simp: claimed_b_def)
    then show "seqno_ordered (infos ?b) (replay_list ?d)" using sc rep by (simp add: scanned_def)
    show "\<exists>us. mset us = mset (unscheduled ?j) \<and> d_j ?d = (juggler_init r)\<lparr>unscheduled := us, no_unscheduled := of_nat (length us)\<rparr>"
      using ms sc by (intro exI [of _ "rev ?us"]) (simp add: claimed_dev_def scanned_def)
  qed (use sc cp(2-5) in \<open>simp_all add: claimed_dev_def scanned_def\<close>)
  ultimately show ?thesis by blast
qed

end
