(* ===== verification/Scubed3_Reopen.thy ===== *)
theory Scubed3_Reopen
  imports Scubed3_Scan
begin

text \<open>
  Closing a device and opening it again (blockio_dev_free and blockio_dev_init of src/src/blockio.c, scubed3_init of
  src/src/scubed3.c): the replay rebuilds the table, the juggler gets its schedule back, and the device that comes up has the
  contents of the one that was closed, provided the close wrote the current macroblock.
\<close>

section \<open>The replay\<close>

text \<open>The state in which the replay starts, and what the blocks of the device look like then.\<close>

definition reopen_start :: "sdev \<Rightarrow> bool \<Rightarrow> blockio \<Rightarrow> blockio_dev \<Rightarrow> sdev" where
  "reopen_start q ec b0 d0 = \<lparr>sd_b = b0, sd_dev = d0,
     sd_l = (sd_l q)\<lparr>output_initialized := False, block_indices := replicate (size_of q) NOWHERE\<rparr>, sd_errorcheck = ec\<rparr>"

lemma reopen_start_fields [simp]:
  "sd_b (reopen_start q ec b0 d0) = b0" "sd_dev (reopen_start q ec b0 d0) = d0" "size_of (reopen_start q ec b0 d0) = size_of q"
  "place (sd_l (reopen_start q ec b0 d0)) = place (sd_l q)" "ID (sd_l (reopen_start q ec b0 d0)) = ID (sd_l q)"
  "NO (sd_l (reopen_start q ec b0 d0)) = NO (sd_l q)" "bits_ok (sd_l (reopen_start q ec b0 d0)) = bits_ok (sd_l q)"
  "mesobits (sd_l (reopen_start q ec b0 d0)) = mesobits (sd_l q)" "info_of (reopen_start q ec b0 d0) = infos b0"
  by (auto simp: reopen_start_def place_def ID_def NO_def bits_ok_def info_of_def fun_eq_iff)

lemma opened_block:
  assumes q: "quiet g lg q" and op: "opened g lg q b i r b0 d0"
  shows "x \<in> blocks q \<Longrightarrow> bi_seqno (infos b0 x) = bi_seqno (info_of q x) \<and> bi_next_seqno (infos b0 x) = bi_next_seqno (info_of q x)"
    "x \<in> blocks q \<Longrightarrow> bi_dev (infos b0 x) = Some i"
    "x \<in> set (scheduled (d_j (sd_dev q))) \<Longrightarrow> indices (infos b0 x) = lg x @ replicate (mmpm b - length (lg x)) 0 \<and>
       no_indices (infos b0 x) = of_nat (length (lg x)) \<and> no_nonobsolete (infos b0 x) = of_nat (length (lg x))"
    "x \<in> set (unscheduled (d_j (sd_dev q))) \<Longrightarrow> no_indices (infos b0 x) = 0 \<and> no_nonobsolete (infos b0 x) = 0 \<and> length (indices (infos b0 x)) = mmpm b"
proof -
  have un: "bi_seqno (info_of q x) = 0" "bi_next_seqno (info_of q x) = 0" if "x \<in> set (unscheduled (d_j (sd_dev q)))" for x
    using q that by (auto simp: quiet_def core_inv_def base_inv_def juggler_inv_def info_of_def)
  have s: "\<exists>h. infos b0 x = found_info lg q b i h x" if "x \<in> set (scheduled (d_j (sd_dev q)))" for x
    using op that by (simp add: opened_def)
  have u: "infos b0 x = prepared b d0 (infos b x)" "d_id d0 = i" if "x \<in> set (unscheduled (d_j (sd_dev q)))" for x
    using op that by (simp_all add: opened_def)
  show "x \<in> blocks q \<Longrightarrow> bi_seqno (infos b0 x) = bi_seqno (info_of q x) \<and> bi_next_seqno (infos b0 x) = bi_next_seqno (info_of q x)"
    "x \<in> blocks q \<Longrightarrow> bi_dev (infos b0 x) = Some i"
    using s [of x] u [of x] un [of x] by (auto simp: found_info_def prepared_def)
  show "x \<in> set (scheduled (d_j (sd_dev q))) \<Longrightarrow> indices (infos b0 x) = lg x @ replicate (mmpm b - length (lg x)) 0 \<and>
       no_indices (infos b0 x) = of_nat (length (lg x)) \<and> no_nonobsolete (infos b0 x) = of_nat (length (lg x))"
    using s [of x] by (auto simp: found_info_def)
  show "x \<in> set (unscheduled (d_j (sd_dev q))) \<Longrightarrow> no_indices (infos b0 x) = 0 \<and> no_nonobsolete (infos b0 x) = 0 \<and> length (indices (infos b0 x)) = mmpm b"
    using u [of x] by (simp add: prepared_def)
qed

lemma opened_layout:
  assumes "closed g q b i" "opened g lg q b i r b0 d0"
  shows "same_layout (sd_b q) b0" "total_macroblocks b0 = total_macroblocks (sd_b q)" "mmpm b = mmpm (sd_b q)" "mmpm b0 = mmpm (sd_b q)"
    "geometry b0" "macro_at b0 = macro_at b" "unallocated b0 = filter (\<lambda>x. x \<notin> blocks q) (unallocated b)" "macroblock_log b0 = macroblock_log (sd_b q)"
    "mesoblk_log b0 = mesoblk_log (sd_b q)"
proof -
  obtain bis where "b0 = b\<lparr>infos := bis, unallocated := filter (\<lambda>x. x \<notin> blocks q) (unallocated b)\<rparr>"
    using assms(2) unfolding opened_def by blast
  then show "same_layout (sd_b q) b0" "total_macroblocks b0 = total_macroblocks (sd_b q)" "mmpm b = mmpm (sd_b q)" "mmpm b0 = mmpm (sd_b q)"
    "geometry b0" "macro_at b0 = macro_at b" "unallocated b0 = filter (\<lambda>x. x \<notin> blocks q) (unallocated b)" "macroblock_log b0 = macroblock_log (sd_b q)"
    "mesoblk_log b0 = mesoblk_log (sd_b q)"
    using assms(1) by (simp_all add: closed_def same_layout_def macro_at_def fun_eq_iff)
qed

lemma reopen_replay_ok:
  assumes q: "quiet g lg q" and cl: "closed g q b i" and op: "opened g lg q b i r b0 d0"
  shows "replay_ok lg (reopen_start q ec b0 d0) (set (scheduled (d_j (sd_dev q))))"
proof -
  note lay = opened_layout [OF cl op]
  have base: "base_inv g q" and lgi: "log_inv g lg q" and core: "core_inv g q" using q by (simp_all add: quiet_def core_inv_def)
  have blk: "x < total_macroblocks (sd_b q) \<and> length (lg x) \<le> mmpm (sd_b q) \<and> distinct (lg x) \<and> length (indices (infos b0 x)) = mmpm (sd_b q) \<and>
      take (length (lg x)) (indices (infos b0 x)) = lg x \<and> (\<forall>m\<in>set (lg x). unat m < size_of q)"
    if x: "x \<in> set (scheduled (d_j (sd_dev q)))" for x
  proof -
    obtain bd where "written_as g q x (lg x) bd" using log_writer [OF q x] by blast
    from written_as_info(2) [OF this, of "sd_b q"] have "length (lg x) \<le> mmpm (sd_b q)" by (simp add: same_layout_def)
    moreover have "block_log g lg q x" using lgi x by (simp add: log_inv_def)
    moreover have "x < total_macroblocks (sd_b q)" using core x by (auto simp: core_inv_def block_inv_def)
    ultimately show ?thesis using opened_block(3) [OF q op x] lay(3) by (simp add: block_log_def)
  qed
  have "inj_on (\<lambda>x. bi_seqno (infos b0 x)) (set (scheduled (d_j (sd_dev q))))"
    using lgi opened_block(1) [OF q op] unfolding log_inv_def inj_on_def by auto
  moreover have "mmpm (sd_b q) + 1 = 2 ^ mesobits (sd_l q)" by (rule base_slots(1) [OF base])
  ultimately show ?thesis using blk base lay(2,4) unfolding replay_ok_def by (simp add: base_inv_def)
qed

lemma reopen_pending:
  assumes q: "quiet g lg q" and cl: "closed g q b i" and op: "opened g lg q b i r b0 d0"
  shows "replay_state lg (reopen_start q ec b0 d0) (set (scheduled (d_j (sd_dev q)))) {} (replicate (size_of q) NOWHERE) = reopen_start q ec b0 d0"
proof -
  have "pending lg l {} tbl x = {..<length (lg x)}" for l tbl x by (auto simp: pending_def)
  moreover have "{..<length (lg x)} = {} \<longleftrightarrow> lg x = []" for x by auto
  ultimately have "replay_info lg (reopen_start q ec b0 d0) (set (scheduled (d_j (sd_dev q)))) {} (replicate (size_of q) NOWHERE) = infos b0"
    using opened_block(3) [OF q op] by (auto simp: replay_info_def fun_eq_iff)
  then show ?thesis by (simp add: replay_state_def reopen_start_def)
qed

lemma replay_info_seqno [simp]:
  "bi_seqno (replay_info lg s R seen tbl x) = bi_seqno (info_of s x)" "bi_next_seqno (replay_info lg s R seen tbl x) = bi_next_seqno (info_of s x)"
  "bi_dev (replay_info lg s R seen tbl x) = bi_dev (info_of s x)"
  by (simp_all add: replay_info_def Let_def)

lemma info_of_dev [simp]: "info_of (s\<lparr>sd_dev := d\<rparr>) = info_of s"
  by (simp add: info_of_def fun_eq_iff)

lemma to_juggler_rebuild: "to_juggler bis xs = juggler_rebuild bis xs"
proof (induction xs)
  case (Cons x xs)
  then have "to_juggler bis xs = rfold (\<lambda>b j. juggler_add_macroblock bis j b) xs" by (simp add: juggler_rebuild_def)
  then show ?case unfolding juggler_rebuild_def by (intro ext) simp
qed (simp add: juggler_rebuild_def fun_eq_iff)

text \<open>The juggler gets its schedule back.\<close>

lemma reopen_juggler:
  assumes q: "quiet g lg q" and op: "opened g lg q b i r b0 d0"
    and bis: "\<And>x. bi_seqno (bis x) = bi_seqno (infos b0 x) \<and> bi_next_seqno (bis x) = bi_next_seqno (infos b0 x)"
  defines "jq \<equiv> d_j (sd_dev q)"
  shows "\<exists>j. to_juggler bis (rev (replay_list d0)) (d_j d0) = Inr j \<and> scheduled j = scheduled jq \<and> mset (unscheduled j) = mset (unscheduled jq) \<and>
    no_scheduled j = no_scheduled jq \<and> no_unscheduled j = no_unscheduled jq \<and> j_seqno j = j_seqno jq \<and> j_r j = r \<and>
    juggler_inv bis jq \<and> juggler_ready bis jq \<and>
    juggler_hash_scheduled_seqnos sha bis j = juggler_hash_scheduled_seqnos sha (infos (sd_b q)) jq"
proof -
  have same: "bi_seqno (bis x) = bi_seqno (infos (sd_b q) x) \<and> bi_next_seqno (bis x) = bi_next_seqno (infos (sd_b q) x)"
    if "x \<in> set (scheduled jq @ unscheduled jq)" for x
    using opened_block(1) [OF q op, of x] bis that by (simp add: jq_def info_of_def)
  have inv: "juggler_inv bis jq" "juggler_ready bis jq"
    using juggler_cong [of jq bis "infos (sd_b q)", OF same] q by (simp_all add: jq_def quiet_def core_inv_def base_inv_def)
  obtain us where us: "mset us = mset (unscheduled jq)" "d_j d0 = (juggler_init r)\<lparr>unscheduled := us, no_unscheduled := of_nat (length us)\<rparr>"
    using op by (auto simp: opened_def jq_def)
  have "distinct (replay_list d0)" "set (replay_list d0) = set (scheduled jq)"
    using op by (auto simp: opened_def jq_def intro: seqno_ordered_distinct)
  then have "mset (replay_list d0) = mset (scheduled jq)" using inv(1) by (simp add: set_eq_iff_mset_eq_distinct juggler_inv_def)
  then have ms: "mset (us @ rev (replay_list d0)) = mset (scheduled jq @ unscheduled jq)" using us(1) by simp
  have "bi_next_seqno (bis x) = 0" "bi_seqno (bis x) = 0" if "x \<in> set us" for x
    using inv(1) that mset_eq_setD [OF us(1)] by (auto simp: juggler_inv_def)
  then have "filter (\<lambda>x. bi_next_seqno (bis x) = 0) us = us" "insert 0 ((\<lambda>x. bi_seqno (bis x)) ` set us) = {0}" and none: "{x \<in> set us. bi_next_seqno (bis x) \<noteq> 0} = {}"
    by (auto simp: filter_id_conv)
  moreover from this(2) have "Max (insert 0 ((\<lambda>x. bi_seqno (bis x)) ` set us)) = 0" by (simp only: Max_singleton)
  ultimately have "juggler_knows bis us (d_j d0)" unfolding juggler_knows_def none by (simp add: us(2) juggler_init_def sched_ordered_def)
  then obtain j where j: "juggler_rebuild bis (rev (replay_list d0)) (d_j d0) = Inr j" "juggler_knows bis (us @ rev (replay_list d0)) j" "j_r j = j_r (d_j d0)"
    using juggler_rebuild_knows [of bis us "rev (replay_list d0)" "d_j d0"] juggler_inv_disk(1) [OF inv(1) ms] by blast
  have "\<exists>x\<in>set (scheduled jq). bi_seqno (bis x) = j_seqno jq"
    using q same by (auto simp: quiet_def headed_def jq_def info_of_def)
  note ks = juggler_knows_same [OF inv(1) ms this j(2)]
  have "map (\<lambda>x. binio_write_uint64_be (replicate 8 0) 0 (bi_seqno (bis x))) (scheduled jq) =
      map (\<lambda>x. binio_write_uint64_be (replicate 8 0) 0 (bi_seqno (infos (sd_b q) x))) (scheduled jq)"
    using same by (intro map_cong) auto
  then have "juggler_hash_scheduled_seqnos sha bis j = juggler_hash_scheduled_seqnos sha (infos (sd_b q)) jq"
    by (simp only: juggler_hash_scheduled_seqnos_def ks)
  with j ks inv show ?thesis by (simp add: to_juggler_rebuild us(2) juggler_init_def)
qed

lemma mesomask_init: "n \<le> 32 \<Longrightarrow> drop_bit (32 - n) NOWHERE = (mask n :: u32)"
proof -
  assume "n \<le> 32"
  then have "drop_bit (32 - n) (mask 32) = (mask n :: u32)" by (intro bit_word_eqI) (auto simp: bit_simps)
  moreover have "(mask 32 :: u32) = NOWHERE" by (simp add: mask_eq_exp_minus_1)
  ultimately show ?thesis by simp
qed

text \<open>The device as it comes up: the state after the replay, with its juggler.\<close>

definition reopened :: "gcrypt \<Rightarrow> (nat \<Rightarrow> u32 list) \<Rightarrow> sdev \<Rightarrow> bool \<Rightarrow> blockio \<Rightarrow> nat \<Rightarrow> random_t \<Rightarrow> sdev \<Rightarrow> bool" where
  "reopened g lg q ec b i r s \<longleftrightarrow> (\<exists>b0 d0 tbl j. opened g lg q b i r b0 d0 \<and>
     newest lg (reopen_start q ec b0 d0) (slots_of lg (set (scheduled (d_j (sd_dev q))))) tbl \<and>
     s = (replay_end lg (reopen_start q ec b0 d0) (set (scheduled (d_j (sd_dev q)))) tbl)\<lparr>sd_dev := d0\<lparr>d_j := j, replay_list := []\<rparr>\<rparr> \<and>
     scheduled j = scheduled (d_j (sd_dev q)) \<and> mset (unscheduled j) = mset (unscheduled (d_j (sd_dev q))) \<and>
     no_scheduled j = no_scheduled (d_j (sd_dev q)) \<and> no_unscheduled j = no_unscheduled (d_j (sd_dev q)) \<and>
     j_seqno j = j_seqno (d_j (sd_dev q)) \<and> j_r j = r \<and>
     juggler_inv (info_of s) (d_j (sd_dev q)) \<and> juggler_ready (info_of s) (d_j (sd_dev q)))"

lemma init_reopened:
  assumes q: "quiet g lg q" and cl: "closed g q b i" and op: "opened g lg q b i r b0 d0"
  shows "\<exists>s. scubed3_init g ec (b0, d0) = Inr (s, True) \<and> reopened g lg q ec b i r s"
proof -
  let ?s0 = "reopen_start q ec b0 d0" and ?R = "set (scheduled (d_j (sd_dev q)))"
  note rok = reopen_replay_ok [OF q cl op, of ec] and lay = opened_layout [OF cl op]
  have base: "base_inv g q" using q by (simp add: quiet_def core_inv_def)
  have op': "set (replay_list d0) = ?R" "seqno_ordered (infos b0) (replay_list d0)" "no_macroblocks d0 = no_macroblocks (sd_dev q)"
    "reserved_macroblocks d0 = reserved_macroblocks (sd_dev q)" "seqnos_hash d0 = juggler_hash_scheduled_seqnos (g_sha256 g) (infos (sd_b q)) (d_j (sd_dev q))"
    using op by (simp_all add: opened_def)
  obtain tbl where tbl: "iter_list (\<lambda>bi s. rbind (replay bi s) (\<lambda>s. Inr (None :: unit option, s))) (replay_list d0) ?s0 =
      Inr (None, replay_end lg ?s0 ?R tbl)" "newest lg ?s0 (slots_of lg ?R) tbl"
  proof -
    have "slots_of lg {} = {}" by (simp add: slots_of_def)
    then have "\<exists>tbl'. iter_list (\<lambda>bi s. rbind (replay bi s) (\<lambda>s. Inr (None :: unit option, s))) (replay_list d0)
        (replay_state lg ?s0 ?R (slots_of lg {}) (replicate (size_of q) NOWHERE)) =
        Inr (None, replay_state lg ?s0 ?R (slots_of lg ({} \<union> set (replay_list d0))) tbl') \<and>
        newest lg ?s0 (slots_of lg ({} \<union> set (replay_list d0))) tbl'"
      using newest_empty [of lg ?s0] op'(1,2) by (intro replay_all [OF rok]) (simp_all add: seqno_ordered_def)
    then show ?thesis using that reopen_pending [OF q cl op] op'(1) \<open>slots_of lg {} = {}\<close> by auto
  qed
  let ?bis = "replay_info lg ?s0 ?R (slots_of lg ?R) tbl"
  obtain j where j: "to_juggler ?bis (rev (replay_list d0)) (d_j d0) = Inr j" "scheduled j = scheduled (d_j (sd_dev q))"
    "mset (unscheduled j) = mset (unscheduled (d_j (sd_dev q)))" "no_scheduled j = no_scheduled (d_j (sd_dev q))"
    "no_unscheduled j = no_unscheduled (d_j (sd_dev q))" "j_seqno j = j_seqno (d_j (sd_dev q))" "j_r j = r"
    "juggler_inv ?bis (d_j (sd_dev q))" "juggler_ready ?bis (d_j (sd_dev q))"
    "juggler_hash_scheduled_seqnos (g_sha256 g) ?bis j = juggler_hash_scheduled_seqnos (g_sha256 g) (infos (sd_b q)) (d_j (sd_dev q))"
    using reopen_juggler [OF q op, of ?bis] by auto
  let ?t = "(replay_end lg ?s0 ?R tbl)\<lparr>sd_dev := d0\<lparr>d_j := j, replay_list := []\<rparr>\<rparr>"
  have inf: "infos (sd_b (replay_end lg ?s0 ?R tbl)) = ?bis" by (simp add: replay_state_def)
  have inf2: "info_of ?t = ?bis" by simp
  have ow: "owner_inv g q" and js: "juggler_inv (infos (sd_b q)) (d_j (sd_dev q))" using q base by (simp_all add: quiet_def log_inv_def base_inv_def)
  have "card (blocks q) < 2 ^ 31" using js card_length [of "scheduled (d_j (sd_dev q)) @ unscheduled (d_j (sd_dev q))"] by (simp add: juggler_inv_def)
  moreover have "card (blocks q) \<noteq> 0" using q by (auto simp: quiet_def headed_def card_eq_0_iff)
  ultimately have "no_macroblocks (sd_dev q) \<noteq> 0" using ow by (simp add: owner_inv_def word_unat_eq_iff unat_of_nat_small)
  moreover have "\<lparr>output_initialized = False, mesobits = macroblock_log b0 - mesoblk_log b0,
      mesomask = drop_bit (32 - (macroblock_log b0 - mesoblk_log b0)) NOWHERE, no_block_indices = no_block_indices (sd_l q),
      block_indices = replicate (size_of q) NOWHERE\<rparr> = sd_l ?s0"
    using base mesomask_init [of "mesobits (sd_l q)"] lay(8,9) by (simp add: reopen_start_def base_inv_def bits_ok_def)
  moreover have "no_block_indices (sd_l q) = (if no_macroblocks d0 \<le> reserved_macroblocks d0 then 0 else calc_no_block_indices b0 d0)"
    using ow op'(3,4) lay(4) by (simp add: owner_inv_def calc_no_block_indices_def)
  moreover have "?s0 = \<lparr>sd_b = b0, sd_dev = d0, sd_l = sd_l ?s0, sd_errorcheck = ec\<rparr>" by (simp add: reopen_start_def)
  ultimately have "scubed3_init g ec (b0, d0) = Inr (?t, True)"
    using tbl(1) j(1,10) op'(3,5) inf unfolding scubed3_init_def Let_def by simp
  moreover have "reopened g lg q ec b i r ?t" unfolding reopened_def inf2 using op tbl(2) j by blast
  ultimately show ?thesis by blast
qed

section \<open>The device after its replay\<close>

text \<open>Room in the sequence numbers for the random numbers that can be drawn.\<close>

definition room_for :: "random_t \<Rightarrow> sdev \<Rightarrow> bool" where
  "room_for r q \<longleftrightarrow> unat (j_seqno (d_j (sd_dev q))) + length r < 2 ^ 64 \<and>
     (\<forall>x\<in>set (scheduled (d_j (sd_dev q))). unat (bi_next_seqno (info_of q x)) + length r < 2 ^ 64)"

lemma reopened_fields:
  assumes "reopened g lg q ec b i r s"
  obtains b0 d0 tbl where "opened g lg q b i r b0 d0" "newest lg (reopen_start q ec b0 d0) (slots_of lg (set (scheduled (d_j (sd_dev q))))) tbl"
    "info_of s = replay_info lg (reopen_start q ec b0 d0) (set (scheduled (d_j (sd_dev q)))) (slots_of lg (set (scheduled (d_j (sd_dev q))))) tbl"
    "sd_l s = (sd_l q)\<lparr>output_initialized := False, block_indices := tbl\<rparr>"
    "sd_b s = b0\<lparr>infos := info_of s\<rparr>" "d_j (sd_dev s) = d_j (sd_dev s)" "sd_dev s = d0\<lparr>d_j := d_j (sd_dev s), replay_list := []\<rparr>"
    "live s = live (replay_end lg (reopen_start q ec b0 d0) (set (scheduled (d_j (sd_dev q)))) tbl)"
    "scheduled (d_j (sd_dev s)) = scheduled (d_j (sd_dev q))" "mset (unscheduled (d_j (sd_dev s))) = mset (unscheduled (d_j (sd_dev q)))"
    "no_scheduled (d_j (sd_dev s)) = no_scheduled (d_j (sd_dev q))" "no_unscheduled (d_j (sd_dev s)) = no_unscheduled (d_j (sd_dev q))"
    "j_seqno (d_j (sd_dev s)) = j_seqno (d_j (sd_dev q))" "j_r (d_j (sd_dev s)) = r"
    "juggler_inv (info_of s) (d_j (sd_dev q))" "juggler_ready (info_of s) (d_j (sd_dev q))"
proof -
  obtain b0 d0 tbl j where *: "opened g lg q b i r b0 d0"
     "newest lg (reopen_start q ec b0 d0) (slots_of lg (set (scheduled (d_j (sd_dev q))))) tbl"
     "s = (replay_end lg (reopen_start q ec b0 d0) (set (scheduled (d_j (sd_dev q)))) tbl)\<lparr>sd_dev := d0\<lparr>d_j := j, replay_list := []\<rparr>\<rparr>"
     "scheduled j = scheduled (d_j (sd_dev q))" "mset (unscheduled j) = mset (unscheduled (d_j (sd_dev q)))"
     "no_scheduled j = no_scheduled (d_j (sd_dev q))" "no_unscheduled j = no_unscheduled (d_j (sd_dev q))"
     "j_seqno j = j_seqno (d_j (sd_dev q))" "j_r j = r"
     "juggler_inv (info_of s) (d_j (sd_dev q))" "juggler_ready (info_of s) (d_j (sd_dev q))"
    using assms unfolding reopened_def by blast
  show ?thesis
  proof (rule that [OF *(1,2)])
    show "info_of s = replay_info lg (reopen_start q ec b0 d0) (set (scheduled (d_j (sd_dev q)))) (slots_of lg (set (scheduled (d_j (sd_dev q))))) tbl"
      by (simp add: *(3))
    show "sd_l s = (sd_l q)\<lparr>output_initialized := False, block_indices := tbl\<rparr>"
      by (simp add: *(3) replay_state_def) (simp add: reopen_start_def)
    show "sd_b s = b0\<lparr>infos := info_of s\<rparr>" by (simp add: *(3)) (simp add: replay_state_def)
    show "live s = live (replay_end lg (reopen_start q ec b0 d0) (set (scheduled (d_j (sd_dev q)))) tbl)"
      by (simp add: *(3) live_def fun_eq_iff)
  qed (use * in simp_all)
qed

lemma reopened_base:
  assumes q: "quiet g lg q" and cl: "closed g q b i" and ro: "reopened g lg q ec b i r s" and rm: "room_for r q"
  shows "base_inv g s" "blocks s = blocks q"
proof -
  obtain b0 d0 tbl where f: "opened g lg q b i r b0 d0" "newest lg (reopen_start q ec b0 d0) (slots_of lg (set (scheduled (d_j (sd_dev q))))) tbl"
    "sd_l s = (sd_l q)\<lparr>output_initialized := False, block_indices := tbl\<rparr>"
    "sd_b s = b0\<lparr>infos := info_of s\<rparr>" "sd_dev s = d0\<lparr>d_j := d_j (sd_dev s), replay_list := []\<rparr>"
    "scheduled (d_j (sd_dev s)) = scheduled (d_j (sd_dev q))" "mset (unscheduled (d_j (sd_dev s))) = mset (unscheduled (d_j (sd_dev q)))"
    "no_scheduled (d_j (sd_dev s)) = no_scheduled (d_j (sd_dev q))" "no_unscheduled (d_j (sd_dev s)) = no_unscheduled (d_j (sd_dev q))"
    "j_seqno (d_j (sd_dev s)) = j_seqno (d_j (sd_dev q))" "j_r (d_j (sd_dev s)) = r"
    "juggler_inv (info_of s) (d_j (sd_dev q))" "juggler_ready (info_of s) (d_j (sd_dev q))"
    "info_of s = replay_info lg (reopen_start q ec b0 d0) (set (scheduled (d_j (sd_dev q)))) (slots_of lg (set (scheduled (d_j (sd_dev q))))) tbl"
    using reopened_fields [OF ro] by metis
  note lay = opened_layout [OF cl f(1)]
  let ?j = "d_j (sd_dev s)" and ?q = "d_j (sd_dev q)"
  have us: "set (unscheduled ?j) = set (unscheduled ?q)" "length (unscheduled ?j) = length (unscheduled ?q)" "distinct (unscheduled ?j) = distinct (unscheduled ?q)"
    using f(7) by (metis mset_eq_setD, metis mset_eq_length, metis mset_eq_imp_distinct_iff)
  then show "blocks s = blocks q" using f(6) by simp
  have "bi_next_seqno (info_of s x) = bi_next_seqno (info_of q x)" if "x \<in> set (scheduled ?q)" for x
    using opened_block(1) [OF q f(1), of x] that f(14) by simp
  then have "juggler_inv (info_of s) ?j"
    using f(6-12) us rm by (auto simp: juggler_inv_def room_for_def)
  moreover have "juggler_get_obsoleted (info_of s) ?j = juggler_get_obsoleted (info_of s) ?q"
    by (simp only: juggler_get_obsoleted_def f(6,10))
  then have "juggler_ready (info_of s) ?j" using f(13) us(2) by (auto simp: juggler_ready_def)
  moreover have "infos (sd_b s) = info_of s" by (simp add: info_of_def fun_eq_iff)
  moreover have "dev_ok (sd_b s) (sd_dev s)" using f(1) by (subst f(4), subst f(5)) (simp add: opened_def)
  moreover have "cipher_ok g (d_c (sd_dev s))" "length tbl = size_of q" "bits_ok (sd_l s) = bits_ok (sd_l q)" "mesobits (sd_l s) = mesobits (sd_l q)"
    by (subst f(5); use q f(1) in \<open>simp add: opened_def quiet_def core_inv_def base_inv_def\<close>)
      (use f(2) in \<open>simp_all add: newest_def f(3) bits_ok_def\<close>)
  moreover have "geometry (sd_b s)" "macroblock_log (sd_b s) = macroblock_log (sd_b q)" "mesoblk_log (sd_b s) = mesoblk_log (sd_b q)"
    "total_macroblocks (sd_b s) = total_macroblocks (sd_b q)"
    using lay by (subst f(4), simp)+
  ultimately show "base_inv g s" using q f(3) by (simp add: base_inv_def quiet_def core_inv_def)
qed

text \<open>The descriptor of a block of the log after the replay.\<close>

lemma replayed_block:
  fixes tbl :: "u32 list" and ec :: bool
  assumes q: "quiet g lg q" and op: "opened g lg q b i r b0 d0" and x: "x \<in> set (scheduled (d_j (sd_dev q)))"
    and len: "length (lg x) \<le> mmpm b" "mmpm b < 2 ^ 14"
  defines "P \<equiv> pending lg (sd_l q) (slots_of lg (set (scheduled (d_j (sd_dev q))))) tbl x"
    and "bi \<equiv> replay_info lg (reopen_start q ec b0 d0) (set (scheduled (d_j (sd_dev q)))) (slots_of lg (set (scheduled (d_j (sd_dev q))))) tbl x"
  shows "unat (no_nonobsolete bi) = card P" "unat (no_indices bi) = (if P = {} then 0 else length (lg x))"
    "indices bi = lg x @ replicate (mmpm b - length (lg x)) 0"
    "P = {k. k < length (lg x) \<and> tbl ! unat (lg x ! k) = place (sd_l q) x k}"
proof -
  have "pending lg (sd_l (reopen_start q ec b0 d0)) (slots_of lg (set (scheduled (d_j (sd_dev q))))) tbl x = P"
    by (simp add: P_def pending_def)
  moreover have "card P \<le> length (lg x)" unfolding P_def by (rule card_pending)
  ultimately show "unat (no_nonobsolete bi) = card P" "unat (no_indices bi) = (if P = {} then 0 else length (lg x))"
    "indices bi = lg x @ replicate (mmpm b - length (lg x)) 0"
    using x len opened_block(3) [OF q op x] by (simp_all add: bi_def replay_info_def Let_def unat_of_nat_small)
  show "P = {k. k < length (lg x) \<and> tbl ! unat (lg x ! k) = place (sd_l q) x k}"
    using x by (auto simp: P_def pending_def slots_of_def)
qed

lemma reopened_core:
  assumes q: "quiet g lg q" and cl: "closed g q b i" and ro: "reopened g lg q ec b i r s" and rm: "room_for r q"
  shows "core_inv g s"
proof -
  obtain b0 d0 tbl where f: "opened g lg q b i r b0 d0" "newest lg (reopen_start q ec b0 d0) (slots_of lg (set (scheduled (d_j (sd_dev q))))) tbl"
    "sd_l s = (sd_l q)\<lparr>output_initialized := False, block_indices := tbl\<rparr>"
    "sd_b s = b0\<lparr>infos := info_of s\<rparr>" "sd_dev s = d0\<lparr>d_j := d_j (sd_dev s), replay_list := []\<rparr>"
    "info_of s = replay_info lg (reopen_start q ec b0 d0) (set (scheduled (d_j (sd_dev q)))) (slots_of lg (set (scheduled (d_j (sd_dev q))))) tbl"
    "live s = live (replay_end lg (reopen_start q ec b0 d0) (set (scheduled (d_j (sd_dev q)))) tbl)"
    "scheduled (d_j (sd_dev s)) = scheduled (d_j (sd_dev q))" "mset (unscheduled (d_j (sd_dev s))) = mset (unscheduled (d_j (sd_dev q)))"
    using reopened_fields [OF ro] by metis
  note lay = opened_layout [OF cl f(1)] and rok = reopen_replay_ok [OF q cl f(1), of ec] and base = reopened_base [OF q cl ro rm]
  let ?R = "set (scheduled (d_j (sd_dev q)))" and ?U = "set (unscheduled (d_j (sd_dev q)))"
  have us: "set (unscheduled (d_j (sd_dev s))) = ?U" using f(9) by (rule mset_eq_setD)
  have dis: "?R \<inter> ?U = {}" using q scheduled_once by (auto simp: quiet_def core_inv_def)
  have mm: "mmpm (sd_b s) = mmpm b" "mmpm b < 2 ^ 14" "total_macroblocks (sd_b s) = total_macroblocks (sd_b q)"
    using lay geometry_sizes(6) [of b] cl by (subst f(4), simp, simp add: closed_def, subst f(4), simp)
  have dev: "d_bi (sd_dev s) = None" "bitmap_abs (status (sd_dev s)) = blocks q"
    using f(1) q by (subst f(5), simp add: opened_def quiet_def log_inv_def owner_inv_def)+
  have log: "length (lg x) \<le> mmpm b" "distinct (lg x)" "\<And>m. m \<in> set (lg x) \<Longrightarrow> unat m < size_of q" if "x \<in> ?R" for x
    using rok that lay(3,4) by (auto simp: replay_ok_def)
  have lv: "{k. live s x k} = {k. k < length (lg x) \<and> tbl ! unat (lg x ! k) = place (sd_l q) x k}" if "x \<in> ?R" for x
    using replay_end_live [OF rok that, of tbl] f(7) that by (auto simp: pending_def slots_of_def)
  have "block_inv s x" if x: "x \<in> blocks q" for x
  proof -
    have t: "x < total_macroblocks (sd_b q)" "bi_dev (info_of s x) \<noteq> None"
      using q x opened_block(2) [OF q f(1) x] f(6) by (auto simp: quiet_def core_inv_def block_inv_def)
    show ?thesis
    proof (cases "x \<in> ?R")
      case True
      note rb = replayed_block(1-3) [OF q f(1) True log(1) [OF True] mm(2), where tbl = tbl and ec = ec, folded f(6)]
      note rp = replayed_block(4) [OF q f(1) True log(1) [OF True] mm(2), where tbl = tbl]
      have "distinct (take (used_of s x) (indices (info_of s x)))" using log(2) [OF True] rb(2,3) by simp
      moreover have "info_ok (sd_b s) (info_of s x)" using rb(2,3) log(1) [OF True] mm(1) by (simp add: info_ok_def)
      moreover have "unat (no_nonobsolete (info_of s x)) = card {k. live s x k}" using rb(1) rp lv [OF True] by simp
      moreover have "used_of s x = 0" if "no_nonobsolete (info_of s x) = 0" using rb(1,2) that by simp
      ultimately show ?thesis using t dev x True dis us mm(3) by (auto simp: block_inv_def)
    next
      case False
      then have "x \<in> ?U" "info_of s x = infos b0 x" using x f(6) by (auto simp: replay_info_def)
      with opened_block(4) [OF q f(1)] have "used_of s x = 0" "no_nonobsolete (info_of s x) = 0" "length (indices (info_of s x)) = mmpm b" by simp_all
      moreover from this have "{k. live s x k} = {}" by (simp add: live_def)
      ultimately show ?thesis using t dev x mm by (simp add: block_inv_def info_ok_def)
    qed
  qed
  moreover have "table_inv s" unfolding table_inv_def
  proof (intro allI impI)
    fix m assume m: "m < size_of s"
    show "block_indices (sd_l s) ! m = NOWHERE \<or> (\<exists>x\<in>blocks s. \<exists>k. live s x k \<and> entry s x k = m)"
    proof (cases "tbl ! m = NOWHERE")
      case False
      then obtain x k where xk: "(x, k) \<in> slots_of lg ?R" "tbl ! m = place (sd_l q) x k" "unat (lg x ! k) = m"
        using newest_entry [OF f(2), of m] m f(3) by auto
      then have x: "x \<in> ?R" "k < length (lg x)" by (auto simp: slots_of_def)
      note rb = replayed_block(1-3) [OF q f(1) x(1) log(1) [OF x(1)] mm(2), where tbl = tbl and ec = ec, folded f(6)]
      have "live s x k" "entry s x k = m" using lv [OF x(1)] x xk rb(3) by (auto simp: nth_append)
      then show ?thesis using x base(2) by auto
    qed (simp add: f(3))
  qed
  ultimately show ?thesis using base by (simp add: core_inv_def)
qed

text \<open>The table is the one of the device that was closed.\<close>

lemma reopened_table:
  assumes q: "quiet g lg q" and cl: "closed g q b i" and op: "opened g lg q b i r b0 d0"
    and nw: "newest lg (reopen_start q ec b0 d0) (slots_of lg (set (scheduled (d_j (sd_dev q))))) tbl"
  shows "tbl = block_indices (sd_l q)"
proof (rule nth_equalityI)
  let ?R = "set (scheduled (d_j (sd_dev q)))"
  have ci: "core_inv g q" and lgi: "log_inv g lg q" using q by (simp_all add: quiet_def)
  note rok = reopen_replay_ok [OF q cl op, of ec]
  have l: "length tbl = size_of q" using nw by (simp add: newest_def)
  then show "length tbl = length (block_indices (sd_l q))" using ci by (simp add: core_inv_def base_inv_def)
  fix m assume "m < length tbl"
  then have m: "m < size_of q" using l by simp
  show "tbl ! m = block_indices (sd_l q) ! m"
  proof (cases "\<exists>x\<in>?R. of_nat m \<in> set (lg x)")
    case True
    then obtain x k where x: "x \<in> ?R" "k < length (lg x)" "lg x ! k = of_nat m" by (auto simp: in_set_conv_nth)
    have um: "unat (of_nat m :: u32) = m" using m unat_less_exp [of "no_block_indices (sd_l q)"] by (simp add: unat_of_nat_small)
    obtain p k' where p: "p \<in> ?R" "k' < length (lg p)" "lg p ! k' = of_nat m" "tbl ! m = place (sd_l q) p k'"
      "\<And>y. y \<in> ?R \<Longrightarrow> of_nat m \<in> set (lg y) \<Longrightarrow> bi_seqno (infos b0 y) \<le> bi_seqno (infos b0 p)"
      using replay_end_table [OF rok nw x(1,2)] x(3) um by auto
    have "block_indices (sd_l q) ! unat (lg p ! k') = place (sd_l q) p k'"
      using p(5) opened_block(1) [OF q op] p(1) by (intro table_newest [OF ci lgi p(1,2)]) (auto simp: p(3))
    then show ?thesis using p(3,4) um by simp
  next
    case False
    then have "tbl ! m = NOWHERE" using replay_end_nowhere [OF nw] m by simp
    moreover have "block_indices (sd_l q) ! m = NOWHERE"
    proof (rule ccontr)
      assume "block_indices (sd_l q) ! m \<noteq> NOWHERE"
      from entry_logged [OF ci lgi m this] False show False by (metis nth_mem of_nat_unat ucast_id)
    qed
    ultimately show ?thesis by simp
  qed
qed

lemma disk_meso_macro:
  assumes "base_inv g s" "k < mmpm (sd_b s)"
  shows "disk_meso g s i k = wide_dec g (d_c (sd_dev s)) (bi_seqno (info_of s i)) (of_nat (k + 1)) (of_nat i)
    (bslice (Suc k * 2 ^ mesoblk_log (sd_b s)) (2 ^ mesoblk_log (sd_b s)) (macro_at (sd_b s) i))"
  using slot_room(2) [OF assms] by (simp add: disk_meso_def macro_at_def bslice_bslice Let_def)

lemma reopened_flat:
  assumes q: "quiet g lg q" and cl: "closed g q b i" and ro: "reopened g lg q ec b i r s" and rm: "room_for r q"
  shows "flat g s = flat g q"
proof -
  obtain b0 d0 tbl where f: "opened g lg q b i r b0 d0" "newest lg (reopen_start q ec b0 d0) (slots_of lg (set (scheduled (d_j (sd_dev q))))) tbl"
    "sd_l s = (sd_l q)\<lparr>output_initialized := False, block_indices := tbl\<rparr>"
    "sd_b s = b0\<lparr>infos := info_of s\<rparr>" "sd_dev s = d0\<lparr>d_j := d_j (sd_dev s), replay_list := []\<rparr>"
    "info_of s = replay_info lg (reopen_start q ec b0 d0) (set (scheduled (d_j (sd_dev q)))) (slots_of lg (set (scheduled (d_j (sd_dev q))))) tbl"
    using reopened_fields [OF ro] by metis
  note lay = opened_layout [OF cl f(1)]
  have ci: "core_inv g q" "d_bi (sd_dev q) = None" and base: "base_inv g q" "base_inv g s"
    using q reopened_base(1) [OF q cl ro rm] by (simp_all add: quiet_def core_inv_def)
  have tbl: "tbl = block_indices (sd_l q)" by (rule reopened_table [OF q cl f(1,2)])
  have dev: "d_bi (sd_dev s) = None" "d_c (sd_dev s) = d_c (sd_dev q)" by (subst f(5), use f(1) in \<open>simp add: opened_def\<close>)+
  have b: "mesoblk_log (sd_b s) = mesoblk_log (sd_b q)" "mmpm (sd_b s) = mmpm (sd_b q)" "macro_at (sd_b s) = macro_at b"
    by (subst f(4), use lay in \<open>simp add: macro_at_def fun_eq_iff\<close>)+
  have l: "ID (sd_l s) = ID (sd_l q)" "NO (sd_l s) = NO (sd_l q)" "size_of s = size_of q" "block_indices (sd_l s) = block_indices (sd_l q)"
    by (simp_all add: f(3) tbl ID_def NO_def fun_eq_iff)
  have "content g s m = content g q m" if m: "m < size_of q" for m
  proof (cases "block_indices (sd_l q) ! m = NOWHERE")
    case False
    let ?x = "ID (sd_l q) (block_indices (sd_l q) ! m)" and ?k = "NO (sd_l q) (block_indices (sd_l q) ! m)"
    note el = entry_live [OF ci(1) m False]
    have "macro_at b ?x = macro_at (sd_b q) ?x" using cl el(1,5) by (auto simp: closed_def)
    moreover have "bi_seqno (info_of s ?x) = bi_seqno (info_of q ?x)" using opened_block(1) [OF q f(1) el(1)] f(6) by simp
    ultimately have "disk_meso g s ?x ?k = disk_meso g q ?x ?k"
      using el(4) b dev(2) by (simp add: disk_meso_macro [OF base(1)] disk_meso_macro [OF base(2)])
    then show ?thesis using False l dev(1) ci(2) by (simp add: content_def slot_def)
  qed (simp add: content_def l b)
  then show ?thesis unfolding flat_def using l(3) by (auto intro!: arg_cong [where f = concat])
qed

lemma reopened_owner:
  assumes q: "quiet g lg q" and cl: "closed g q b i" and ro: "reopened g lg q ec b i r s" and rm: "room_for r q"
  shows "owner_inv g s"
proof -
  obtain b0 d0 tbl where f: "opened g lg q b i r b0 d0" "sd_l s = (sd_l q)\<lparr>output_initialized := False, block_indices := tbl\<rparr>"
    "sd_b s = b0\<lparr>infos := info_of s\<rparr>" "sd_dev s = d0\<lparr>d_j := d_j (sd_dev s), replay_list := []\<rparr>"
    "info_of s = replay_info lg (reopen_start q ec b0 d0) (set (scheduled (d_j (sd_dev q)))) (slots_of lg (set (scheduled (d_j (sd_dev q))))) tbl"
    "mset (unscheduled (d_j (sd_dev s))) = mset (unscheduled (d_j (sd_dev q)))"
    using reopened_fields [OF ro] by metis
  note lay = opened_layout [OF cl f(1)] and bl = reopened_base(2) [OF q cl ro rm]
  have us: "set (unscheduled (d_j (sd_dev s))) = set (unscheduled (d_j (sd_dev q)))" using f(6) by (rule mset_eq_setD)
  have ow: "owner_inv g q" and ci: "core_inv g q" using q by (simp_all add: quiet_def log_inv_def)
  have d: "replay_list (sd_dev s) = []" "status (sd_dev s) = status (sd_dev q)" "no_macroblocks (sd_dev s) = no_macroblocks (sd_dev q)"
    "reserved_macroblocks (sd_dev s) = reserved_macroblocks (sd_dev q)" "d_id (sd_dev s) = i" "d_c (sd_dev s) = d_c (sd_dev q)"
    by (subst f(4), use f(1) in \<open>simp add: opened_def\<close>)+
  have b: "unallocated (sd_b s) = filter (\<lambda>x. x \<notin> blocks q) (unallocated b)" "mmpm (sd_b s) = mmpm (sd_b q)"
    "total_macroblocks (sd_b s) = total_macroblocks b" "macro_at (sd_b s) = macro_at b" "same_layout b (sd_b s)"
    by (subst f(3), use lay cl in \<open>simp add: macro_at_def fun_eq_iff closed_def same_layout_def\<close>)+
  have "block_owner g s x" if x: "x < total_macroblocks b" for x
  proof -
    have c: "bi_dev (infos b x) = None \<longleftrightarrow> x \<in> set (unallocated b)" "bi_dev (infos b x) \<noteq> Some i"
      "bi_dev (infos b x) = None \<and> x \<notin> set (scheduled (d_j (sd_dev q))) \<Longrightarrow> \<not> recognised g (d_c (sd_dev q)) b x"
      "x \<in> blocks q \<Longrightarrow> bi_dev (infos b x) = None"
      using cl x unfolding closed_def by blast+
    have "bi_dev (info_of s x) = (if x \<in> blocks q then Some i else bi_dev (infos b x))"
      using opened_block(2) [OF q f(1), of x] f(1,5) by (auto simp: opened_def)
    moreover have "recognised g (d_c (sd_dev q)) (sd_b s) x = recognised g (d_c (sd_dev q)) b x"
      using b(4,5) by (intro recognised_cong) simp_all
    moreover have "set (scheduled (d_j (sd_dev q))) \<inter> set (unscheduled (d_j (sd_dev q))) = {}"
      using ci scheduled_once by (auto simp: core_inv_def)
    ultimately show ?thesis using c d(5,6) b(1) bl us by (auto simp: block_owner_def)
  qed
  moreover have "distinct (unallocated (sd_b s))" using cl b(1) by (simp add: closed_def)
  moreover have "calc_no_block_indices (sd_b s) (sd_dev s) = calc_no_block_indices (sd_b q) (sd_dev q)"
    using d b(2) by (simp add: calc_no_block_indices_def)
  moreover have "no_block_indices (sd_l s) = no_block_indices (sd_l q)" by (simp add: f(2))
  ultimately show ?thesis using ow d b(3) bl unfolding owner_inv_def by simp
qed

lemma reopened_log:
  assumes q: "quiet g lg q" and cl: "closed g q b i" and ro: "reopened g lg q ec b i r s" and rm: "room_for r q"
  shows "log_inv g lg s"
proof -
  obtain b0 d0 tbl where f: "opened g lg q b i r b0 d0" "newest lg (reopen_start q ec b0 d0) (slots_of lg (set (scheduled (d_j (sd_dev q))))) tbl"
    "sd_l s = (sd_l q)\<lparr>output_initialized := False, block_indices := tbl\<rparr>"
    "sd_b s = b0\<lparr>infos := info_of s\<rparr>" "sd_dev s = d0\<lparr>d_j := d_j (sd_dev s), replay_list := []\<rparr>"
    "info_of s = replay_info lg (reopen_start q ec b0 d0) (set (scheduled (d_j (sd_dev q)))) (slots_of lg (set (scheduled (d_j (sd_dev q))))) tbl"
    "scheduled (d_j (sd_dev s)) = scheduled (d_j (sd_dev q))"
    using reopened_fields [OF ro] by metis
  note lay = opened_layout [OF cl f(1)] and rok = reopen_replay_ok [OF q cl f(1), of ec]
  let ?R = "set (scheduled (d_j (sd_dev q)))"
  have dev: "d_bi (sd_dev s) = None" "d_c (sd_dev s) = d_c (sd_dev q)" by (subst f(5), use f(1) in \<open>simp add: opened_def\<close>)+
  have b: "macro_at (sd_b s) = macro_at b" "same_layout (sd_b q) (sd_b s)"
    by (subst f(4), use lay in \<open>simp add: macro_at_def fun_eq_iff same_layout_def\<close>)+
  have sq: "bi_seqno (info_of s x) = bi_seqno (info_of q x)" "bi_next_seqno (info_of s x) = bi_next_seqno (info_of q x)" if "x \<in> ?R" for x
    using opened_block(1) [OF q f(1), of x] that f(6) by simp_all
  have lgi: "log_inv g lg q" "d_bi (sd_dev q) = None" "core_inv g q" using q by (simp_all add: quiet_def)
  have tbl: "tbl = block_indices (sd_l q)" by (rule reopened_table [OF q cl f(1,2)])
  have l: "ID (sd_l s) = ID (sd_l q)" "size_of s = size_of q" "block_indices (sd_l s) = block_indices (sd_l q)"
    by (simp_all add: f(3) tbl ID_def fun_eq_iff)
  have "mmpm b < 2 ^ 14" using geometry_sizes(6) [of b] cl by (simp add: closed_def)
  have "block_log g lg s x" if x: "x \<in> ?R" for x
  proof -
    have bl: "block_log g lg q x" using lgi(1) x by (simp add: log_inv_def)
    have "macro_at b x = macro_at (sd_b q) x" using cl lgi(3) x by (auto simp: closed_def core_inv_def block_inv_def)
    then have "written_as g q x (lg x) bd \<Longrightarrow> written_as g s x (lg x) bd" for bd
      using b sq [OF x] dev(2) by (auto simp: written_as_def same_layout_def)
    moreover have "length (lg x) \<le> mmpm b" using rok x lay(3,4) by (simp add: replay_ok_def)
    with replayed_block(2,3) [OF q f(1) x this \<open>mmpm b < 2 ^ 14\<close>, where tbl = tbl and ec = ec, folded f(6)]
    have "used_of s x = 0 \<or> lg x = take (used_of s x) (indices (info_of s x))" by simp
    moreover have "bi_seqno (info_of s (ID (sd_l q) (tbl ! unat m))) = bi_seqno (info_of q (ID (sd_l q) (tbl ! unat m)))" if "m \<in> set (lg x)" for m
      using bl that entry_logged(1) [OF lgi(3,1), of "unat m"] by (intro sq) (simp add: block_log_def tbl)
    ultimately show ?thesis using bl lgi(2) dev(1) sq(1) [OF x] l tbl by (auto simp: block_log_def)
  qed
  moreover have "inj_on (\<lambda>x. bi_seqno (info_of s x)) ?R" using lgi(1) sq(1) unfolding log_inv_def inj_on_def by auto
  ultimately show ?thesis using reopened_owner [OF q cl ro rm] f(7) dev(1) by (simp add: log_inv_def)
qed

section \<open>Closing\<close>

lemma flushed_quiet:
  assumes fl: "flushing g s c img" and lg: "log_inv g lg s"
  shows "quiet g lg (flushed s c img)"
proof -
  have c: "d_bi (sd_dev s) = Some c" "c \<in> set (scheduled (d_j (sd_dev s)))" using fl by (simp_all add: flushing_def)
  have "lg c = take (used_of s c) (indices (info_of s c))" "bi_seqno (info_of s c) = j_seqno (d_j (sd_dev s))"
    using lg c by (simp_all add: log_inv_def block_log_def)
  moreover have "juggler_hash_scheduled_seqnos sha (flushed_info s c) j = juggler_hash_scheduled_seqnos sha (infos (sd_b s)) j" for sha j
    by (simp add: juggler_hash_scheduled_seqnos_def info_of_def)
  ultimately have "headed g lg (flushed s c img)"
    using c(2) flushed_current [OF fl] unfolding headed_def by (intro bexI [of _ c] exI [of _ "(sd_b s, sd_dev s)"]) simp_all
  then show ?thesis using flushed_core [OF fl] flushed_log [OF fl lg] by (simp add: quiet_def)
qed

lemma free_closed:
  assumes ci: "core_inv g s" "d_bi (sd_dev s) = Some c" "c \<in> set (scheduled (d_j (sd_dev s)))" and lg: "owner_inv g s" and up: "updated (sd_dev s)"
    and i: "\<forall>x < total_macroblocks (sd_b s). bi_dev (info_of s x) = Some i \<longrightarrow> i = d_id (sd_dev s)"
  shows "\<exists>b img. blockio_dev_free g (sd_b s, sd_dev s) = Inr b \<and> flushing g s c img \<and> closed g (flushed s c img) b i"
proof -
  obtain img where fl: "flushing g s c img" and wr: "lift_b (blockio_dev_write_current_macroblock g) s = Inr (flushed s c img)"
    using write_flushed [OF ci] by blast
  let ?q = "flushed s c img"
  obtain a d where ad: "blockio_dev_write_current_macroblock g (sd_b s, sd_dev s) = Inr (a, d)" "?q = s\<lparr>sd_b := a, sd_dev := d\<rparr>"
    using wr by (auto simp: lift_b_def res_simps)
  then have w: "blockio_dev_write_current_macroblock g (sd_b s, sd_dev s) = Inr (sd_b ?q, sd_dev ?q)" by (simp only: ad) simp
  define b where "b = (sd_b ?q)\<lparr>infos := (\<lambda>x. if x < total_macroblocks (sd_b s) \<and> bi_dev (info_of s x) = Some (d_id (sd_dev s))
      then (flushed_info s c x)\<lparr>indices := [], bi_dev := None\<rparr> else flushed_info s c x),
    unallocated := unallocated (sd_b s) @ scheduled (d_j (sd_dev s)) @ unscheduled (d_j (sd_dev s))\<rparr>"
  have ow: "replay_list (sd_dev s) = []" "distinct (unallocated (sd_b s))" "\<And>x. x < total_macroblocks (sd_b s) \<Longrightarrow> block_owner g ?q x"
    using lg flushed_owner [OF fl lg] by (simp_all add: owner_inv_def)
  have "fold (release_info (d_id (sd_dev s))) [0..<total_macroblocks (sd_b s)] (flushed_info s c) = infos b"
    by (simp add: b_def release_infos fun_eq_iff)
  then have "blockio_dev_free g (sd_b s, sd_dev s) = Inr b"
    using w up ow(1) by (simp add: blockio_dev_free_def juggler_free_and_empty_into_def empty_into_list) (simp add: b_def)
  moreover have "closed g ?q b i"
  proof -
    have core: "core_inv g ?q" by (rule flushed_core [OF fl])
    have tot: "x < total_macroblocks (sd_b s)" if "x \<in> blocks s" for x using ci(1) that by (auto simp: core_inv_def block_inv_def)
    have geo: "geometry b" "same_layout (sd_b ?q) b" "macro_at b = macro_at (sd_b ?q)" "total_macroblocks b = total_macroblocks (sd_b s)"
      using core by (simp_all add: b_def core_inv_def base_inv_def same_layout_def macro_at_def fun_eq_iff)
    have own: "(bi_dev (info_of s x) = Some (d_id (sd_dev s)) \<longleftrightarrow> x \<in> blocks s)" "(bi_dev (info_of s x) = None \<longleftrightarrow> x \<in> set (unallocated (sd_b s)))"
      "x \<in> set (unallocated (sd_b s)) \<or> x \<in> set (unscheduled (d_j (sd_dev s))) \<Longrightarrow> \<not> recognised g (d_c (sd_dev s)) (sd_b ?q) x"
      if "x < total_macroblocks (sd_b s)" for x
      using ow(3) [OF that] by (simp_all add: block_owner_def)
    have "distinct (unallocated b)"
    proof -
      have "distinct (scheduled (d_j (sd_dev s)) @ unscheduled (d_j (sd_dev s)))" using ci(1) by (simp add: core_inv_def base_inv_def juggler_inv_def)
      moreover have "x \<notin> set (unallocated (sd_b s))" if "x \<in> blocks s" for x using own(1,2) [OF tot [OF that]] that by auto
      ultimately show ?thesis using ow(2) by (auto simp: b_def)
    qed
    moreover have rec: "recognised g cc b x = recognised g cc (sd_b ?q) x" for cc x using geo(2,3) by (intro recognised_cong) simp_all
    moreover have "(bi_dev (infos b x) = None \<longleftrightarrow> x \<in> set (unallocated b)) \<and> bi_dev (infos b x) \<noteq> Some i \<and>
        (x \<in> blocks s \<longrightarrow> bi_dev (infos b x) = None) \<and>
        (bi_dev (infos b x) = None \<and> x \<notin> set (scheduled (d_j (sd_dev s))) \<longrightarrow> \<not> recognised g (d_c (sd_dev s)) (sd_b ?q) x)"
      if x: "x < total_macroblocks (sd_b s)" for x
      using own [OF x] i x by (auto simp: b_def)
    moreover have "blocks s \<subseteq> set (unallocated b)" by (auto simp: b_def)
    ultimately show ?thesis unfolding closed_def using geo by auto
  qed
  ultimately show ?thesis using fl by blast
qed

text \<open>A block that holds nothing that is needed holds nothing after the replay.\<close>

lemma reopened_next_empty:
  assumes q: "quiet g lg q" and cl: "closed g q b i" and ro: "reopened g lg q ec b i r s" and rm: "room_for r q" and ne: "next_empty q"
  shows "next_empty s"
  unfolding next_empty_def
proof (intro allI impI)
  fix t assume "juggler_get_obsoleted (infos (sd_b s)) (d_j (sd_dev s)) = Some t"
  moreover obtain b0 d0 tbl where f: "opened g lg q b i r b0 d0" "newest lg (reopen_start q ec b0 d0) (slots_of lg (set (scheduled (d_j (sd_dev q))))) tbl"
    "sd_l s = (sd_l q)\<lparr>output_initialized := False, block_indices := tbl\<rparr>" "sd_dev s = d0\<lparr>d_j := d_j (sd_dev s), replay_list := []\<rparr>"
    "info_of s = replay_info lg (reopen_start q ec b0 d0) (set (scheduled (d_j (sd_dev q)))) (slots_of lg (set (scheduled (d_j (sd_dev q))))) tbl"
    "scheduled (d_j (sd_dev s)) = scheduled (d_j (sd_dev q))" "j_seqno (d_j (sd_dev s)) = j_seqno (d_j (sd_dev q))"
    using reopened_fields [OF ro] by metis
  have sq: "bi_next_seqno (infos (sd_b s) x) = bi_next_seqno (infos (sd_b q) x)" if "x \<in> set (scheduled (d_j (sd_dev q)))" for x
    using opened_block(1) [OF q f(1), of x] that fun_cong [OF f(5), of x] by (simp add: info_of_def)
  ultimately have t: "juggler_get_obsoleted (infos (sd_b q)) (d_j (sd_dev q)) = Some t" "t \<in> set (scheduled (d_j (sd_dev q)))"
    using sq f(6,7) by (auto simp: juggler_get_obsoleted_def split: list.splits if_splits)
  have ci: "core_inv g q" "core_inv g s" using q reopened_core [OF q cl ro rm] by (simp_all add: quiet_def)
  have tbl: "tbl = block_indices (sd_l q)" by (rule reopened_table [OF q cl f(1,2)])
  have "\<not> live s t k" for k
  proof
    assume l: "live s t k"
    have tb: "block_inv s t" "t < total_macroblocks (sd_b s)" using ci(2) reopened_base(2) [OF q cl ro rm] t(2) by (auto simp: core_inv_def block_inv_def)
    let ?m = "entry s t k"
    have m: "?m < size_of q" "block_indices (sd_l q) ! ?m = place (sd_l s) t k" using l f(3) tbl by (simp_all add: live_def)
    moreover have "k < mmpm (sd_b s)" using block_slot [OF tb(1)] l by (simp add: live_def)
    ultimately have "ID (sd_l q) (block_indices (sd_l q) ! ?m) = t" "block_indices (sd_l q) ! ?m \<noteq> NOWHERE"
      using base_place [of g s t k] ci(2) tb(2) f(3) by (simp_all add: core_inv_def ID_def)
    with entry_live(2) [OF ci(1) m(1)] ne t(1) show False by (auto simp: next_empty_def live_def)
  qed
  moreover have "block_inv s t" "d_bi (sd_dev s) = None" using ci(2) f(6) t(2) by (auto simp: core_inv_def, subst f(4), use f(1) in \<open>simp add: opened_def\<close>)
  moreover from calculation(1) have "card {k. live s t k} = 0" by simp
  ultimately show "used_of s t = 0" by (simp add: block_inv_def unat_eq_zero)
qed

section \<open>Closing and opening\<close>

definition close_and_reopen :: "gcrypt \<Rightarrow> bool \<Rightarrow> nat \<Rightarrow> random_t \<Rightarrow> sdev \<Rightarrow> (sdev \<times> bool) res" where
  "close_and_reopen g ec i r s =
     rbind (blockio_dev_free g (sd_b s, sd_dev s)) (\<lambda>b.
     rbind (blockio_dev_init g b i (d_c (sd_dev s)) (Some r)) (scubed3_init g ec))"

text \<open>Nobody else has the identity the device gets when it is opened.\<close>

definition unused_id :: "nat \<Rightarrow> sdev \<Rightarrow> bool" where
  "unused_id i s \<longleftrightarrow> (\<forall>x < total_macroblocks (sd_b s). bi_dev (info_of s x) = Some i \<longrightarrow> i = d_id (sd_dev s))"

lemma reopen_ok:
  assumes ok: "device_ok g s" and lg: "log_ok g s" and up: "updated (sd_dev s)" and rm: "room_for r s" and i: "unused_id i s"
  shows "\<exists>s'. close_and_reopen g ec i r s = Inr (s', True) \<and> core_inv g s' \<and> log_ok g s' \<and> flat g s' = flat g s \<and> d_bi (sd_dev s') = None \<and>
    \<not> output_initialized (sd_l s') \<and> (output_initialized (sd_l s) \<and> calm s \<longrightarrow> next_empty s')"
proof -
  obtain c where c: "core_inv g s" "sdev_inv g s" "d_bi (sd_dev s) = Some c" "c \<in> set (scheduled (d_j (sd_dev s)))"
    using ok by (auto simp: device_ok_def sdev_inv_def tail_inv_def)
  obtain lg where l: "log_inv g lg s" using lg by (auto simp: log_ok_def)
  then have "owner_inv g s" by (simp add: log_inv_def)
  then obtain b img where b: "blockio_dev_free g (sd_b s, sd_dev s) = Inr b" "flushing g s c img" "closed g (flushed s c img) b i"
    using free_closed [OF c(1,3,4) _ up i [unfolded unused_id_def]] by blast
  let ?q = "flushed s c img"
  have q: "quiet g lg ?q" by (rule flushed_quiet [OF b(2) l])
  have rq: "room_for r ?q" using rm by (simp add: room_for_def)
  obtain b0 d0 where o: "blockio_dev_init g b i (d_c (sd_dev ?q)) (Some r) = Inr (b0, d0)" "opened g lg ?q b i r b0 d0"
    using dev_init_opened [OF q b(3)] by blast
  obtain s' where s': "scubed3_init g ec (b0, d0) = Inr (s', True)" "reopened g lg ?q ec b i r s'"
    using init_reopened [OF q b(3) o(2)] by blast
  obtain b1 d1 tbl where f: "opened g lg ?q b i r b1 d1" "sd_l s' = (sd_l ?q)\<lparr>output_initialized := False, block_indices := tbl\<rparr>"
    "sd_dev s' = d1\<lparr>d_j := d_j (sd_dev s'), replay_list := []\<rparr>"
    using reopened_fields [OF s'(2)] by metis
  have "d_bi (sd_dev s') = None" "\<not> output_initialized (sd_l s')" by (subst f(3), use f(1) in \<open>simp add: opened_def\<close>) (simp add: f(2))
  moreover have "flat g ?q = flat g s" using flushed_content [OF b(2)] by (auto simp: flat_def intro!: arg_cong [where f = concat])
  moreover have "next_empty s'" if "output_initialized (sd_l s)" "calm s"
    using reopened_next_empty [OF q b(3) s'(2) rq] flushed_next_empty [OF c(2) that c(3)] by blast
  moreover have "close_and_reopen g ec i r s = Inr (s', True)" using b(1) o(1) s'(1) by (simp add: close_and_reopen_def)
  moreover have "core_inv g s'" "log_ok g s'" "flat g s' = flat g ?q"
    using reopened_core [OF q b(3) s'(2) rq] reopened_log [OF q b(3) s'(2) rq] reopened_flat [OF q b(3) s'(2) rq] by (auto simp: log_ok_def)
  ultimately show ?thesis by auto
qed

lemma picked_opened:
  assumes pk: "picking g s b ns j" and s: "core_inv g s" "log_ok g s" "\<not> output_initialized (sd_l s)" "flat g s = f"
  shows "device_ok g (picked s b ns j)" "log_ok g (picked s b ns j)" "flat g (picked s b ns j) = f"
proof -
  have "sdev_inv g (set_started False (picked s b ns j))" by (rule fresh_unstarted [OF picked_fresh [OF pk]])
  moreover have "set_started False (picked s b ns j) = picked s b ns j" using s(3) by (cases "sd_l s") (simp add: picked_def)
  ultimately show "device_ok g (picked s b ns j)" by (simp add: device_ok_def)
  show "log_ok g (picked s b ns j)" by (rule log_ok_steps(3) [OF pk s(2)])
  show "flat g (picked s b ns j) = f" using picked_content [OF pk] s(4) by (auto simp: flat_def intro!: arg_cong [where f = concat])
qed

end
