(* ===== verification/Scubed3_Durable.thy ===== *)
theory Scubed3_Durable
  imports Scubed3_Reopen
begin

text \<open>
  What survives when a device is closed and opened again: everything, if the flag \<^verbatim>\<open>updated\<close> of src/src/blockio.c is set.
  The flag is cleared when a macroblock is selected, so the write that opens a new macroblock is lost.
\<close>

section \<open>A small device\<close>

lemma cbc_dec_zeros: "cbc_dec rev (replicate 16 0) n (replicate (16 * n) 0) = replicate (16 * n) 0"
proof (induction n)
  case (Suc n)
  have "xor_block (replicate 16 0) (replicate 16 0) = replicate 16 0" by (simp add: xor_block_def numeral_eq_Suc)
  with Suc show ?case by (simp flip: replicate_add)
qed simp

lemma cbc_dec_first: "cbc_dec rev iv (Suc n) (replicate (16 * Suc n) 0) = xor_block (replicate 16 0) iv @ replicate (16 * n) 0"
  using cbc_dec_zeros [of n] by simp

text \<open>A disk of zeros holds no block of a device.\<close>

lemma demo_unrecognised: "\<not> recognised demo_gcrypt demo_wide (sd_b (demo_sdev ns)) 1"
proof -
  let ?z = "\<lambda>n. replicate n 0 :: bytes"
  obtain iv where iv: "length iv = 16" "wide_dec demo_gcrypt demo_wide 0 0 1 (?z 512) = cbc_dec rev iv 32 (?z 512)"
  proof
    have d: "gcry_decrypt demo_gcrypt (9, replicate 32 1) = rev" by (simp add: gcry_decrypt_def demo_gcrypt_def fun_eq_iff)
    show iv: "length (set_iv 0 0 1) = 16" by (simp add: set_iv_def)
    show "wide_dec demo_gcrypt demo_wide 0 0 1 (?z 512) = cbc_dec rev (set_iv 0 0 1) 32 (?z 512)"
      using dec_plain_in_place [OF demo_cipher_ok(1) iv, of 0 "\<lparr>plain_hd = (9, replicate 32 1), no_blocks = 32\<rparr>" "?z 512"] d
        length_cbc_dec [of rev "set_iv 0 0 1" "?z 512" 32] iv
      by (simp add: wide_dec_def cipher_dec_def demo_wide_def blit_def bslice_def block_fun_def)
  qed
  have "cbc_dec rev iv 32 (?z 512) = xor_block (?z 16) iv @ ?z 496" using cbc_dec_first [of iv 31] by (simp del: cbc_dec.simps)
  moreover have "length (xor_block (?z 16) iv) = 16" using iv(1) by (simp add: xor_block_def)
  ultimately have "bslice 112 8 (wide_dec demo_gcrypt demo_wide 0 0 1 (?z 512)) = ?z 8"
    using iv(2) by (simp add: bslice_def del: cbc_dec.simps)
  moreover have "bslice 0 512 (macro_at (sd_b (demo_sdev ns)) 1) = ?z 512"
    by (simp add: macro_at_def demo_sdev_def demo_b_def bslice_def)
  moreover have "mesoblk_log (sd_b (demo_sdev ns)) = 9" by (simp add: demo_sdev_def demo_b_def)
  moreover have "?z 8 \<noteq> magic" by (auto simp: magic_def dest: arg_cong [of _ _ hd])
  ultimately show ?thesis by (simp add: recognised_def header_valid_def layout)
qed

lemma demo_log_ok: "log_ok demo_gcrypt (demo_sdev 3)"
proof -
  let ?s = "demo_sdev 3"
  have f: "d_bi (sd_dev ?s) = Some 0" "d_id (sd_dev ?s) = 0" "d_c (sd_dev ?s) = demo_wide" "scheduled (d_j (sd_dev ?s)) = [0]"
    "unscheduled (d_j (sd_dev ?s)) = [1]" "unallocated (sd_b ?s) = []" "total_macroblocks (sd_b ?s) = 2" "status (sd_dev ?s) = demo_status"
    "no_macroblocks (sd_dev ?s) = 2" "reserved_macroblocks (sd_dev ?s) = 1" "replay_list (sd_dev ?s) = []" "mmpm (sd_b ?s) = 1"
    "no_block_indices (sd_l ?s) = 1" "block_indices (sd_l ?s) = [0]" "j_seqno (d_j (sd_dev ?s)) = 1" "ID (sd_l ?s) 0 = 0"
    "bi_dev (info_of ?s 0) = Some 0" "bi_dev (info_of ?s 1) = Some 0" "bi_seqno (info_of ?s 0) = 1" "no_indices (info_of ?s 0) = 1" "indices (info_of ?s 0) = [0]"
    by (simp_all add: demo_sdev_def demo_dev_def demo_b_def fresh_dev_def info_of_def ID_def)
  have "block_owner demo_gcrypt ?s i" if "i < 2" for i
    using that f demo_unrecognised [of 3] by (auto simp: block_owner_def less_2_cases_iff)
  then have "owner_inv demo_gcrypt ?s"
    using f demo_status_ok(3) by (simp add: owner_inv_def calc_no_block_indices_def word_le_nat_alt)
  moreover have "block_log demo_gcrypt (\<lambda>_. [0]) ?s 0" using f by (simp add: block_log_def)
  ultimately have "log_inv demo_gcrypt (\<lambda>_. [0]) ?s" using f by (simp add: log_inv_def)
  then show ?thesis unfolding log_ok_def by blast
qed

lemma demo_after_ok: "device_ok demo_gcrypt (demo_after 3)" "log_ok demo_gcrypt (demo_after 3)" "updated (sd_dev (demo_after 3))"
  "output_initialized (sd_l (demo_after 3))" "calm (demo_after 3)" "room_for r (demo_after 3) \<longleftrightarrow> length r + 3 < 2 ^ 64" "unused_id 0 (demo_after 3)"
proof -
  have "runs (dev_write demo_gcrypt (demo_sdev 3) 3 [1, 2, 3, 4])
      (\<lambda>s'. device_ok demo_gcrypt s' \<and> keeps demo_gcrypt (demo_sdev 3) s' \<and> flat demo_gcrypt s' = blit 3 [1, 2, 3, 4] (flat demo_gcrypt (demo_sdev 3)))"
    by (rule dev_write_runs) (simp_all add: demo_device_ok demo_dev_fits demo_dev_calm)
  then show "device_ok demo_gcrypt (demo_after 3)" "log_ok demo_gcrypt (demo_after 3)"
    using demo_log_ok by (simp_all add: demo_dev_write keeps_def)
  show "updated (sd_dev (demo_after 3))" "output_initialized (sd_l (demo_after 3))" "calm (demo_after 3)" "unused_id 0 (demo_after 3)"
    by (simp_all add: demo_after_def put_tmp_def demo_sdev_def demo_dev_def calm_def unused_id_def fresh_dev_def)
  show "room_for r (demo_after 3) \<longleftrightarrow> length r + 3 < 2 ^ 64"
    by (auto simp: room_for_def demo_after_def put_tmp_def demo_sdev_def info_of_def)
qed

section \<open>The flag that says that the current macroblock was changed\<close>

lemma updated_frames [simp]:
  "updated (sd_dev (upd_info s i f)) = updated (sd_dev s)" "updated (sd_dev (put_tmp s off d)) = updated (sd_dev s)"
  "disk (sd_b (upd_info s i f)) = disk (sd_b s)"
  by (simp_all add: upd_info_def put_tmp_def)

lemma obsolete_updated: "obsolete_mesoblk s i = Inr s' \<Longrightarrow> updated (sd_dev s') = updated (sd_dev s) \<and> disk (sd_b s') = disk (sd_b s)"
  by (auto simp: obsolete_mesoblk_def Let_def res_simps)

lemma add_blockref_updated: "add_blockref s i = Inr s' \<Longrightarrow> updated (sd_dev s') = updated (sd_dev s) \<and> disk (sd_b s') = disk (sd_b s)"
  by (auto simp: add_blockref_def Let_def res_simps)

lemma copy_one_updated: "copy_one g t k s = Inr s' \<Longrightarrow> updated (sd_dev s') = updated (sd_dev s)"
  unfolding copy_one_def Let_def
  by (auto simp: res_simps dest!: obsolete_updated add_blockref_updated split: if_split_asm)

lemma copy_old_updated:
  assumes "copy_old_block_to_current g s = Inr s'" shows "updated (sd_dev s') = updated (sd_dev s)"
proof -
  have "rfold (copy_one g t) ks s = Inr s' \<Longrightarrow> updated (sd_dev s') = updated (sd_dev s)" for t ks s
    by (induction ks arbitrary: s) (auto simp: res_simps dest: copy_one_updated)
  with assms show ?thesis
    by (auto simp: copy_old_block_to_current_def res_simps split: option.splits if_splits)
qed

lemma select_loop_updated: "select_loop g s = Inr s' \<Longrightarrow> \<not> updated (sd_dev s')"
proof (induction g s rule: select_loop.induct)
  case (1 g s)
  then obtain s1 where s1: "select_round g s = Inr s1" "(if current_full s1 then select_loop g s1 else Inr s1) = Inr s'"
    by (subst (asm) select_loop.simps) (auto simp: res_simps)
  then have "\<not> updated (sd_dev s1)"
    using copy_old_updated
    by (fastforce simp: select_round_def lift_b_def blockio_dev_write_current_and_select_next_macroblock_def
        blockio_dev_select_next_macroblock_def res_simps)
  with "1.IH" [OF s1(1)] s1(2) show ?case by (auto split: if_splits)
qed

lemma do_cow_updated: "do_cow g s x off n a = Inr s' \<Longrightarrow> updated (sd_dev s') = updated (sd_dev s) \<and> disk (sd_b s') = disk (sd_b s)"
  unfolding do_cow_def Let_def by (auto simp: res_simps split: if_splits)

lemma write_store_updated:
  "write_store g m off d x s = Inr s' \<Longrightarrow> updated (sd_dev s') = updated (sd_dev s) \<and> disk (sd_b s') = disk (sd_b s)"
  unfolding write_store_def Let_def obsolete_mesoblk_byidx_def
  by (auto simp: res_simps dest!: do_cow_updated obsolete_updated add_blockref_updated split: if_splits)

lemma free_keeps_disk: "\<not> updated dev \<Longrightarrow> \<exists>b'. blockio_dev_free g (b, dev) = Inr b' \<and> disk b' = disk b"
  by (simp add: blockio_dev_free_def juggler_free_and_empty_into_def empty_into_list)

text \<open>A device of two mesoblocks whose current macroblock is full.\<close>

definition demo_full :: sdev where
  "demo_full = (grown 2 (demo_sdev 9))\<lparr>sd_errorcheck := False\<rparr>"

lemma errorcheck_inv [simp]: "sdev_inv g (s\<lparr>sd_errorcheck := e\<rparr>) = sdev_inv g s"
proof -
  have i: "info_of (s\<lparr>sd_errorcheck := e\<rparr>) = info_of s" by (simp add: info_of_def fun_eq_iff)
  then have l: "live (s\<lparr>sd_errorcheck := e\<rparr>) = live s" by (simp add: live_def fun_eq_iff)
  have "block_inv (s\<lparr>sd_errorcheck := e\<rparr>) x = block_inv s x" for x by (simp add: block_inv_def i l)
  then show ?thesis by (simp add: sdev_inv_def core_inv_def base_inv_def table_inv_def tail_inv_def i l)
qed

lemma demo_full_ok: "device_ok demo_gcrypt demo_full"
  using grown_inv [of demo_gcrypt "demo_sdev 9" 2] demo_device_ok [of 9]
  by (simp add: demo_full_def device_ok_def) (simp add: grown_def demo_sdev_def)

lemma demo_full_fields:
  "d_bi (sd_dev demo_full) = Some 0" "tail_macroblock (sd_dev demo_full) = None" "sd_errorcheck demo_full = False"
  "sd_l demo_full = \<lparr>output_initialized = True, mesobits = 1, mesomask = 1, no_block_indices = 2, block_indices = [0, NOWHERE]\<rparr>"
  "no_indices (info_of demo_full 0) = 1" "no_indices (info_of demo_full 1) = 0" "mmpm (sd_b demo_full) = 1" "mesoblk_log (sd_b demo_full) = 9"
  "bi_next_seqno (info_of demo_full 0) = 9"
  "d_j (sd_dev demo_full) = \<lparr>scheduled = [0], unscheduled = [1], no_scheduled = 1, no_unscheduled = 1, j_seqno = 1, j_r = [0, 0, 0]\<rparr>"
  by (simp_all add: demo_full_def grown_def demo_sdev_def demo_dev_def demo_b_def fresh_dev_def info_of_def zero_info_def)

lemma demo_full_round: "\<exists>t. select_round demo_gcrypt (set_updated True demo_full) = Inr t \<and> \<not> current_full t"
proof -
  let ?g = demo_gcrypt let ?s = "set_updated True demo_full"
  have "sdev_inv ?g ?s" using demo_full_ok by (simp add: device_ok_def)
  then have si: "sdev_inv ?g ?s" "core_inv ?g ?s" "0 \<in> set (scheduled (d_j (sd_dev ?s)))" "d_bi (sd_dev ?s) = Some 0"
    using demo_full_fields by (auto simp: sdev_inv_def)
  obtain img where fl: "flushing ?g ?s 0 img" and wr: "lift_b (blockio_dev_write_current_macroblock ?g) ?s = Inr (flushed ?s 0 img)"
    using write_flushed [OF si(2,4,3)] by blast
  let ?q = "flushed ?s 0 img"
  let ?j = "\<lparr>scheduled = [1, 0], unscheduled = [], no_scheduled = 2, no_unscheduled = 0, j_seqno = 2, j_r = [0]\<rparr>"
  have fi: "info_of ?s = info_of demo_full" by (simp add: info_of_def fun_eq_iff)
  have nx: "bi_next_seqno (flushed_info ?s 0 0) = 9" "no_indices (flushed_info ?s 0 1) = 0" using demo_full_fields by (simp_all add: fi)
  have "juggler_get_devblock (flushed_info ?s 0) (d_j (sd_dev demo_full)) False = Inr (picked_info ?q 1 3, ?j, Some 1)"
    using nx demo_full_fields
    by (simp add: juggler_get_devblock_def juggler_get_obsoleted_def juggler_select_def juggler_draw_def random_custom_one
        juggler_place.simps picked_info_def set_seqnos_def fun_eq_iff Let_def)
  then have sel: "lift_b blockio_dev_select_next_macroblock ?q = Inr (picked ?q 1 3 ?j)"
    by (simp add: lift_b_def blockio_dev_select_next_macroblock_def) (simp add: picked_def)
  have "next_empty ?q" by (rule flushed_next_empty [OF si(1) _ _ si(4)]) (use demo_full_fields in \<open>simp_all add: calm_def\<close>)
  with select_picked [OF flushed_core [OF fl] _ this] sel picked_core have ci: "core_inv ?g (picked ?q 1 3 ?j)" by auto
  have tail: "tail_macroblock (sd_dev (picked ?q 1 3 ?j)) = Some 1" "used_of (picked ?q 1 3 ?j) 1 = 0"
    using nx by (simp_all add: juggler_get_obsoleted_def picked_info_def set_seqnos_def)
  have "blockio_dev_get_macroblock_status (sd_b (picked ?q 1 3 ?j), sd_dev (picked ?q 1 3 ?j)) 1 = Inr USED"
    using ci by (intro status_used [of ?g]) (auto simp: core_inv_def)
  then have "copy_old_block_to_current ?g (picked ?q 1 3 ?j) = Inr (picked ?q 1 3 ?j)"
    using tail by (simp add: copy_old_block_to_current_def copy_loop_empty)
  moreover have "\<not> current_full (picked ?q 1 3 ?j)" using tail(2) demo_full_fields by (simp add: current_full_def)
  ultimately show ?thesis
    using wr sel by (simp add: select_round_def blockio_dev_write_current_and_select_next_macroblock_def [abs_def] lift_b_bind [symmetric])
qed

lemma demo_full_write:
  "write_calm demo_gcrypt demo_full 1" "current_full demo_full" "Some (ID (sd_l demo_full) (block_indices (sd_l demo_full) ! 1)) \<noteq> d_bi (sd_dev demo_full)"
  "length d \<le> 512 \<Longrightarrow> \<exists>s1. do_write demo_gcrypt demo_full 1 0 d = Inr s1"
proof -
  let ?s = "set_updated True demo_full"
  obtain t where t: "select_round demo_gcrypt ?s = Inr t" "\<not> current_full t" using demo_full_round by blast
  have io: "initialize_output demo_gcrypt ?s = Inr ?s" using demo_full_fields by (simp add: initialize_output_def)
  have loop: "select_loop demo_gcrypt ?s = Inr t" using t by (subst select_loop.simps) simp
  have sc: "select_calm demo_gcrypt ?s" using t demo_full_fields by (subst select_calm.simps) (simp add: calm_def)
  then show "write_calm demo_gcrypt demo_full 1" using demo_full_fields by (simp add: write_calm_def io)
  show full: "current_full demo_full" using demo_full_fields by (simp add: current_full_def)
  show other: "Some (ID (sd_l demo_full) (block_indices (sd_l demo_full) ! 1)) \<noteq> d_bi (sd_dev demo_full)"
    using demo_full_fields by (simp add: ID_unat)
  have si: "sdev_inv demo_gcrypt ?s" "output_initialized (sd_l ?s)" "d_bi (sd_dev ?s) \<noteq> None"
    using demo_full_ok demo_full_fields by (simp_all add: device_ok_def)
  then obtain c where ti: "sdev_inv demo_gcrypt t" "same_view demo_gcrypt ?s t" "output_initialized (sd_l t)" "d_bi (sd_dev t) = Some c"
    using select_loop_ok [OF si(1,2) sc si(3)] loop by auto
  show "\<exists>s1. do_write demo_gcrypt demo_full 1 0 d = Inr s1" if d: "length d \<le> 512"
  proof -
    have "size_of t = 2" "mesoblk_log (sd_b t) = 9" using view_sizes [OF ti(2)] demo_full_fields by simp_all
    then obtain s1 where "write_store demo_gcrypt 1 0 d (block_indices (sd_l t) ! 1) t = Inr s1"
      using store_ok [OF ti(1,3,4), of 1 0 d] t(2) d by auto
    moreover have "current_full ?s" using full demo_full_fields by (simp add: current_full_def flag_fields)
    ultimately show ?thesis
      using do_write_halves [OF _ io, of 0 d 0 1] demo_full_fields other loop d
      by (simp add: write_target_def pleasewrite_signal_def select_new_macroblock_def)
  qed
qed

section \<open>Properties\<close>

text \<open>
  C3: what a device holds survives when it is closed and opened again. If the current macroblock is written at the close
  (the flag \<^verbatim>\<open>updated\<close> is set), the scan, the bitmap and the replay rebuild a device with the same contents, the schedule
  matches the hash in the newest header, and the invariants of the device and of its log hold again. If the next macroblock was
  collected before, the device can be used at once: the only possible failure of the selection of a macroblock is an
  exhausted random source.
\<close>

theorem reopen_restores_contents:
  assumes "device_ok g s" "log_ok g s" "updated (sd_dev s)" "room_for r s" "unused_id i s"
  shows "\<exists>s'. close_and_reopen g ec i r s = Inr (s', True) \<and> core_inv g s' \<and> log_ok g s' \<and> flat g s' = flat g s \<and>
    (output_initialized (sd_l s) \<and> calm s \<longrightarrow>
      (case lift_b blockio_dev_select_next_macroblock s' of
         Inl e \<Rightarrow> e = out_of_random
       | Inr s2 \<Rightarrow> device_ok g s2 \<and> log_ok g s2 \<and> flat g s2 = flat g s))"
proof -
  obtain s' where s': "close_and_reopen g ec i r s = Inr (s', True)" "core_inv g s'" "log_ok g s'" "flat g s' = flat g s" "d_bi (sd_dev s') = None"
    "\<not> output_initialized (sd_l s')" "output_initialized (sd_l s) \<and> calm s \<longrightarrow> next_empty s'"
    using reopen_ok [OF assms] by blast
  have "runs (lift_b blockio_dev_select_next_macroblock s') (\<lambda>s2. device_ok g s2 \<and> log_ok g s2 \<and> flat g s2 = flat g s)" if "next_empty s'"
    by (rule runs_mono [OF select_picked [OF s'(2,5) that]]) (use picked_opened s' in metis)
  with s' show ?thesis by (auto simp: runs_def)
qed

theorem reopen_restores_contents_witness:
  "\<exists>s'. close_and_reopen demo_gcrypt True 0 [0, 0, 0, 0] (demo_after 3) = Inr (s', True) \<and>
     flat demo_gcrypt s' = flat demo_gcrypt (demo_after 3)"
  using reopen_restores_contents [OF demo_after_ok(1-3), of "[0, 0, 0, 0]" 0 True] demo_after_ok(6,7) by auto

text \<open>
  C4: a write that was acknowledged is still there after the device was closed and opened again, as long as it did not open
  a new macroblock (then \<^verbatim>\<open>updated\<close> is set). The write is calm, as for the theorems about an open device.
\<close>

theorem written_data_survives_reopen:
  assumes "device_ok g s" "log_ok g s" "dev_fits s off (length d)" "dev_calm g s off d" "dev_write g s off d = Inr s1"
    and "updated (sd_dev s1)" "output_initialized (sd_l s1)" "calm s1" "room_for r s1" "unused_id i s1"
  shows "\<exists>s2. close_and_reopen g ec i r s1 = Inr (s2, True) \<and>
    (case lift_b blockio_dev_select_next_macroblock s2 of
       Inl e \<Rightarrow> e = out_of_random
     | Inr s3 \<Rightarrow> device_ok g s3 \<and> dev_read g s3 off (length d) = Inr d)"
proof -
  have s1: "device_ok g s1" "log_ok g s1" "flat g s1 = blit off d (flat g s)"
    using dev_write_runs [OF assms(1,3,4)] assms(2,5) by (auto simp: keeps_def)
  obtain s2 where s2: "close_and_reopen g ec i r s1 = Inr (s2, True)" "core_inv g s2" "log_ok g s2" "flat g s2 = flat g s1" "d_bi (sd_dev s2) = None"
    "\<not> output_initialized (sd_l s2)" "next_empty s2"
    using reopen_ok [OF s1(1,2) assms(6,9,10)] assms(7,8) by blast
  have "device_ok g s3 \<and> dev_read g s3 off (length d) = Inr d" if "picking g s2 b ns j" "s3 = picked s2 b ns j" for s3 b ns j
  proof -
    have s3: "device_ok g s3" "flat g s3 = flat g s1" using picked_opened [OF that(1) s2(2,3,6,4)] that(2) by simp_all
    have l: "off + length d \<le> length (flat g s)" by (rule device_store.fits_inside [OF assms(1,3)])
    then have "length (flat g s3) = length (flat g s)" using s3(2) s1(3) by (simp add: length_blit)
    then have "dev_fits s3 off (length d)"
      using l s3(1) assms(3) length_flat [of g s3] by (simp add: dev_fits_def device_ok_def sdev_inv_def)
    then show ?thesis using device_store.rd_law [OF s3(1)] s3 s1(3) l by (simp add: bslice_blit_same)
  qed
  then have "runs (lift_b blockio_dev_select_next_macroblock s2) (\<lambda>s3. device_ok g s3 \<and> dev_read g s3 off (length d) = Inr d)"
    by (intro runs_mono [OF select_picked [OF s2(2,5,7)]]) blast
  with s2(1) show ?thesis by (auto simp: runs_def)
qed

theorem written_data_survives_reopen_witness:
  "\<exists>s2. close_and_reopen demo_gcrypt True 0 [0, 0, 0, 0] (demo_after 3) = Inr (s2, True) \<and>
     (case lift_b blockio_dev_select_next_macroblock s2 of
        Inl e \<Rightarrow> e = out_of_random
      | Inr s3 \<Rightarrow> device_ok demo_gcrypt s3 \<and> dev_read demo_gcrypt s3 3 (length ([1, 2, 3, 4] :: bytes)) = Inr [1, 2, 3, 4])"
  using written_data_survives_reopen [of demo_gcrypt "demo_sdev 3" 3 "[1, 2, 3, 4]" "demo_after 3" "[0, 0, 0, 0]" 0 True]
    demo_after_ok(3-5,7) demo_after_ok(6) [of "[0, 0, 0, 0]"] demo_log_ok by (simp add: demo_device_ok demo_dev_fits demo_dev_calm demo_dev_write)

text \<open>
  C5: a write that finds the current macroblock full and opens a new one is lost when the device is closed: selecting the
  macroblock clears the flag \<^verbatim>\<open>updated\<close> that the write had set, so the close leaves the new macroblock in memory. Whatever was
  written, the disk ends up the same.
\<close>

theorem write_to_new_macroblock_lost:
  assumes "device_ok g s" "m < size_of s" "off + length d \<le> 2 ^ mesoblk_log (sd_b s)" "length d' = length d" "write_calm g s m"
    and "output_initialized (sd_l s)" "current_full s" "Some (ID (sd_l s) (block_indices (sd_l s) ! m)) \<noteq> d_bi (sd_dev s)"
    and "do_write g s m off d = Inr s1" "do_write g s m off d' = Inr s2"
  shows "content g s1 m = blit off d (content g s m) \<and> content g s2 m = blit off d' (content g s m) \<and>
    (\<exists>b1 b2. blockio_dev_free g (sd_b s1, sd_dev s1) = Inr b1 \<and> blockio_dev_free g (sd_b s2, sd_dev s2) = Inr b2 \<and> disk b1 = disk b2)"
proof -
  have si: "sdev_inv g s" "d_bi (sd_dev s) \<noteq> None" using assms(1) by (simp_all add: device_ok_def)
  obtain c where c: "d_bi (sd_dev s) = Some c" using si(2) by auto
  have io: "initialize_output g (set_updated True s) = Inr (set_updated True s)" using assms(6) by (simp add: initialize_output_def)
  have full: "current_full (set_updated True s)" "ID (sd_l s) (block_indices (sd_l s) ! m) \<noteq> c" "\<not> sd_errorcheck s"
    using assms(5,7,8) c by (simp_all add: current_full_def info_of_def write_calm_def io)
  have h: "do_write g s m off x = rbind (select_loop g (set_updated True s)) (\<lambda>s. write_store g m off x (block_indices (sd_l s) ! m) s)"
    if "length x = length d" for x
    using do_write_halves [of off x s g "set_updated True s" c m] that assms(3,6) io c full
    by (simp add: write_target_def pleasewrite_signal_def select_new_macroblock_def) (cases "select_loop g (set_updated True s)"; simp)
  have w: "rbind (select_loop g (set_updated True s)) (\<lambda>s. write_store g m off d (block_indices (sd_l s) ! m) s) = Inr s1"
    "rbind (select_loop g (set_updated True s)) (\<lambda>s. write_store g m off d' (block_indices (sd_l s) ! m) s) = Inr s2"
    using h [of d] h [of d'] assms(4,9,10) by simp_all
  then obtain t where t: "select_loop g (set_updated True s) = Inr t" "write_store g m off d (block_indices (sd_l t) ! m) t = Inr s1"
    "write_store g m off d' (block_indices (sd_l t) ! m) t = Inr s2"
    by (cases "select_loop g (set_updated True s)") auto
  have "\<not> updated (sd_dev s1)" "\<not> updated (sd_dev s2)" "disk (sd_b s1) = disk (sd_b s2)"
    using select_loop_updated [OF t(1)] write_store_updated [OF t(2)] write_store_updated [OF t(3)] by simp_all
  with free_keeps_disk [of "sd_dev s1" g "sd_b s1"] free_keeps_disk [of "sd_dev s2" g "sd_b s2"]
  have "\<exists>b1 b2. blockio_dev_free g (sd_b s1, sd_dev s1) = Inr b1 \<and> blockio_dev_free g (sd_b s2, sd_dev s2) = Inr b2 \<and> disk b1 = disk b2" by auto
  with do_write_ok [OF si assms(5,2), of off d] do_write_ok [OF si assms(5,2), of off d'] assms(2-4,9,10)
  show ?thesis by (simp add: written_def)
qed

theorem write_to_new_macroblock_lost_witness:
  "\<exists>s1 s2 b1 b2. do_write demo_gcrypt demo_full 1 0 [1, 2] = Inr s1 \<and> do_write demo_gcrypt demo_full 1 0 [3, 4] = Inr s2 \<and>
     blockio_dev_free demo_gcrypt (sd_b s1, sd_dev s1) = Inr b1 \<and> blockio_dev_free demo_gcrypt (sd_b s2, sd_dev s2) = Inr b2 \<and> disk b1 = disk b2"
proof -
  obtain s1 s2 where w: "do_write demo_gcrypt demo_full 1 0 [1, 2] = Inr s1" "do_write demo_gcrypt demo_full 1 0 [3, 4] = Inr s2"
    using demo_full_write(4) [of "[1, 2]"] demo_full_write(4) [of "[3, 4]"] by auto
  with write_to_new_macroblock_lost [OF demo_full_ok _ _ _ demo_full_write(1) _ demo_full_write(2,3) w]
  show ?thesis by (simp add: demo_full_fields)
qed

end
