(* ===== verification/Hashtbl.thy ===== *)
theory Hashtbl
  imports Pthd
begin

text \<open>
  Model of src/src/hashtbl.c: the thread safe hash table that holds the open devices, their key ids
  and the control commands. Elements live on a heap of link fields, buckets are chains through it, and
  every mutex operation of the code is a step of the model on the set of mutexes that the thread
  holds. The theorems show that the table is a finite map with unique keys, that the hand over hand
  locking never locks a mutex twice, and which mutexes every operation returns with.
\<close>

section \<open>State (hashtbl.h)\<close>

datatype mutex = Count_mutex | Bucket_ptr nat | Bucket_uniq nat | Elt_ptr nat | Elt_data nat

record hashtbl_elt =
  he_next :: "nat option"
  he_key :: bytes

text \<open>
  An empty list of buckets is the null pointer of a table that was never initialised. \<open>freed\<close> lists
  the elements that were handed to the function \<^verbatim>\<open>freer\<close>. The number of elements is an \<^verbatim>\<open>int\<close> in the code and unbounded
  here; tables of 2^31 elements are outside of the model.
\<close>

record hashtbl =
  buckets :: "nat option list"
  key_size :: int
  key_bits :: nat
  unique :: bool
  thread_safe :: bool
  has_freer :: bool
  h_count :: int
  elts :: "nat \<Rightarrow> hashtbl_elt"
  held :: "mutex set"
  freed :: "nat list"

definition NO_BUCKETS :: "hashtbl \<Rightarrow> nat" where
  "NO_BUCKETS h = 2 ^ key_bits h"

text \<open>A place that holds a pointer to an element: the head of a bucket, or the link of an element.\<close>

datatype link = First nat | Next nat

definition deref :: "hashtbl \<Rightarrow> link \<Rightarrow> nat option" where
  "deref h p = (case p of First b \<Rightarrow> buckets h ! b | Next e \<Rightarrow> he_next (elts h e))"

definition set_link :: "link \<Rightarrow> nat option \<Rightarrow> hashtbl \<Rightarrow> hashtbl" where
  "set_link p v h =
     (case p of First b \<Rightarrow> h\<lparr>buckets := (buckets h)[b := v]\<rparr>
      | Next e \<Rightarrow> h\<lparr>elts := (elts h)(e := (elts h e)\<lparr>he_next := v\<rparr>)\<rparr>)"

definition ts :: "(mutex set \<Rightarrow> mutex set res) \<Rightarrow> hashtbl \<Rightarrow> hashtbl res" where
  "ts f h = (if thread_safe h then rbind (f (held h)) (\<lambda>s. Inr (h\<lparr>held := s\<rparr>)) else Inr h)"

abbreviation lock :: "mutex \<Rightarrow> hashtbl \<Rightarrow> hashtbl res" where
  "lock m \<equiv> ts (pthd_mutex_lock m)"

abbreviation unlock :: "mutex \<Rightarrow> hashtbl \<Rightarrow> hashtbl res" where
  "unlock m \<equiv> ts (pthd_mutex_unlock m)"

section \<open>Deleting an element\<close>

definition hashtbl_delete_element :: "link \<Rightarrow> mutex option \<Rightarrow> hashtbl \<Rightarrow> hashtbl res" where
  "hashtbl_delete_element eltp ptr_mutex h =
     (case deref h eltp of
        None \<Rightarrow> Inl (Assert ''NULL dereference: *eltp'')
      | Some elt \<Rightarrow>
          rbind (lock (Elt_ptr elt) h) (\<lambda>h.
          let h = set_link eltp (he_next (elts h elt)) h in
          rbind (unlock (Elt_ptr elt) h) (\<lambda>h.
          rbind (unlock (Elt_data elt) h) (\<lambda>h.
          rbind (ts (pthd_mutex_destroy (Elt_ptr elt)) h) (\<lambda>h.
          rbind (ts (pthd_mutex_destroy (Elt_data elt)) h) (\<lambda>h.
          rbind (case ptr_mutex of None \<Rightarrow> Inr h | Some m \<Rightarrow> unlock m h) (\<lambda>h.
            Inr (if has_freer h then h\<lparr>freed := freed h @ [elt]\<rparr> else h))))))))"

text \<open>The inner loop of \<^verbatim>\<open>hashtbl_empty\<close>.\<close>

partial_function (option) empty_bucket :: "nat \<Rightarrow> hashtbl \<Rightarrow> hashtbl res option" where
  "empty_bucket b h =
     (case buckets h ! b of
        None \<Rightarrow> Some (Inr h)
      | Some e \<Rightarrow>
          (case rbind (lock (Elt_data e) h) (hashtbl_delete_element (First b) None) of
             Inl er \<Rightarrow> Some (Inl er)
           | Inr h' \<Rightarrow> empty_bucket b h'))"

definition hashtbl_empty :: "hashtbl \<Rightarrow> hashtbl res" where
  "hashtbl_empty h =
     (if buckets h = [] then Inr h
      else
        rbind (lock Count_mutex h) (\<lambda>h.
        rbind (rfold (\<lambda>b h.
            rbind (lock (Bucket_ptr b) h) (\<lambda>h.
            rbind (rbind (ends (empty_bucket b h)) (\<lambda>r. r)) (\<lambda>h.
            unlock (Bucket_ptr b) h))) [0..<NO_BUCKETS h] (h\<lparr>h_count := 0\<rparr>))
          (unlock Count_mutex)))"

definition hashtbl_free :: "hashtbl \<Rightarrow> hashtbl res" where
  "hashtbl_free h =
     rbind (hashtbl_empty h) (\<lambda>h.
     rbind (ts (pthd_mutex_destroy Count_mutex) h) (\<lambda>h.
     rbind (rfold (\<lambda>b h.
         rbind (ts (pthd_mutex_destroy (Bucket_ptr b)) h) (\<lambda>h.
         if unique h then ts (pthd_mutex_destroy (Bucket_uniq b)) h else Inr h)) [0..<NO_BUCKETS h] h) (\<lambda>h.
       Inr (h\<lparr>buckets := []\<rparr>))))"

text \<open>The field \<^verbatim>\<open>key_size\<close> has eight bits and a sign. A new table has fresh mutexes, none of them held.\<close>

definition hashtbl_init_default :: "int \<Rightarrow> nat \<Rightarrow> bool \<Rightarrow> bool \<Rightarrow> bool \<Rightarrow> hashtbl res" where
  "hashtbl_init_default ksize kbits tsafe uniq fr =
     asserting (kbits \<le> 16) ''hashtbl_init_default: key_bits >= 0 && key_bits <= 16'' (
     asserting (ksize \<ge> 0 \<longrightarrow> 8 * ksize \<ge> int kbits \<and> ksize < 128) ''hashtbl_init_default: 8*key_size >= key_bits && key_size < 128'' (
       Inr \<lparr>buckets = replicate (2 ^ kbits) None, key_size = (ksize + 128) mod 256 - 128, key_bits = kbits, unique = uniq, thread_safe = tsafe,
            has_freer = fr, h_count = 0, elts = (\<lambda>_. \<lparr>he_next = None, he_key = []\<rparr>), held = {}, freed = []\<rparr>))"

section \<open>Keys\<close>

text \<open>A key that is a string ends at its first zero byte.\<close>

definition cstr :: "bytes \<Rightarrow> bytes" where
  "cstr k = takeWhile (\<lambda>c. c \<noteq> 0) k"

definition hash_sdbm :: "bytes \<Rightarrow> u32" where
  "hash_sdbm str = fold (\<lambda>c hash. ucast c + push_bit 6 hash + push_bit 16 hash - hash) (cstr str) 0"

definition same_key :: "hashtbl \<Rightarrow> bytes \<Rightarrow> bytes \<Rightarrow> bool" where
  "same_key h k k' \<longleftrightarrow> (if key_size h < 0 then cstr k = cstr k' else take (nat (key_size h)) k = take (nat (key_size h)) k')"

text \<open>What the search compares with: the three functions of type \<^verbatim>\<open>compare_t\<close> and their targets.\<close>

datatype criterion = Compare_key bytes | Compare_ptr nat | Compare_true

definition compare :: "hashtbl \<Rightarrow> criterion \<Rightarrow> nat \<Rightarrow> bool res" where
  "compare h cr elt =
     (case cr of
        Compare_key k \<Rightarrow> asserting (key_size h \<noteq> 0) ''compare_key: h->key_size != 0'' (Inr (same_key h k (he_key (elts h elt))))
      | Compare_ptr p \<Rightarrow> Inr (p = elt)
      | Compare_true \<Rightarrow> Inr True)"

text \<open>
  The first four bytes of a key of fixed size, in the byte order of the host (little endian). With no
  key bits the shift of the mask is not defined in C.
\<close>

definition key_word :: "bytes \<Rightarrow> u32" where
  "key_word k = of_nat (foldr (\<lambda>c n. unat c + 256 * n) (take 4 k) 0)"

definition get_bucket :: "hashtbl \<Rightarrow> bytes \<Rightarrow> nat res" where
  "get_bucket h key =
     asserting (0 < key_bits h) ''get_bucket: undefined shift'' (
       Inr (unat ((if key_size h < 0 then hash_sdbm key else key_word (take (nat (key_size h)) key))
         AND drop_bit (32 - key_bits h) 0xFFFFFFFF)))"

section \<open>Searching\<close>

text \<open>
  The search returns the place that points to the element it found and the mutex that protects that
  place, both still locked, and the element with its data locked; without a match nothing stays
  locked.
\<close>

partial_function (option) hashtbl_find_elementp_starting_at ::
    "criterion \<Rightarrow> mutex \<Rightarrow> link \<Rightarrow> hashtbl \<Rightarrow> (hashtbl \<times> (link \<times> mutex) option) res option" where
  "hashtbl_find_elementp_starting_at cr ptr_mutex next h =
     (case deref h next of
        None \<Rightarrow> Some (rbind (unlock ptr_mutex h) (\<lambda>h. Inr (h, None)))
      | Some e \<Rightarrow>
          (case compare h cr e of
             Inl er \<Rightarrow> Some (Inl er)
           | Inr c \<Rightarrow>
               if c then Some (rbind (lock (Elt_data e) h) (\<lambda>h. Inr (h, Some (next, ptr_mutex))))
               else (case rbind (lock (Elt_ptr e) h) (unlock ptr_mutex) of
                  Inl er \<Rightarrow> Some (Inl er)
                | Inr h' \<Rightarrow> hashtbl_find_elementp_starting_at cr (Elt_ptr e) (Next e) h')))"

definition hashtbl_find_elementp_in_bucket :: "criterion \<Rightarrow> nat \<Rightarrow> hashtbl \<Rightarrow> (hashtbl \<times> (link \<times> mutex) option) res" where
  "hashtbl_find_elementp_in_bucket cr bucket h =
     asserting (bucket < NO_BUCKETS h) ''hashtbl_find_elementp_in_bucket: bucket < NO_BUCKETS'' (
     rbind (lock (Bucket_ptr bucket) h) (\<lambda>h.
     rbind (ends (hashtbl_find_elementp_starting_at cr (Bucket_ptr bucket) (First bucket) h)) (\<lambda>r. r)))"

fun find_from_buckets :: "criterion \<Rightarrow> nat list \<Rightarrow> hashtbl \<Rightarrow> (hashtbl \<times> (link \<times> mutex) option) res" where
  "find_from_buckets cr [] h = Inr (h, None)"
| "find_from_buckets cr (b # bs) h =
     rbind (hashtbl_find_elementp_in_bucket cr b h) (\<lambda>(h, r).
       case r of Some x \<Rightarrow> Inr (h, Some x) | None \<Rightarrow> find_from_buckets cr bs h)"

definition hashtbl_find_elementp_from_bucket :: "criterion \<Rightarrow> nat \<Rightarrow> hashtbl \<Rightarrow> (hashtbl \<times> (link \<times> mutex) option) res" where
  "hashtbl_find_elementp_from_bucket cr start h = find_from_buckets cr [start..<NO_BUCKETS h] h"

text \<open>The pattern that the three searches for an element share: read the place, then unlock it.\<close>

definition found_element :: "hashtbl \<times> (link \<times> mutex) option \<Rightarrow> (hashtbl \<times> nat option) res" where
  "found_element r =
     (case r of (h, None) \<Rightarrow> Inr (h, None)
      | (h, Some (eltp, pm)) \<Rightarrow> rbind (unlock pm h) (\<lambda>h'. Inr (h', deref h eltp)))"

definition hashtbl_find_element_starting_at :: "criterion \<Rightarrow> nat \<Rightarrow> hashtbl \<Rightarrow> (hashtbl \<times> nat option) res" where
  "hashtbl_find_element_starting_at cr start h =
     rbind (lock (Elt_ptr start) h) (\<lambda>h.
     rbind (unlock (Elt_data start) h) (\<lambda>h.
     rbind (rbind (ends (hashtbl_find_elementp_starting_at cr (Elt_ptr start) (Next start) h)) (\<lambda>r. r)) found_element))"

definition hashtbl_find_element_in_bucket :: "criterion \<Rightarrow> nat \<Rightarrow> hashtbl \<Rightarrow> (hashtbl \<times> nat option) res" where
  "hashtbl_find_element_in_bucket cr bucket h = rbind (hashtbl_find_elementp_in_bucket cr bucket h) found_element"

definition hashtbl_find_element_from_bucket :: "criterion \<Rightarrow> nat \<Rightarrow> hashtbl \<Rightarrow> (hashtbl \<times> nat option) res" where
  "hashtbl_find_element_from_bucket cr start h = rbind (hashtbl_find_elementp_from_bucket cr start h) found_element"

section \<open>Changing the table\<close>

definition hashtbl_delete_element_from_bucket :: "criterion \<Rightarrow> nat \<Rightarrow> hashtbl \<Rightarrow> hashtbl res" where
  "hashtbl_delete_element_from_bucket cr bucket h =
     rbind (hashtbl_find_elementp_in_bucket cr bucket h) (\<lambda>(h, r).
     case r of
       None \<Rightarrow> Inr h
     | Some (eltp, pm) \<Rightarrow>
         rbind (lock Count_mutex h) (\<lambda>h.
         let h = h\<lparr>h_count := h_count h - 1\<rparr> in
         asserting (h_count h \<ge> 0) ''hashtbl_delete_element_from_bucket: h->count >= 0'' (
         rbind (unlock Count_mutex h) (hashtbl_delete_element eltp (Some pm)))))"

text \<open>
  The elements of a table that is not thread safe have mutexes that were never initialised, in memory that is zero; those
  are plain mutexes, which are unlocked without an error.
\<close>

definition hashtbl_unlock_element_byptr :: "nat \<Rightarrow> hashtbl \<Rightarrow> hashtbl res" where
  "hashtbl_unlock_element_byptr elt h =
     (if thread_safe h then rbind (pthd_mutex_unlock (Elt_data elt) (held h)) (\<lambda>s. Inr (h\<lparr>held := s\<rparr>)) else Inr h)"

definition unique_key :: "nat \<Rightarrow> nat \<Rightarrow> hashtbl \<Rightarrow> (hashtbl \<times> bool) res" where
  "unique_key elt bucket h =
     rbind (hashtbl_find_element_in_bucket (Compare_key (he_key (elts h elt))) bucket h) (\<lambda>(h, r).
     case r of
       Some elt2 \<Rightarrow> rbind (if thread_safe h then hashtbl_unlock_element_byptr elt2 h else Inr h) (\<lambda>h. Inr (h, False))
     | None \<Rightarrow> Inr (h, True))"

definition hashtbl_count_unlock :: "hashtbl \<Rightarrow> hashtbl res" where
  "hashtbl_count_unlock h = unlock Count_mutex h"

definition hashtbl_add_element :: "nat \<Rightarrow> hashtbl \<Rightarrow> (hashtbl \<times> nat option) res" where
  "hashtbl_add_element elt h =
     rbind (get_bucket h (he_key (elts h elt))) (\<lambda>bucket.
     rbind (lock Count_mutex h) (\<lambda>h.
     rbind (hashtbl_count_unlock (h\<lparr>h_count := h_count h + 1\<rparr>)) (\<lambda>h.
     rbind (if unique h then lock (Bucket_uniq bucket) h else Inr h) (\<lambda>h.
     rbind (if unique h then unique_key elt bucket h else Inr (h, True)) (\<lambda>(h, uniq).
     if \<not> uniq then
       rbind (unlock (Bucket_uniq bucket) h) (\<lambda>h.
       rbind (lock Count_mutex h) (\<lambda>h.
       rbind (unlock Count_mutex (h\<lparr>h_count := h_count h - 1\<rparr>)) (\<lambda>h. Inr (h, None))))
     else
       rbind (ts (\<lambda>s. Inr (pthd_mutex_init (Elt_data elt) (pthd_mutex_init (Elt_ptr elt) s))) h) (\<lambda>h.
       rbind (lock (Bucket_ptr bucket) h) (\<lambda>h.
       let h = h\<lparr>elts := (elts h)(elt := (elts h elt)\<lparr>he_next := buckets h ! bucket\<rparr>)\<rparr>;
           h = h\<lparr>buckets := (buckets h)[bucket := Some elt]\<rparr> in
       rbind (lock (Elt_data elt) h) (\<lambda>h.
       rbind (unlock (Bucket_ptr bucket) h) (\<lambda>h.
       rbind (if unique h then unlock (Bucket_uniq bucket) h else Inr h) (\<lambda>h.
         Inr (h, Some elt)))))))))))"

text \<open>\<open>fresh\<close> is the address that the allocation returns.\<close>

definition hashtbl_allocate_and_add_element :: "nat \<Rightarrow> bytes \<Rightarrow> hashtbl \<Rightarrow> (hashtbl \<times> nat option) res" where
  "hashtbl_allocate_and_add_element fresh key h =
     hashtbl_add_element fresh (h\<lparr>elts := (elts h)(fresh := \<lparr>he_next = None, he_key = key\<rparr>)\<rparr>)"

section \<open>Operations by key and by pointer\<close>

definition hashtbl_find_element_bykey :: "bytes \<Rightarrow> hashtbl \<Rightarrow> (hashtbl \<times> nat option) res" where
  "hashtbl_find_element_bykey key h =
     rbind (get_bucket h key) (\<lambda>b. hashtbl_find_element_in_bucket (Compare_key key) b h)"

definition hashtbl_delete_element_bykey :: "bytes \<Rightarrow> hashtbl \<Rightarrow> hashtbl res" where
  "hashtbl_delete_element_bykey key h =
     rbind (get_bucket h key) (\<lambda>b. hashtbl_delete_element_from_bucket (Compare_key key) b h)"

definition hashtbl_delete_element_byptr :: "nat \<Rightarrow> hashtbl \<Rightarrow> hashtbl res" where
  "hashtbl_delete_element_byptr elt h =
     rbind (get_bucket h (he_key (elts h elt))) (\<lambda>b. hashtbl_delete_element_from_bucket (Compare_ptr elt) b h)"

definition hashtbl_first_element :: "hashtbl \<Rightarrow> (hashtbl \<times> nat option) res" where
  "hashtbl_first_element h = hashtbl_find_element_from_bucket Compare_true 0 h"

definition hashtbl_cond_wait_element_byptr :: "nat \<Rightarrow> hashtbl \<Rightarrow> hashtbl res" where
  "hashtbl_cond_wait_element_byptr elt h =
     rbind (pthd_cond_wait (Elt_data elt) (held h)) (\<lambda>s. Inr (h\<lparr>held := s\<rparr>))"

text \<open>A pointer to an element, null being \<open>None\<close>.\<close>

definition hashtbl_elementp_free :: "nat option \<Rightarrow> hashtbl \<Rightarrow> hashtbl res" where
  "hashtbl_elementp_free elt h = (case elt of None \<Rightarrow> Inr h | Some e \<Rightarrow> hashtbl_unlock_element_byptr e h)"

definition hashtbl_unlock_elementp :: "nat option \<Rightarrow> hashtbl \<Rightarrow> hashtbl res" where
  "hashtbl_unlock_elementp elt h =
     (case elt of None \<Rightarrow> Inl (Assert ''hashtbl_unlock_element_byptr: elt'') | Some e \<Rightarrow> hashtbl_unlock_element_byptr e h)"

definition hashtbl_elementp_init_add :: "nat \<Rightarrow> bytes \<Rightarrow> hashtbl \<Rightarrow> (hashtbl \<times> nat option) res" where
  "hashtbl_elementp_init_add fresh key h = hashtbl_allocate_and_add_element fresh key h"

definition hashtbl_elementp_init_find :: "bytes \<Rightarrow> hashtbl \<Rightarrow> (hashtbl \<times> nat option) res" where
  "hashtbl_elementp_init_find key h = hashtbl_find_element_bykey key h"

definition hashtbl_next_element_byptr :: "nat \<Rightarrow> hashtbl \<Rightarrow> (hashtbl \<times> nat option) res" where
  "hashtbl_next_element_byptr prev h =
     rbind (get_bucket h (he_key (elts h prev))) (\<lambda>bucket.
     rbind (hashtbl_find_element_starting_at Compare_true prev h) (\<lambda>(h, elt).
     case elt of
       Some e \<Rightarrow> Inr (h, Some e)
     | None \<Rightarrow> hashtbl_find_element_from_bucket Compare_true (bucket + 1) h))"

definition hashtbl_get_count :: "hashtbl \<Rightarrow> (hashtbl \<times> int) res" where
  "hashtbl_get_count h =
     rbind (lock Count_mutex h) (\<lambda>h. rbind (unlock Count_mutex h) (\<lambda>h'. Inr (h', h_count h)))"

text \<open>The callback \<open>rep\<close> works on its own state and may end the traversal by returning \<open>-1\<close>.\<close>

partial_function (option) traverse_loop ::
    "(nat \<Rightarrow> 'p \<Rightarrow> int \<times> 'p) \<Rightarrow> nat option \<Rightarrow> 'p \<Rightarrow> hashtbl \<Rightarrow> (hashtbl \<times> 'p \<times> int) res option" where
  "traverse_loop rep elt p h =
     (case elt of
        None \<Rightarrow> Some (Inr (h, p, 0))
      | Some e \<Rightarrow>
          (case rep e p of (r, p') \<Rightarrow>
             if r = -1 then Some (rbind (hashtbl_unlock_element_byptr e h) (\<lambda>h. Inr (h, p', -1)))
             else (case hashtbl_next_element_byptr e h of
                     Inl er \<Rightarrow> Some (Inl er)
                   | Inr (h', elt') \<Rightarrow> traverse_loop rep elt' p' h')))"

definition hashtbl_ts_traverse :: "(nat \<Rightarrow> 'p \<Rightarrow> int \<times> 'p) \<Rightarrow> 'p \<Rightarrow> hashtbl \<Rightarrow> (hashtbl \<times> 'p \<times> int) res" where
  "hashtbl_ts_traverse rep p h =
     rbind (hashtbl_first_element h) (\<lambda>(h, elt). rbind (ends (traverse_loop rep elt p h)) (\<lambda>r. r))"

section \<open>Chains of elements\<close>

fun chain :: "(nat \<Rightarrow> hashtbl_elt) \<Rightarrow> nat option \<Rightarrow> nat list \<Rightarrow> bool" where
  "chain hp p [] \<longleftrightarrow> p = None"
| "chain hp p (x # xs) \<longleftrightarrow> p = Some x \<and> chain hp (he_next (hp x)) xs"

lemma chain_upd [simp]: "e \<notin> set xs \<Longrightarrow> chain (hp(e := v)) p xs = chain hp p xs"
  by (induction xs arbitrary: p) auto

lemma chain_upd_if [simp]: "e \<notin> set xs \<Longrightarrow> chain (\<lambda>a. if a = e then v else hp a) p xs = chain hp p xs"
  using chain_upd [of e xs hp v p] by (simp add: fun_upd_def)

text \<open>A table that differs only in the mutexes that are held; a table that is not thread safe holds none.\<close>

definition holding :: "mutex set \<Rightarrow> hashtbl \<Rightarrow> hashtbl" where
  "holding s h = (if thread_safe h then h\<lparr>held := s\<rparr> else h)"

lemma holding_fields [simp]:
  "buckets (holding s h) = buckets h" "key_size (holding s h) = key_size h" "key_bits (holding s h) = key_bits h"
  "unique (holding s h) = unique h" "thread_safe (holding s h) = thread_safe h" "has_freer (holding s h) = has_freer h"
  "h_count (holding s h) = h_count h" "elts (holding s h) = elts h" "freed (holding s h) = freed h"
  "holding s (holding s' h) = holding s h" "deref (holding s h) = deref h" "compare (holding s h) = compare h"
  "NO_BUCKETS (holding s h) = NO_BUCKETS h" "get_bucket (holding s h) = get_bucket h"
  "thread_safe h \<Longrightarrow> held (holding s h) = s"
  by (auto simp: holding_def deref_def compare_def same_key_def NO_BUCKETS_def get_bucket_def fun_eq_iff split: link.splits criterion.splits)

lemma holding_self [simp]: "holding (held h) h = h"
  by (simp add: holding_def)

lemma ts_holding:
  "(thread_safe h \<Longrightarrow> f (held h) = Inr s) \<Longrightarrow> ts f h = Inr (holding s h)"
  by (auto simp: ts_def holding_def)

lemma ts_on_holding: "f s = Inr s' \<Longrightarrow> ts f (holding s h) = Inr (holding s' h)"
  by (auto simp: ts_def holding_def)

lemma lock_holding [simp]: "m \<notin> s \<Longrightarrow> lock m (holding s h) = Inr (holding (insert m s) h)"
  by (simp add: ts_on_holding)

lemma unlock_holding [simp]: "m \<in> s \<Longrightarrow> unlock m (holding s h) = Inr (holding (s - {m}) h)"
  by (simp add: ts_on_holding)

lemma destroy_holding [simp]: "m \<notin> s \<Longrightarrow> ts (pthd_mutex_destroy m) (holding s h) = Inr (holding s h)"
  by (simp add: ts_on_holding)

text \<open>What a search finds: the element, the place that points to it, and the mutex of that place.\<close>

fun locate :: "(nat \<Rightarrow> bool) \<Rightarrow> link \<Rightarrow> mutex \<Rightarrow> nat list \<Rightarrow> (nat \<times> link \<times> mutex) option" where
  "locate P l m [] = None"
| "locate P l m (x # xs) = (if P x then Some (x, l, m) else locate P (Next x) (Elt_ptr x) xs)"

definition located_held :: "mutex set \<Rightarrow> (nat \<times> link \<times> mutex) option \<Rightarrow> mutex set" where
  "located_held s r = (case r of None \<Rightarrow> s | Some (e, l, m) \<Rightarrow> insert (Elt_data e) (insert m s))"

lemma locate_find: "map_option fst (locate P l m xs) = find P xs"
  by (induction xs arbitrary: l m) auto

lemma starting_at_chain:
  assumes "chain (elts h) (deref h l) xs" "distinct xs" "\<forall>x\<in>set xs. compare h cr x = Inr (P x)"
    "m \<notin> s" "\<forall>x\<in>set xs. Elt_ptr x \<notin> insert m s \<and> Elt_data x \<notin> insert m s"
  shows "hashtbl_find_elementp_starting_at cr m l (holding (insert m s) h) =
    Some (Inr (holding (located_held s (locate P l m xs)) h, map_option snd (locate P l m xs)))"
  using assms
proof (induction xs arbitrary: l m)
  case Nil
  then show ?case by (subst hashtbl_find_elementp_starting_at.simps) (simp add: located_held_def)
next
  case (Cons x xs)
  have d: "deref h l = Some x" "compare h cr x = Inr (P x)" "chain (elts h) (deref h (Next x)) xs"
    using Cons.prems(1,3) by (simp_all add: deref_def)
  show ?case
  proof (cases "P x")
    case True
    then show ?thesis
      using d Cons.prems(5)
      by (subst hashtbl_find_elementp_starting_at.simps) (simp add: located_held_def insert_commute)
  next
    case False
    have "hashtbl_find_elementp_starting_at cr (Elt_ptr x) (Next x) (holding (insert (Elt_ptr x) s) h) =
        Some (Inr (holding (located_held s (locate P (Next x) (Elt_ptr x) xs)) h, map_option snd (locate P (Next x) (Elt_ptr x) xs)))"
      using Cons.prems(2,3,5) d(3) by (intro Cons.IH) auto
    moreover have "insert (Elt_ptr x) (insert m s) - {m} = insert (Elt_ptr x) s" using Cons.prems(4,5) by auto
    ultimately show ?thesis
      using d False Cons.prems(5) by (subst hashtbl_find_elementp_starting_at.simps) simp
  qed
qed

section \<open>What a table represents\<close>

text \<open>\<open>bs\<close> lists the elements of every bucket.\<close>

type_synonym table = "nat \<Rightarrow> nat list"

definition table_shape :: "hashtbl \<Rightarrow> table \<Rightarrow> bool" where
  "table_shape h bs \<longleftrightarrow> 0 < key_bits h \<and> key_bits h \<le> 16 \<and> key_size h \<noteq> 0 \<and> length (buckets h) = NO_BUCKETS h \<and>
     (\<forall>b < NO_BUCKETS h. chain (elts h) (buckets h ! b) (bs b) \<and> distinct (bs b) \<and>
        (\<forall>e \<in> set (bs b). get_bucket h (he_key (elts h e)) = Inr b))"

definition members :: "hashtbl \<Rightarrow> table \<Rightarrow> nat set" where
  "members h bs = (\<Union>b<NO_BUCKETS h. set (bs b))"

definition table_rep :: "hashtbl \<Rightarrow> table \<Rightarrow> bool" where
  "table_rep h bs \<longleftrightarrow> table_shape h bs \<and> h_count h = int (\<Sum>b<NO_BUCKETS h. length (bs b)) \<and>
     (unique h \<longrightarrow> (\<forall>e \<in> members h bs. \<forall>e' \<in> members h bs.
        same_key h (he_key (elts h e)) (he_key (elts h e')) \<longrightarrow> e = e'))"

lemma shape_holding [simp]: "table_shape (holding s h) = table_shape h"
  by (simp add: table_shape_def fun_eq_iff)

lemma same_key_holding [simp]: "same_key (holding s h) = same_key h"
  by (simp add: same_key_def fun_eq_iff)

lemma rep_holding [simp]: "table_rep (holding s h) = table_rep h"
  by (simp add: table_rep_def members_def fun_eq_iff)

lemma get_bucket_bound:
  assumes "0 < key_bits h" "key_bits h \<le> 16"
  shows "\<exists>b. get_bucket h k = Inr b \<and> b < NO_BUCKETS h"
proof -
  let ?m = "drop_bit (32 - key_bits h) (0xFFFFFFFF :: u32)"
  have "unat (0xFFFFFFFF :: u32) < 2 ^ key_bits h * 2 ^ (32 - key_bits h)" using assms by (simp flip: power_add)
  then have "unat ?m < 2 ^ key_bits h" unfolding unat_drop_bit_eq drop_bit_eq_div [of _ "unat _"] by (rule less_mult_imp_div_less)
  moreover have "x AND ?m \<le> ?m" for x by (rule word_and_le1)
  ultimately have "unat (x AND ?m) < 2 ^ key_bits h" for x by (meson le_less_trans word_le_nat_alt)
  with assms show ?thesis by (simp add: get_bucket_def NO_BUCKETS_def)
qed

definition criterion_holds :: "hashtbl \<Rightarrow> criterion \<Rightarrow> nat \<Rightarrow> bool" where
  "criterion_holds h cr e =
     (case cr of Compare_key k \<Rightarrow> same_key h k (he_key (elts h e)) | Compare_ptr p \<Rightarrow> p = e | Compare_true \<Rightarrow> True)"

lemma compare_criterion: "key_size h \<noteq> 0 \<Longrightarrow> compare h cr e = Inr (criterion_holds h cr e)"
  by (cases cr) (simp_all add: compare_def criterion_holds_def)

text \<open>The mutexes of a bucket and of its elements.\<close>

definition free_bucket :: "table \<Rightarrow> nat \<Rightarrow> mutex set \<Rightarrow> bool" where
  "free_bucket bs b s \<longleftrightarrow> Bucket_ptr b \<notin> s \<and> (\<forall>x \<in> set (bs b). Elt_ptr x \<notin> s \<and> Elt_data x \<notin> s)"

lemma bucket_distinct: "table_shape h bs \<Longrightarrow> b < NO_BUCKETS h \<Longrightarrow> distinct (bs b)"
  by (simp add: table_shape_def)

lemma find_elementp_in_bucket:
  assumes sh: "table_shape h bs" and b: "b < NO_BUCKETS h" and f: "free_bucket bs b s"
  shows "hashtbl_find_elementp_in_bucket cr b (holding s h) =
    (let r = locate (criterion_holds h cr) (First b) (Bucket_ptr b) (bs b)
     in Inr (holding (located_held s r) h, map_option snd r))"
proof -
  have "hashtbl_find_elementp_starting_at cr (Bucket_ptr b) (First b) (holding (insert (Bucket_ptr b) s) h) =
      Some (Inr (holding (located_held s (locate (criterion_holds h cr) (First b) (Bucket_ptr b) (bs b))) h,
        map_option snd (locate (criterion_holds h cr) (First b) (Bucket_ptr b) (bs b))))"
    using sh b f bucket_distinct [OF sh b]
    by (intro starting_at_chain) (auto simp: table_shape_def compare_criterion free_bucket_def deref_def)
  then show ?thesis using b f by (simp add: hashtbl_find_elementp_in_bucket_def ends_def free_bucket_def Let_def)
qed

lemma locate_deref:
  "chain (elts h) (deref h l) xs \<Longrightarrow> locate P l m xs = Some (e, l', m') \<Longrightarrow> deref h l' = Some e \<and> e \<in> set xs \<and> P e"
proof (induction xs arbitrary: l m)
  case (Cons x xs)
  then show ?case using Cons.IH [of "Next x" "Elt_ptr x"] by (auto simp: deref_def [of h "Next x"] split: if_splits)
qed simp

lemma locate_mutex:
  "locate P l m xs = Some (e, l', m') \<Longrightarrow> distinct xs \<Longrightarrow> e \<in> set xs \<and> (m' = m \<or> (\<exists>x\<in>set xs. m' = Elt_ptr x \<and> x \<noteq> e))"
proof (induction xs arbitrary: l m)
  case (Cons x xs)
  then show ?case using Cons.IH [of "Next x" "Elt_ptr x"] by (auto split: if_splits)
qed simp

lemma locate_link: "locate P l m xs = Some (e, l', m') \<Longrightarrow> e \<in> set xs \<and> (l' = l \<or> (\<exists>x\<in>set xs. l' = Next x))"
proof (induction xs arbitrary: l m)
  case (Cons x xs)
  then show ?case using Cons.IH [of "Next x" "Elt_ptr x"] by (auto split: if_splits)
qed simp

text \<open>A search returns the first match with its data locked, and nothing else locked.\<close>

definition found_held :: "mutex set \<Rightarrow> nat option \<Rightarrow> mutex set" where
  "found_held s r = (case r of None \<Rightarrow> s | Some e \<Rightarrow> insert (Elt_data e) s)"

lemma found_element_located:
  assumes "chain (elts h) (deref h l) xs" "distinct xs" "m \<notin> s" "\<forall>x\<in>set xs. Elt_ptr x \<notin> s" "\<forall>x. m \<noteq> Elt_data x"
  shows "found_element (holding (located_held s (locate P l m xs)) h, map_option snd (locate P l m xs)) =
    Inr (holding (found_held s (find P xs)) h, find P xs)"
proof (cases "locate P l m xs")
  case None
  then show ?thesis using locate_find [of P l m xs] by (simp add: found_element_def located_held_def found_held_def)
next
  case (Some r)
  obtain e l' m' where r: "r = (e, l', m')" by (cases r)
  have f: "find P xs = Some e" using locate_find [of P l m xs] Some r by simp
  have d: "deref h l' = Some e" using locate_deref [OF assms(1)] Some r by blast
  have "m' \<notin> insert (Elt_data e) s"
    using locate_mutex [of P l m xs e l' m'] assms(2-5) Some r by auto
  then have "insert (Elt_data e) (insert m' s) - {m'} = insert (Elt_data e) s" by auto
  then show ?thesis using Some r f d by (simp add: found_element_def located_held_def found_held_def)
qed

lemma find_element_in_bucket:
  assumes sh: "table_shape h bs" and b: "b < NO_BUCKETS h" and f: "free_bucket bs b s"
  shows "hashtbl_find_element_in_bucket cr b (holding s h) =
    Inr (holding (found_held s (find (criterion_holds h cr) (bs b))) h, find (criterion_holds h cr) (bs b))"
  using found_element_located [of h "First b" "bs b" "Bucket_ptr b" s "criterion_holds h cr"] sh b f bucket_distinct [OF sh b]
  by (simp add: hashtbl_find_element_in_bucket_def find_elementp_in_bucket [OF sh b f] Let_def table_shape_def deref_def free_bucket_def)

section \<open>Adding an element\<close>

definition quiet :: "hashtbl \<Rightarrow> bool" where
  "quiet h \<longleftrightarrow> (thread_safe h \<longrightarrow> held h = {})"

lemma quiet_holding: "quiet h \<Longrightarrow> holding {} h = h"
  by (simp add: quiet_def holding_def)

lemma holding_updates [simp]:
  "(holding s h)\<lparr>h_count := c\<rparr> = holding s (h\<lparr>h_count := c\<rparr>)" "(holding s h)\<lparr>elts := e\<rparr> = holding s (h\<lparr>elts := e\<rparr>)"
  "(holding s h)\<lparr>buckets := b\<rparr> = holding s (h\<lparr>buckets := b\<rparr>)" "(holding s h)\<lparr>freed := f\<rparr> = holding s (h\<lparr>freed := f\<rparr>)"
  by (simp_all add: holding_def)

lemma count_update [simp]:
  "NO_BUCKETS (h\<lparr>h_count := c\<rparr>) = NO_BUCKETS h" "table_shape (h\<lparr>h_count := c\<rparr>) = table_shape h"
  "criterion_holds (h\<lparr>h_count := c\<rparr>) = criterion_holds h"
  by (auto simp: NO_BUCKETS_def table_shape_def get_bucket_def criterion_holds_def same_key_def fun_eq_iff split: criterion.splits)

lemma unlock_element_holding:
  "Elt_data e \<in> s \<Longrightarrow> hashtbl_unlock_element_byptr e (holding s h) = Inr (holding (s - {Elt_data e}) h)"
  by (simp add: hashtbl_unlock_element_byptr_def holding_def)

lemma unique_key_found:
  assumes sh: "table_shape h bs" and b: "b < NO_BUCKETS h" and f: "free_bucket bs b s"
  shows "unique_key e b (holding s h) =
    Inr (holding s h, find (\<lambda>x. same_key h (he_key (elts h e)) (he_key (elts h x))) (bs b) = None)"
proof -
  have c: "criterion_holds h (Compare_key (he_key (elts h e))) = (\<lambda>x. same_key h (he_key (elts h e)) (he_key (elts h x)))"
    by (simp add: criterion_holds_def fun_eq_iff)
  have "insert (Elt_data y) s - {Elt_data y} = s" if "find P (bs b) = Some y" for y P
    using that f by (auto simp: find_Some_iff free_bucket_def)
  then show ?thesis
    using find_element_in_bucket [OF sh b f, of "Compare_key (he_key (elts h e))"]
    by (auto simp: unique_key_def c found_held_def unlock_element_holding split: option.splits) (simp_all add: holding_def)
qed

definition added :: "nat \<Rightarrow> nat \<Rightarrow> hashtbl \<Rightarrow> hashtbl" where
  "added e b h = h\<lparr>h_count := h_count h + 1, elts := (elts h)(e := (elts h e)\<lparr>he_next := buckets h ! b\<rparr>),
     buckets := (buckets h)[b := Some e]\<rparr>"

lemma add_element_cases:
  assumes rp: "table_rep h bs" and q: "quiet h" and e: "e \<notin> members h bs" and b: "get_bucket h (he_key (elts h e)) = Inr b"
  defines "dup \<equiv> unique h \<and> (\<exists>x\<in>set (bs b). same_key h (he_key (elts h e)) (he_key (elts h x)))"
  shows "hashtbl_add_element e h = (if dup then Inr (h, None) else Inr (holding {Elt_data e} (added e b h), Some e))"
proof -
  have sh: "table_shape h bs" using rp by (simp add: table_rep_def)
  then have bb: "b < NO_BUCKETS h" using get_bucket_bound [of h "he_key (elts h e)"] b by (auto simp: table_shape_def)
  have h: "h = holding {} h" using q by (simp add: quiet_holding)
  have uk: "unique_key e b (holding {Bucket_uniq b} (h\<lparr>h_count := c\<rparr>)) =
      Inr (holding {Bucket_uniq b} (h\<lparr>h_count := c\<rparr>),
        \<not> (\<exists>x\<in>set (bs b). same_key h (he_key (elts h e)) (he_key (elts h x))))" for c
    using unique_key_found [of "h\<lparr>h_count := c\<rparr>" bs b "{Bucket_uniq b}" e] sh bb
    by (auto simp: free_bucket_def find_None_iff same_key_def)
  have cnt: "lock Count_mutex h = Inr (holding {Count_mutex} h)" using lock_holding [of Count_mutex "{}" h] h by simp
  have init: "ts (\<lambda>s. Inr (pthd_mutex_init m (pthd_mutex_init m' s))) (holding s h') = Inr (holding s h')"
    if "m \<notin> s" "m' \<notin> s" for m m' s h'
    using that by (intro ts_on_holding) simp
  show ?thesis
  proof (cases "unique h")
    case True
    then show ?thesis
      using b uk cnt h init
      by (simp add: hashtbl_add_element_def hashtbl_count_unlock_def dup_def added_def Let_def)
        (auto simp: insert_commute insert_Diff_if quiet_holding [OF q] Let_def)
  next
    case False
    have hc: "unlock Count_mutex (holding {Count_mutex} (h\<lparr>h_count := c\<rparr>)) = Inr (holding {} (h\<lparr>h_count := c\<rparr>))" for c by simp
    with False show ?thesis
      using b cnt init
      by (simp add: hashtbl_add_element_def hashtbl_count_unlock_def dup_def added_def Let_def insert_Diff_if)
  qed
qed

lemma added_fields [simp]:
  "key_size (added e b h) = key_size h" "key_bits (added e b h) = key_bits h" "unique (added e b h) = unique h"
  "thread_safe (added e b h) = thread_safe h" "NO_BUCKETS (added e b h) = NO_BUCKETS h" "get_bucket (added e b h) = get_bucket h"
  "he_key (elts (added e b h) x) = he_key (elts h x)" "same_key (added e b h) = same_key h" "freed (added e b h) = freed h"
  "h_count (added e b h) = h_count h + 1" "has_freer (added e b h) = has_freer h"
  by (auto simp: added_def NO_BUCKETS_def get_bucket_def same_key_def fun_eq_iff)

lemma bucket_unique:
  assumes "table_shape h bs" "b < NO_BUCKETS h" "b' < NO_BUCKETS h" "e \<in> set (bs b)" "e \<in> set (bs b')"
  shows "b = b'"
  using assms by (metis sum.inject(2) table_shape_def)

lemma added_rep:
  assumes rp: "table_rep h bs" and e: "e \<notin> members h bs" and b: "get_bucket h (he_key (elts h e)) = Inr b"
    and u: "unique h \<Longrightarrow> \<forall>x\<in>members h bs. \<not> same_key h (he_key (elts h e)) (he_key (elts h x))"
  shows "table_rep (added e b h) (bs(b := e # bs b))" "members (added e b h) (bs(b := e # bs b)) = insert e (members h bs)"
proof -
  have sh: "table_shape h bs" using rp by (simp add: table_rep_def)
  then have bb: "b < NO_BUCKETS h" using get_bucket_bound [of h "he_key (elts h e)"] b by (auto simp: table_shape_def)
  show mem: "members (added e b h) (bs(b := e # bs b)) = insert e (members h bs)"
    using bb by (auto simp: members_def split: if_splits)
  have e': "e \<notin> set (bs x)" if "x < NO_BUCKETS h" for x using e that by (auto simp: members_def)
  have "chain (elts (added e b h)) (buckets (added e b h) ! x) ((bs(b := e # bs b)) x)" if "x < NO_BUCKETS h" for x
    using sh that e' [OF that] e' [OF bb] bb by (auto simp: added_def table_shape_def)
  then have "table_shape (added e b h) (bs(b := e # bs b))"
    using sh bb b e' by (auto simp: table_shape_def) (simp add: added_def)
  moreover have "(\<Sum>x<NO_BUCKETS h. length ((bs(b := e # bs b)) x)) = (\<Sum>x<NO_BUCKETS h. length (bs x)) + 1"
    using bb by (simp add: sum.remove [of _ b])
  moreover have "same_key h k k' \<Longrightarrow> same_key h k' k" for k k' by (auto simp: same_key_def)
  ultimately show "table_rep (added e b h) (bs(b := e # bs b))"
    using rp u e unfolding table_rep_def mem by (auto simp del: of_nat_sum)
qed

section \<open>Deleting an element\<close>

text \<open>Unlinking the element that was found takes it out of its chain.\<close>

lemma set_link_fields [simp]:
  "key_size (set_link l v h) = key_size h" "key_bits (set_link l v h) = key_bits h" "unique (set_link l v h) = unique h"
  "thread_safe (set_link l v h) = thread_safe h" "NO_BUCKETS (set_link l v h) = NO_BUCKETS h" "h_count (set_link l v h) = h_count h"
  "he_key (elts (set_link l v h) x) = he_key (elts h x)" "held (set_link l v h) = held h" "has_freer (set_link l v h) = has_freer h"
  "get_bucket (set_link l v h) = get_bucket h" "same_key (set_link l v h) = same_key h" "freed (set_link l v h) = freed h"
  "length (buckets (set_link l v h)) = length (buckets h)"
  by (auto simp: set_link_def NO_BUCKETS_def get_bucket_def same_key_def fun_eq_iff split: link.splits)

lemma set_link_holding [simp]: "set_link l v (holding s h) = holding s (set_link l v h)"
  by (simp add: set_link_def split: link.splits)

lemma chain_unlink:
  assumes "chain (elts h) (deref h l) xs" "distinct xs" "locate P l m xs = Some (e, l', m')" "\<forall>x\<in>set xs. l \<noteq> Next x"
    "case l of First b \<Rightarrow> b < length (buckets h) | Next x \<Rightarrow> True"
  shows "chain (elts (set_link l' (he_next (elts h e)) h)) (deref (set_link l' (he_next (elts h e)) h) l) (remove1 e xs)"
  using assms
proof (induction xs arbitrary: l m)
  case (Cons x xs)
  have d: "deref h l = Some x" "chain (elts h) (deref h (Next x)) xs" "x \<notin> set xs" "distinct xs"
    using Cons.prems(1,2) by (simp_all add: deref_def)
  show ?case
  proof (cases "P x")
    case True
    then have "e = x" "l' = l" using Cons.prems(3) by simp_all
    then show ?thesis
    proof (cases l)
      case (Next y)
      then have "y \<notin> set xs" using Cons.prems(4) by auto
      with Next \<open>e = x\<close> \<open>l' = l\<close> d show ?thesis by (simp add: set_link_def deref_def)
    qed (use \<open>e = x\<close> \<open>l' = l\<close> d Cons.prems(5) in \<open>simp add: set_link_def deref_def\<close>)
  next
    case False
    have loc: "locate P (Next x) (Elt_ptr x) xs = Some (e, l', m')" using False Cons.prems(3) by simp
    have IH: "chain (elts (set_link l' (he_next (elts h e)) h)) (deref (set_link l' (he_next (elts h e)) h) (Next x)) (remove1 e xs)"
      using d loc by (intro Cons.IH) auto
    have ne: "e \<noteq> x" "l' \<noteq> l" using locate_link [OF loc] Cons.prems(4) d(3) by auto
    have "deref (set_link l' (he_next (elts h e)) h) l = deref h l"
      using ne(2) by (cases l; cases l') (auto simp: set_link_def deref_def)
    with IH ne(1) d(1) show ?thesis by (simp add: deref_def)
  qed
qed simp

definition removed :: "nat \<Rightarrow> link \<Rightarrow> hashtbl \<Rightarrow> hashtbl" where
  "removed e l h = (let h = set_link l (he_next (elts h e)) (h\<lparr>h_count := h_count h - 1\<rparr>)
     in if has_freer h then h\<lparr>freed := freed h @ [e]\<rparr> else h)"

lemma delete_element_holding:
  assumes "deref h l = Some e" "Elt_ptr e \<notin> s" "Elt_data e \<in> s" "m \<in> s" "m \<noteq> Elt_data e" "m \<noteq> Elt_ptr e"
  shows "hashtbl_delete_element l (Some m) (holding s h) =
    (let h' = set_link l (he_next (elts h e)) h
     in Inr (holding (s - {Elt_data e} - {m}) (if has_freer h then h'\<lparr>freed := freed h @ [e]\<rparr> else h')))"
proof -
  have "insert (Elt_ptr e) s - {Elt_ptr e} = s" using assms(2) by auto
  then show ?thesis
    using assms by (simp add: hashtbl_delete_element_def Let_def)
qed

lemma delete_from_bucket:
  assumes rp: "table_rep h bs" and q: "quiet h" and b: "b < NO_BUCKETS h"
  shows "hashtbl_delete_element_from_bucket cr b h =
    (case locate (criterion_holds h cr) (First b) (Bucket_ptr b) (bs b) of
       None \<Rightarrow> Inr h | Some (e, l, m) \<Rightarrow> Inr (holding {} (removed e l h)))"
proof -
  let ?r = "locate (criterion_holds h cr) (First b) (Bucket_ptr b) (bs b)"
  have sh: "table_shape h bs" using rp by (simp add: table_rep_def)
  have h: "holding {} h = h" by (rule quiet_holding [OF q])
  have f: "hashtbl_find_elementp_in_bucket cr b h = Inr (holding (located_held {} ?r) h, map_option snd ?r)"
    using find_elementp_in_bucket [OF sh b, of "{}" cr] h by (simp add: free_bucket_def Let_def)
  show ?thesis
  proof (cases ?r)
    case None
    then show ?thesis using f h by (simp add: hashtbl_delete_element_from_bucket_def located_held_def)
  next
    case (Some r)
    obtain e l m where r: "r = (e, l, m)" by (cases r)
    note loc = Some [unfolded r]
    have c: "chain (elts h) (deref h (First b)) (bs b)" "distinct (bs b)" using sh b by (simp_all add: table_shape_def deref_def)
    have d: "deref h l = Some e" "e \<in> set (bs b)" using locate_deref [OF c(1) loc] by auto
    have m: "m \<noteq> Elt_data e" "m \<noteq> Elt_ptr e" "m \<noteq> Count_mutex" using locate_mutex [OF loc c(2)] by auto
    have "length (bs b) \<le> (\<Sum>x<NO_BUCKETS h. length (bs x))" using b by (intro member_le_sum) auto
    moreover have "0 < length (bs b)" using d(2) by (cases "bs b") auto
    ultimately have "1 \<le> (\<Sum>x<NO_BUCKETS h. length (bs x))" by linarith
    then have "h_count h \<ge> 1" using rp unfolding table_rep_def by linarith
    moreover have "insert Count_mutex {Elt_data e, m} - {Count_mutex} = {Elt_data e, m}" "{Elt_data e, m} - {Elt_data e} - {m} = {}"
      using m by auto
    moreover have "deref (h\<lparr>h_count := c\<rparr>) = deref h" for c by (auto simp: deref_def fun_eq_iff split: link.splits)
    ultimately show ?thesis
      using f loc d m delete_element_holding [of "h\<lparr>h_count := h_count h - 1\<rparr>" l e "{Elt_data e, m}" m]
      by (simp add: hashtbl_delete_element_from_bucket_def located_held_def Let_def removed_def)
  qed
qed

lemma removed_rep:
  assumes rp: "table_rep h bs" and b: "b < NO_BUCKETS h"
    and loc: "locate P (First b) (Bucket_ptr b) (bs b) = Some (e, l, m)"
  shows "table_rep (removed e l h) (bs(b := remove1 e (bs b)))"
    "members (removed e l h) (bs(b := remove1 e (bs b))) = members h bs - {e}"
    "he_key (elts (removed e l h) x) = he_key (elts h x)" "same_key (removed e l h) = same_key h"
    "get_bucket (removed e l h) = get_bucket h" "NO_BUCKETS (removed e l h) = NO_BUCKETS h" "unique (removed e l h) = unique h"
    "thread_safe (removed e l h) = thread_safe h"
proof -
  let ?h = "removed e l h" and ?bs = "bs(b := remove1 e (bs b))"
  have sh: "table_shape h bs" using rp by (simp add: table_rep_def)
  have c: "chain (elts h) (deref h (First b)) (bs b)" "distinct (bs b)" "b < length (buckets h)"
    using sh b by (simp_all add: table_shape_def deref_def)
  have e: "e \<in> set (bs b)" using locate_link [OF loc] by simp
  show f: "he_key (elts ?h x) = he_key (elts h x)" "same_key ?h = same_key h" "get_bucket ?h = get_bucket h"
    "NO_BUCKETS ?h = NO_BUCKETS h" "unique ?h = unique h" "thread_safe ?h = thread_safe h" for x
    by (auto simp: removed_def Let_def same_key_def get_bucket_def NO_BUCKETS_def fun_eq_iff)
  have el: "elts ?h = elts (set_link l (he_next (elts h e)) h)" "buckets ?h = buckets (set_link l (he_next (elts h e)) h)"
    by (auto simp: removed_def Let_def set_link_def split: link.splits)
  have own: "chain (elts ?h) (buckets ?h ! b) (remove1 e (bs b))"
    using chain_unlink [OF c(1,2) loc] c(3) by (simp add: el deref_def)
  have other: "chain (elts ?h) (buckets ?h ! x) (bs x)" if x: "x < NO_BUCKETS h" "x \<noteq> b" for x
  proof -
    have "l = First b \<or> (\<exists>y\<in>set (bs b). l = Next y)" using locate_link [OF loc] by auto
    moreover have "y \<notin> set (bs x)" if "y \<in> set (bs b)" for y using bucket_unique [OF sh x(1) b _ that] x(2) by auto
    ultimately show ?thesis using sh x by (auto simp: el set_link_def table_shape_def)
  qed
  have "length (buckets ?h) = NO_BUCKETS h" using sh by (simp add: el table_shape_def)
  moreover have "key_bits ?h = key_bits h" "key_size ?h = key_size h" by (simp_all add: removed_def Let_def)
  ultimately have shape: "table_shape ?h ?bs"
    using sh own other b f by (auto simp: table_shape_def dest: subsetD [OF set_remove1_subset])
  have "set (?bs x) = set (bs x) - {e}" if "x < NO_BUCKETS h" for x
    using bucket_unique [OF sh that b _ e] c(2) by (cases "x = b") auto
  then show mem: "members ?h ?bs = members h bs - {e}" unfolding members_def f(4) by blast
  have "length (remove1 e (bs b)) + 1 = length (bs b)" using e length_pos_if_in_set [OF e] by (simp add: length_remove1)
  then have "(\<Sum>x<NO_BUCKETS h. length (?bs x)) + 1 = (\<Sum>x<NO_BUCKETS h. length (bs x))"
    using b by (simp add: sum.remove [of _ b])
  then have "h_count ?h = int (\<Sum>x<NO_BUCKETS h. length (?bs x))"
    using rp unfolding table_rep_def by (simp add: removed_def Let_def del: of_nat_sum)
  then show "table_rep ?h ?bs" using shape rp f unfolding table_rep_def mem by (auto simp del: of_nat_sum)
qed

section \<open>The table as a registry of unique keys\<close>

text \<open>The element that a key leads to: the one with that key in the bucket of the key.\<close>

lemma same_key_bucket: "same_key h k k' \<Longrightarrow> get_bucket h k = get_bucket h k'"
  by (simp add: same_key_def get_bucket_def hash_sdbm_def split: if_splits)

lemma find_member:
  assumes sh: "table_shape h bs" and b: "get_bucket h k = Inr b"
  shows "b < NO_BUCKETS h"
    "(\<exists>x\<in>members h bs. same_key h k (he_key (elts h x))) \<longleftrightarrow> (\<exists>x\<in>set (bs b). same_key h k (he_key (elts h x)))"
proof -
  show bb: "b < NO_BUCKETS h" using get_bucket_bound [of h k] b sh by (auto simp: table_shape_def)
  have "x \<in> set (bs b)" if "c < NO_BUCKETS h" "x \<in> set (bs c)" "same_key h k (he_key (elts h x))" for x c
  proof -
    have "get_bucket h (he_key (elts h x)) = Inr c" using sh that(1,2) by (simp add: table_shape_def)
    then have "c = b" using same_key_bucket [OF that(3)] b by simp
    with that(2) show ?thesis by simp
  qed
  then show "(\<exists>x\<in>members h bs. same_key h k (he_key (elts h x))) \<longleftrightarrow> (\<exists>x\<in>set (bs b). same_key h k (he_key (elts h x)))"
    using bb by (auto simp: members_def)
qed

lemma find_bykey:
  assumes rp: "table_rep h bs" and q: "quiet h"
  shows "\<exists>r. hashtbl_find_element_bykey k h = Inr (holding (found_held {} r) h, r) \<and>
    (case r of None \<Rightarrow> \<forall>x\<in>members h bs. \<not> same_key h k (he_key (elts h x))
     | Some e \<Rightarrow> e \<in> members h bs \<and> same_key h k (he_key (elts h e)))"
proof -
  have sh: "table_shape h bs" using rp by (simp add: table_rep_def)
  obtain b where b: "get_bucket h k = Inr b" using get_bucket_bound [of h k] sh by (auto simp: table_shape_def)
  note fm = find_member [OF sh b]
  let ?r = "find (criterion_holds h (Compare_key k)) (bs b)"
  have "hashtbl_find_element_bykey k h = Inr (holding (found_held {} ?r) h, ?r)"
    using find_element_in_bucket [OF sh fm(1), of "{}" "Compare_key k"] quiet_holding [OF q] b
    by (simp add: hashtbl_find_element_bykey_def free_bucket_def)
  moreover have "case ?r of None \<Rightarrow> \<forall>x\<in>members h bs. \<not> same_key h k (he_key (elts h x))
     | Some e \<Rightarrow> e \<in> members h bs \<and> same_key h k (he_key (elts h e))"
  proof (cases ?r)
    case None
    then have "\<forall>x\<in>members h bs. \<not> same_key h k (he_key (elts h x))" using fm(2) by (auto simp: criterion_holds_def find_None_iff)
    with None show ?thesis by simp
  next
    case (Some e)
    then have "e \<in> set (bs b)" "same_key h k (he_key (elts h e))" by (auto simp: criterion_holds_def find_Some_iff)
    with Some fm(1) show ?thesis by (auto simp: members_def)
  qed
  ultimately show ?thesis by blast
qed

lemma add_element:
  assumes rp: "table_rep h bs" and q: "quiet h" and u: "unique h" and e: "e \<notin> members h bs"
  shows "if \<exists>x\<in>members h bs. same_key h (he_key (elts h e)) (he_key (elts h x))
    then hashtbl_add_element e h = Inr (h, None)
    else \<exists>b. hashtbl_add_element e h = Inr (holding {Elt_data e} (added e b h), Some e) \<and>
      table_rep (added e b h) (bs(b := e # bs b)) \<and> members (added e b h) (bs(b := e # bs b)) = insert e (members h bs)"
proof -
  have sh: "table_shape h bs" using rp by (simp add: table_rep_def)
  obtain b where b: "get_bucket h (he_key (elts h e)) = Inr b"
    using get_bucket_bound [of h "he_key (elts h e)"] sh by (auto simp: table_shape_def)
  show ?thesis
    using add_element_cases [OF rp q e b] added_rep [OF rp e b] find_member(2) [OF sh b] u by auto
qed

lemma delete_byptr_removed:
  assumes rp: "table_rep h bs" and q: "quiet h" and e: "e \<in> members h bs"
  obtains l bs' where "hashtbl_delete_element_byptr e h = Inr (holding {} (removed e l h))" "table_rep (removed e l h) bs'"
    "members (removed e l h) bs' = members h bs - {e}" "unique (removed e l h) = unique h" "thread_safe (removed e l h) = thread_safe h"
    "same_key (removed e l h) = same_key h" "\<And>x. he_key (elts (removed e l h) x) = he_key (elts h x)"
proof -
  have sh: "table_shape h bs" using rp by (simp add: table_rep_def)
  obtain b where b: "b < NO_BUCKETS h" "e \<in> set (bs b)" "get_bucket h (he_key (elts h e)) = Inr b"
    using e sh by (auto simp: members_def table_shape_def)
  have c: "criterion_holds h (Compare_ptr e) = (\<lambda>x. e = x)" by (simp add: criterion_holds_def fun_eq_iff)
  have "find (\<lambda>x. e = x) (bs b) = Some e"
    using b(2) by (cases "find (\<lambda>x. e = x) (bs b)") (auto simp: find_None_iff find_Some_iff)
  then obtain l m where loc: "locate (criterion_holds h (Compare_ptr e)) (First b) (Bucket_ptr b) (bs b) = Some (e, l, m)"
    using locate_find [of "criterion_holds h (Compare_ptr e)" "First b" "Bucket_ptr b" "bs b"] c by auto
  have "hashtbl_delete_element_byptr e h = Inr (holding {} (removed e l h))"
    using delete_from_bucket [OF rp q b(1), of "Compare_ptr e"] loc b(3) by (simp add: hashtbl_delete_element_byptr_def)
  then show ?thesis using removed_rep [OF rp b(1) loc] by (intro that [of l]) auto
qed

lemma removed_freed [simp]:
  "freed (removed e l h) = freed h @ (if has_freer h then [e] else [])" "has_freer (removed e l h) = has_freer h"
  by (simp_all add: removed_def Let_def)

lemma delete_byptr:
  assumes rp: "table_rep h bs" and q: "quiet h" and e: "e \<in> members h bs"
  shows "\<exists>h' bs'. hashtbl_delete_element_byptr e h = Inr h' \<and> table_rep h' bs' \<and> quiet h' \<and> members h' bs' = members h bs - {e} \<and>
    unique h' = unique h \<and> thread_safe h' = thread_safe h \<and> same_key h' = same_key h \<and>
    (\<forall>x. he_key (elts h' x) = he_key (elts h x))"
proof -
  obtain l bs' where d: "hashtbl_delete_element_byptr e h = Inr (holding {} (removed e l h))" "table_rep (removed e l h) bs'"
    "members (removed e l h) bs' = members h bs - {e}" "unique (removed e l h) = unique h" "thread_safe (removed e l h) = thread_safe h"
    "same_key (removed e l h) = same_key h" "\<And>x. he_key (elts (removed e l h) x) = he_key (elts h x)"
    using delete_byptr_removed [OF assms] by metis
  have "quiet (holding {} (removed e l h))" by (simp add: quiet_def)
  moreover have "members (holding {} (removed e l h)) bs' = members h bs - {e}" using d(3) by (simp add: members_def)
  ultimately show ?thesis using d by (intro exI [of _ "holding {} (removed e l h)"] exI [of _ bs']) simp
qed

text \<open>
  What the control thread and the file system rely on: a registry in which a key leads to at most
  one element. A found or added element is returned locked; \<open>release\<close> unlocks it.
\<close>

locale registry =
  fixes ok :: "'s \<Rightarrow> bool"
    and bound :: "'s \<Rightarrow> 'k \<Rightarrow> 'e \<Rightarrow> bool"
    and key_of :: "'s \<Rightarrow> 'e \<Rightarrow> 'k"
    and member :: "'s \<Rightarrow> 'e \<Rightarrow> bool"
    and lookup :: "'k \<Rightarrow> 's \<Rightarrow> ('s \<times> 'e option) res"
    and add :: "'e \<Rightarrow> 's \<Rightarrow> ('s \<times> 'e option) res"
    and del :: "'e \<Rightarrow> 's \<Rightarrow> 's res"
    and release :: "'e \<Rightarrow> 's \<Rightarrow> 's res"
  assumes bound_member: "ok s \<Longrightarrow> bound s k e \<Longrightarrow> member s e"
    and bound_unique: "ok s \<Longrightarrow> bound s k e \<Longrightarrow> bound s k e' \<Longrightarrow> e = e'"
    and bound_self: "ok s \<Longrightarrow> member s e \<Longrightarrow> bound s (key_of s e) e"
    and lookup_law: "ok s \<Longrightarrow> \<exists>s' r. lookup k s = Inr (s', r) \<and>
      (case r of None \<Rightarrow> s' = s \<and> (\<forall>e. \<not> bound s k e) | Some e \<Rightarrow> bound s k e \<and> release e s' = Inr s)"
    and add_law: "ok s \<Longrightarrow> \<not> member s e \<Longrightarrow>
      (if \<exists>x. bound s (key_of s e) x then add e s = Inr (s, None)
       else \<exists>s' s''. add e s = Inr (s', Some e) \<and> release e s' = Inr s'' \<and> ok s'' \<and>
         (\<forall>x. member s'' x \<longleftrightarrow> x = e \<or> member s x) \<and> (\<forall>x. key_of s'' x = key_of s x) \<and>
         (\<forall>k x. x \<noteq> e \<longrightarrow> bound s'' k x = bound s k x))"
    and del_law: "ok s \<Longrightarrow> member s e \<Longrightarrow>
      \<exists>s'. del e s = Inr s' \<and> ok s' \<and> (\<forall>x. member s' x \<longleftrightarrow> x \<noteq> e \<and> member s x) \<and> (\<forall>x. key_of s' x = key_of s x) \<and>
        (\<forall>k x. x \<noteq> e \<longrightarrow> bound s' k x = bound s k x)"
begin

definition register :: "'e \<Rightarrow> 's \<Rightarrow> ('s \<times> bool) res" where
  "register e s = rbind (add e s) (\<lambda>(s', r). case r of None \<Rightarrow> Inr (s', False) | Some x \<Rightarrow> rbind (release x s') (\<lambda>s''. Inr (s'', True)))"

lemma lookup_bound: "ok s \<Longrightarrow> bound s k e \<Longrightarrow> \<exists>s'. lookup k s = Inr (s', Some e) \<and> release e s' = Inr s"
  using lookup_law [of s k] bound_unique [of s k] by (auto split: option.splits)

lemma register_once:
  assumes "ok s" "\<not> member s e" "register e s = Inr (s', True)" "\<not> member s' e2" "key_of s' e2 = key_of s' e"
  shows "register e2 s' = Inr (s', False)"
proof -
  have s': "ok s'" "member s' e"
    using add_law [OF assms(1,2)] assms(3) by (auto simp: register_def split: if_splits)
  have "bound s' (key_of s' e2) e" using bound_self [OF s'] assms(5) by simp
  then have "\<exists>x. bound s' (key_of s' e2) x" ..
  with add_law [OF s'(1) assms(4)] have "add e2 s' = Inr (s', None)" by (simp only: if_True)
  then show ?thesis by (simp add: register_def)
qed

lemma add_duplicate: "ok s \<Longrightarrow> \<not> member s e \<Longrightarrow> bound s (key_of s e) x \<Longrightarrow> add e s = Inr (s, None)"
  using add_law [of s e] by (auto split: if_splits)

lemma add_fresh:
  assumes "ok s" "\<not> member s e" "\<And>x. \<not> bound s (key_of s e) x"
  shows "\<exists>s' s'' s1. add e s = Inr (s', Some e) \<and> release e s' = Inr s'' \<and> ok s'' \<and>
    lookup (key_of s e) s'' = Inr (s1, Some e) \<and> release e s1 = Inr s''"
proof -
  have "\<not> (\<exists>x. bound s (key_of s e) x)" using assms(3) by simp
  with add_law [OF assms(1,2)] obtain s' s'' where s'': "add e s = Inr (s', Some e)" "release e s' = Inr s''" "ok s''" "member s'' e"
    "key_of s'' e = key_of s e" by auto
  then show ?thesis using lookup_bound [OF s''(3)] bound_self [OF s''(3,4)] by auto
qed

lemma register_lookup:
  assumes "ok s" "\<not> member s e" "register e s = Inr (s', True)"
  shows "ok s' \<and> (\<exists>s1. lookup (key_of s e) s' = Inr (s1, Some e) \<and> release e s1 = Inr s')"
proof -
  have s': "ok s'" "member s' e" "key_of s' e = key_of s e"
    using add_law [OF assms(1,2)] assms(3) by (auto simp: register_def split: if_splits)
  then show ?thesis using lookup_bound [OF s'(1)] bound_self [OF s'(1,2)] by auto
qed

lemma delete_lookup:
  assumes "ok s" "member s e"
  shows "\<exists>s'. del e s = Inr s' \<and> ok s' \<and> lookup (key_of s e) s' = Inr (s', None)"
proof -
  obtain s' where s': "del e s = Inr s'" "ok s'" "\<And>x. member s' x \<longleftrightarrow> x \<noteq> e \<and> member s x"
    "\<And>k x. x \<noteq> e \<Longrightarrow> bound s' k x = bound s k x" using del_law [OF assms] by auto
  have "\<not> bound s' (key_of s e) x" for x
    using s'(3,4) bound_unique [OF assms(1) bound_self [OF assms]] bound_member [OF s'(2)] by metis
  then show ?thesis using s'(1,2) lookup_law [OF s'(2), of "key_of s e"] by (auto split: option.splits)
qed

end

text \<open>The hash table is such a registry: the tables of the program are thread safe and have unique keys.\<close>

definition reg_ok :: "hashtbl \<Rightarrow> bool" where
  "reg_ok h \<longleftrightarrow> (\<exists>bs. table_rep h bs) \<and> quiet h \<and> unique h \<and> thread_safe h"

definition reg_member :: "hashtbl \<Rightarrow> nat \<Rightarrow> bool" where
  "reg_member h e \<longleftrightarrow> (\<exists>bs. table_rep h bs \<and> e \<in> members h bs)"

definition reg_key :: "hashtbl \<Rightarrow> nat \<Rightarrow> bytes" where
  "reg_key h e = he_key (elts h e)"

definition reg_bound :: "hashtbl \<Rightarrow> bytes \<Rightarrow> nat \<Rightarrow> bool" where
  "reg_bound h k e \<longleftrightarrow> reg_member h e \<and> same_key h k (he_key (elts h e))"

lemma chain_determines: "chain hp p xs \<Longrightarrow> chain hp p ys \<Longrightarrow> xs = ys"
proof (induction xs arbitrary: p ys)
  case Nil
  then show ?case by (cases ys) auto
next
  case (Cons x xs)
  then show ?case by (cases ys) auto
qed

lemma members_determined:
  assumes "table_rep h bs" "table_rep h bs'"
  shows "members h bs = members h bs'"
proof -
  have "bs b = bs' b" if "b < NO_BUCKETS h" for b
    using assms that by (intro chain_determines [of "elts h" "buckets h ! b"]) (simp_all add: table_rep_def table_shape_def)
  then show ?thesis by (simp add: members_def)
qed

lemma reg_member_iff: "table_rep h bs \<Longrightarrow> reg_member h e \<longleftrightarrow> e \<in> members h bs"
  unfolding reg_member_def using members_determined by blast

lemma same_key_sym: "same_key h k k' \<Longrightarrow> same_key h k' k" and same_key_trans: "same_key h k k' \<Longrightarrow> same_key h k' k'' \<Longrightarrow> same_key h k k''"
  and same_key_refl [simp]: "same_key h k k"
  by (auto simp: same_key_def split: if_splits)

lemma members_holding [simp]: "members (holding s h) = members h"
  by (simp add: members_def fun_eq_iff)

lemma release_only: "hashtbl_unlock_element_byptr e (holding {Elt_data e} h) = Inr (holding {} h)"
  using unlock_element_holding [of e "{Elt_data e}"] by simp

interpretation hash_registry: registry reg_ok reg_bound reg_key reg_member
  hashtbl_find_element_bykey hashtbl_add_element hashtbl_delete_element_byptr hashtbl_unlock_element_byptr
proof
  fix h k e e'
  show "reg_bound h k e \<Longrightarrow> reg_member h e" by (simp add: reg_bound_def)
  show "reg_member h e \<Longrightarrow> reg_bound h (reg_key h e) e" by (simp add: reg_bound_def reg_key_def)
  assume ok: "reg_ok h"
  then obtain bs where rp: "table_rep h bs" and q: "quiet h" and u: "unique h" and th: "thread_safe h" by (auto simp: reg_ok_def)
  note mem = reg_member_iff [OF rp]
  show "e = e'" if "reg_bound h k e" "reg_bound h k e'"
    using that rp u same_key_trans [OF same_key_sym] mem unfolding reg_bound_def table_rep_def by blast
  show "\<exists>s' r. hashtbl_find_element_bykey k h = Inr (s', r) \<and>
      (case r of None \<Rightarrow> s' = h \<and> (\<forall>e. \<not> reg_bound h k e) | Some e \<Rightarrow> reg_bound h k e \<and> hashtbl_unlock_element_byptr e s' = Inr h)"
  proof -
    obtain r where r: "hashtbl_find_element_bykey k h = Inr (holding (found_held {} r) h, r)"
      "case r of None \<Rightarrow> \<forall>x\<in>members h bs. \<not> same_key h k (he_key (elts h x))
       | Some e \<Rightarrow> e \<in> members h bs \<and> same_key h k (he_key (elts h e))"
      using find_bykey [OF rp q, of k] by blast
    show ?thesis
      using r release_only quiet_holding [OF q] mem
      by (intro exI [of _ "holding (found_held {} r) h"] exI [of _ r]) (cases r, auto simp: reg_bound_def found_held_def)
  qed
  show "if \<exists>x. reg_bound h (reg_key h e) x then hashtbl_add_element e h = Inr (h, None)
      else \<exists>s' s''. hashtbl_add_element e h = Inr (s', Some e) \<and> hashtbl_unlock_element_byptr e s' = Inr s'' \<and> reg_ok s'' \<and>
        (\<forall>x. reg_member s'' x \<longleftrightarrow> x = e \<or> reg_member h x) \<and> (\<forall>x. reg_key s'' x = reg_key h x) \<and>
        (\<forall>k x. x \<noteq> e \<longrightarrow> reg_bound s'' k x = reg_bound h k x)" if "\<not> reg_member h e"
  proof -
    have e: "e \<notin> members h bs" using that mem by simp
    have dup: "(\<exists>x. reg_bound h (reg_key h e) x) \<longleftrightarrow> (\<exists>x\<in>members h bs. same_key h (he_key (elts h e)) (he_key (elts h x)))"
      using mem by (auto simp: reg_bound_def reg_key_def)
    show ?thesis
    proof (cases "\<exists>x. reg_bound h (reg_key h e) x")
      case True
      then show ?thesis using add_element [OF rp q u e] dup by simp
    next
      case False
      then obtain b where b: "hashtbl_add_element e h = Inr (holding {Elt_data e} (added e b h), Some e)"
        "table_rep (added e b h) (bs(b := e # bs b))" "members (added e b h) (bs(b := e # bs b)) = insert e (members h bs)"
        using add_element [OF rp q u e] dup by auto
      let ?h = "holding {} (added e b h)"
      have rel: "hashtbl_unlock_element_byptr e (holding {Elt_data e} (added e b h)) = Inr ?h" by (rule release_only)
      have rp': "table_rep ?h (bs(b := e # bs b))" using b(2) by simp
      have ok': "reg_ok ?h" using rp' u th by (auto simp: reg_ok_def quiet_def)
      have mem': "reg_member ?h x \<longleftrightarrow> x = e \<or> reg_member h x" for x using reg_member_iff [OF rp'] mem b(3) by simp
      then have "reg_bound ?h k x = reg_bound h k x" if "x \<noteq> e" for k x using that by (simp add: reg_bound_def)
      with False b(1) rel ok' mem' show ?thesis by (auto simp: reg_key_def)
    qed
  qed
  show "\<exists>s'. hashtbl_delete_element_byptr e h = Inr s' \<and> reg_ok s' \<and> (\<forall>x. reg_member s' x \<longleftrightarrow> x \<noteq> e \<and> reg_member h x) \<and>
      (\<forall>x. reg_key s' x = reg_key h x) \<and> (\<forall>k x. x \<noteq> e \<longrightarrow> reg_bound s' k x = reg_bound h k x)" if "reg_member h e"
  proof -
    have e: "e \<in> members h bs" using that mem by simp
    obtain h' bs' where d: "hashtbl_delete_element_byptr e h = Inr h'" "table_rep h' bs'" "quiet h'" "members h' bs' = members h bs - {e}"
      "unique h' = unique h" "thread_safe h' = thread_safe h" "same_key h' = same_key h" "\<forall>x. he_key (elts h' x) = he_key (elts h x)"
      using delete_byptr [OF rp q e] by blast
    have "reg_member h' x \<longleftrightarrow> x \<noteq> e \<and> reg_member h x" for x using reg_member_iff [OF d(2)] mem d(4) by auto
    moreover have "reg_ok h'" using d(2,3,5,6) u th unfolding reg_ok_def by blast
    ultimately show ?thesis using d(1,7,8) by (simp add: reg_key_def reg_bound_def)
  qed
qed

section \<open>Traversing the table\<close>

text \<open>The elements in the order of the buckets.\<close>

definition all_elts :: "hashtbl \<Rightarrow> table \<Rightarrow> nat list" where
  "all_elts h bs = concat (map bs [0..<NO_BUCKETS h])"

lemma all_elts_holding [simp]: "all_elts (holding s h) = all_elts h"
  by (simp add: all_elts_def fun_eq_iff)

lemma distinct_concat_buckets:
  assumes sh: "table_shape h bs" and "distinct bl" "set bl \<subseteq> {..<NO_BUCKETS h}"
  shows "distinct (concat (map bs bl))"
  using assms(2,3)
proof (induction bl)
  case (Cons b bl)
  have "set (bs b) \<inter> set (bs c) = {}" if "c \<in> set bl" for c
  proof -
    have "c \<noteq> b" "b < NO_BUCKETS h" "c < NO_BUCKETS h" using Cons.prems that by auto
    then show ?thesis using bucket_unique [OF sh, of b c] by blast
  qed
  moreover have "distinct (bs b)" using Cons.prems(2) bucket_distinct [OF sh] by simp
  ultimately show ?case using Cons by auto
qed simp

lemma all_elts_members:
  assumes "table_shape h bs"
  shows "distinct (all_elts h bs)" "set (all_elts h bs) = members h bs"
  using distinct_concat_buckets [OF assms, of "[0..<NO_BUCKETS h]"] by (auto simp: all_elts_def members_def atLeast0LessThan)

definition head :: "nat list \<Rightarrow> nat option" where
  "head xs = find (\<lambda>_. True) xs"

lemma head_simps [simp]: "head [] = None" "head (x # xs) = Some x"
  "head (xs @ ys) = (case head xs of None \<Rightarrow> head ys | Some x \<Rightarrow> Some x)"
  by (simp_all add: head_def) (cases xs; simp add: head_def)

lemma criterion_true [simp]: "criterion_holds h Compare_true = (\<lambda>_. True)"
  by (simp add: criterion_holds_def fun_eq_iff)

lemma find_first_from_buckets:
  assumes sh: "table_shape h bs" and "set bl \<subseteq> {..<NO_BUCKETS h}"
  shows "rbind (find_from_buckets Compare_true bl (holding {} h)) found_element =
    Inr (holding (found_held {} (head (concat (map bs bl)))) h, head (concat (map bs bl)))"
  using assms(2)
proof (induction bl)
  case Nil
  then show ?case by (simp add: found_element_def found_held_def)
next
  case (Cons b bl)
  let ?r = "locate (\<lambda>_. True) (First b) (Bucket_ptr b) (bs b)"
  have b: "b < NO_BUCKETS h" and f: "free_bucket bs b {}" using Cons.prems by (simp_all add: free_bucket_def)
  have fp: "hashtbl_find_elementp_in_bucket Compare_true b (holding {} h) = Inr (holding (located_held {} ?r) h, map_option snd ?r)"
    using find_elementp_in_bucket [OF sh b f, of Compare_true] by (simp add: Let_def)
  show ?case
  proof (cases "bs b")
    case Nil
    then show ?thesis using Cons fp by (simp add: located_held_def)
  next
    case (Cons x xs)
    have "found_element (holding (located_held {} ?r) h, map_option snd ?r) =
        Inr (holding (found_held {} (find (\<lambda>_. True) (bs b))) h, find (\<lambda>_. True) (bs b))"
      using sh b bucket_distinct [OF sh b] by (intro found_element_located) (simp_all add: table_shape_def deref_def)
    with Cons fp show ?thesis by simp
  qed
qed

lemma find_from_bucket:
  assumes "table_shape h bs"
  shows "hashtbl_find_element_from_bucket Compare_true start (holding {} h) =
    (let r = head (concat (map bs [start..<NO_BUCKETS h])) in Inr (holding (found_held {} r) h, r))"
  using find_first_from_buckets [OF assms, of "[start..<NO_BUCKETS h]"] ivl_subset [of start "NO_BUCKETS h" 0 "NO_BUCKETS h"]
  by (simp add: atLeast0LessThan hashtbl_find_element_from_bucket_def hashtbl_find_elementp_from_bucket_def Let_def)

lemma chain_suffix: "chain hp p (xs @ y # ys) \<Longrightarrow> chain hp (he_next (hp y)) ys"
  by (induction xs arbitrary: p) auto

lemma next_element:
  assumes sh: "table_shape h bs" and b: "b < NO_BUCKETS h" and e: "bs b = xs @ e # ys"
  shows "hashtbl_next_element_byptr e (holding {Elt_data e} h) =
    (let r = head (ys @ concat (map bs [b + 1..<NO_BUCKETS h])) in Inr (holding (found_held {} r) h, r))"
proof -
  let ?r = "locate (\<lambda>_. True) (Next e) (Elt_ptr e) ys"
  have c: "chain (elts h) (deref h (Next e)) ys" "distinct ys" "e \<notin> set ys" "get_bucket h (he_key (elts h e)) = Inr b"
    using sh b e bucket_distinct [OF sh b] chain_suffix [of "elts h" _ xs e ys] by (auto simp: table_shape_def deref_def)
  have "hashtbl_find_elementp_starting_at Compare_true (Elt_ptr e) (Next e) (holding (insert (Elt_ptr e) {}) h) =
      Some (Inr (holding (located_held {} ?r) h, map_option snd ?r))"
    using c by (intro starting_at_chain) (auto simp: compare_def)
  moreover have "found_element (holding (located_held {} ?r) h, map_option snd ?r) =
      Inr (holding (found_held {} (find (\<lambda>_. True) ys)) h, find (\<lambda>_. True) ys)"
    using c by (intro found_element_located) simp_all
  moreover have "{Elt_ptr e, Elt_data e} - {Elt_data e} = {Elt_ptr e}" by auto
  ultimately have "hashtbl_find_element_starting_at Compare_true e (holding {Elt_data e} h) =
      Inr (holding (found_held {} (head ys)) h, head ys)"
    by (simp add: hashtbl_find_element_starting_at_def ends_def head_def)
  then show ?thesis
    using find_from_bucket [OF sh, of "b + 1"] c(4)
    by (simp add: hashtbl_next_element_byptr_def Let_def found_held_def split: option.splits)
qed

text \<open>What the traversal computes: the callback on one element after the other, until it fails.\<close>

fun visit :: "(nat \<Rightarrow> 'p \<Rightarrow> int \<times> 'p) \<Rightarrow> nat list \<Rightarrow> 'p \<Rightarrow> 'p \<times> int" where
  "visit rep [] p = (p, 0)"
| "visit rep (x # xs) p = (case rep x p of (r, p') \<Rightarrow> if r = -1 then (p', -1) else visit rep xs p')"

lemma tail_of_buckets:
  assumes "concat (map bs [0..<n]) = xs @ e # ys"
  shows "\<exists>b us vs. b < n \<and> bs b = us @ e # vs \<and> ys = vs @ concat (map bs [b + 1..<n])"
  using assms
proof (induction n arbitrary: ys)
  case (Suc n)
  from Suc.prems have "concat (map bs [0..<n]) @ bs n = xs @ e # ys" by simp
  then consider (old) zs where "concat (map bs [0..<n]) = xs @ e # zs" "ys = zs @ bs n"
    | (new) us where "bs n = us @ e # ys"
    by (auto simp: append_eq_append_conv2 append_eq_Cons_conv Cons_eq_append_conv)
  then show ?case
  proof cases
    case old
    from Suc.IH [OF old(1)] obtain b us vs where "b < n" "bs b = us @ e # vs" "zs = vs @ concat (map bs [b + 1..<n])" by blast
    with old(2) show ?thesis by (intro exI [of _ b] exI [of _ us] exI [of _ vs]) simp
  next
    case new
    then show ?thesis by (intro exI [of _ n] exI [of _ us] exI [of _ ys]) simp
  qed
qed simp

lemma traverse_loop_visit:
  assumes sh: "table_shape h bs" and "all_elts h bs = xs @ ys"
  shows "traverse_loop rep (head ys) p (holding (found_held {} (head ys)) h) = Some (Inr (holding {} h, visit rep ys p))"
  using assms(2)
proof (induction ys arbitrary: xs p)
  case Nil
  then show ?case by (subst traverse_loop.simps) (simp add: found_held_def)
next
  case (Cons e ys)
  obtain b us vs where b: "b < NO_BUCKETS h" "bs b = us @ e # vs" "ys = vs @ concat (map bs [b + 1..<NO_BUCKETS h])"
    using tail_of_buckets [OF Cons.prems [unfolded all_elts_def]] by blast
  have n: "hashtbl_next_element_byptr e (holding {Elt_data e} h) = Inr (holding (found_held {} (head ys)) h, head ys)"
    using next_element [OF sh b(1,2)] b(3) by (simp only: Let_def)
  have IH: "traverse_loop rep (head ys) q (holding (found_held {} (head ys)) h) = Some (Inr (holding {} h, visit rep ys q))" for q
    using Cons.IH [of "xs @ [e]" q] Cons.prems by simp
  obtain r q where "rep e p = (r, q)" by (cases "rep e p")
  then show ?case
    using release_only [of e] by (subst traverse_loop.simps) (simp add: found_held_def [of _ "Some e"] n IH)
qed

lemma ts_traverse_visit:
  assumes "table_shape h bs" "quiet h"
  shows "hashtbl_ts_traverse rep p h = Inr (h, visit rep (all_elts h bs) p)"
proof -
  let ?r = "head (all_elts h bs)"
  have "hashtbl_first_element h = Inr (holding (found_held {} ?r) h, ?r)"
    using find_from_bucket [OF assms(1), of 0] quiet_holding [OF assms(2)]
    by (simp add: hashtbl_first_element_def Let_def all_elts_def)
  moreover have "traverse_loop rep ?r p (holding (found_held {} ?r) h) = Some (Inr (holding {} h, visit rep (all_elts h bs) p))"
    using traverse_loop_visit [OF assms(1), of "[]" "all_elts h bs"] by simp
  ultimately show ?thesis using quiet_holding [OF assms(2)] by (simp add: hashtbl_ts_traverse_def ends_def)
qed

section \<open>A new table, and an emptied one\<close>

lemma init_default_ok:
  assumes "0 < kb" "kb \<le> 16" "ks \<noteq> 0" "-128 \<le> ks" "ks < 128" "0 \<le> ks \<longrightarrow> int kb \<le> 8 * ks"
  shows "\<exists>h. hashtbl_init_default ks kb tsafe uniq fr = Inr h \<and> table_rep h (\<lambda>_. []) \<and> quiet h \<and>
    members h (\<lambda>_. []) = {} \<and> thread_safe h = tsafe \<and> unique h = uniq \<and> key_size h = ks \<and> h_count h = 0"
proof -
  have "(ks + 128) mod 256 - 128 = ks" using assms(4,5) by simp
  then show ?thesis
    using assms by (simp add: hashtbl_init_default_def table_rep_def table_shape_def NO_BUCKETS_def members_def quiet_def)
qed

text \<open>The table after the elements \<open>es\<close>, all those of the buckets \<open>B\<close>, were freed.\<close>

definition drained :: "nat set \<Rightarrow> nat list \<Rightarrow> hashtbl \<Rightarrow> hashtbl" where
  "drained B es h = h\<lparr>buckets := map (\<lambda>b. if b \<in> B then None else buckets h ! b) [0..<length (buckets h)],
     freed := if has_freer h then freed h @ es else freed h\<rparr>"

lemma drained_fields [simp]:
  "thread_safe (drained B es h) = thread_safe h" "has_freer (drained B es h) = has_freer h" "elts (drained B es h) = elts h"
  "NO_BUCKETS (drained B es h) = NO_BUCKETS h" "length (buckets (drained B es h)) = length (buckets h)"
  "b < length (buckets h) \<Longrightarrow> buckets (drained B es h) ! b = (if b \<in> B then None else buckets h ! b)"
  by (simp_all add: drained_def NO_BUCKETS_def)

lemma drained_drained: "drained B' es' (drained B es h) = drained (B \<union> B') (es @ es') h"
  by (simp add: drained_def)

lemma drained_none [simp]: "drained {} [] h = h"
  by (simp add: drained_def map_nth)

lemma empty_bucket_drains:
  assumes "chain (elts h) (buckets h ! b) xs" "distinct xs" "b < length (buckets h)"
    "\<forall>x\<in>set xs. Elt_ptr x \<notin> s \<and> Elt_data x \<notin> s"
  shows "empty_bucket b (holding s h) = Some (Inr (holding s (drained {b} xs h)))"
  using assms
proof (induction xs arbitrary: h)
  case Nil
  have "drained {b} [] h = h"
    using Nil.prems by (auto simp: drained_def intro: nth_equalityI intro!: hashtbl.equality)
  with Nil show ?case by (subst empty_bucket.simps) simp
next
  case (Cons x xs)
  let ?h = "h\<lparr>buckets := (buckets h)[b := he_next (elts h x)], freed := if has_freer h then freed h @ [x] else freed h\<rparr>"
  have x: "buckets h ! b = Some x" "Elt_ptr x \<notin> s" "Elt_data x \<notin> s" using Cons.prems by simp_all
  have "insert (Elt_ptr x) (insert (Elt_data x) s) - {Elt_ptr x} = insert (Elt_data x) s" using x by auto
  then have del: "hashtbl_delete_element (First b) None (holding (insert (Elt_data x) s) h) = Inr (holding s ?h)"
    using x Cons.prems(3) by (simp add: hashtbl_delete_element_def deref_def set_link_def Let_def)
  have "empty_bucket b (holding s ?h) = Some (Inr (holding s (drained {b} xs ?h)))"
    using Cons.prems by (intro Cons.IH) simp_all
  moreover have "drained {b} xs ?h = drained {b} (x # xs) h"
    using Cons.prems(3) by (auto simp: drained_def nth_list_update)
  ultimately show ?case using x del by (subst empty_bucket.simps) simp
qed

lemma empty_all_buckets:
  assumes sh: "table_shape h bs" and n: "n \<le> NO_BUCKETS h" and s: "\<forall>b. Bucket_ptr b \<notin> s" "\<forall>x. Elt_ptr x \<notin> s \<and> Elt_data x \<notin> s"
  shows "rfold (\<lambda>b h. rbind (lock (Bucket_ptr b) h) (\<lambda>h. rbind (rbind (ends (empty_bucket b h)) (\<lambda>r. r)) (\<lambda>h. unlock (Bucket_ptr b) h)))
    [0..<n] (holding s h) = Inr (holding s (drained {0..<n} (concat (map bs [0..<n])) h))"
  using n
proof (induction n)
  case (Suc n)
  let ?h = "drained {0..<n} (concat (map bs [0..<n])) h"
  have b: "n < NO_BUCKETS h" "n < length (buckets h)" using Suc.prems sh by (simp_all add: table_shape_def)
  have "empty_bucket n (holding (insert (Bucket_ptr n) s) ?h) = Some (Inr (holding (insert (Bucket_ptr n) s) (drained {n} (bs n) ?h)))"
    using sh b s bucket_distinct [OF sh b(1)] by (intro empty_bucket_drains) (simp_all add: table_shape_def)
  moreover have "insert (Bucket_ptr n) s - {Bucket_ptr n} = s" using s by simp
  ultimately show ?case
    using Suc s by (simp add: rfold_append ends_def drained_drained atLeast0_lessThan_Suc)
qed simp

lemma empty_frees:
  assumes sh: "table_shape h bs" and q: "quiet h"
  shows "\<exists>h'. hashtbl_empty h = Inr h' \<and> table_rep h' (\<lambda>_. []) \<and> quiet h' \<and> h_count h' = 0 \<and> unique h' = unique h \<and> thread_safe h' = thread_safe h \<and>
    freed h' = freed h @ (if has_freer h then all_elts h bs else [])"
proof -
  let ?g = "drained {0..<NO_BUCKETS h} (all_elts h bs) (h\<lparr>h_count := 0\<rparr>)" and ?h = "h\<lparr>h_count := 0\<rparr>"
  have len: "length (buckets h) = NO_BUCKETS h" using sh by (simp add: table_shape_def)
  then have ne: "buckets h \<noteq> []" by (auto simp: NO_BUCKETS_def)
  have "lock Count_mutex h = Inr (holding {Count_mutex} h)" using lock_holding [of Count_mutex "{}" h] quiet_holding [OF q] by simp
  moreover note empty_all_buckets [of ?h bs "NO_BUCKETS h" "{Count_mutex}"]
  ultimately have "hashtbl_empty h = Inr (holding {} ?g)"
    using ne sh by (simp add: hashtbl_empty_def flip: all_elts_def)
  moreover have "table_rep ?g (\<lambda>_. [])"
    using sh len by (auto simp: table_rep_def table_shape_def members_def drained_def NO_BUCKETS_def)
  moreover have "quiet (holding {} ?g)" by (simp add: quiet_def)
  moreover have "h_count ?g = 0" "unique ?g = unique h" "thread_safe ?g = thread_safe h" "freed ?g = freed h @ (if has_freer h then all_elts h bs else [])" by (simp_all add: drained_def)
  ultimately show ?thesis by auto
qed

section \<open>The life of a table\<close>

lemma elts_update_rep:
  assumes rp: "table_rep h bs" and e: "e \<notin> members h bs"
  shows "table_rep (h\<lparr>elts := (elts h)(e := v)\<rparr>) bs"
proof -
  let ?h = "h\<lparr>elts := (elts h)(e := v)\<rparr>"
  have f: "NO_BUCKETS ?h = NO_BUCKETS h" "get_bucket ?h = get_bucket h" "same_key ?h = same_key h" "members ?h bs = members h bs"
    by (auto simp: NO_BUCKETS_def get_bucket_def same_key_def members_def fun_eq_iff)
  have "x \<noteq> e" if "x \<in> members h bs" for x using that e by blast
  moreover have "x \<noteq> e" if "b < NO_BUCKETS h" "x \<in> set (bs b)" for x b using that e by (auto simp: members_def)
  moreover have "e \<notin> set (bs b)" if "b < NO_BUCKETS h" for b using that e by (auto simp: members_def)
  ultimately show ?thesis using rp unfolding table_rep_def table_shape_def f by (auto simp del: of_nat_sum)
qed

lemma elts_update_ok: "reg_ok h \<Longrightarrow> \<not> reg_member h e \<Longrightarrow> reg_ok (h\<lparr>elts := (elts h)(e := v)\<rparr>)"
  unfolding reg_ok_def reg_member_def using elts_update_rep by (auto simp: quiet_def) blast

lemma elts_update_member:
  assumes "reg_ok h" "\<not> reg_member h e"
  shows "reg_member (h\<lparr>elts := (elts h)(e := v)\<rparr>) x = reg_member h x"
proof -
  obtain bs where rp: "table_rep h bs" using assms(1) by (auto simp: reg_ok_def)
  then have "e \<notin> members h bs" using assms(2) reg_member_iff by blast
  note rp' = elts_update_rep [OF rp this, of v]
  show ?thesis using reg_member_iff [OF rp] reg_member_iff [OF rp'] by (simp add: members_def NO_BUCKETS_def)
qed

lemma reg_count:
  assumes "reg_ok h"
  shows "h_count h = int (card {e. reg_member h e})"
proof -
  obtain bs where rp: "table_rep h bs" using assms by (auto simp: reg_ok_def)
  then have sh: "table_shape h bs" and c: "h_count h = int (\<Sum>b<NO_BUCKETS h. length (bs b))" by (simp_all add: table_rep_def)
  have "{e. reg_member h e} = members h bs" using reg_member_iff [OF rp] by auto
  then have "card {e. reg_member h e} = length (all_elts h bs)"
    using all_elts_members [OF sh] distinct_card by metis
  also have "\<dots> = (\<Sum>b<NO_BUCKETS h. length (bs b))"
    by (simp add: all_elts_def length_concat interv_sum_list_conv_sum_set_nat atLeast0LessThan o_def)
  finally show ?thesis using c by simp
qed

text \<open>
  What the threads of the program do with a table, one operation after the other: add a new element
  and unlock it, try to add one whose key is there already, look an element up and unlock it, delete an
  element, empty the table. \<open>fresh\<close> is an address that no element of the table has.
\<close>

inductive table_step :: "hashtbl \<Rightarrow> hashtbl \<Rightarrow> bool" where
  step_add: "\<not> reg_member h fresh \<Longrightarrow> hashtbl_allocate_and_add_element fresh key h = Inr (h1, Some e) \<Longrightarrow>
    hashtbl_unlock_element_byptr e h1 = Inr h2 \<Longrightarrow> table_step h h2"
| step_dup: "\<not> reg_member h fresh \<Longrightarrow> hashtbl_allocate_and_add_element fresh key h = Inr (h1, None) \<Longrightarrow> table_step h h1"
| step_find: "hashtbl_find_element_bykey key h = Inr (h1, Some e) \<Longrightarrow> hashtbl_unlock_element_byptr e h1 = Inr h2 \<Longrightarrow> table_step h h2"
| step_miss: "hashtbl_find_element_bykey key h = Inr (h1, None) \<Longrightarrow> table_step h h1"
| step_delete: "reg_member h e \<Longrightarrow> hashtbl_delete_element_byptr e h = Inr h1 \<Longrightarrow> table_step h h1"
| step_empty: "hashtbl_empty h = Inr h1 \<Longrightarrow> table_step h h1"

lemma empty_keeps_ok:
  assumes "reg_ok h"
  shows "\<exists>h'. hashtbl_empty h = Inr h' \<and> reg_ok h' \<and> (\<forall>e. \<not> reg_member h' e)"
proof -
  obtain bs where "table_shape h bs" "quiet h" "unique h" "thread_safe h" using assms by (auto simp: reg_ok_def table_rep_def)
  then obtain h' where h': "hashtbl_empty h = Inr h'" "table_rep h' (\<lambda>_. [])" "quiet h'" "unique h'" "thread_safe h'"
    using empty_frees [of h bs] by auto
  then have "reg_ok h'" unfolding reg_ok_def by blast
  with h'(1) reg_member_iff [OF h'(2)] show ?thesis by (auto simp: members_def)
qed

lemma allocate_keeps_ok:
  assumes ok: "reg_ok h" and nm: "\<not> reg_member h e"
  shows "\<exists>h1 r. hashtbl_allocate_and_add_element e key h = Inr (h1, r) \<and>
    (case r of None \<Rightarrow> reg_ok h1 | Some x \<Rightarrow> \<exists>h2. hashtbl_unlock_element_byptr x h1 = Inr h2 \<and> reg_ok h2)"
proof -
  let ?h = "h\<lparr>elts := (elts h)(e := \<lparr>he_next = None, he_key = key\<rparr>)\<rparr>"
  have ok': "reg_ok ?h" and nm': "\<not> reg_member ?h e" using elts_update_ok [OF ok nm] elts_update_member [OF ok nm] nm by simp_all
  show ?thesis
  proof (cases "\<exists>x. reg_bound ?h (reg_key ?h e) x")
    case True
    then show ?thesis using hash_registry.add_duplicate [OF ok' nm'] ok' by (auto simp: hashtbl_allocate_and_add_element_def)
  next
    case False
    then show ?thesis using hash_registry.add_fresh [OF ok' nm'] by (auto simp: hashtbl_allocate_and_add_element_def)
  qed
qed

lemma table_step_keeps_ok: "table_step h h' \<Longrightarrow> reg_ok h \<Longrightarrow> reg_ok h'"
proof (induction rule: table_step.induct)
  case (step_add h fresh key h1 e h2)
  then show ?case using allocate_keeps_ok [of h fresh key] by auto
next
  case (step_dup h fresh key h1)
  then show ?case using allocate_keeps_ok [of h fresh key] by auto
next
  case (step_find key h h1 e h2)
  then show ?case using hash_registry.lookup_law [of h key] by auto
next
  case (step_miss key h h1)
  then show ?case using hash_registry.lookup_law [of h key] by auto
next
  case (step_delete h e h1)
  then show ?case using hash_registry.del_law [of h e] by auto
next
  case (step_empty h h1)
  then show ?case using empty_keeps_ok [of h] by auto
qed

section \<open>Correctness of the table\<close>

text \<open>Two tables for the examples: one without elements, in which address \<open>e\<close> has the key \<open>[e]\<close>, and one that holds element 1.\<close>

definition demo_tbl :: hashtbl where
  "demo_tbl = \<lparr>buckets = replicate 16 None, key_size = -1, key_bits = 4, unique = True, thread_safe = True, has_freer = True,
     h_count = 0, elts = (\<lambda>e. \<lparr>he_next = None, he_key = [of_nat e]\<rparr>), held = {}, freed = []\<rparr>"

definition demo_one :: hashtbl where
  "demo_one = added 1 1 demo_tbl"

lemma demo_tbl_rep: "table_rep demo_tbl (\<lambda>_. [])" "members demo_tbl (\<lambda>_. []) = {}" "get_bucket demo_tbl (he_key (elts demo_tbl 1)) = Inr 1"
  by (simp_all add: demo_tbl_def table_rep_def table_shape_def NO_BUCKETS_def members_def get_bucket_def hash_sdbm_def cstr_def)

lemma demo_tbl_ok: "reg_ok demo_tbl" "\<not> reg_member demo_tbl e"
proof -
  have "quiet demo_tbl" "unique demo_tbl" "thread_safe demo_tbl" by (simp_all add: demo_tbl_def quiet_def)
  then show "reg_ok demo_tbl" using demo_tbl_rep(1) unfolding reg_ok_def by blast
  show "\<not> reg_member demo_tbl e" using reg_member_iff [OF demo_tbl_rep(1)] demo_tbl_rep(2) by simp
qed

lemma demo_one_ok: "reg_ok demo_one" "reg_member demo_one e \<longleftrightarrow> e = 1"
proof -
  have rp: "table_rep demo_one ((\<lambda>_. [])(1 := [1]))" "members demo_one ((\<lambda>_. [])(1 := [1])) = {1}"
    using added_rep [OF demo_tbl_rep(1) _ demo_tbl_rep(3)] by (simp_all add: demo_one_def demo_tbl_rep(2))
  moreover have "quiet demo_one" "unique demo_one" "thread_safe demo_one"
    by (simp_all add: demo_one_def quiet_def added_def) (simp_all add: demo_tbl_def)
  ultimately show "reg_ok demo_one" unfolding reg_ok_def by blast
  show "reg_member demo_one e \<longleftrightarrow> e = 1" using reg_member_iff [OF rp(1)] rp(2) by simp
qed

lemma demo_one_key: "he_key (elts demo_one e) = [of_nat e]" "key_size demo_one = -1"
  by (simp_all add: demo_one_def) (simp_all add: demo_tbl_def)

text \<open>C9: Every table that the program can reach is consistent: after \<^verbatim>\<open>hashtbl_init_default\<close> and any
  sequence of additions, refused additions, searches, deletions and clearings the buckets are lists
  without sharing, every element is in the bucket of its key, no two elements have the same key,
  no mutex is held, the counter is the number of elements, and none of the operations can end the
  process by locking a mutex twice or unlocking one that is not held.\<close>

theorem reachable_tables_consistent:
  assumes "hashtbl_init_default ks kb True True fr = Inr h0" "0 < kb" "ks \<noteq> 0" "-128 \<le> ks" "table_step\<^sup>*\<^sup>* h0 h"
  shows "reg_ok h \<and> h_count h = int (card {e. reg_member h e}) \<and> (\<exists>h'. hashtbl_empty h = Inr h') \<and>
    (\<forall>key. \<exists>h' r. hashtbl_find_element_bykey key h = Inr (h', r)) \<and>
    (\<forall>e key. \<not> reg_member h e \<longrightarrow> (\<exists>h' r. hashtbl_allocate_and_add_element e key h = Inr (h', r))) \<and>
    (\<forall>e. reg_member h e \<longrightarrow> (\<exists>h'. hashtbl_delete_element_byptr e h = Inr h'))"
proof -
  have "kb \<le> 16" "ks < 128" "0 \<le> ks \<longrightarrow> int kb \<le> 8 * ks"
    using assms(1) by (auto simp: hashtbl_init_default_def asserting_def split: if_splits)
  with assms init_default_ok [of kb ks True True fr] have "reg_ok h0" by (auto simp: reg_ok_def)
  with assms(5) have ok: "reg_ok h" by (induction rule: rtranclp_induct) (auto intro: table_step_keeps_ok)
  show ?thesis
    using ok reg_count [OF ok] empty_keeps_ok [OF ok] hash_registry.lookup_law [OF ok] hash_registry.del_law [OF ok] allocate_keeps_ok [OF ok]
    by (metis (no_types))
qed

theorem reachable_tables_consistent_witness:
  "\<exists>h0 h. hashtbl_init_default (-1) 4 True True True = Inr h0 \<and> table_step h0 h \<and> reg_ok h"
proof -
  obtain h0 where h0: "hashtbl_init_default (-1) 4 True True True = Inr h0"
    using init_default_ok [of 4 "-1" True True True] by auto
  have t: "reg_ok h" if "table_step\<^sup>*\<^sup>* h0 h" for h
    using reachable_tables_consistent [OF h0 _ _ _ that] by simp
  then have "\<exists>h. hashtbl_empty h0 = Inr h" using empty_keeps_ok by blast
  then obtain h where "table_step h0 h" using step_empty by blast
  with h0 t show ?thesis by blast
qed

text \<open>C10: A search by key on a table at rest always returns; it finds the element with that key exactly when
  there is one, and the only mutex that it returns with is the data mutex of the element it found:
  the hand over hand locking of the links has given back all the others.\<close>

theorem find_locks_only_the_element:
  assumes "reg_ok h"
  shows "\<exists>r. hashtbl_find_element_bykey key h = Inr (h\<lparr>held := (case r of None \<Rightarrow> {} | Some e \<Rightarrow> {Elt_data e})\<rparr>, r) \<and>
    (case r of None \<Rightarrow> \<forall>e. \<not> reg_bound h key e | Some e \<Rightarrow> reg_bound h key e)"
proof -
  obtain bs where rp: "table_rep h bs" "quiet h" "thread_safe h" using assms by (auto simp: reg_ok_def)
  obtain r where r: "hashtbl_find_element_bykey key h = Inr (holding (found_held {} r) h, r)"
    "case r of None \<Rightarrow> \<forall>x\<in>members h bs. \<not> same_key h key (he_key (elts h x))
     | Some e \<Rightarrow> e \<in> members h bs \<and> same_key h key (he_key (elts h e))"
    using find_bykey [OF rp(1,2), of key] by blast
  show ?thesis
    using r rp(3) reg_member_iff [OF rp(1)]
    by (intro exI [of _ r]) (cases r, auto simp: reg_bound_def holding_def found_held_def)
qed

theorem find_locks_only_the_element_witness:
  "hashtbl_find_element_bykey [1] demo_one = Inr (demo_one\<lparr>held := {Elt_data 1}\<rparr>, Some 1)"
proof -
  have b: "reg_bound demo_one [1] e \<longleftrightarrow> e = 1" for e by (auto simp: reg_bound_def demo_one_ok demo_one_key)
  show ?thesis using find_locks_only_the_element [OF demo_one_ok(1), of "[1]"] by (auto simp: b split: option.splits)
qed

text \<open>C11: An element with a key that the table does not have yet is added, and returned locked; once the
  caller has unlocked it the table is at rest again and a search for its key returns that element.\<close>

theorem add_then_find:
  assumes "reg_ok h" "\<not> reg_member h e" "\<forall>x. \<not> reg_bound h (reg_key h e) x"
  shows "\<exists>h1 h2 h3. hashtbl_add_element e h = Inr (h1, Some e) \<and> hashtbl_unlock_element_byptr e h1 = Inr h2 \<and> reg_ok h2 \<and>
    hashtbl_find_element_bykey (reg_key h e) h2 = Inr (h3, Some e) \<and> hashtbl_unlock_element_byptr e h3 = Inr h2"
  using hash_registry.add_fresh [of h e] assms by blast

theorem add_then_find_witness: "\<exists>h1. hashtbl_add_element 2 demo_one = Inr (h1, Some 2)"
proof -
  have "\<not> reg_bound demo_one (reg_key demo_one 2) x" for x
    by (auto simp: reg_bound_def reg_key_def demo_one_ok demo_one_key same_key_def cstr_def)
  then show ?thesis using add_then_find [of demo_one 2] by (auto simp: demo_one_ok)
qed

text \<open>A table with unique keys refuses an element whose key it has already: the result is null and the table
  is as it was, its counter and its mutexes included.\<close>

theorem add_refuses_duplicate:
  assumes "reg_ok h" "\<not> reg_member h e" "reg_bound h (reg_key h e) x"
  shows "hashtbl_add_element e h = Inr (h, None)"
  using assms by (rule hash_registry.add_duplicate)

theorem add_refuses_duplicate_witness: "hashtbl_add_element 257 demo_one = Inr (demo_one, None)"
  using add_refuses_duplicate [of demo_one 257 1]
  by (simp add: demo_one_ok reg_bound_def reg_key_def demo_one_key same_key_def cstr_def)

text \<open>Deleting an element of a table at rest returns, leaves the table at rest, and a search for the key of the element then
  finds nothing.\<close>

theorem delete_then_find:
  assumes "reg_ok h" "reg_member h e"
  shows "\<exists>h'. hashtbl_delete_element_byptr e h = Inr h' \<and> reg_ok h' \<and>
    hashtbl_find_element_bykey (reg_key h e) h' = Inr (h', None)"
  using assms by (rule hash_registry.delete_lookup)

theorem delete_then_find_witness: "\<exists>h'. hashtbl_delete_element_byptr 1 demo_one = Inr h' \<and> hashtbl_find_element_bykey [1] h' = Inr (h', None)"
  using delete_then_find [OF demo_one_ok(1), of 1] by (auto simp: demo_one_ok reg_key_def demo_one_key)

text \<open>C12: The traversal ends, calls its callback once on each element of the table until the callback fails, and
  returns with no mutex held, also when the callback failed.\<close>

theorem traverse_visits_each_once:
  assumes "reg_ok h"
  shows "\<exists>es. distinct es \<and> set es = {e. reg_member h e} \<and> hashtbl_ts_traverse rep p h = Inr (h, visit rep es p)"
proof -
  obtain bs where rp: "table_rep h bs" "quiet h" "thread_safe h" using assms by (auto simp: reg_ok_def)
  then have sh: "table_shape h bs" by (simp add: table_rep_def)
  have "set (all_elts h bs) = {e. reg_member h e}" using all_elts_members(2) [OF sh] reg_member_iff [OF rp(1)] by auto
  with all_elts_members(1) [OF sh] ts_traverse_visit [OF sh rp(2), of rep p] show ?thesis
    by (intro exI [of _ "all_elts h bs"]) simp
qed

theorem traverse_visits_each_once_witness:
  "hashtbl_ts_traverse (\<lambda>e p. (0, p @ [e])) [] demo_one = Inr (demo_one, [1], 0)"
proof -
  obtain es where es: "distinct es" "set es = {1}"
    "hashtbl_ts_traverse (\<lambda>e p. (0, p @ [e])) [] demo_one = Inr (demo_one, visit (\<lambda>e p. (0, p @ [e])) es [])"
    using traverse_visits_each_once [OF demo_one_ok(1), of "\<lambda>e p. (0, p @ [e])" "[]"] by (auto simp: demo_one_ok)
  then have "es = [1]" by (cases es; cases "drop 1 es") auto
  with es(3) show ?thesis by simp
qed

text \<open>Clearing a table frees each of its elements exactly once, and leaves an empty table at rest.\<close>

theorem empty_frees_each_once:
  assumes "reg_ok h" "has_freer h"
  shows "\<exists>h' es. hashtbl_empty h = Inr h' \<and> reg_ok h' \<and> (\<forall>e. \<not> reg_member h' e) \<and> h_count h' = 0 \<and>
    freed h' = freed h @ es \<and> distinct es \<and> set es = {e. reg_member h e}"
proof -
  obtain bs where rp: "table_rep h bs" "quiet h" using assms by (auto simp: reg_ok_def)
  then have sh: "table_shape h bs" by (simp add: table_rep_def)
  obtain h' where h': "hashtbl_empty h = Inr h'" "h_count h' = 0" "freed h' = freed h @ all_elts h bs"
    using empty_frees [OF sh rp(2)] assms(2) by auto
  have "set (all_elts h bs) = {e. reg_member h e}" using all_elts_members(2) [OF sh] reg_member_iff [OF rp(1)] by auto
  with h' all_elts_members(1) [OF sh] empty_keeps_ok [OF assms(1)] show ?thesis by auto
qed

theorem empty_frees_each_once_witness: "\<exists>h'. hashtbl_empty demo_one = Inr h' \<and> h_count h' = 0"
  using empty_frees_each_once [OF demo_one_ok(1)] by (auto simp: demo_one_def added_def demo_tbl_def)

end
