(* ===== verification/Util.thy ===== *)
theory Util
  imports Prelude
begin

text \<open>
  Model of src/src/util.c as far as it computes anything: the in place decoder of the keys that the client
  sends in hexadecimal. The byte order conversions of util.h are not used by the program. The allocation wrappers end the process when memory runs out
  and are part of the operations that use them. The theorems show that the decoder inverts hexadecimal notation in
  either case of letters and rejects exactly the other strings.
\<close>

section \<open>Characters\<close>

definition ascii :: "string \<Rightarrow> bytes" where
  "ascii s = map of_char s"

lemma ascii_simps [simp]: "ascii [] = []" "ascii (c # s) = of_char c # ascii s" "length (ascii s) = length s"
  by (simp_all add: ascii_def)

lemma of_char_inj: "(of_char c :: u8) = of_char d \<longleftrightarrow> c = d"
proof
  assume "(of_char c :: u8) = of_char d"
  then have "unat (of_nat (of_char c) :: u8) = unat (of_nat (of_char d) :: u8)" by (simp only: of_nat_of_char)
  then have "(of_char c :: nat) = of_char d"
    using nat_of_char_less_256 [of c] nat_of_char_less_256 [of d] by (subst (asm) (1 2) unat_of_nat_small) simp_all
  then show "c = d" by simp
qed simp

section \<open>The decoder\<close>

text \<open>The value of a digit, for the three ranges of characters that the code accepts.\<close>

definition nibble :: "u8 \<Rightarrow> u8 option" where
  "nibble c =
     (if 0x30 \<le> c \<and> c \<le> 0x39 then Some (c - 0x30)
      else if 0x41 \<le> c \<and> c \<le> 0x46 then Some (c - 0x41 + 10)
      else if 0x61 \<le> c \<and> c \<le> 0x66 then Some (c - 0x61 + 10)
      else None)"

text \<open>
  The buffer is overwritten while it is read; a bad digit stops the loop and leaves what was written so far,
  the high half of a byte included. Characters above 127 are negative in C and in none of the ranges.
\<close>

function unbase16_loop :: "nat \<Rightarrow> nat \<Rightarrow> bytes \<Rightarrow> bytes \<times> int" where
  "unbase16_loop i n buf =
     (if i < n then
        (case nibble (buf ! i) of
           None \<Rightarrow> (buf, -1)
         | Some high \<Rightarrow>
             let buf = buf[i div 2 := 16 * high] in
             (case nibble (buf ! (i + 1)) of
                None \<Rightarrow> (buf, -1)
              | Some low \<Rightarrow> unbase16_loop (i + 2) n (buf[i div 2 := buf ! (i div 2) + low])))
      else (buf, 0))"
  by pat_completeness auto
termination
  by (relation "measure (\<lambda>(i, n, buf). n - i)") auto

declare unbase16_loop.simps [simp del]

definition unbase16 :: "bytes \<Rightarrow> nat \<Rightarrow> (bytes \<times> int) res" where
  "unbase16 buf n = asserting (even n) ''unbase16: !(len%2)'' (Inr (unbase16_loop 0 n buf))"

section \<open>Decoding\<close>

text \<open>What the decoder computes on a list of pairs of characters.\<close>

fun decode :: "bytes \<Rightarrow> bytes option" where
  "decode [] = Some []"
| "decode [c] = None"
| "decode (c # d # cs) =
     (case (nibble c, nibble d, decode cs) of (Some h, Some l, Some bs) \<Rightarrow> Some ((16 * h + l) # bs) | _ \<Rightarrow> None)"

lemma decode_length: "decode cs = Some bs \<Longrightarrow> length cs = 2 * length bs"
  by (induction cs arbitrary: bs rule: decode.induct) (auto split: option.splits)

text \<open>Position \<open>i\<close> of the loop: the first \<open>i div 2\<close> bytes are decoded, the rest from \<open>i\<close> on is untouched.\<close>

lemma unbase16_loop_decode:
  assumes "even i" "i \<le> length buf" "even (length cs)" "drop i buf = cs @ tl0" "n = i + length cs"
  shows "case decode cs of
      Some bs \<Rightarrow> unbase16_loop i n buf = (blit (i div 2) bs buf, 0)
    | None \<Rightarrow> snd (unbase16_loop i n buf) = -1"
  using assms
proof (induction cs arbitrary: i buf rule: decode.induct)
  case 1
  then show ?case by (simp add: unbase16_loop.simps blit_def)
next
  case (2 c)
  then show ?case by simp
next
  case (3 c d cs)
  have len: "i + 2 + length cs \<le> length buf" using arg_cong [OF "3.prems"(4), of length] "3.prems"(2) by simp
  have c: "buf ! i = c" "buf ! (i + 1) = d" "drop (i + 2) buf = cs @ tl0"
    using "3.prems"(2,4) nth_drop [of i buf 0] nth_drop [of i buf 1] drop_drop [of 2 i buf] len by (simp_all add: add.commute)
  have i: "i div 2 < i + 1" "i div 2 \<noteq> i + 1" "i div 2 < length buf" using len by auto
  show ?case
  proof (cases "nibble c")
    case None
    then show ?thesis using c "3.prems"(5) by (simp add: unbase16_loop.simps)
  next
    case h: (Some h)
    show ?thesis
    proof (cases "nibble d")
      case None
      then show ?thesis using c h i "3.prems"(5) by (simp add: unbase16_loop.simps Let_def)
    next
      case l: (Some l)
      let ?buf = "buf[i div 2 := 16 * h + l]"
      have step: "unbase16_loop i n buf = unbase16_loop (i + 2) n ?buf"
        using c h l i "3.prems"(5) by (subst unbase16_loop.simps) (simp add: Let_def)
      have "drop (i + 2) ?buf = cs @ tl0" using c(3) i(1) by (simp add: drop_update_cancel)
      then have IH: "case decode cs of Some bs \<Rightarrow> unbase16_loop (i + 2) n ?buf = (blit ((i + 2) div 2) bs ?buf, 0)
          | None \<Rightarrow> snd (unbase16_loop (i + 2) n ?buf) = -1"
        using "3.prems" len by (intro "3.IH") simp_all
      have "blit (i div 2 + 1) bs ?buf = blit (i div 2) ((16 * h + l) # bs) buf" for bs
        using i(3) by (simp add: blit_def take_Suc_conv_app_nth drop_update_cancel)
      with IH step h l show ?thesis by (cases "decode cs") simp_all
    qed
  qed
qed

lemma unbase16_decode:
  assumes "even (length cs)"
  shows "\<exists>buf. unbase16 (cs @ rest) (length cs) = Inr (buf, if decode cs = None then -1 else 0) \<and>
    (\<forall>bs. decode cs = Some bs \<longrightarrow> take (length bs) buf = bs)"
proof -
  have d: "case decode cs of Some bs \<Rightarrow> unbase16_loop 0 (length cs) (cs @ rest) = (blit (0 div 2) bs (cs @ rest), 0)
      | None \<Rightarrow> snd (unbase16_loop 0 (length cs) (cs @ rest)) = -1"
    using assms by (intro unbase16_loop_decode) simp_all
  show ?thesis
  proof (cases "decode cs")
    case None
    with d assms show ?thesis by (cases "unbase16_loop 0 (length cs) (cs @ rest)") (simp add: unbase16_def)
  next
    case (Some bs)
    with d assms show ?thesis by (simp add: unbase16_def blit_def)
  qed
qed

section \<open>Hexadecimal notation\<close>

text \<open>The notation of a byte, with capital or small letters.\<close>

definition digit :: "bool \<Rightarrow> u8 \<Rightarrow> u8" where
  "digit capital n = (if n < 10 then 0x30 + n else if capital then 0x41 + (n - 10) else 0x61 + (n - 10))"

definition base16 :: "bool \<Rightarrow> bytes \<Rightarrow> bytes" where
  "base16 capital bs = concat (map (\<lambda>b. [digit capital (b div 16), digit capital (b mod 16)]) bs)"

lemma nibble_digit: "n < 16 \<Longrightarrow> nibble (digit capital n) = Some n"
proof -
  assume "n < 16"
  then have "unat n \<in> {0..<16}" by (simp add: word_less_nat_alt)
  then have "unat n \<in> set [0..<16]" by simp
  then have "n \<in> of_nat ` set [0..<16]" by (intro image_eqI [of n of_nat "unat n"]) simp_all
  then show "nibble (digit capital n) = Some n"
    by (cases capital) (simp_all add: upt_conv_Cons, elim disjE; simp add: nibble_def digit_def)+
qed

lemma decode_base16: "decode (base16 capital bs) = Some bs"
proof (induction bs)
  case (Cons b bs)
  have "b div 16 < 16" "b mod 16 < 16"
    using unsigned_less [of b, where 'a = nat] by (simp_all add: word_less_nat_alt unat_div unat_mod less_mult_imp_div_less)
  moreover have "16 * (b div 16) + b mod 16 = b" by (rule mult_div_mod_eq)
  ultimately show ?case using Cons by (simp add: base16_def nibble_digit)
qed (simp add: base16_def)

lemma even_base16: "length (base16 capital bs) = 2 * length bs"
  by (induction bs) (simp_all add: base16_def)

lemma decode_digits: "even (length cs) \<Longrightarrow> decode cs \<noteq> None \<longleftrightarrow> (\<forall>c\<in>set cs. nibble c \<noteq> None)"
  by (induction cs rule: decode.induct) (auto split: option.splits)

text \<open>
  decoding a key: the decoder turns the hexadecimal notation of a key, in capital or small letters, into the key, at
  the beginning of the same buffer; and of all strings of even length it rejects exactly those with a character that is
  no digit.
\<close>

theorem unbase16_correct:
  "(\<exists>buf. unbase16 (base16 capital bs @ rest) (2 * length bs) = Inr (buf, 0) \<and> take (length bs) buf = bs) \<and>
   (even (length cs) \<longrightarrow> (\<exists>buf. unbase16 (cs @ rest) (length cs) = Inr (buf, if \<forall>c\<in>set cs. nibble c \<noteq> None then 0 else -1)))"
proof (intro conjI impI)
  show "\<exists>buf. unbase16 (base16 capital bs @ rest) (2 * length bs) = Inr (buf, 0) \<and> take (length bs) buf = bs"
    using unbase16_decode [of "base16 capital bs" rest] by (auto simp: even_base16 decode_base16)
  assume e: "even (length cs)"
  show "\<exists>buf. unbase16 (cs @ rest) (length cs) = Inr (buf, if \<forall>c\<in>set cs. nibble c \<noteq> None then 0 else -1)"
    using unbase16_decode [OF e, of rest] unfolding decode_digits [OF e, symmetric] by auto
qed

theorem unbase16_correct_witness: "\<exists>buf. unbase16 [0x66, 0x46, 0x30, 0x67] 4 = Inr (buf, -1)"
proof -
  have "length [0x66, 0x46, 0x30, 0x67 :: u8] = 4" "\<not> (\<forall>c\<in>set [0x66, 0x46, 0x30, 0x67 :: u8]. nibble c \<noteq> None)"
    by (simp_all add: nibble_def)
  with unbase16_correct [of True "[]" "[]" "[0x66, 0x46, 0x30, 0x67]"] show ?thesis by (simp only: if_False even_numeral append_Nil2 simp_thms)
qed

end
