(* ===== verification/Command_Table.thy ===== *)
theory Command_Table
  imports Hashtbl Util
begin

text \<open>
  The tables of commands of control.c and scubed3ctl.c: both programs put the elements of a static array, in order, into a
  hash table without mutexes whose keys are the names of the commands, and look a command up by the first word of a line. The
  position in the array is the address of an element. The interface \<open>name_table\<close> says what is needed of the names (they
  differ, and none contains a zero byte) and shows that loading succeeds and that the lookup is the search for the name in
  the array; both programs interpret it on their array.
\<close>

definition load_table :: "string list \<Rightarrow> hashtbl res" where
  "load_table names =
     rbind (hashtbl_init_default (-1) 4 False True False) (\<lambda>h.
     rfold (\<lambda>i h. rbind (hashtbl_add_element i h) (\<lambda>(h, r). fatal_if (r = None) ''duplicate command'' (Inr h)))
       [0..<length names]
       (h\<lparr>elts := (\<lambda>i. \<lparr>he_next = None, he_key = (if i < length names then ascii (names ! i) else [])\<rparr>)\<rparr>))"

section \<open>Keys\<close>

lemma ascii_inj: "ascii s = ascii t \<longleftrightarrow> s = t"
  by (induction s arbitrary: t) (case_tac t; auto simp: of_char_inj)+

lemma of_char_zero: "(of_char c :: u8) = 0 \<longleftrightarrow> c = CHR 0x00"
  using of_char_inj [of c "CHR 0x00"] by simp

lemma cstr_ascii: "CHR 0x00 \<notin> set s \<Longrightarrow> cstr (ascii s) = ascii s"
  unfolding cstr_def by (rule takeWhile_eq_all_conv [THEN iffD2]) (auto simp: ascii_def of_char_zero)

text \<open>The table holds the first \<open>n\<close> names.\<close>

definition holds_names :: "string list \<Rightarrow> nat \<Rightarrow> hashtbl \<Rightarrow> bool" where
  "holds_names names n h \<longleftrightarrow> (\<exists>bs. table_rep h bs \<and> members h bs = {..<n}) \<and> \<not> thread_safe h \<and> unique h \<and> key_size h = -1 \<and>
     (\<forall>i < length names. he_key (elts h i) = ascii (names ! i))"

definition position :: "string list \<Rightarrow> string \<Rightarrow> nat option" where
  "position names name = find (\<lambda>i. names ! i = name) [0..<length names]"

lemma position_Some: "position names name = Some i \<Longrightarrow> i < length names \<and> names ! i = name"
  by (auto simp: position_def find_Some_iff)

lemma position_None: "position names name = None \<longleftrightarrow> name \<notin> set names"
  by (auto simp: position_def find_None_iff in_set_conv_nth)

lemma position_map_of:
  assumes "distinct (map fst table)"
  shows "map_of table name = map_option (\<lambda>i. snd (table ! i)) (position (map fst table) name)"
proof (cases "position (map fst table) name")
  case None
  then have "map_of table name = None" by (simp add: position_None map_of_eq_None_iff)
  with None show ?thesis by simp
next
  case (Some i)
  then have i: "i < length table" "fst (table ! i) = name" using position_Some [OF Some] by auto
  then have "(name, snd (table ! i)) \<in> set table" using nth_mem [OF i(1)] by (metis prod.collapse)
  with Some assms show ?thesis by (simp add: map_of_is_SomeI)
qed

section \<open>Loading and searching\<close>

locale name_table =
  fixes names :: "string list"
  assumes names_differ: "distinct names"
    and names_nul: "i < length names \<Longrightarrow> CHR 0x00 \<notin> set (names ! i)"
begin

lemma keys_differ:
  assumes "holds_names names n h" "i < length names" "j < length names"
  shows "same_key h (ascii (names ! i)) (he_key (elts h j)) \<longleftrightarrow> i = j"
proof -
  have "names ! i = names ! j \<longleftrightarrow> i = j" using nth_eq_iff_index_eq [OF names_differ] assms(2,3) by simp
  then show ?thesis using assms names_nul by (simp add: same_key_def holds_names_def cstr_ascii ascii_inj)
qed

lemma add_name:
  assumes hc: "holds_names names n h" and n: "n < length names"
  shows "\<exists>h'. hashtbl_add_element n h = Inr (h', Some n) \<and> holds_names names (Suc n) h'"
proof -
  obtain bs where bs: "table_rep h bs" "members h bs = {..<n}" and ts: "\<not> thread_safe h" and u: "unique h"
    using hc by (auto simp: holds_names_def)
  have "\<not> same_key h (he_key (elts h n)) (he_key (elts h x))" if "x \<in> members h bs" for x
    using keys_differ [OF hc n, of x] that bs(2) n hc by (auto simp: holds_names_def)
  moreover have "quiet h" "n \<notin> members h bs" using ts bs(2) by (simp_all add: quiet_def)
  ultimately obtain b where b: "hashtbl_add_element n h = Inr (holding {Elt_data n} (added n b h), Some n)"
    "table_rep (added n b h) (bs(b := n # bs b))" "members (added n b h) (bs(b := n # bs b)) = insert n (members h bs)"
    using add_element [OF bs(1) _ u, of n] by auto
  have "holding {Elt_data n} (added n b h) = added n b h" using ts by (simp add: holding_def)
  moreover have "holds_names names (Suc n) (added n b h)"
    using b(2,3) bs(2) hc by (auto simp: holds_names_def lessThan_Suc)
  ultimately show ?thesis using b(1) by auto
qed

lemma table_loaded: "\<exists>h. load_table names = Inr h \<and> holds_names names (length names) h"
proof -
  let ?f = "\<lambda>i h. rbind (hashtbl_add_element i h) (\<lambda>(h, r). fatal_if (r = None) ''duplicate command'' (Inr h))"
  obtain h0 where h0: "hashtbl_init_default (-1) 4 False True False = Inr h0" "table_rep h0 (\<lambda>_. [])" "members h0 (\<lambda>_. []) = {}"
    "\<not> thread_safe h0" "unique h0" "key_size h0 = -1"
    using init_default_ok [of 4 "-1" False True False] by auto
  let ?h = "h0\<lparr>elts := (\<lambda>i. \<lparr>he_next = None, he_key = (if i < length names then ascii (names ! i) else [])\<rparr>)\<rparr>"
  have "table_rep ?h (\<lambda>_. [])" "members ?h (\<lambda>_. []) = {}"
    using h0(2) by (simp_all add: table_rep_def table_shape_def members_def NO_BUCKETS_def)
  then have start: "holds_names names 0 ?h" using h0(4-6) by (auto simp: holds_names_def)
  have "\<exists>h. rfold ?f [0..<n] ?h = Inr h \<and> holds_names names n h" if "n \<le> length names" for n
    using that
  proof (induction n)
    case (Suc n)
    then obtain h where "rfold ?f [0..<n] ?h = Inr h" "holds_names names n h" by auto
    with add_name [of n h] Suc.prems show ?case by (auto simp: rfold_append)
  qed (use start in simp)
  with h0(1) show ?thesis by (simp add: load_table_def)
qed

lemma table_holds: "load_table names = Inr h \<Longrightarrow> holds_names names (length names) h"
  using table_loaded by auto

lemma table_lookup:
  assumes hc: "holds_names names (length names) h" and nul: "CHR 0x00 \<notin> set name"
  shows "hashtbl_find_element_bykey (ascii name) h = Inr (h, position names name)"
proof -
  obtain bs where bs: "table_rep h bs" "members h bs = {..<length names}" and ts: "\<not> thread_safe h"
    using hc by (auto simp: holds_names_def)
  have q: "quiet h" using ts by (simp add: quiet_def)
  obtain r where r: "hashtbl_find_element_bykey (ascii name) h = Inr (holding (found_held {} r) h, r)"
    "case r of None \<Rightarrow> \<forall>x\<in>members h bs. \<not> same_key h (ascii name) (he_key (elts h x))
     | Some e \<Rightarrow> e \<in> members h bs \<and> same_key h (ascii name) (he_key (elts h e))"
    using find_bykey [OF bs(1) q, of "ascii name"] by blast
  have same: "same_key h (ascii name) (he_key (elts h x)) \<longleftrightarrow> names ! x = name" if "x < length names" for x
    using that hc names_nul nul by (auto simp: same_key_def holds_names_def cstr_ascii ascii_inj)
  have "r = position names name"
  proof (cases r)
    case None
    then have "position names name = None"
      using r(2) bs(2) same by (auto simp: position_def find_None_iff)
    with None show ?thesis by simp
  next
    case (Some e)
    then have e: "e < length names" "names ! e = name" using r(2) bs(2) same by auto
    have "names ! j \<noteq> name" if "j < e" for j
      using nth_eq_iff_index_eq [OF names_differ, of j e] that e by simp
    then have "position names name = Some e"
      using e unfolding position_def find_Some_iff by (intro exI [of _ e]) simp
    with Some show ?thesis by simp
  qed
  with r(1) ts show ?thesis by (simp add: holding_def)
qed

end

end
