(* ===== verification/Control.thy ===== *)
theory Control
  imports Fuse_Io Command_Table
begin

text \<open>
  Model of src/src/control.c: the thread that reads commands from a socket, splits them into words, finds the handler in a
  table and answers. A command opens, creates, resizes, cycles or closes a device, sets its flags, or reports. The
  theorems show how a line is split, that every line gets exactly the answer of its handler, what the
  handlers refuse, and where the code departs from what it means to do.
\<close>

section \<open>The socket\<close>

text \<open>
  \<open>sk_out\<close> is what the peer has received; \<open>sk_sends\<close> are the values that the calls of \<^verbatim>\<open>send\<close> are going to return,
  as far as they do not exceed the number of bytes asked for. At the end of the list the peer is gone.
\<close>

record sock =
  sk_out :: string
  sk_sends :: "int list"

fun send_loop :: "string \<Rightarrow> int list \<Rightarrow> string \<Rightarrow> sock \<times> int" where
  "send_loop str [] got = (\<lparr>sk_out = got, sk_sends = []\<rparr>, -1)"
| "send_loop str (n # ns) got =
     (if n \<le> 0 \<or> str = [] then (\<lparr>sk_out = got, sk_sends = ns\<rparr>, -1)
      else if nat n < length str then send_loop (drop (nat n) str) ns (got @ take (nat n) str)
      else (\<lparr>sk_out = got @ str, sk_sends = ns\<rparr>, 0))"

definition control_write_string :: "string \<Rightarrow> sock \<Rightarrow> sock \<times> int" where
  "control_write_string str sk = send_loop str (sk_sends sk) (sk_out sk)"

definition control_write_silent_success :: "sock \<Rightarrow> sock \<times> int" where
  "control_write_silent_success = control_write_string (''OK'' @ [CHR 0x0A] @ ''.'' @ [CHR 0x0A])"

text \<open>A second step that runs only if the first one returned zero.\<close>

definition and_then :: "sock \<times> int \<Rightarrow> (sock \<Rightarrow> sock \<times> int) \<Rightarrow> sock \<times> int" where
  "and_then r f = (if snd r = 0 then f (fst r) else (fst r, -1))"

definition control_write_status :: "int \<Rightarrow> sock \<Rightarrow> sock \<times> int" where
  "control_write_status err sk =
     and_then (control_write_string (if err = 0 then ''OK'' @ [CHR 0x0A] else ''ERR'' @ [CHR 0x0A]) sk) (\<lambda>sk. (sk, 0))"

text \<open>The formatted string is the argument.\<close>

definition control_vwrite_line :: "string \<Rightarrow> sock \<Rightarrow> sock \<times> int" where
  "control_vwrite_line str sk = control_write_string str sk"

definition control_write_line :: "string \<Rightarrow> sock \<Rightarrow> sock \<times> int" where
  "control_write_line str sk = control_vwrite_line str sk"

definition control_write_terminate :: "sock \<Rightarrow> sock \<times> int" where
  "control_write_terminate = control_write_string (''.'' @ [CHR 0x0A])"

definition control_write_complete :: "int \<Rightarrow> string \<Rightarrow> sock \<Rightarrow> sock \<times> int" where
  "control_write_complete err str sk =
     and_then (control_write_status err sk) (\<lambda>sk.
     and_then (control_vwrite_line str sk) (control_write_string ([CHR 0x0A] @ ''.'' @ [CHR 0x0A])))"

section \<open>Numbers\<close>

function show_nat :: "nat \<Rightarrow> string" where
  "show_nat n = (if n < 10 then [char_of (48 + n)] else show_nat (n div 10) @ [char_of (48 + n mod 10)])"
  by pat_completeness auto
termination
  by (relation "measure id") auto

declare show_nat.simps [simp del]

definition show_int :: "int \<Rightarrow> string" where
  "show_int i = (if i < 0 then CHR ''-'' # show_nat (nat (- i)) else show_nat (nat i))"

text \<open>The conversions %d of a 32 bit value, and %07u.\<close>

definition show_d :: "u32 \<Rightarrow> string" where
  "show_d w = show_int (sint w)"

definition show_07u :: "u32 \<Rightarrow> string" where
  "show_07u w = (let s = show_nat (unat w) in replicate (7 - length s) CHR ''0'' @ s)"

text \<open>
  The conversion %.1f of \<open>n\<close> bytes in MiB: tenths of the exact quotient, ties to the even digit. The quotient is
  exact in a double below 2^53 bytes.
\<close>

definition show_mib :: "nat \<Rightarrow> string" where
  "show_mib n =
     (let q = 10 * n div 2 ^ 20; r = 10 * n mod 2 ^ 20;
          t = (if 2 * r > 2 ^ 20 \<or> (2 * r = 2 ^ 20 \<and> odd q) then q + 1 else q)
      in show_nat (t div 10) @ ''.'' @ show_nat (t mod 10))"

definition text_of :: "bytes \<Rightarrow> string" where
  "text_of bs = map (\<lambda>b. char_of (unat b)) bs"

definition isspace :: "char \<Rightarrow> bool" where
  "isspace c \<longleftrightarrow> c \<in> {CHR '' '', CHR 0x09, CHR 0x0A, CHR 0x0B, CHR 0x0C, CHR 0x0D}"

definition isdigit :: "char \<Rightarrow> bool" where
  "isdigit c \<longleftrightarrow> 48 \<le> (of_char c :: nat) \<and> (of_char c :: nat) \<le> 57"

definition digits_value :: "string \<Rightarrow> int" where
  "digits_value ds = fold (\<lambda>c v. 10 * v + (of_char c - 48)) ds 0"

text \<open>The value of \<^verbatim>\<open>strtol\<close> with base ten, a 64 bit \<^verbatim>\<open>long\<close>, and what is left of the string.\<close>

definition strtol :: "string \<Rightarrow> int \<times> string" where
  "strtol inp =
     (let s = dropWhile isspace inp;
          neg = (s \<noteq> [] \<and> hd s = CHR ''-'');
          s = (if s \<noteq> [] \<and> hd s \<in> {CHR ''-'', CHR ''+''} then tl s else s);
          ds = takeWhile isdigit s; v = (if neg then - digits_value ds else digits_value ds)
      in if ds = [] then (0, inp) else (max (- (2 ^ 63)) (min (2 ^ 63 - 1) v), drop (length ds) s))"

text \<open>
  The result is stored in an \<^verbatim>\<open>int\<close> before it is compared with the limits of \<^verbatim>\<open>long\<close>, so the comparison never
  succeeds. After a parse error the value is not set, and the return value is that of writing the message.
\<close>

definition parse_int :: "string \<Rightarrow> sock \<Rightarrow> sock \<times> int \<times> int option" where
  "parse_int inp sk =
     (let (v, end) = strtol inp in
      if end \<noteq> [] then
        let (sk, ret) = control_write_complete 1 (''unable to parse ->'' @ inp @ ''<-'' @ [CHR 0x0A]) sk in (sk, ret, None)
      else (sk, 0, Some (sint (word_of_int v :: u32))))"

section \<open>State\<close>

text \<open>
  The state of the control thread. \<open>p_fresh\<close> are the addresses that the allocation of entries is going to return (memory
  is exhausted at the end), \<open>p_urandom\<close> what the devices are going to read from /dev/urandom when they are opened, \<open>p_times\<close> what
  the memory of the variable \<^verbatim>\<open>times\<close> of \<open>control_cycle\<close> holds before it is set.
\<close>

record control_thread_priv =
  p_sv :: service
  p_c :: hashtbl
  p_mountpoint :: string
  p_version :: string
  p_fresh :: "nat list"
  p_urandom :: "random_t list"
  p_times :: int

type_synonym conn = "control_thread_priv \<times> sock"

datatype command = Static_info | Exit | Status | Set_readonly | Set_close_on_release | Check_available | Cycle | Verbose_juggler
  | Check_data_integrity | Open_internal | Info | Get_aux | Set_aux | Create_internal | Help_internal | Close | Resize_internal

definition answer :: "control_thread_priv \<Rightarrow> sock \<times> int \<Rightarrow> (conn \<times> int) res" where
  "answer p r = Inr ((p, fst r), snd r)"

definition not_found :: "string \<Rightarrow> string" where
  "not_found name = ''partition '' @ [CHR 0x22] @ name @ [CHR 0x22] @ '' not found''"

definition busy :: "string \<Rightarrow> string" where
  "busy name = ''partition '' @ [CHR 0x22] @ name @ [CHR 0x22] @ '' is busy''"

text \<open>The beginning that most handlers share: find the partition, or answer that there is none.\<close>

definition with_entry :: "string \<Rightarrow> (nat \<Rightarrow> conn \<Rightarrow> (conn \<times> int) res) \<Rightarrow> conn \<Rightarrow> (conn \<times> int) res" where
  "with_entry name f pc =
     rbind (find_entry name (p_sv (fst pc))) (\<lambda>(sv, r).
     case r of
       None \<Rightarrow> answer ((fst pc)\<lparr>p_sv := sv\<rparr>) (control_write_complete 1 (not_found name) (snd pc))
     | Some e \<Rightarrow> f e ((fst pc)\<lparr>p_sv := sv\<rparr>, snd pc))"

definition unlock_conn :: "nat \<Rightarrow> conn \<Rightarrow> conn res" where
  "unlock_conn e pc = rbind (unlock_entry e (p_sv (fst pc))) (\<lambda>sv. Inr ((fst pc)\<lparr>p_sv := sv\<rparr>, snd pc))"

definition upd_conn :: "nat \<Rightarrow> (fuse_io_entry \<Rightarrow> fuse_io_entry) \<Rightarrow> conn \<Rightarrow> conn" where
  "upd_conn e f pc = ((fst pc)\<lparr>p_sv := upd_entry e f (p_sv (fst pc))\<rparr>, snd pc)"

definition entry_of :: "nat \<Rightarrow> conn \<Rightarrow> fuse_io_entry" where
  "entry_of e pc = sv_e (p_sv (fst pc)) e"

text \<open>The usual end: the answer is written while the entry is still locked.\<close>

definition answer_unlock :: "nat \<Rightarrow> conn \<Rightarrow> (sock \<Rightarrow> sock \<times> int) \<Rightarrow> (conn \<times> int) res" where
  "answer_unlock e pc wr =
     (let (sk, ret) = wr (snd pc) in rbind (unlock_conn e (fst pc, sk)) (\<lambda>pc. Inr (pc, ret)))"

text \<open>The other end: unlock first, then answer.\<close>

definition unlock_answer :: "nat \<Rightarrow> conn \<Rightarrow> (sock \<Rightarrow> sock \<times> int) \<Rightarrow> (conn \<times> int) res" where
  "unlock_answer e pc wr = rbind (unlock_conn e pc) (\<lambda>pc. answer (fst pc) (wr (snd pc)))"

section \<open>Handlers\<close>

text \<open>
  After a parse error whose message was written the handler goes on with the value that the uninitialised variable
  happens to have, and answers a second time.
\<close>

definition control_cycle :: "gcrypt \<Rightarrow> string list \<Rightarrow> conn \<Rightarrow> (conn \<times> int) res" where
  "control_cycle g argv =
     with_entry (argv ! 0) (\<lambda>e pc.
     let (sk, bad, times) = parse_int (argv ! 1) (snd pc); pc = (fst pc, sk) in
     if bad \<noteq> 0 then rbind (unlock_conn e pc) (\<lambda>pc. Inr (pc, -1))
     else
       let n = (case times of None \<Rightarrow> p_times (fst pc) | Some n \<Rightarrow> n) in
       if n < 0 then answer_unlock e pc (control_write_complete 1 ''integer must be positive'')
       else
         rbind (if n = 0 then Inr (p_sv (fst pc))
                else rbind (entry_sdev e (p_sv (fst pc))) (\<lambda>s.
                     rbind (rfold (\<lambda>_. scubed3_cycle g) [0..<nat n] s) (\<lambda>s. Inr (put_sdev e s (p_sv (fst pc)))))) (\<lambda>sv.
         answer_unlock e ((fst pc)\<lparr>p_sv := sv\<rparr>, snd pc) (control_write_complete 0 ''see debug output'')))"

definition control_verbose_juggler :: "string list \<Rightarrow> conn \<Rightarrow> (conn \<times> int) res" where
  "control_verbose_juggler argv =
     with_entry (argv ! 0) (\<lambda>e pc. unlock_answer e pc (control_write_complete 0 ''see debug output''))"

definition control_check_data_integrity :: "string list \<Rightarrow> conn \<Rightarrow> (conn \<times> int) res" where
  "control_check_data_integrity argv pc = answer (fst pc) (control_write_complete 1 ''not implemented'' (snd pc))"

definition control_static_info :: "string list \<Rightarrow> conn \<Rightarrow> (conn \<times> int) res" where
  "control_static_info argv pc =
     (let p = fst pc in
      answer p (control_write_complete 0 (p_mountpoint p @ [CHR 0x0A] @
        show_d (of_nat (total_macroblocks (sv_b (p_sv p)))) @ [CHR 0x0A] @ p_version p) (snd pc)))"

definition control_exit :: "string list \<Rightarrow> conn \<Rightarrow> (conn \<times> int) res" where
  "control_exit argv pc = Inr ((fst pc, fst (control_write_silent_success (snd pc))), -1)"

text \<open>The table of commands: name, number of arguments, usage. Its position in the list is the address of a command.\<close>

definition control_commands :: "(string \<times> command \<times> nat \<times> string) list" where
  "control_commands =
     [(''static-info'', Static_info, 0, []), (''exit'', Exit, 0, []), (''p'', Status, 0, []),
      (''set-readonly'', Set_readonly, 2, '' NAME BOOL''),
      (''set-close-on-release'', Set_close_on_release, 2, '' NAME BOOL''),
      (''check-available'', Check_available, 1, '' NAME''), (''cycle'', Cycle, 2, '' NAME COUNT''),
      (''verbose-juggler'', Verbose_juggler, 1, '' NAME''), (''check-data-integrity'', Check_data_integrity, 1, '' NAME''),
      (''open-internal'', Open_internal, 3, '' NAME CIPHER_SPEC KEY''), (''info'', Info, 1, '' NAME''),
      (''get-aux'', Get_aux, 2, '' NAME KEY''), (''set-aux'', Set_aux, 3, '' NAME KEY VALUE''),
      (''create-internal'', Create_internal, 3, '' NAME CIPHER_SPEC KEY''), (''help-internal'', Help_internal, 0, []),
      (''close'', Close, 1, '' NAME''), (''resize-internal'', Resize_internal, 3, '' NAME BLOCKS RESERVED'')]"

definition control_help :: "string list \<Rightarrow> conn \<Rightarrow> (conn \<times> int) res" where
  "control_help argv pc =
     (let rep = (\<lambda>e sk. let (sk, ret) = control_write_line (fst (control_commands ! e) @ snd (snd (snd (control_commands ! e))) @ [CHR 0x0A]) sk
                        in (ret, sk));
          (sk, ret) = control_write_status 0 (snd pc) in
      if ret \<noteq> 0 then Inr ((fst pc, sk), -1)
      else
        rbind (hashtbl_ts_traverse rep sk (p_c (fst pc))) (\<lambda>(c, sk, ret).
        let p = (fst pc)\<lparr>p_c := c\<rparr> in
        if ret \<noteq> 0 then Inr ((p, sk), -1) else answer p (control_write_terminate sk)))"

text \<open>
  One line of the status report; the number of unclaimed blocks is a 32 bit variable. Between two commands every entry of
  the table has an initialised device.
\<close>

definition status_line :: "service \<Rightarrow> nat \<Rightarrow> string" where
  "status_line sv e =
     (case e_dev (sv_e sv e) of
        None \<Rightarrow> []
      | Some d \<Rightarrow>
          let x = sv_e sv e; b = sv_b sv;
              sz = unat ((no_macroblocks d - reserved_macroblocks d) * of_nat (mmpm b)) in
          show_07u (no_macroblocks d) @ '' blocks in '' @ text_of (he_key (elts (sv_h sv) e)) @ '' ('' @
          show_mib (if no_macroblocks d \<ge> reserved_macroblocks d then sz * 2 ^ mesoblk_log b else 0) @ ''MiB)'' @
          (if inuse x \<noteq> 0 then '' [U]'' else []) @ (if close_on_release x then '' [C]'' else []) @
          (if readonly x then '' [R]'' else []) @
          (case e_mountpoint x of None \<Rightarrow> [] | Some m \<Rightarrow> '' [MNT '' @ m @ '']'') @ [CHR 0x0A])"

definition entry_blocks :: "service \<Rightarrow> nat \<Rightarrow> u32" where
  "entry_blocks sv e = (case e_dev (sv_e sv e) of None \<Rightarrow> 0 | Some d \<Rightarrow> no_macroblocks d)"

definition control_status :: "string list \<Rightarrow> conn \<Rightarrow> (conn \<times> int) res" where
  "control_status argv pc =
     (let sv = p_sv (fst pc);
          rep = (\<lambda>e (sk, n). let (sk, ret) = control_write_line (status_line sv e) sk in (ret, (sk, n - entry_blocks sv e)));
          (sk, ret) = control_write_status 0 (snd pc) in
      if ret \<noteq> 0 then Inr ((fst pc, sk), -1)
      else
        rbind (hashtbl_ts_traverse rep (sk, of_nat (total_macroblocks (sv_b sv))) (sv_h sv)) (\<lambda>(h, (sk, n), ret).
        let p = (fst pc)\<lparr>p_sv := sv\<lparr>sv_h := h\<rparr>\<rparr> in
        if ret \<noteq> 0 then Inr ((p, sk), -1)
        else
          answer p (and_then (control_write_line (show_07u n @ '' blocks unclaimed'' @ [CHR 0x0A]) sk) (\<lambda>sk.
            and_then (control_write_line (show_07u (of_nat (total_macroblocks (sv_b sv))) @ '' blocks total'' @ [CHR 0x0A]) sk)
              control_write_terminate))))"

definition check_name :: "string \<Rightarrow> int" where
  "check_name name =
     (if list_all (\<lambda>c. c \<in> set ''abcdefghijklmnopqrstuvwxyzABCDEFGHIJKLMNOPQRSTUVWXYZ0123456789_'') name then 0 else -1)"

definition illegal_name :: string where
  "illegal_name = ''illegal name specified for partition, it may only contain letters, digits and the underscore''"

section \<open>Opening a device\<close>

text \<open>The size of the file, computed in 32 bit arithmetic and then stored in 64 bits.\<close>

definition file_size :: "blockio \<Rightarrow> blockio_dev \<Rightarrow> u64" where
  "file_size b d = ucast (push_bit (mesoblk_log b) (no_macroblocks d - reserved_macroblocks d) * of_nat (mmpm b) :: u32)"

text \<open>
  The body of the exception block. The result carries the message of the exception, if one was thrown, together with the
  state at that point; exceptions that are thrown inside of the functions called leave the state of the service as it was.
\<close>

definition catching :: "service \<Rightarrow> 'a res \<Rightarrow> ('a \<Rightarrow> (service \<times> string option) res) \<Rightarrow> (service \<times> string option) res" where
  "catching sv m f = (case m of Inl (Ecch msg) \<Rightarrow> Inr (sv, Some msg) | Inl er \<Rightarrow> Inl er | Inr x \<Rightarrow> f x)"

definition open_device :: "gcrypt \<Rightarrow> nat \<Rightarrow> cipher \<Rightarrow> bool \<Rightarrow> random_t option \<Rightarrow> service \<Rightarrow> (service \<times> string option) res" where
  "open_device g e c add urandom sv =
     catching sv (blockio_dev_init g (sv_b sv) e c urandom) (\<lambda>(b, d).
     let sv = (upd_entry e (\<lambda>x. x\<lparr>e_dev := Some d\<rparr>) sv)\<lparr>sv_b := b\<rparr> in
     if add \<and> no_macroblocks d \<noteq> 0 then Inr (sv, Some ''unable to create device: it already exists, use `open' instead'')
     else if \<not> add \<and> no_macroblocks d = 0 then Inr (sv, Some ''no blocks found: passphrase wrong?'')
     else
       let size = (if no_macroblocks d > reserved_macroblocks d then file_size b d else 0);
           sv = upd_entry e (\<lambda>x. x\<lparr>e_size := size\<rparr>) sv in
       rbind (scubed3_init g (sv_errorcheck sv) (b, d)) (\<lambda>(s, _).
       asserting (d_bi (sd_dev s) = None) ''control_open_create_common: !entry->d.bi'' (
       rbind (if size > 0 then lift_b blockio_dev_select_next_macroblock s else Inr s) (\<lambda>s.
         Inr (put_sdev e s sv, None)))))"

definition open_try :: "gcrypt \<Rightarrow> nat \<Rightarrow> string list \<Rightarrow> bool \<Rightarrow> random_t option \<Rightarrow> service \<Rightarrow> (service \<times> string option) res" where
  "open_try g e argv add urandom sv =
     (let key = ascii (argv ! 2); n = length key; meso = mesoblk_log (sv_b sv) in
      if odd n then Inr (sv, Some ''cipher key not valid base16 (uneven number of chars)'')
      else
        rbind (unbase16 key n) (\<lambda>(key, bad).
        if bad \<noteq> 0 then Inr (sv, Some ''cipher key not valid base16 (invalid chars)'')
        else
          catching sv (cipher_init g (argv ! 1) (2 ^ (meso - 4)) (take (n div 2) key)) (\<lambda>(c, _).
          let unique_id = g_sha256 g (cipher_enc g c (replicate (2 ^ meso) 0) 0 0 0 0 0);
              ids = (sv_ids sv)\<lparr>elts := (elts (sv_ids sv))(e := \<lparr>he_next = None, he_key = unique_id\<rparr>)\<rparr> in
          rbind (hashtbl_add_element e ids) (\<lambda>(ids, r).
          case r of
            None \<Rightarrow> Inr (sv\<lparr>sv_ids := ids\<rparr>, Some ''cipher(mode)/key combination already in use'')
          | Some x \<Rightarrow>
              rbind (hashtbl_unlock_element_byptr x ids) (\<lambda>ids.
              open_device g e c add urandom (upd_entry e (\<lambda>x. x\<lparr>e_ids := True\<rparr>) (sv\<lparr>sv_ids := ids\<rparr>)))))))"

definition control_open_create_common :: "gcrypt \<Rightarrow> string list \<Rightarrow> bool \<Rightarrow> conn \<Rightarrow> (conn \<times> int) res" where
  "control_open_create_common g argv add pc =
     (let (p, sk) = pc; name = argv ! 0 in
      if check_name name \<noteq> 0 then answer p (control_write_complete 1 illegal_name sk)
      else
        case p_fresh p of
          [] \<Rightarrow> Inl (Fatal ''allocating'')
        | e # fresh \<Rightarrow>
            rbind (hashtbl_allocate_and_add_element e (ascii name) (sv_h (p_sv p))) (\<lambda>(h, r).
            let sv = (p_sv p)\<lparr>sv_h := h, sv_e := (sv_e (p_sv p))(e := zero_entry)\<rparr>;
                p = p\<lparr>p_sv := sv, p_fresh := fresh\<rparr> in
            case r of
              None \<Rightarrow> answer p (control_write_complete 1 (''unable to '' @ (if add then ''create'' else ''open'') @
                '' partition '' @ [CHR 0x22] @ name @ [CHR 0x22] @ '', duplicate name?'') sk)
            | Some _ \<Rightarrow>
                rbind (open_try g e argv add (case p_urandom p of [] \<Rightarrow> None | r # _ \<Rightarrow> Some r) sv) (\<lambda>(sv, thrown).
                let (sk, ret) = (case thrown of None \<Rightarrow> control_write_silent_success sk | Some msg \<Rightarrow> control_write_complete 1 msg sk);
                    sv = (if thrown = None then sv else upd_entry e (\<lambda>x. x\<lparr>to_be_deleted := True\<rparr>) sv) in
                rbind (unlock_entry e sv) (\<lambda>sv.
                rbind (if to_be_deleted (sv_e sv e) then delete_entry g e sv else Inr sv) (\<lambda>sv.
                  Inr ((p\<lparr>p_sv := sv, p_urandom := tl (p_urandom p)\<rparr>, sk), ret))))))"

definition control_open :: "gcrypt \<Rightarrow> string list \<Rightarrow> conn \<Rightarrow> (conn \<times> int) res" where
  "control_open g argv = control_open_create_common g argv False"

definition control_create :: "gcrypt \<Rightarrow> string list \<Rightarrow> conn \<Rightarrow> (conn \<times> int) res" where
  "control_create g argv = control_open_create_common g argv True"

section \<open>Flags and reports\<close>

definition control_check_available :: "string list \<Rightarrow> conn \<Rightarrow> (conn \<times> int) res" where
  "control_check_available argv pc =
     (let (p, sk) = pc; name = argv ! 0 in
      if check_name name \<noteq> 0 then answer p (control_write_complete 1 illegal_name sk)
      else
        rbind (find_entry name (p_sv p)) (\<lambda>(sv, r).
        case r of
          None \<Rightarrow> answer (p\<lparr>p_sv := sv\<rparr>) (control_write_silent_success sk)
        | Some e \<Rightarrow> unlock_answer e (p\<lparr>p_sv := sv\<rparr>, sk)
            (control_write_complete 1 (''partition '' @ [CHR 0x22] @ name @ [CHR 0x22] @ '' is in use''))))"

definition control_set_aux :: "string list \<Rightarrow> conn \<Rightarrow> (conn \<times> int) res" where
  "control_set_aux argv =
     with_entry (argv ! 0) (\<lambda>e pc.
     if argv ! 1 = ''mountpoint''
     then answer_unlock e (upd_conn e (\<lambda>x. x\<lparr>e_mountpoint := Some (argv ! 2)\<rparr>) pc) control_write_silent_success
     else answer_unlock e pc (control_write_complete 1 (''key '' @ [CHR 0x22] @ argv ! 1 @ [CHR 0x22] @ '' is impossible'')))"

definition control_get_aux :: "string list \<Rightarrow> conn \<Rightarrow> (conn \<times> int) res" where
  "control_get_aux argv =
     with_entry (argv ! 0) (\<lambda>e pc.
     answer_unlock e pc
       (case (argv ! 1 = ''mountpoint'', e_mountpoint (entry_of e pc)) of
          (True, Some m) \<Rightarrow> control_write_complete 0 m
        | _ \<Rightarrow> control_write_complete 1 (''key '' @ [CHR 0x22] @ argv ! 1 @ [CHR 0x22] @ '' not found'')))"

definition lower :: "char \<Rightarrow> char" where
  "lower c = (if 65 \<le> (of_char c :: nat) \<and> (of_char c :: nat) \<le> 90 then char_of (of_char c + 32 :: nat) else c)"

text \<open>The two spellings of either truth value; \<^verbatim>\<open>strcasecmp\<close> ignores the case of letters.\<close>

definition parse_bool :: "string \<Rightarrow> bool option" where
  "parse_bool v =
     (if v = ''0'' \<or> map lower v = ''false'' then Some False
      else if v = ''1'' \<or> map lower v = ''true'' then Some True else None)"

definition control_set_readonly :: "string list \<Rightarrow> conn \<Rightarrow> (conn \<times> int) res" where
  "control_set_readonly argv =
     with_entry (argv ! 0) (\<lambda>e pc.
     if inuse (entry_of e pc) \<noteq> 0 then answer_unlock e pc (control_write_complete 1 (busy (argv ! 0)))
     else
       case parse_bool (argv ! 1) of
         Some v \<Rightarrow> answer_unlock e (upd_conn e (\<lambda>x. x\<lparr>readonly := v\<rparr>) pc) control_write_silent_success
       | None \<Rightarrow> answer_unlock e pc (control_write_complete 1 ''illegal_argument; expected boolean''))"

definition control_set_close_on_release :: "string list \<Rightarrow> conn \<Rightarrow> (conn \<times> int) res" where
  "control_set_close_on_release argv =
     with_entry (argv ! 0) (\<lambda>e pc.
     case parse_bool (argv ! 1) of
       Some v \<Rightarrow> unlock_answer e (upd_conn e (\<lambda>x. x\<lparr>close_on_release := v\<rparr>) pc) control_write_silent_success
     | None \<Rightarrow> unlock_answer e pc (control_write_complete 1 ''illegal argument; expected boolean''))"

definition info_lines :: "conn \<Rightarrow> blockio_dev \<Rightarrow> string list" where
  "info_lines pc d =
     [''no_macroblocks='' @ show_d (no_macroblocks d) @ [CHR 0x0A], ''reserved_macroblocks='' @ show_d (reserved_macroblocks d) @ [CHR 0x0A],
      ''writes='' @ show_d (writes d) @ [CHR 0x0A]] @
     (case d_bi d of
        None \<Rightarrow> []
      | Some i \<Rightarrow> [''no_indices='' @ show_d (no_indices (infos (sv_b (p_sv (fst pc))) i)) @ [CHR 0x0A]]) @
     [''updated='' @ show_d (if updated d then 1 else 0) @ [CHR 0x0A]]"

definition control_info :: "string list \<Rightarrow> conn \<Rightarrow> (conn \<times> int) res" where
  "control_info argv =
     with_entry (argv ! 0) (\<lambda>e pc.
     case e_dev (entry_of e pc) of
       None \<Rightarrow> Inl (Assert ''NULL dereference: dev->b'')
     | Some d \<Rightarrow>
         answer_unlock e pc (\<lambda>sk.
           and_then (fold (\<lambda>line r. and_then r (control_write_line line)) (info_lines pc d) (control_write_status 0 sk))
             control_write_terminate))"

section \<open>Closing and resizing\<close>

definition control_close :: "gcrypt \<Rightarrow> string list \<Rightarrow> conn \<Rightarrow> (conn \<times> int) res" where
  "control_close g argv =
     with_entry (argv ! 0) (\<lambda>e pc.
     if inuse (entry_of e pc) \<noteq> 0 then unlock_answer e pc (control_write_complete 1 (busy (argv ! 0)))
     else
       rbind (unlock_conn e (upd_conn e (\<lambda>x. x\<lparr>to_be_deleted := True\<rparr>) pc)) (\<lambda>pc.
       rbind (delete_entry g e (p_sv (fst pc))) (\<lambda>sv.
         answer ((fst pc)\<lparr>p_sv := sv\<rparr>) (control_write_silent_success (snd pc)))))"

text \<open>The part that works on the device: \<open>None\<close> when there are not enough unclaimed blocks.\<close>

definition resize_device :: "nat \<Rightarrow> u32 \<Rightarrow> u32 \<Rightarrow> service \<Rightarrow> service option res" where
  "resize_device e extra reserved sv =
     rbind (entry_sdev e sv) (\<lambda>s.
     rbind (blockio_dev_allocate_macroblocks (sd_b s, sd_dev s) extra) (\<lambda>r.
     case r of
       None \<Rightarrow> Inr None
     | Some (b, d) \<Rightarrow>
         let d = d\<lparr>reserved_macroblocks := reserved\<rparr>;
             sv = (if no_macroblocks d > reserved_macroblocks d then upd_entry e (\<lambda>x. x\<lparr>e_size := file_size b d\<rparr>) sv else sv) in
         rbind (scubed3_reinit (s\<lparr>sd_b := b, sd_dev := d\<rparr>)) (\<lambda>s.
         rbind (if d_bi (sd_dev s) = None then lift_b blockio_dev_select_next_macroblock s else Inr s) (\<lambda>s.
           Inr (Some (put_sdev e (s\<lparr>sd_dev := (sd_dev s)\<lparr>updated := True\<rparr>\<rparr>) sv))))))"

text \<open>
  Both numbers are \<^verbatim>\<open>int\<close> variables that start as zero and keep that value after a parse error whose message was
  written; if the message could not be written the handler returns with the entry still locked.
\<close>

definition control_resize :: "string list \<Rightarrow> conn \<Rightarrow> (conn \<times> int) res" where
  "control_resize argv =
     with_entry (argv ! 0) (\<lambda>e pc.
     if inuse (entry_of e pc) \<noteq> 0 then unlock_answer e pc (control_write_complete 1 (busy (argv ! 0)))
     else
       let (sk, bad, v) = parse_int (argv ! 1) (snd pc); pc = (fst pc, sk); size = (case v of None \<Rightarrow> 0 | Some n \<Rightarrow> n) in
       if bad \<noteq> 0 then Inr (pc, -1)
       else
         let (sk, bad, v) = parse_int (argv ! 2) (snd pc); pc = (fst pc, sk); reserved = (case v of None \<Rightarrow> 0 | Some n \<Rightarrow> n) in
         if bad \<noteq> 0 then Inr (pc, -1)
         else if \<not> reserved \<le> size \<or> \<not> size \<ge> 0 then
           unlock_answer e pc (control_write_complete 1 (''values for new_size='' @ show_int size @ '' and reserved='' @
             show_int reserved @ '' make no sense''))
         else
           case e_dev (entry_of e pc) of
             None \<Rightarrow> Inl (Assert ''NULL dereference: dev->b'')
           | Some d \<Rightarrow>
               let have_blocks = uint (no_macroblocks d); total = int (total_macroblocks (sv_b (p_sv (fst pc)))) in
               if size < have_blocks then unlock_answer e pc (control_write_complete 1 ''shrinking device is not yet supported'')
               else if size > total then
                 unlock_answer e pc (control_write_complete 1 (''not enough blocks available, base device has only '' @
                   show_int total @ '' blocks''))
               else if size = have_blocks then unlock_answer e pc (control_write_complete 1 ''nothing to do'')
               else
                 rbind (resize_device e (word_of_int (size - have_blocks)) (word_of_int reserved) (p_sv (fst pc))) (\<lambda>r.
                 case r of
                   None \<Rightarrow> answer_unlock e pc (control_write_complete 1 ''not enough unclaimed blocks available for resize'')
                 | Some sv \<Rightarrow> answer_unlock e ((fst pc)\<lparr>p_sv := sv\<rparr>, snd pc) control_write_silent_success))"

section \<open>Commands\<close>

definition run_command :: "gcrypt \<Rightarrow> command \<Rightarrow> string list \<Rightarrow> conn \<Rightarrow> (conn \<times> int) res" where
  "run_command g c argv =
     (case c of
        Static_info \<Rightarrow> control_static_info argv | Exit \<Rightarrow> control_exit argv | Status \<Rightarrow> control_status argv
      | Set_readonly \<Rightarrow> control_set_readonly argv | Set_close_on_release \<Rightarrow> control_set_close_on_release argv
      | Check_available \<Rightarrow> control_check_available argv | Cycle \<Rightarrow> control_cycle g argv
      | Verbose_juggler \<Rightarrow> control_verbose_juggler argv | Check_data_integrity \<Rightarrow> control_check_data_integrity argv
      | Open_internal \<Rightarrow> control_open g argv | Info \<Rightarrow> control_info argv | Get_aux \<Rightarrow> control_get_aux argv
      | Set_aux \<Rightarrow> control_set_aux argv | Create_internal \<Rightarrow> control_create g argv | Help_internal \<Rightarrow> control_help argv
      | Close \<Rightarrow> control_close g argv | Resize_internal \<Rightarrow> control_resize argv)"

definition MAX_ARGC :: nat where "MAX_ARGC = 10"

definition skip_spaces :: "string \<Rightarrow> string" where
  "skip_spaces = dropWhile (\<lambda>c. c = CHR '' '')"

definition word_of :: "string \<Rightarrow> string" where
  "word_of = takeWhile (\<lambda>c. c \<noteq> CHR '' '')"

definition after_word :: "string \<Rightarrow> string" where
  "after_word s = skip_spaces (dropWhile (\<lambda>c. c \<noteq> CHR '' '') s)"

lemma length_after_word:
  assumes "after_word (skip_spaces s) \<noteq> []"
  shows "length (after_word (skip_spaces s)) < length s"
proof -
  let ?t = "skip_spaces s" and ?u = "dropWhile (\<lambda>c. c \<noteq> CHR '' '') (skip_spaces s)"
  have nil: "after_word [] = []" by (simp add: after_word_def skip_spaces_def)
  have t: "?t \<noteq> []" using assms by (intro notI) (simp only: nil)
  then have "hd ?t \<noteq> CHR '' ''" unfolding skip_spaces_def by (rule hd_dropWhile)
  then have "length ?u < length ?t" using t length_dropWhile_le [of "\<lambda>c. c \<noteq> CHR '' ''" "tl ?t"] by (cases ?t) (simp_all add: less_Suc_eq_le)
  moreover have "length (after_word ?t) \<le> length ?u" unfolding after_word_def by (subst skip_spaces_def) (rule length_dropWhile_le)
  moreover have "length ?t \<le> length s" unfolding skip_spaces_def by (rule length_dropWhile_le)
  ultimately show ?thesis by linarith
qed

text \<open>The loop that cuts the line into words; \<open>None\<close> when there are too many.\<close>

function split_line :: "nat \<Rightarrow> string \<Rightarrow> string list option" where
  "split_line argc line =
     (let s = skip_spaces line; argc = argc + 1 in
      if argc > MAX_ARGC then None
      else if after_word s \<noteq> [] then map_option ((#) (word_of s)) (split_line argc (after_word s))
      else Some [word_of s])"
  by pat_completeness auto
termination
  by (relation "measure (\<lambda>(argc, line). length line)") (auto simp: length_after_word)

declare split_line.simps [simp del]

definition control_call :: "gcrypt \<Rightarrow> string \<Rightarrow> conn \<Rightarrow> (conn \<times> int) res" where
  "control_call g line pc =
     (let (p, sk) = pc in
      case split_line 0 line of
        None \<Rightarrow> answer p (control_write_complete 1 ''too many arguments'' sk)
      | Some argv \<Rightarrow>
          if argv = [[]] then answer p (control_write_silent_success sk)
          else
            rbind (hashtbl_find_element_bykey (ascii (argv ! 0)) (p_c p)) (\<lambda>(c, r).
            let p = p\<lparr>p_c := c\<rparr> in
            case r of
              None \<Rightarrow> answer p (control_write_complete 1 (''unknown command '' @ [CHR 0x22] @ argv ! 0 @ [CHR 0x22]) sk)
            | Some i \<Rightarrow>
                let (name, cmd, argc, usage) = control_commands ! i in
                if length argv - 1 \<noteq> argc then answer p (control_write_complete 1 (''usage: '' @ argv ! 0 @ usage) sk)
                else run_command g cmd (tl argv) (p, sk)))"

section \<open>The thread\<close>

text \<open>The table of commands: it is not shared, so it is not thread safe.\<close>

definition load_commands :: "hashtbl res" where
  "load_commands = load_table (map fst control_commands)"

definition BUF_SIZE :: nat where "BUF_SIZE = 8192"

definition c_string :: "string \<Rightarrow> string" where
  "c_string = takeWhile (\<lambda>c. c \<noteq> CHR 0x00)"

text \<open>
  The loop over the new part of the buffer. Every newline ends a command that begins at \<open>start\<close>. The command
  is then wiped: \<^verbatim>\<open>wipememory(buf + start, i)\<close> clears \<open>i\<close> bytes, not \<open>i - start\<close>, which may be more than
  what is left of the buffer. \<open>dn\<close> tells whether a handler asked to close the connection.
\<close>

fun scan_buffer :: "gcrypt \<Rightarrow> nat list \<Rightarrow> nat \<Rightarrow> string \<Rightarrow> conn \<Rightarrow> (conn \<times> string \<times> nat \<times> bool) res" where
  "scan_buffer g [] start buf pc = Inr (pc, buf, start, False)"
| "scan_buffer g (i # is) start buf pc =
     (if buf ! i = CHR 0x0A then
        let buf = buf[i := CHR 0x00] in
        rbind (control_call g (c_string (drop start buf)) pc) (\<lambda>(pc, ret).
        asserting (start + i \<le> BUF_SIZE) ''wipememory: past the end of buf'' (
        let buf = blit start (replicate i CHR 0x00) buf in
        if ret \<noteq> 0 then Inr (pc, buf, start, True) else scan_buffer g is (i + 1) buf pc))
      else scan_buffer g is start buf pc)"

text \<open>One round of receiving: the new bytes \<open>got\<close> are behind the \<open>buf_len\<close> old ones; the rest of the last line moves to the front.\<close>

definition receive :: "gcrypt \<Rightarrow> string \<Rightarrow> string \<times> nat \<Rightarrow> conn \<Rightarrow> (conn \<times> (string \<times> nat) \<times> bool) res" where
  "receive g got bl pc =
     (let (buf, buf_len) = bl; n = length got; buf = blit buf_len got buf in
      rbind (scan_buffer g [buf_len..<buf_len + n] 0 buf pc) (\<lambda>(pc, buf, start, dn).
      let buf_len = buf_len + n - start; buf = blit 0 (bslice start buf_len buf) buf in
      Inr (pc, (buf, buf_len), dn \<or> buf_len = BUF_SIZE)))"

text \<open>A connection: the peer sends pieces, at most as long as there is room, until it stops or the connection is closed.\<close>

fun serve :: "gcrypt \<Rightarrow> string list \<Rightarrow> string \<times> nat \<Rightarrow> conn \<Rightarrow> conn res" where
  "serve g [] bl pc = Inr pc"
| "serve g (got # gots) bl pc =
     (if got = [] then Inr pc
      else rbind (receive g (take (BUF_SIZE - snd bl) got) bl pc) (\<lambda>(pc, bl, dn). if dn then Inr pc else serve g gots bl pc))"

section \<open>Words of a line\<close>

text \<open>The reference: cut at every space, and forget the empty pieces.\<close>

fun pieces_of :: "string \<Rightarrow> string list" where
  "pieces_of [] = [[]]"
| "pieces_of (c # cs) = (if c = CHR '' '' then [] # pieces_of cs else (case pieces_of cs of [] \<Rightarrow> [[c]] | w # ws \<Rightarrow> (c # w) # ws))"

definition line_words :: "string \<Rightarrow> string list" where
  "line_words s = filter (\<lambda>w. w \<noteq> []) (pieces_of s)"

lemma pieces_word:
  "pieces_of s = word_of s # (case dropWhile (\<lambda>c. c \<noteq> CHR '' '') s of [] \<Rightarrow> [] | c # cs \<Rightarrow> pieces_of cs)"
  by (induction s) (auto simp: word_of_def)

lemma words_skip: "line_words (skip_spaces s) = line_words s"
  by (induction s) (auto simp: skip_spaces_def line_words_def)

lemma words_space [simp]: "line_words (CHR '' '' # cs) = line_words cs" "line_words [] = []"
  by (simp_all add: line_words_def)

lemma words_rest:
  "line_words (dropWhile (\<lambda>c. c \<noteq> CHR '' '') s) = (case dropWhile (\<lambda>c. c \<noteq> CHR '' '') s of [] \<Rightarrow> [] | c # cs \<Rightarrow> line_words cs)"
proof (cases "dropWhile (\<lambda>c. c \<noteq> CHR '' '') s")
  case (Cons c cs)
  then have "c = CHR '' ''" using hd_dropWhile [of "\<lambda>c. c \<noteq> CHR '' ''" s] by simp
  then show ?thesis unfolding Cons by simp
next
  case Nil
  show ?thesis unfolding Nil by simp
qed

lemma words_first:
  assumes "s \<noteq> []" "hd s \<noteq> CHR '' ''"
  shows "line_words s = word_of s # line_words (after_word s)"
proof -
  have "word_of s \<noteq> []" using assms by (cases s) (auto simp: word_of_def)
  then have "line_words s = word_of s # (case dropWhile (\<lambda>c. c \<noteq> CHR '' '') s of [] \<Rightarrow> [] | c # cs \<Rightarrow> line_words cs)"
    unfolding line_words_def by (subst pieces_word) (simp del: dropWhile_eq_Nil_conv split: list.split)
  then show ?thesis unfolding after_word_def words_skip words_rest .
qed

lemma skip_spaces_hd: "skip_spaces s \<noteq> [] \<Longrightarrow> hd (skip_spaces s) \<noteq> CHR '' ''"
  unfolding skip_spaces_def by (rule hd_dropWhile)

lemma after_word_words: "line_words (after_word s) = [] \<longleftrightarrow> after_word s = []"
proof (cases "after_word s = []")
  case False
  then have "hd (after_word s) \<noteq> CHR '' ''" using skip_spaces_hd [of "dropWhile (\<lambda>c. c \<noteq> CHR '' '') s"] by (simp add: after_word_def)
  with words_first [OF False] False show ?thesis by simp
qed simp

lemma split_line_words:
  "split_line argc line =
     (if argc + max 1 (length (line_words line)) \<le> MAX_ARGC then Some (if line_words line = [] then [[]] else line_words line) else None)"
proof (induction argc line rule: split_line.induct)
  case (1 argc line)
  let ?s = "skip_spaces line"
  show ?case
  proof (cases "?s = []")
    case True
    have "line_words line = []" using words_skip [of line] unfolding True by simp
    moreover have "after_word ?s = []" "word_of ?s = []" unfolding True by (simp_all add: after_word_def skip_spaces_def word_of_def)
    ultimately show ?thesis by (subst split_line.simps) (simp add: Let_def)
  next
    case False
    then have w: "line_words line = word_of ?s # line_words (after_word ?s)"
      using words_first [OF False skip_spaces_hd [OF False]] words_skip by simp
    show ?thesis
    proof (cases "argc + 1 \<le> MAX_ARGC \<and> after_word ?s \<noteq> []")
      case True
      then have IH: "split_line (argc + 1) (after_word ?s) =
          (if argc + 1 + length (line_words (after_word ?s)) \<le> MAX_ARGC then Some (line_words (after_word ?s)) else None)"
        using "1.IH" [OF refl refl] after_word_words [of ?s] by (cases "line_words (after_word ?s)") auto
      show ?thesis using True w by (subst split_line.simps) (simp add: Let_def IH [simplified])
    next
      case False
      then show ?thesis
        using w after_word_words [of ?s] by (subst split_line.simps) (auto simp: Let_def)
    qed
  qed
qed

section \<open>The table of commands\<close>

interpretation ct: name_table "map fst control_commands"
  by unfold_locales (simp_all add: control_commands_def less_Suc_eq numeral_eq_Suc, auto)

lemma words_in_line: "w \<in> set (line_words s) \<Longrightarrow> set w \<subseteq> set s"
proof -
  have "w \<in> set (pieces_of s) \<Longrightarrow> set w \<subseteq> set s" for w
    by (induction s arbitrary: w) (fastforce split: if_splits list.splits)+
  then show "w \<in> set (line_words s) \<Longrightarrow> set w \<subseteq> set s" by (simp add: line_words_def)
qed

lemma control_call_words:
  assumes hc: "load_commands = Inr (p_c p)" and nul: "CHR 0x00 \<notin> set line"
    and w: "line_words line = name # args" "length args < MAX_ARGC"
  shows "control_call g line (p, sk) =
    (case map_of control_commands name of
       None \<Rightarrow> answer p (control_write_complete 1 (''unknown command '' @ [CHR 0x22] @ name @ [CHR 0x22]) sk)
     | Some (cmd, argc, usage) \<Rightarrow>
         if length args = argc then run_command g cmd args (p, sk)
         else answer p (control_write_complete 1 (''usage: '' @ name @ usage) sk))"
proof -
  have sp: "split_line 0 line = Some (name # args)" using w by (simp add: split_line_words)
  have "name \<in> set (line_words line)" using w(1) by simp
  then have n: "name \<noteq> []" "CHR 0x00 \<notin> set name" using words_in_line nul by (auto simp: line_words_def)
  have p: "p\<lparr>p_c := p_c p\<rparr> = p" by simp
  have "hashtbl_find_element_bykey (ascii name) (p_c p) = Inr (p_c p, position (map fst control_commands) name)"
    using ct.table_lookup [OF ct.table_holds n(2)] hc by (simp add: load_commands_def)
  then show ?thesis
    unfolding position_map_of [OF ct.names_differ] using sp n
    by (auto simp: control_call_def p split: option.splits prod.splits)
qed

section \<open>Opening with a bad key\<close>

lemma add_then_delete:
  assumes rp: "reg_ok h" and e: "\<not> reg_member h e" and nb: "\<forall>x. \<not> reg_bound h key x" and fr: "has_freer h"
  shows "\<exists>h1 h2 h3. hashtbl_allocate_and_add_element e key h = Inr (h1, Some e) \<and> hashtbl_unlock_element_byptr e h1 = Inr h2 \<and>
    hashtbl_delete_element_byptr e h2 = Inr h3 \<and> freed h3 = freed h2 @ [e] \<and> reg_ok h3"
proof -
  define h0 where "h0 = h\<lparr>elts := (elts h)(e := \<lparr>he_next = None, he_key = key\<rparr>)\<rparr>"
  obtain bs where bs: "table_rep h bs" using rp by (auto simp: reg_ok_def)
  have ne: "e \<notin> members h bs" using e reg_member_iff [OF bs] by simp
  note rp' = elts_update_rep [OF bs ne, of "\<lparr>he_next = None, he_key = key\<rparr>", folded h0_def]
  have m: "members h0 bs = members h bs" by (simp add: h0_def members_def NO_BUCKETS_def)
  have ok: "quiet h0" "unique h0" "thread_safe h0" "has_freer h0" using rp fr by (simp_all add: h0_def reg_ok_def quiet_def)
  have "\<not> same_key h0 (he_key (elts h0 e)) (he_key (elts h0 x))" if "x \<in> members h0 bs" for x
  proof -
    have "x \<noteq> e" "reg_member h x" using that ne m reg_member_iff [OF bs] by auto
    moreover have "\<not> same_key h key (he_key (elts h x))" using nb calculation(2) unfolding reg_bound_def by blast
    ultimately show ?thesis by (simp add: h0_def same_key_def split: if_splits)
  qed
  then obtain b where b: "hashtbl_add_element e h0 = Inr (holding {Elt_data e} (added e b h0), Some e)"
    "table_rep (added e b h0) (bs(b := e # bs b))" "members (added e b h0) (bs(b := e # bs b)) = insert e (members h0 bs)"
    using add_element [OF rp' ok(1,2), of e] ne m by auto
  let ?h2 = "holding {} (added e b h0)"
  have u: "hashtbl_unlock_element_byptr e (holding {Elt_data e} (added e b h0)) = Inr ?h2" by (rule release_only)
  have r2: "table_rep ?h2 (bs(b := e # bs b))" "quiet ?h2" "e \<in> members ?h2 (bs(b := e # bs b))"
    using b(2,3) by (simp_all add: quiet_def)
  obtain l bs' where d: "hashtbl_delete_element_byptr e ?h2 = Inr (holding {} (removed e l ?h2))" "table_rep (removed e l ?h2) bs'"
    "unique (removed e l ?h2) = unique ?h2" "thread_safe (removed e l ?h2) = thread_safe ?h2"
    using delete_byptr_removed [OF r2] by metis
  have "reg_ok (holding {} (removed e l ?h2))"
    unfolding reg_ok_def using d(2-4) ok(2,3) by (auto simp: quiet_def)
  moreover have "freed (holding {} (removed e l ?h2)) = freed ?h2 @ [e]" using ok(4) by simp
  ultimately show ?thesis using b(1) u d(1) by (auto simp: hashtbl_allocate_and_add_element_def simp flip: h0_def)
qed

text \<open>A key that is not hexadecimal, or a cipher name that has not the form of one.\<close>

definition bad_request :: "string \<Rightarrow> string \<Rightarrow> bool" where
  "bad_request spec key \<longleftrightarrow> odd (length key) \<or> (\<exists>c\<in>set (ascii key). nibble c = None) \<or> (\<exists>m. parse_cipher_name spec = Inl (Ecch m))"

lemma open_try_bad:
  assumes "bad_request spec key"
  shows "\<exists>msg. open_try g e [name, spec, key] add urandom sv = Inr (sv, Some msg)"
proof (cases "odd (length key)")
  case True
  then show ?thesis by (simp add: open_try_def Let_def)
next
  case False
  obtain buf where buf: "unbase16 (ascii key) (length key) = Inr (buf, if decode (ascii key) = None then -1 else 0)"
    using unbase16_decode [of "ascii key" "[]"] False by auto
  show ?thesis
  proof (cases "decode (ascii key) = None")
    case True
    then show ?thesis using False buf by (simp add: open_try_def Let_def)
  next
    case nt: False
    then have "\<forall>c\<in>set (ascii key). nibble c \<noteq> None" using decode_digits [of "ascii key"] False by simp
    then obtain m where "parse_cipher_name spec = Inl (Ecch m)" using assms False by (auto simp: bad_request_def)
    then have "cipher_init g spec (2 ^ k) x = Inl (Ecch m)" for k x by (simp add: cipher_init_def)
    then show ?thesis using False buf nt by (simp add: open_try_def Let_def catching_def)
  qed
qed

section \<open>Several commands in one packet\<close>

lemma scan_skip:
  "\<forall>i\<in>set is. buf ! i \<noteq> CHR 0x0A \<Longrightarrow> scan_buffer g (is @ js) start buf pc = scan_buffer g js start buf pc"
  by (induction "is") simp_all

lemma scan_command:
  assumes "\<forall>j. start \<le> j \<and> j < i \<longrightarrow> buf ! j \<noteq> CHR 0x0A" "buf ! i = CHR 0x0A" "start \<le> i" "i < n"
    "control_call g (c_string (drop start (buf[i := CHR 0x00]))) pc = Inr (pc', 0)"
  shows "scan_buffer g [start..<n] start buf pc =
    (if start + i \<le> BUF_SIZE then scan_buffer g [i + 1..<n] (i + 1) (blit start (replicate i CHR 0x00) (buf[i := CHR 0x00])) pc'
     else Inl (Assert ''wipememory: past the end of buf''))"
proof -
  have "[start..<n] = [start..<i] @ i # [i + 1..<n]"
    using assms(3,4) upt_add_eq_append [of start i "n - i"] by (simp add: upt_conv_Cons)
  then have "scan_buffer g [start..<n] start buf pc = scan_buffer g (i # [i + 1..<n]) start buf pc"
    using assms(1) by (simp add: scan_skip)
  then show ?thesis using assms(2,5) by (simp add: Let_def asserting_def del: upt_Suc)
qed

lemma c_string_line: "CHR 0x00 \<notin> set l \<Longrightarrow> c_string (l @ CHR 0x00 # rest) = l"
  by (induction l) (auto simp: c_string_def)

text \<open>The buffer after the second of two commands in a packet: as many zeros as the position of its end.\<close>

lemma two_commands:
  assumes buf: "buf = l1 @ CHR 0x0A # l2 @ CHR 0x0A # rest" and len: "length buf = BUF_SIZE"
    and nl: "CHR 0x0A \<notin> set l1" "CHR 0x0A \<notin> set l2" "CHR 0x00 \<notin> set l1" "CHR 0x00 \<notin> set l2"
    and c: "control_call g l1 pc = Inr (pc1, 0)" "control_call g l2 pc1 = Inr (pc2, 0)"
    and n: "length l1 + length l2 + 2 \<le> n" "n \<le> BUF_SIZE"
  shows "scan_buffer g [0..<n] 0 buf pc =
    (if 2 * length l1 + length l2 + 2 \<le> BUF_SIZE
     then scan_buffer g [length l1 + length l2 + 2..<n] (length l1 + length l2 + 2)
       (replicate (2 * length l1 + length l2 + 2) CHR 0x00 @ drop (length l1) rest) pc2
     else Inl (Assert ''wipememory: past the end of buf''))"
proof -
  let ?i = "length l1" and ?k = "length l1 + 1 + length l2"
  define buf1 where "buf1 = replicate ?i CHR 0x00 @ CHR 0x00 # l2 @ CHR 0x0A # rest"
  have len': "length l1 + length l2 + 2 + length rest = BUF_SIZE" using len buf by simp
  have f1: "c_string (drop 0 (buf[?i := CHR 0x00])) = l1" using nl(3) by (simp add: buf c_string_line)
  have b1: "blit 0 (replicate ?i CHR 0x00) (buf[?i := CHR 0x00]) = buf1" by (simp add: buf blit_def buf1_def)
  have n1: "\<forall>j. 0 \<le> j \<and> j < ?i \<longrightarrow> buf ! j \<noteq> CHR 0x0A" using nl(1) by (auto simp: buf nth_append in_set_conv_nth)
  have s1: "scan_buffer g [0..<n] 0 buf pc = scan_buffer g [?i + 1..<n] (?i + 1) buf1 pc1"
    using scan_command [OF n1, of n g pc pc1] f1 c(1) n b1 len' by (simp add: buf)
  have f2: "c_string (drop (?i + 1) (buf1[?k := CHR 0x00])) = l2"
    using nl(4) by (simp add: buf1_def list_update_append nth_append c_string_line)
  have nn: "buf1 ! j \<noteq> CHR 0x0A" if "?i + 1 \<le> j" "j < ?k" for j
  proof -
    have "j - Suc ?i < length l2" using that by simp
    then have "l2 ! (j - Suc ?i) \<noteq> CHR 0x0A" using nl(2) nth_mem by metis
    then show ?thesis using that by (auto simp: buf1_def nth_append nth_Cons')
  qed
  have "buf1 ! ?k = CHR 0x0A" by (simp add: buf1_def nth_append)
  then have s2: "scan_buffer g [?i + 1..<n] (?i + 1) buf1 pc1 =
      (if ?i + 1 + ?k \<le> BUF_SIZE then scan_buffer g [?k + 1..<n] (?k + 1) (blit (?i + 1) (replicate ?k CHR 0x00) (buf1[?k := CHR 0x00])) pc2
       else Inl (Assert ''wipememory: past the end of buf''))"
    using scan_command [of "?i + 1" ?k buf1 n g pc1 pc2] nn f2 c(2) n by auto
  have "blit (?i + 1) (replicate ?k CHR 0x00) (buf1[?k := CHR 0x00]) = replicate (?i + 1 + ?k) CHR 0x00 @ drop ?i rest"
    by (simp add: blit_def buf1_def list_update_append replicate_add replicate_app_Cons_same)
  with s1 s2 show ?thesis by (simp add: mult_2 add.commute add.left_commute)
qed

lemma replicate_prefix: "\<forall>j<z. (replicate z c @ r) ! j = c"
  by (simp add: nth_append)

lemma later_commands_lost:
  assumes "n \<le> z" "z \<le> length buf" "\<forall>j<z. buf ! j = CHR 0x00"
  shows "scan_buffer g [m..<n] start buf pc = Inr (pc, buf, start, False)"
  using scan_skip [of "[m..<n]" buf g "[]" start pc] assms by simp

section \<open>Numbers as text\<close>

lemma of_char_code: "k < 256 \<Longrightarrow> (of_char (char_of (k :: nat)) :: int) = int k"
  using of_nat_of_char [of "char_of k :: char", where 'a = int] by simp

lemma show_nat_digits: "show_nat n \<noteq> []" "list_all isdigit (show_nat n)" "digits_value (show_nat n) = int n"
proof (induction n rule: show_nat.induct)
  case (1 n)
  {
    case 1
    show ?case by (subst show_nat.simps) simp
  next
    case 2
    have "isdigit (char_of (48 + d))" if "d < 10" for d :: nat using that by (simp add: isdigit_def)
    then show ?case using "1.IH"(2) by (subst show_nat.simps) auto
  next
    case 3
    show ?case
    proof (cases "n < 10")
      case True
      then show ?thesis by (subst show_nat.simps) (simp add: digits_value_def of_char_code)
    next
      case False
      then have "digits_value (show_nat n) = 10 * digits_value (show_nat (n div 10)) + int (n mod 10)"
        by (subst show_nat.simps) (simp add: digits_value_def of_char_code)
      moreover have "digits_value (show_nat (n div 10)) = int (n div 10)" using "1.IH"(3) [OF False] .
      moreover have "10 * int (n div 10) + int (n mod 10) = int n" by presburger
      ultimately show ?thesis by simp
    qed
  }
qed

lemma strtol_show_int: "strtol (show_int i) = (max (- (2 ^ 63)) (min (2 ^ 63 - 1) i), [])"
proof -
  have d: "isdigit c \<Longrightarrow> \<not> isspace c \<and> c \<noteq> CHR ''-'' \<and> c \<noteq> CHR ''+''" for c by (auto simp: isdigit_def isspace_def)
  have n: "takeWhile isdigit (show_nat n) = show_nat n" "\<not> isspace (hd (show_nat n))" "hd (show_nat n) \<notin> {CHR ''-'', CHR ''+''}" for n
    using show_nat_digits(1,2) [of n] d by (cases "show_nat n"; auto simp: list_all_iff)+
  have sp: "dropWhile isspace (c # cs) = c # cs" if "\<not> isspace c" for c cs using that by simp
  show ?thesis
  proof (cases "i < 0")
    case True
    then have "show_int i = CHR ''-'' # show_nat (nat (- i))" by (simp add: show_int_def)
    then show ?thesis using True show_nat_digits [of "nat (- i)"] by (simp add: strtol_def Let_def isspace_def n(1))
  next
    case False
    then have i: "show_int i = show_nat (nat i)" by (simp add: show_int_def)
    have "dropWhile isspace (show_nat (nat i)) = show_nat (nat i)" using n(2) [of "nat i"] by (cases "show_nat (nat i)") auto
    then show ?thesis using False i n(3) [of "nat i"] show_nat_digits [of "nat i"] by (simp add: strtol_def Let_def n(1))
  qed
qed

section \<open>Properties\<close>

text \<open>
  C15: a line is cut into its words (the pieces between spaces, empty ones forgotten), of which there may be at
  most ten, and goes to the handler of the command that its first word names; an unknown command
  and a wrong number of arguments are answered with an error, and the state of the devices is not touched.
\<close>

theorem control_call_dispatches:
  assumes "load_commands = Inr (p_c p)" "CHR 0x00 \<notin> set line" "line_words line = name # args"
  shows "control_call g line (p, sk) =
    (if MAX_ARGC \<le> length args then answer p (control_write_complete 1 ''too many arguments'' sk)
     else case map_of control_commands name of
       None \<Rightarrow> answer p (control_write_complete 1 (''unknown command '' @ [CHR 0x22] @ name @ [CHR 0x22]) sk)
     | Some (cmd, argc, usage) \<Rightarrow>
         if length args = argc then run_command g cmd args (p, sk)
         else answer p (control_write_complete 1 (''usage: '' @ name @ usage) sk))"
proof (cases "MAX_ARGC \<le> length args")
  case True
  then have "split_line 0 line = None" using assms(3) by (simp add: split_line_words)
  with True show ?thesis by (simp add: control_call_def)
next
  case False
  with control_call_words [OF assms] show ?thesis by simp
qed

text \<open>A connection for the examples: two devices are open, the peer accepts everything.\<close>

definition demo_priv :: control_thread_priv where
  "demo_priv = \<lparr>p_sv = pair_sv, p_c = (case load_commands of Inl e \<Rightarrow> demo_tbl | Inr h \<Rightarrow> h), p_mountpoint = ''/mnt'', p_version = ''1'',
     p_fresh = [4], p_urandom = [], p_times = 0\<rparr>"

lemma demo_priv_commands: "load_commands = Inr (p_c demo_priv)"
proof -
  obtain h where h: "load_commands = Inr h" using ct.table_loaded by (auto simp: load_commands_def)
  have "p_c demo_priv = h" unfolding demo_priv_def by (simp add: h)
  with h show ?thesis by metis
qed

theorem control_call_dispatches_witness:
  "\<forall>g sk. control_call g ''  exit '' (demo_priv, sk) = control_exit [] (demo_priv, sk) \<and>
    control_call g ''close'' (demo_priv, sk) = answer demo_priv (control_write_complete 1 ''usage: close NAME'' sk)"
proof -
  have w: "line_words ''  exit '' = [''exit'']" "line_words ''close'' = [''close'']" by (simp_all add: line_words_def)
  have m: "map_of control_commands ''exit'' = Some (Exit, 0, [])" "map_of control_commands ''close'' = Some (Close, 1, '' NAME'')"
    by (simp_all add: control_commands_def)
  show ?thesis
    using control_call_dispatches [OF demo_priv_commands _ w(1)] control_call_dispatches [OF demo_priv_commands _ w(2)]
    by (simp add: m MAX_ARGC_def run_command_def)
qed

text \<open>
  C26: a request to open or create a device whose key is not hexadecimal or whose cipher name is malformed
  ends the process: the entry is deleted before its device was initialised, and the cleanup dereferences the null
  pointer in it.
\<close>

theorem bad_open_request_crashes:
  assumes "reg_ok (sv_h (p_sv p))" "has_freer (sv_h (p_sv p))" "check_name name = 0" "p_fresh p = e # fresh"
    "\<not> reg_member (sv_h (p_sv p)) e" "\<forall>x. \<not> reg_bound (sv_h (p_sv p)) (ascii name) x" "bad_request spec key"
  shows "control_open_create_common g [name, spec, key] add (p, sk) = Inl (Assert ''NULL dereference: dev->b'')"
proof -
  obtain h1 h2 h3 where h: "hashtbl_allocate_and_add_element e (ascii name) (sv_h (p_sv p)) = Inr (h1, Some e)"
    "hashtbl_unlock_element_byptr e h1 = Inr h2" "hashtbl_delete_element_byptr e h2 = Inr h3" "freed h3 = freed h2 @ [e]"
    using add_then_delete [OF assms(1,5,6,2)] by blast
  let ?u = "case p_urandom p of [] \<Rightarrow> None | r # _ \<Rightarrow> Some r" and ?sv = "(p_sv p)\<lparr>sv_h := h1, sv_e := (sv_e (p_sv p))(e := zero_entry)\<rparr>"
  obtain msg where "open_try g e [name, spec, key] add ?u ?sv = Inr (?sv, Some msg)" using open_try_bad [OF assms(7)] by blast
  then show ?thesis
    using assms(3,4) h
    by (simp add: control_open_create_common_def Let_def unlock_entry_def upd_entry_def delete_entry_def run_freer_def freer_def
        zero_entry_def split: prod.split)
qed

theorem bad_open_request_crashes_witness:
  "\<forall>g sk. control_open_create_common g [''new'', ''CBC_PLAIN(AES256)'', ''abc''] True (demo_priv, sk) = Inl (Assert ''NULL dereference: dev->b'')"
proof (intro allI)
  fix g sk
  have k: "he_key (elts pair_tbl e) = [of_nat (e + 1)]" "key_size pair_tbl = -1" for e
    by (simp_all add: pair_tbl_def) (simp_all add: pair_base_def demo_tbl_def)
  have "\<not> reg_bound pair_tbl (ascii ''new'') x" for x by (auto simp: reg_bound_def pair_tbl_ok k same_key_def cstr_def)
  moreover have "has_freer pair_tbl" by (simp add: pair_tbl_def) (simp add: pair_base_def demo_tbl_def)
  moreover have "bad_request ''CBC_PLAIN(AES256)'' ''abc''" by (simp add: bad_request_def)
  ultimately show "control_open_create_common g [''new'', ''CBC_PLAIN(AES256)'', ''abc''] True (demo_priv, sk) = Inl (Assert ''NULL dereference: dev->b'')"
    using bad_open_request_crashes [of demo_priv "''new''" 4 "[]"] by (simp add: demo_priv_def pair_sv_def pair_tbl_ok check_name_def)
qed

text \<open>
  C27: three commands that arrive in one packet: if the third one is shorter than the first one it is never
  executed, because clearing the second command also clears the bytes behind it; and if the first two are long enough, clearing
  runs past the end of the buffer.
\<close>

theorem pipelined_command_is_lost:
  assumes "buf = l1 @ CHR 0x0A # l2 @ CHR 0x0A # l3 @ CHR 0x0A # rest" "length buf = BUF_SIZE"
    "CHR 0x0A \<notin> set l1 \<and> CHR 0x0A \<notin> set l2 \<and> CHR 0x00 \<notin> set l1 \<and> CHR 0x00 \<notin> set l2" "length l3 < length l1"
    "control_call g l1 pc = Inr (pc1, 0)" "control_call g l2 pc1 = Inr (pc2, 0)"
  shows "scan_buffer g [0..<length l1 + length l2 + length l3 + 3] 0 buf pc =
    (if BUF_SIZE < 2 * length l1 + length l2 + 2 then Inl (Assert ''wipememory: past the end of buf'')
     else Inr (pc2, replicate (2 * length l1 + length l2 + 2) CHR 0x00 @ drop (length l1) (l3 @ CHR 0x0A # rest), length l1 + length l2 + 2, False))"
proof -
  have n: "length l1 + length l2 + 2 \<le> length l1 + length l2 + length l3 + 3" "length l1 + length l2 + length l3 + 3 \<le> BUF_SIZE"
    using assms(1,2) by simp_all
  let ?z = "2 * length l1 + length l2 + 2"
  let ?buf = "replicate ?z CHR 0x00 @ drop (length l1) (l3 @ CHR 0x0A # rest)"
  have "\<forall>j<?z. ?buf ! j = CHR 0x00" by (rule replicate_prefix)
  then have "scan_buffer g [length l1 + length l2 + 2..<length l1 + length l2 + length l3 + 3] (length l1 + length l2 + 2) ?buf pc2 =
      Inr (pc2, ?buf, length l1 + length l2 + 2, False)"
    using assms(4) by (intro later_commands_lost [of _ ?z]) auto
  with two_commands [OF assms(1,2) _ _ _ _ assms(5,6) n] assms(3) show ?thesis by (simp only: not_less [symmetric] simp_thms if_not_P) simp
qed

lemma empty_line:
  assumes "line_words line = []"
  shows "control_call g line (p, sk) = answer p (control_write_silent_success sk)"
  using assms by (simp add: control_call_def split_line_words MAX_ARGC_def)

theorem pipelined_command_is_lost_witness:
  "\<exists>pc2 buf'. scan_buffer demo_gcrypt [0..<6] 0 (''  '' @ CHR 0x0A # [] @ CHR 0x0A # ''p'' @ CHR 0x0A # replicate 8186 CHR 0x00)
    (demo_priv, \<lparr>sk_out = [], sk_sends = [5, 5]\<rparr>) = Inr (pc2, buf', 4, False)"
proof -
  let ?buf = "''  '' @ CHR 0x0A # [] @ CHR 0x0A # ''p'' @ CHR 0x0A # replicate 8186 CHR 0x00"
  have w: "line_words ''  '' = []" "line_words [] = []" by (simp_all add: line_words_def)
  obtain sk1 sk2 where c: "control_call demo_gcrypt ''  '' (demo_priv, \<lparr>sk_out = [], sk_sends = [5, 5]\<rparr>) = Inr ((demo_priv, sk1), 0)"
    "control_call demo_gcrypt [] (demo_priv, sk1) = Inr ((demo_priv, sk2), 0)"
    by (simp add: empty_line [OF w(1)] empty_line [OF w(2)] answer_def control_write_silent_success_def control_write_string_def)
  have len: "length ?buf = BUF_SIZE" by (simp add: BUF_SIZE_def)
  from pipelined_command_is_lost [OF refl len _ _ c] show ?thesis by (simp add: BUF_SIZE_def)
qed

text \<open>
  C28: the size that the file system reports for a device is its capacity only modulo 4 GiB: it is exact if and only if
  the device is smaller than that.
\<close>

theorem file_size_is_truncated:
  "unat (file_size b d) = unat (calc_no_block_indices b d) * 2 ^ mesoblk_log b mod 2 ^ 32 \<and>
   (unat (file_size b d) = unat (calc_no_block_indices b d) * 2 ^ mesoblk_log b \<longleftrightarrow>
    unat (calc_no_block_indices b d) * 2 ^ mesoblk_log b < 2 ^ 32)"
proof -
  have "push_bit (mesoblk_log b) (no_macroblocks d - reserved_macroblocks d) * of_nat (mmpm b) =
      calc_no_block_indices b d * 2 ^ mesoblk_log b"
    by (simp add: push_bit_eq_mult calc_no_block_indices_def ac_simps)
  then have "unat (file_size b d) = unat (calc_no_block_indices b d * 2 ^ mesoblk_log b)"
    using unat_less_exp [of "calc_no_block_indices b d * 2 ^ mesoblk_log b"]
    by (simp add: file_size_def unsigned_ucast_eq take_bit_nat_eq_self)
  also have "calc_no_block_indices b d * 2 ^ mesoblk_log b = of_nat (unat (calc_no_block_indices b d) * 2 ^ mesoblk_log b)" by simp
  also have "unat \<dots> = unat (calc_no_block_indices b d) * 2 ^ mesoblk_log b mod 2 ^ 32"
    by (simp only: unsigned_of_nat take_bit_nat_def len_num1 len_num0) simp
  finally have *: "unat (file_size b d) = unat (calc_no_block_indices b d) * 2 ^ mesoblk_log b mod 2 ^ 32" .
  have "x mod y = x \<longleftrightarrow> x < y" if "0 < y" for x y :: nat using that by (metis mod_less mod_less_divisor)
  with * show ?thesis by simp
qed

text \<open>
  numbers: every number that fits an \<^verbatim>\<open>int\<close> is read back from its decimal notation; a larger one is
  silently reduced to 32 bits, the test against the limits of the type never applies.
\<close>

theorem parse_int_reads_decimals:
  "parse_int (show_int i) sk = (sk, 0, Some (sint (word_of_int (max (- (2 ^ 63)) (min (2 ^ 63 - 1) i)) :: u32))) \<and>
   (- (2 ^ 31) \<le> i \<and> i < 2 ^ 31 \<longrightarrow> parse_int (show_int i) sk = (sk, 0, Some i))"
proof -
  have p: "parse_int (show_int i) sk = (sk, 0, Some (sint (word_of_int (max (- (2 ^ 63)) (min (2 ^ 63 - 1) i)) :: u32)))"
    by (simp add: parse_int_def strtol_show_int)
  moreover have "sint (word_of_int (max (- (2 ^ 63)) (min (2 ^ 63 - 1) i)) :: u32) = i" if "- (2 ^ 31) \<le> i" "i < 2 ^ 31"
  proof -
    have "max (- (2 ^ 63)) (min (2 ^ 63 - 1) i) = i" using that by simp
    moreover have "sint (word_of_int i :: u32) = i" using that by (simp add: signed_of_int signed_take_bit_int_eq_self)
    ultimately show ?thesis by simp
  qed
  ultimately show ?thesis by simp
qed

theorem parse_int_reads_decimals_witness: "\<forall>sk. parse_int (show_int (-42)) sk = (sk, 0, Some (-42))"
  using parse_int_reads_decimals [of "-42"] by simp

end
