(* ===== verification/Control_Answers.thy ===== *)
theory Control_Answers
  imports Control "HOL-Library.Sublist"
begin

text \<open>
  The answers that control.c gives, as texts: a line OK or ERR, lines, and a line with a dot. Every handler that returns zero
  has written exactly one such text. The exception are numbers that cannot be parsed, in a request to resize or to cycle: the error is
  answered, and then the handler goes on and answers again. If no text that the server was told to keep is a dot then no line of
  the answer is one, so that the end of the answer can be recognised.
\<close>

abbreviation newline :: char where "newline \<equiv> CHR 0x0A"

section \<open>Text and lines\<close>

definition joined :: "string list \<Rightarrow> string" where
  "joined ls = concat (map (\<lambda>l. l @ [newline]) ls)"

definition status_text :: "bool \<Rightarrow> string" where
  "status_text err = (if err then ''ERR'' else ''OK'')"

definition reply :: "bool \<Rightarrow> string list \<Rightarrow> string" where
  "reply err lines = joined (status_text err # lines @ [''.''])"

text \<open>The complete lines of a text, and the beginning of the next one.\<close>

definition cut_step :: "string list \<times> string \<Rightarrow> char \<Rightarrow> string list \<times> string" where
  "cut_step p x = (if x = newline then (fst p @ [snd p], []) else (fst p, snd p @ [x]))"

definition nl_cut :: "string \<Rightarrow> string list \<times> string" where
  "nl_cut t = foldl cut_step ([], []) t"

lemma cut_snoc: "nl_cut (t @ [x]) = cut_step (nl_cut t) x"
  by (simp add: nl_cut_def)

lemma cut_line: "newline \<notin> set l \<Longrightarrow> foldl cut_step (ls, r) l = (ls, r @ l)"
  by (induction l arbitrary: r) (auto simp: cut_step_def)

lemma cut_lines: "\<forall>l\<in>set ms. newline \<notin> set l \<Longrightarrow> foldl cut_step (ls, []) (joined ms) = (ls @ ms, [])"
  by (induction ms arbitrary: ls) (auto simp: joined_def cut_line cut_step_def)

lemma cut_joined: "\<forall>l\<in>set ms. newline \<notin> set l \<Longrightarrow> nl_cut (joined ms) = (ms, [])"
  by (simp add: nl_cut_def cut_lines)

lemma cut_text: "t = joined (fst (nl_cut t)) @ snd (nl_cut t)"
  by (induction t rule: rev_induct) (auto simp: cut_snoc cut_step_def joined_def nl_cut_def)

lemma cut_grows: "\<exists>ms. fst (foldl cut_step p t) = fst p @ ms"
  by (induction t arbitrary: p) (auto simp: cut_step_def, metis append.assoc fst_conv)

lemma cut_prefix: "prefix t u \<Longrightarrow> prefix (fst (nl_cut t)) (fst (nl_cut u))"
  using cut_grows by (fastforce simp: prefix_def nl_cut_def)

section \<open>The answers of the server\<close>

lemma send_loop_out: "send_loop str ns got = (sk, 0) \<Longrightarrow> sk_out sk = got @ str"
  by (induction str ns got rule: send_loop.induct) (auto split: if_splits)

lemma write_string_out: "control_write_string str sk = (sk', 0) \<Longrightarrow> sk_out sk' = sk_out sk @ str"
  by (simp add: control_write_string_def send_loop_out)

lemma and_then_zero: "and_then r f = (sk', 0) \<longleftrightarrow> snd r = 0 \<and> f (fst r) = (sk', 0)"
  by (auto simp: and_then_def)

lemma write_status_out: "control_write_status err sk = (sk', 0) \<Longrightarrow> sk_out sk' = sk_out sk @ status_text (err \<noteq> 0) @ [newline]"
  by (auto simp: control_write_status_def and_then_zero status_text_def split: if_splits dest!: write_string_out
      simp del: split_paired_Ex) (metis prod.collapse write_string_out)+

lemma write_complete_out:
  assumes "control_write_complete err msg sk = (sk', 0)"
  shows "sk_out sk' = sk_out sk @ status_text (err \<noteq> 0) @ [newline] @ msg @ [newline] @ ''.'' @ [newline]"
  using assms write_string_out write_status_out
  by (cases "control_write_status err sk"; cases "control_vwrite_line msg (fst (control_write_status err sk))")
    (fastforce simp: control_write_complete_def and_then_zero control_vwrite_line_def)

lemma write_success_out: "control_write_silent_success sk = (sk', 0) \<Longrightarrow> sk_out sk' = sk_out sk @ reply False []"
  by (auto simp: control_write_silent_success_def reply_def joined_def status_text_def dest!: write_string_out)

text \<open>Any text that ends a line consists of lines.\<close>

definition plain_lines :: "string list \<Rightarrow> bool" where
  "plain_lines ls \<longleftrightarrow> (\<forall>l\<in>set ls. newline \<notin> set l)"

lemma cut_plain: "plain_lines (fst (nl_cut t)) \<and> newline \<notin> set (snd (nl_cut t))"
proof (induction t rule: rev_induct)
  case (snoc x t)
  then show ?case by (auto simp: cut_snoc cut_step_def plain_lines_def)
qed (simp add: nl_cut_def plain_lines_def)

text \<open>
  The lines of an answer whose end can be recognised: none of them is the dot. The parameter \<open>d\<close> below says whether the dot
  is excluded; without that the lemmas hold whatever texts the server keeps.
\<close>

definition answer_lines :: "string list \<Rightarrow> bool" where
  "answer_lines ls \<longleftrightarrow> plain_lines ls \<and> ''.'' \<notin> set ls"

definition one_line :: "string \<Rightarrow> bool" where
  "one_line msg \<longleftrightarrow> newline \<notin> set msg \<and> msg \<noteq> ''.''"

definition whole_lines :: "bool \<Rightarrow> string \<Rightarrow> bool" where
  "whole_lines d body \<longleftrightarrow> (\<exists>ls. plain_lines ls \<and> (d \<longrightarrow> answer_lines ls) \<and> body = joined ls)"

lemma whole_any: "whole_lines False (msg @ [newline])"
  using cut_plain [of "msg @ [newline]"] cut_text [of "msg @ [newline]"]
  by (auto simp: whole_lines_def cut_snoc cut_step_def)

lemma whole_one: "one_line msg \<Longrightarrow> whole_lines d (msg @ [newline])"
  unfolding whole_lines_def one_line_def
  by (rule exI [of _ "[msg]"]) (auto simp: plain_lines_def answer_lines_def joined_def)

lemma whole_line: "(d \<Longrightarrow> one_line msg) \<Longrightarrow> whole_lines d (msg @ [newline])"
  using whole_any whole_one by (cases d) auto

lemma whole_append: "whole_lines d a \<Longrightarrow> whole_lines d b \<Longrightarrow> whole_lines d (a @ b)"
  unfolding whole_lines_def by (elim exE conjE, rule_tac x = "ls @ lsa" in exI) (auto simp: plain_lines_def answer_lines_def joined_def)

lemma whole_Nil [simp]: "whole_lines d []"
  unfolding whole_lines_def by (rule exI [of _ "[]"]) (simp add: plain_lines_def answer_lines_def joined_def)

text \<open>Two answers one after the other are not one answer.\<close>

lemma two_answers:
  assumes "answer_lines a" "answer_lines b" "answer_lines c"
  shows "reply e a @ reply f b \<noteq> reply h c"
proof
  assume "reply e a @ reply f b = reply h c"
  then have "joined (status_text e # a @ ''.'' # status_text f # b @ [''.'']) = joined (status_text h # c @ [''.''])"
    by (simp add: reply_def joined_def)
  from arg_cong [OF this, of nl_cut]
  have eq: "nl_cut (joined (status_text e # a @ ''.'' # status_text f # b @ [''.''])) = nl_cut (joined (status_text h # c @ [''.'']))" .
  have "newline \<notin> set (status_text x)" for x by (simp add: status_text_def)
  then have "status_text e # a @ ''.'' # status_text f # b @ [''.''] = status_text h # c @ [''.'']"
    using eq assms by (subst (asm) (1 2) cut_joined) (auto simp: answer_lines_def plain_lines_def)
  then have "(a @ ''.'' # status_text f # b) @ [''.''] = c @ [''.'']" by simp
  then have "''.'' \<in> set c" by (metis append1_eq_conv in_set_conv_decomp)
  then show False using assms(3) by (simp add: answer_lines_def)
qed

text \<open>What was written behind \<open>out\<close> is one answer.\<close>

definition one_answer :: "bool \<Rightarrow> string \<Rightarrow> string \<Rightarrow> bool" where
  "one_answer d out out' \<longleftrightarrow> (\<exists>err ls. plain_lines ls \<and> (d \<longrightarrow> answer_lines ls) \<and> out' = out @ reply err ls)"

lemma one_answerI:
  assumes "whole_lines d body" "out' = out @ status_text err @ [newline] @ body @ ''.'' @ [newline]"
  shows "one_answer d out out'"
proof -
  obtain ls where "plain_lines ls" "d \<longrightarrow> answer_lines ls" "body = joined ls" using assms(1) by (auto simp: whole_lines_def)
  moreover from this have "out' = out @ reply err ls" using assms(2) by (simp add: reply_def joined_def)
  ultimately show ?thesis by (auto simp: one_answer_def)
qed

definition writes_once :: "bool \<Rightarrow> string \<Rightarrow> sock \<times> int \<Rightarrow> bool" where
  "writes_once d out r \<longleftrightarrow> (snd r = 0 \<longrightarrow> one_answer d out (sk_out (fst r)))"

definition replies :: "bool \<Rightarrow> string \<Rightarrow> (conn \<times> int) res \<Rightarrow> bool" where
  "replies d out m \<longleftrightarrow> (\<forall>pc. m = Inr (pc, 0) \<longrightarrow> one_answer d out (sk_out (snd pc)))"

named_theorems reply_rules \<open>structural rules for handlers that answer once\<close>

lemma writes_lines:
  assumes "sk_out sk = out" "whole_lines d (msg @ [newline])"
  shows "writes_once d out (control_write_complete err msg sk)"
  unfolding writes_once_def using write_complete_out [of err msg sk] one_answerI [OF assms(2)] assms(1)
  by (cases "control_write_complete err msg sk") fastforce

lemma writes_complete [reply_rules]:
  "sk_out sk = out \<Longrightarrow> (d \<Longrightarrow> one_line msg) \<Longrightarrow> writes_once d out (control_write_complete err msg sk)"
  by (rule writes_lines [OF _ whole_line])

lemma writes_success [reply_rules]: "sk_out sk = out \<Longrightarrow> writes_once d out (control_write_silent_success sk)"
  unfolding writes_once_def using write_success_out [of sk]
  by (cases "control_write_silent_success sk") (fastforce simp: one_answer_def plain_lines_def answer_lines_def intro: exI [of _ "[]"])

lemma replies_answer [reply_rules]: "writes_once d out r \<Longrightarrow> replies d out (answer p r)"
  by (simp add: replies_def writes_once_def answer_def)

lemma replies_Inl [reply_rules]: "replies d out (Inl e)"
  by (simp add: replies_def)

lemma replies_error [reply_rules]: "replies d out (Inr (pc, -1))"
  by (simp add: replies_def)

lemma replies_Inr [reply_rules]: "writes_once d out (snd pc, ret) \<Longrightarrow> replies d out (Inr (pc, ret))"
  by (auto simp: replies_def writes_once_def)

lemma replies_bind: "(\<And>x. m = Inr x \<Longrightarrow> replies d out (f x)) \<Longrightarrow> replies d out (rbind m f)"
  by (auto simp: replies_def res_simps)

lemma unlock_conn_sock: "unlock_conn e pc = Inr pc' \<Longrightarrow> snd pc' = snd pc"
  by (auto simp: unlock_conn_def res_simps)

lemma replies_answer_unlock [reply_rules]: "writes_once d out (wr (snd pc)) \<Longrightarrow> replies d out (answer_unlock e pc wr)"
  by (auto simp: answer_unlock_def Let_def replies_def writes_once_def res_simps split: prod.splits dest!: unlock_conn_sock)

lemma replies_unlock_answer [reply_rules]: "writes_once d out (wr (snd pc)) \<Longrightarrow> replies d out (unlock_answer e pc wr)"
  unfolding unlock_answer_def by (auto intro!: replies_bind replies_answer dest!: unlock_conn_sock)

lemma replies_with_entry:
  assumes "sk_out (snd pc) = out" "d \<Longrightarrow> newline \<notin> set name"
    "\<And>e pc'. snd pc' = snd pc \<Longrightarrow> sv_e (p_sv (fst pc')) = sv_e (p_sv (fst pc)) \<Longrightarrow>
      (reg_ok (sv_h (p_sv (fst pc))) \<longrightarrow> reg_member (sv_h (p_sv (fst pc))) e) \<Longrightarrow> replies d out (f e pc')"
  shows "replies d out (with_entry name f pc)"
proof -
  let ?sv = "p_sv (fst pc)"
  have "sv_e sv = sv_e ?sv \<and> (\<forall>e. r = Some e \<longrightarrow> reg_ok (sv_h ?sv) \<longrightarrow> reg_member (sv_h ?sv) e)"
    if "find_entry name ?sv = Inr (sv, r)" for sv r
    using that hash_registry.lookup_law [of "sv_h ?sv" "ascii name"] hash_registry.bound_member [of "sv_h ?sv" "ascii name"]
    by (fastforce simp: find_entry_def res_simps)
  then show ?thesis
    unfolding with_entry_def using assms
    by (auto intro!: replies_bind reply_rules simp: not_found_def one_line_def split: option.split)
qed

lemma upd_conn_sock [simp]: "snd (upd_conn e f pc) = snd pc"
  by (simp add: upd_conn_def)

section \<open>Numbers and messages\<close>

lemma newline_show_nat [simp]: "newline \<notin> set (show_nat n)" "CHR ''.'' \<notin> set (show_nat n)"
  using show_nat_digits(2) [of n] by (auto simp: list_all_iff isdigit_def)

lemma newline_show [simp]:
  "newline \<notin> set (show_int i)" "newline \<notin> set (show_d w)" "newline \<notin> set (show_07u w)" "newline \<notin> set (show_mib n)"
  by (simp_all add: show_int_def show_d_def show_07u_def show_mib_def Let_def)

lemma show_07u_long [simp]: "7 \<le> length (show_07u w)"
  by (simp add: show_07u_def Let_def)

text \<open>The messages of exceptions are one line.\<close>

definition throws_line :: "'a res \<Rightarrow> bool" where
  "throws_line m \<longleftrightarrow> (\<forall>msg. m = Inl (Ecch msg) \<longrightarrow> one_line msg)"

named_theorems throw_rules \<open>exceptions carry one line\<close>

lemma throws_basic [throw_rules]:
  "throws_line (Inr x)" "throws_line (Inl (Assert a))" "throws_line (Inl (Fatal a))" "one_line msg \<Longrightarrow> throws_line (Inl (Ecch msg))"
  "throws_line m \<Longrightarrow> throws_line (asserting c a m)" "throws_line m \<Longrightarrow> throws_line (fatal_if c a m)"
  "one_line msg \<Longrightarrow> throws_line m \<Longrightarrow> throws_line (throw_if c msg m)" "throws_line m \<Longrightarrow> throws_line (map_sum id f m)"
  by (auto simp: throws_line_def asserting_def fatal_if_def throw_if_def) (cases m; simp)

lemma throws_bind [throw_rules]: "throws_line m \<Longrightarrow> (\<And>x. throws_line (f x)) \<Longrightarrow> throws_line (rbind m f)"
  by (cases m) (auto simp: throws_line_def)

lemma throws_rfold [throw_rules]: "(\<And>x s. throws_line (f x s)) \<Longrightarrow> throws_line (rfold f xs s)"
  by (induction xs arbitrary: s) (auto intro: throw_rules)

lemma throws_bitmap [throw_rules]:
  "throws_line (bitmap_getbit b i)" "throws_line (bitmap_setbit b i)" "throws_line (bitmap_clearbit b i)" "throws_line (bitmap_getbits b i n)"
  unfolding bitmap_getbit_def bitmap_setbit_def bitmap_clearbit_def bitmap_getbits_def Let_def by (intro throw_rules)+

lemma throws_iter [throw_rules]: "(\<And>x p. throws_line (f x p)) \<Longrightarrow> throws_line (iter_list f xs p)"
  by (induction xs arbitrary: p) (auto intro!: throw_rules split: option.split)

lemma throws_blocks [throw_rules]:
  "throws_line (stream_read dsk off sz)" "throws_line (read_info b bi base)" "throws_line (sort_to_replay bis rep x)"
  "throws_line (blockio_prepare_block b x)" "throws_line (juggler_add_macroblock bis j x)"
  "throws_line (blockio_dev_get_macroblock_status_bynum dev x)" "throws_line (random_init u)"
  unfolding stream_read_def read_info_def sort_to_replay_def compare_seqno_def blockio_prepare_block_def juggler_add_macroblock_def
    blockio_dev_get_macroblock_status_bynum_def random_init_def Let_def case_prod_beta
  by (auto intro!: throw_rules split: option.split)

lemma throws_scan [throw_rules]: "throws_line (blockio_dev_scan_header g x s)" "throws_line (claim_unwritten x s')"
  unfolding blockio_dev_scan_header_def claim_unwritten_def Let_def case_prod_beta by (auto intro!: throw_rules)

lemma throws_init: "throws_line (blockio_dev_init g b i c u)"
  unfolding blockio_dev_init_def Let_def case_prod_beta by (auto intro!: throw_rules)

lemma throws_key [throw_rules]: "throws_line (cipher_open_set_and_destroy_key g name key)"
  unfolding cipher_open_set_and_destroy_key_def Let_def by (auto intro!: throw_rules simp: one_line_def)

lemma throws_parse [throw_rules]: "throws_line (parse_cipher_name name)"
  unfolding parse_cipher_name_def by (auto intro!: throw_rules simp: one_line_def split: option.split)

lemma throws_cipher: "throws_line (cipher_init g name sz key)"
  unfolding cipher_init_def spec_init_def init_plain_def init_essiv_def null_init_def case_prod_beta
  by (auto intro!: throw_rules simp: one_line_def split: option.split cipher_spec.split)

text \<open>So is what the body of the exception block in \<^verbatim>\<open>control_open_create_common\<close> leaves as its message.\<close>

definition leaves_line :: "(service \<times> string option) res \<Rightarrow> bool" where
  "leaves_line m \<longleftrightarrow> (\<forall>sv msg. m = Inr (sv, Some msg) \<longrightarrow> one_line msg)"

lemma leaves_rules:
  "leaves_line (Inl e)" "leaves_line (Inr (sv, None))" "one_line msg \<Longrightarrow> leaves_line (Inr (sv, Some msg))"
  "leaves_line m \<Longrightarrow> leaves_line (asserting c a m)"
  "throws_line x \<Longrightarrow> (\<And>y. leaves_line (f y)) \<Longrightarrow> leaves_line (catching sv x f)" "(\<And>y. leaves_line (h y)) \<Longrightarrow> leaves_line (rbind z h)"
  by (auto simp: leaves_line_def throws_line_def catching_def asserting_def res_simps split: sum.splits error.splits)

lemma open_try_message: "leaves_line (open_try g e argv add u sv)"
  unfolding open_try_def open_device_def Let_def case_prod_beta
  by (auto intro!: leaves_rules throws_init throws_cipher simp: one_line_def split: option.split)

section \<open>Every handler\<close>

text \<open>
  The texts that the server was given: where the file system is, its version, and, of the partitions in its table, the names and
  the mountpoints that clients have set.
\<close>

definition texts_ok :: "control_thread_priv \<Rightarrow> bool" where
  "texts_ok p \<longleftrightarrow> one_line (p_mountpoint p) \<and> one_line (p_version p) \<and>
     reg_ok (sv_h (p_sv p)) \<and>
     (\<forall>e. reg_member (sv_h (p_sv p)) e \<longrightarrow> newline \<notin> set (text_of (he_key (elts (sv_h (p_sv p)) e))) \<and>
        (\<forall>m. e_mountpoint (sv_e (p_sv p) e) = Some m \<longrightarrow> one_line m))"

lemma plain_handlers [reply_rules]:
  assumes "sk_out (snd pc) = out"
  shows "replies d out (control_check_data_integrity argv pc)" "replies d out (control_exit argv pc)"
  unfolding control_check_data_integrity_def control_exit_def using assms
  by (auto intro!: reply_rules simp: one_line_def)

lemma named_handlers [reply_rules]:
  assumes "sk_out (snd pc) = out" "d \<Longrightarrow> newline \<notin> set (argv ! 0)"
  shows "replies d out (control_verbose_juggler argv pc)" "replies d out (control_set_readonly argv pc)"
    "replies d out (control_set_close_on_release argv pc)"
  unfolding control_verbose_juggler_def control_set_readonly_def control_set_close_on_release_def using assms
  by (auto intro!: reply_rules replies_with_entry simp: one_line_def busy_def split: option.split)

lemma static_info_replies [reply_rules]:
  assumes "sk_out (snd pc) = out" "d \<Longrightarrow> texts_ok (fst pc)"
  shows "replies d out (control_static_info argv pc)"
proof -
  let ?p = "fst pc"
  let ?n = "show_d (of_nat (total_macroblocks (sv_b (p_sv ?p))))"
  have "CHR ''.'' \<notin> set ?n" by (simp add: show_d_def show_int_def)
  then have "?n \<noteq> ''.''" by auto
  then have "whole_lines d (p_mountpoint ?p @ [newline])" "whole_lines d (?n @ [newline])" "whole_lines d (p_version ?p @ [newline])"
    using assms(2) by (auto intro!: whole_line simp: texts_ok_def one_line_def)
  from whole_append [OF this(1) whole_append [OF this(2,3)]]
  have "whole_lines d ((p_mountpoint ?p @ [newline] @ ?n @ [newline] @ p_version ?p) @ [newline])" by simp
  then show ?thesis unfolding control_static_info_def Let_def using assms(1) by (intro replies_answer writes_lines)
qed

lemma aux_replies [reply_rules]:
  assumes "sk_out (snd pc) = out" "d \<Longrightarrow> newline \<notin> set (argv ! 0)" "d \<Longrightarrow> newline \<notin> set (argv ! 1)"
  shows "replies d out (control_set_aux argv pc)" "(d \<Longrightarrow> texts_ok (fst pc)) \<Longrightarrow> replies d out (control_get_aux argv pc)"
  unfolding control_set_aux_def control_get_aux_def using assms
  by (auto intro!: reply_rules replies_with_entry simp: one_line_def texts_ok_def entry_of_def split: option.split bool.split)

lemma check_available_replies [reply_rules]:
  assumes "sk_out (snd pc) = out" "d \<Longrightarrow> newline \<notin> set (argv ! 0)"
  shows "replies d out (control_check_available argv pc)"
  unfolding control_check_available_def Let_def case_prod_beta using assms
  by (auto intro!: reply_rules replies_bind simp: one_line_def illegal_name_def split: option.split)

lemma close_replies [reply_rules]:
  assumes "sk_out (snd pc) = out" "d \<Longrightarrow> newline \<notin> set (argv ! 0)"
  shows "replies d out (control_close g argv pc)"
  unfolding control_close_def using assms
  by (auto intro!: reply_rules replies_with_entry replies_bind simp: one_line_def busy_def dest!: unlock_conn_sock)

lemma parse_int_value: "snd (strtol inp) = [] \<Longrightarrow> \<exists>n. parse_int inp sk = (sk, 0, Some n)"
  by (simp add: parse_int_def Let_def case_prod_beta)

lemma cycle_replies:
  assumes "sk_out (snd pc) = out" "d \<Longrightarrow> newline \<notin> set (argv ! 0)" "snd (strtol (argv ! 1)) = []"
  shows "replies d out (control_cycle g argv pc)"
proof -
  obtain n where "\<forall>sk. parse_int (argv ! 1) sk = (sk, 0, Some (n sk))" using parse_int_value [OF assms(3)] by metis
  then show ?thesis
    unfolding control_cycle_def Let_def using assms(1,2)
    by (auto intro!: reply_rules replies_with_entry replies_bind simp: one_line_def)
qed

lemma open_create_replies [reply_rules]:
  assumes "sk_out (snd pc) = out" "d \<Longrightarrow> newline \<notin> set (argv ! 0)"
  shows "replies d out (control_open_create_common g argv add pc)"
  unfolding control_open_create_common_def Let_def case_prod_beta using assms open_try_message [unfolded leaves_line_def]
  by (auto intro!: reply_rules replies_bind simp: illegal_name_def one_line_def split: option.split list.split)

lemma resize_replies:
  assumes "sk_out (snd pc) = out" "d \<Longrightarrow> newline \<notin> set (argv ! 0)" "snd (strtol (argv ! 1)) = []" "snd (strtol (argv ! 2)) = []"
  shows "replies d out (control_resize argv pc)"
proof -
  obtain n1 n2 where "\<forall>sk. parse_int (argv ! 1) sk = (sk, 0, Some (n1 sk))" "\<forall>sk. parse_int (argv ! 2) sk = (sk, 0, Some (n2 sk))"
    using parse_int_value [OF assms(3)] parse_int_value [OF assms(4)] by metis
  then show ?thesis
    unfolding control_resize_def Let_def using assms(1,2)
    by (auto intro!: reply_rules replies_with_entry replies_bind simp: one_line_def busy_def split: option.split)
qed

text \<open>The reports that consist of several lines.\<close>

definition reporting :: "bool \<Rightarrow> string \<Rightarrow> sock \<Rightarrow> bool" where
  "reporting d out sk \<longleftrightarrow> (\<exists>body. whole_lines d body \<and> sk_out sk = out @ status_text False @ [newline] @ body)"

lemma reporting_status: "control_write_status 0 sk = (sk', 0) \<Longrightarrow> reporting d (sk_out sk) sk'"
  by (auto simp: reporting_def dest!: write_status_out intro: exI [of _ "[]"])

lemma reporting_line:
  assumes "reporting d out sk" "whole_lines d line" "control_write_line line sk = (sk', 0)"
  shows "reporting d out sk'"
proof -
  obtain body where "whole_lines d body" "sk_out sk = out @ status_text False @ [newline] @ body" using assms(1) by (auto simp: reporting_def)
  then have "whole_lines d (body @ line)" "sk_out sk' = out @ status_text False @ [newline] @ body @ line"
    using assms(2,3) by (auto simp: control_write_line_def control_vwrite_line_def intro: whole_append dest!: write_string_out)
  then show ?thesis by (auto simp: reporting_def)
qed

lemma reporting_end: "reporting d out sk \<Longrightarrow> writes_once d out (control_write_terminate sk)"
  unfolding writes_once_def control_write_terminate_def reporting_def
  by (cases "control_write_string (''.'' @ [newline]) sk") (auto dest!: write_string_out intro!: one_answerI)

lemma traverse_keeps:
  assumes step: "\<And>e p r p'. P p \<Longrightarrow> rep e p = (r, p') \<Longrightarrow> r \<noteq> -1 \<Longrightarrow> P p'"
    and run: "hashtbl_ts_traverse rep p h = Inr (h', p', 0)" and P: "P p"
  shows "P p'"
proof -
  have loop: "\<forall>e p r p'. P p \<longrightarrow> rep e p = (r, p') \<longrightarrow> r \<noteq> -1 \<longrightarrow> P p' \<Longrightarrow>
      P p \<Longrightarrow> res = Inr (h', p', 0) \<Longrightarrow> P p'" if "traverse_loop rep elt p h = Some res" for rep :: "nat \<Rightarrow> 'a \<Rightarrow> int \<times> 'a" and elt p h res
    using that
  proof (induction rep elt p h res rule: traverse_loop.raw_induct [rotated, consumes 1, case_names step])
    case (step loop rep elt p h res)
    show ?case
    proof (cases elt)
      case None
      then show ?thesis using "step.prems" "step.hyps" by simp
    next
      case (Some e)
      obtain r q where rq: "rep e p = (r, q)" by (cases "rep e p")
      show ?thesis
      proof (cases "r = -1")
        case True
        then show ?thesis using "step.prems" "step.hyps" rq Some by (auto simp: res_simps)
      next
        case False
        then have "P q" using "step.prems"(1,2) rq by blast
        moreover obtain h2 elt2 where "loop rep elt2 q h2 = Some res"
          using "step.hyps" "step.prems"(3) rq Some False by (auto split: sum.splits prod.splits)
        ultimately show ?thesis using "step.IH" "step.prems"(1,3) by metis
      qed
    qed
  qed
  show ?thesis using run loop [of rep] P step by (auto simp: hashtbl_ts_traverse_def res_simps ends_def split: option.splits)
qed

lemma write_line_result: "snd (control_write_line line sk) = 0 \<or> snd (control_write_line line sk) = -1"
proof -
  have "snd (send_loop str ns got) = 0 \<or> snd (send_loop str ns got) = -1" for str ns got
    by (induction str ns got rule: send_loop.induct) auto
  then show ?thesis by (simp add: control_write_line_def control_vwrite_line_def control_write_string_def)
qed

lemma visit_keeps:
  assumes "\<And>p e r p'. P p \<Longrightarrow> Q e \<Longrightarrow> rep e p = (r, p') \<Longrightarrow> r \<noteq> -1 \<Longrightarrow> P p'" "set es \<subseteq> {e. Q e}" "P p" "visit rep es p = (p', 0)"
  shows "P p'"
  using assms(2-4)
proof (induction es arbitrary: p)
  case (Cons e es)
  then show ?case using assms(1) [of p e] by (cases "rep e p") (auto split: if_splits)
qed simp

text \<open>Traversing the table of commands reaches the commands of the list and nothing else.\<close>

lemma traverse_commands:
  assumes cmds: "load_commands = Inr h"
    and step: "\<And>e p r p'. P p \<Longrightarrow> e < length control_commands \<Longrightarrow> rep e p = (r, p') \<Longrightarrow> r \<noteq> -1 \<Longrightarrow> P p'"
    and run: "hashtbl_ts_traverse rep p h = Inr (h', p', 0)" and P: "P p"
  shows "P p'"
proof -
  obtain bs where bs: "table_rep h bs" "members h bs = {..<length control_commands}" and "\<not> thread_safe h"
    using ct.table_holds [OF cmds [unfolded load_commands_def]] by (auto simp: holds_names_def)
  then have sh: "table_shape h bs" "quiet h" by (simp_all add: table_rep_def quiet_def)
  have all: "set (all_elts h bs) \<subseteq> {e. e < length control_commands}" using all_elts_members(2) [OF sh(1)] bs(2) by auto
  have vis: "visit rep (all_elts h bs) p = (p', 0)" using ts_traverse_visit [OF sh, of rep p] run by simp
  show ?thesis by (rule visit_keeps [where P = P and Q = "\<lambda>e. e < length control_commands", OF step all P vis])
qed

lemma help_replies:
  assumes cmds: "load_commands = Inr (p_c (fst pc))" and out: "sk_out (snd pc) = out"
  shows "replies d out (control_help argv pc)"
proof -
  let ?line = "\<lambda>e. fst (control_commands ! e) @ snd (snd (snd (control_commands ! e))) @ [newline]"
  let ?rep = "\<lambda>e sk. let (sk, ret) = control_write_line (?line e) sk in (ret, sk)"
  have "list_all (\<lambda>c. one_line (fst c @ snd (snd (snd c)))) control_commands"
    by (simp add: control_commands_def one_line_def)
  then have "whole_lines d (?line e)" if "e < length control_commands" for e
    using whole_one [of "fst (control_commands ! e) @ snd (snd (snd (control_commands ! e)))" d] that by (simp add: list_all_length)
  then have "reporting d out sk'" if "reporting d out sk" "e < length control_commands" "?rep e sk = (r, sk')" "r \<noteq> -1" for sk sk' e r
    using reporting_line [OF that(1), of "?line e" sk'] that(2-4) write_line_result [of "?line e" sk] by (auto split: prod.splits)
  then have "reporting d out sk'" if "hashtbl_ts_traverse ?rep sk (p_c (fst pc)) = Inr (h', sk', 0)" "reporting d out sk" for sk h' sk'
    by (rule traverse_commands [where P = "reporting d out", OF cmds _ that])
  then show ?thesis
    unfolding control_help_def Let_def using reporting_status [of "snd pc" _ d] out
    by (fastforce intro!: reply_rules replies_bind intro: reporting_end split: prod.split)
qed

lemma status_line_whole:
  assumes "d \<Longrightarrow> texts_ok p \<and> reg_member (sv_h (p_sv p)) e" shows "whole_lines d (status_line (p_sv p) e)"
proof (cases "e_dev (sv_e (p_sv p) e)")
  case (Some v)
  let ?n = "show_07u (no_macroblocks v)"
  have "d \<Longrightarrow> e_mountpoint (sv_e (p_sv p) e) = Some m \<Longrightarrow> newline \<notin> set m" for m using assms by (auto simp: texts_ok_def one_line_def)
  moreover have "d \<Longrightarrow> newline \<notin> set (text_of (he_key (elts (sv_h (p_sv p)) e)))" using assms by (auto simp: texts_ok_def)
  ultimately obtain l where l: "status_line (p_sv p) e = (?n @ l) @ [newline]" and "d \<Longrightarrow> newline \<notin> set l"
    using Some by (cases "e_mountpoint (sv_e (p_sv p) e)") (simp_all add: status_line_def Let_def)
  moreover have "?n @ l \<noteq> ''.''" using show_07u_long [of "no_macroblocks v"] by (cases ?n) auto
  ultimately show ?thesis unfolding l by (intro whole_line) (simp add: one_line_def)
qed (simp add: status_line_def)

lemma traverse_partitions:
  assumes step: "\<And>e p r p'. P p \<Longrightarrow> (d \<Longrightarrow> reg_member h e) \<Longrightarrow> rep e p = (r, p') \<Longrightarrow> r \<noteq> -1 \<Longrightarrow> P p'"
    and run: "hashtbl_ts_traverse rep p h = Inr (h', p', 0)" and P: "P p" and ok: "d \<Longrightarrow> reg_ok h"
  shows "P p'"
proof (cases d)
  case True
  then obtain bs where bs: "table_rep h bs" "quiet h" using ok by (auto simp: reg_ok_def)
  then have sh: "table_shape h bs" by (simp add: table_rep_def)
  have all: "set (all_elts h bs) \<subseteq> {e. reg_member h e}" using all_elts_members(2) [OF sh] reg_member_iff [OF bs(1)] by auto
  have vis: "visit rep (all_elts h bs) p = (p', 0)" using ts_traverse_visit [OF sh bs(2), of rep p] run by simp
  show ?thesis by (rule visit_keeps [where P = P and Q = "reg_member h", OF step all P vis])
next
  case False
  then have "P q'" if "P q" "rep e q = (r, q')" "r \<noteq> -1" for e q r q' using step [OF that(1) _ that(2,3)] by simp
  from traverse_keeps [where P = P, OF this run P] show ?thesis .
qed

lemma reporting_lines:
  assumes "reporting d out sk" "whole_lines d l" "\<And>sk. reporting d out sk \<Longrightarrow> writes_once d out (f sk)"
  shows "writes_once d out (and_then (control_write_line l sk) f)"
  using assms(3) reporting_line [OF assms(1,2)] by (cases "control_write_line l sk") (auto simp: and_then_def writes_once_def)

lemma status_replies [reply_rules]:
  assumes out: "sk_out (snd pc) = out" and known: "d \<Longrightarrow> texts_ok (fst pc)"
  shows "replies d out (control_status argv pc)"
proof -
  let ?sv = "p_sv (fst pc)"
  let ?rep = "\<lambda>e (sk, n). let (sk, ret) = control_write_line (status_line ?sv e) sk in (ret, (sk, n - entry_blocks ?sv e))"
  have "reporting d out (fst p')" if p: "reporting d out (fst p)" "?rep e p = (r, p')" "r \<noteq> -1" and e: "d \<Longrightarrow> reg_member (sv_h ?sv) e" for e r p p'
  proof -
    have "whole_lines d (status_line ?sv e)" using known e by (intro status_line_whole) auto
    then show ?thesis
      using reporting_line [OF p(1), of "status_line ?sv e" "fst p'"] p(2,3) write_line_result [of "status_line ?sv e" "fst p"]
      by (auto split: prod.splits)
  qed
  then have trav: "reporting d out sk'" if "reporting d out sk" "hashtbl_ts_traverse ?rep (sk, n) (sv_h ?sv) = Inr (h', (sk', n'), 0)" for sk n h' sk' n'
    using traverse_partitions [where P = "\<lambda>p. reporting d out (fst p)" and d = d, OF _ that(2)] that(1) known
    by (simp add: texts_ok_def)
  show ?thesis
  proof (cases "control_write_status 0 (snd pc)")
    case (Pair sk ret)
    show ?thesis
    proof (cases "ret = 0")
      case True
      then have "reporting d out sk" using reporting_status [of "snd pc" sk] Pair out by simp
      note tr = trav [OF this]
      have blk: "whole_lines d (show_07u n @ '' blocks unclaimed'' @ [newline])" "whole_lines d (show_07u n @ '' blocks total'' @ [newline])" for n
        using whole_one [of "show_07u n @ '' blocks unclaimed''" d] whole_one [of "show_07u n @ '' blocks total''" d]
        by (auto simp: one_line_def)
      show ?thesis
        unfolding control_status_def Let_def Pair prod.case
        using True tr [unfolded Let_def] by (auto intro!: replies_bind reply_rules reporting_lines reporting_end blk [simplified])
    qed (simp add: control_status_def Let_def Pair replies_def)
  qed
qed

lemma info_replies [reply_rules]:
  assumes out: "sk_out (snd pc) = out" and name: "d \<Longrightarrow> newline \<notin> set (argv ! 0)"
  shows "replies d out (control_info argv pc)"
proof -
  have lines: "reporting d out sk'" if "list_all (whole_lines d) ls" "fold (\<lambda>line r. and_then r (control_write_line line)) ls r = (sk', 0)"
    "snd r = 0 \<Longrightarrow> reporting d out (fst r)" for ls r sk'
    using that
  proof (induction ls arbitrary: r)
    case (Cons l ls)
    have "reporting d out (fst (and_then r (control_write_line l)))" if "snd (and_then r (control_write_line l)) = 0"
      using that Cons.prems reporting_line [of d out "fst r" l] by (cases "control_write_line l (fst r)") (auto simp: and_then_def split: if_splits)
    then show ?case using Cons by simp
  qed (simp add: that)
  have field: "whole_lines d (s @ show_d w @ [newline])" if "newline \<notin> set s" "1 < length s" for s w
    using whole_one [of "s @ show_d w" d] that by (cases s) (auto simp: one_line_def)
  have "whole_lines d (''no_macroblocks='' @ show_d w @ [newline])" "whole_lines d (''reserved_macroblocks='' @ show_d w @ [newline])"
    "whole_lines d (''writes='' @ show_d w @ [newline])" "whole_lines d (''no_indices='' @ show_d w @ [newline])"
    "whole_lines d (''updated='' @ show_d w @ [newline])" for w
    by (rule field; simp)+
  then have "list_all (whole_lines d) (info_lines pc' v)" for pc' v
    unfolding info_lines_def by (cases "d_bi v") simp_all
  then have "writes_once d out (and_then (fold (\<lambda>line r. and_then r (control_write_line line)) (info_lines pc' v) (control_write_status 0 (snd pc)))
      control_write_terminate)" for pc' v
    using lines [of "info_lines pc' v" "control_write_status 0 (snd pc)"] reporting_status [of "snd pc"] out reporting_end
    by (cases "fold (\<lambda>line r. and_then r (control_write_line line)) (info_lines pc' v) (control_write_status 0 (snd pc))";
        cases "control_write_status 0 (snd pc)") (auto simp: and_then_def writes_once_def)
  then show ?thesis
    unfolding control_info_def using out name
    by (auto intro!: reply_rules replies_with_entry split: option.split)
qed

fun arity :: "command \<Rightarrow> nat" where
  "arity Static_info = 0" | "arity Exit = 0" | "arity Status = 0" | "arity Set_readonly = 2" | "arity Set_close_on_release = 2"
| "arity Check_available = 1" | "arity Cycle = 2" | "arity Verbose_juggler = 1" | "arity Check_data_integrity = 1"
| "arity Open_internal = 3" | "arity Info = 1" | "arity Get_aux = 2" | "arity Set_aux = 3" | "arity Create_internal = 3"
| "arity Help_internal = 0" | "arity Close = 1" | "arity Resize_internal = 3"

lemma command_arity:
  assumes "map_of control_commands name = Some (c, n, usage)" shows "n = arity c" "newline \<notin> set usage"
  using assms by (auto simp: control_commands_def split: if_splits)

lemma run_command_replies:
  assumes "sk_out (snd pc) = out" "load_commands = Inr (p_c (fst pc))" "d \<Longrightarrow> texts_ok (fst pc)"
    and "d \<Longrightarrow> \<forall>i < arity c. newline \<notin> set (argv ! i)"
    and "c = Resize_internal \<Longrightarrow> snd (strtol (argv ! 1)) = [] \<and> snd (strtol (argv ! 2)) = []" "c = Cycle \<Longrightarrow> snd (strtol (argv ! 1)) = []"
  shows "replies d out (run_command g c argv pc)"
  using assms
  by (cases c) (auto simp: run_command_def control_open_def control_create_def intro!: reply_rules help_replies cycle_replies resize_replies)

lemma number_entries:
  "map_of control_commands name = Some (Resize_internal, argc, usage) \<Longrightarrow> name = ''resize-internal''"
  "map_of control_commands name = Some (Cycle, argc, usage) \<Longrightarrow> name = ''cycle''"
  by (simp_all add: control_commands_def split: if_splits)

text \<open>The requests whose numbers are numbers.\<close>

definition numbers_ok :: "string \<Rightarrow> bool" where
  "numbers_ok line \<longleftrightarrow>
     (\<forall>name a b. line_words line = [''resize-internal'', name, a, b] \<longrightarrow> snd (strtol a) = [] \<and> snd (strtol b) = []) \<and>
     (\<forall>name a. line_words line = [''cycle'', name, a] \<longrightarrow> snd (strtol a) = [])"

lemma numbers_okD:
  assumes "numbers_ok line" "line_words line = name # args" "map_of control_commands name = Some (c, length args, usage)"
  shows "c = Resize_internal \<Longrightarrow> snd (strtol (args ! 1)) = [] \<and> snd (strtol (args ! 2)) = []" "c = Cycle \<Longrightarrow> snd (strtol (args ! 1)) = []"
proof -
  have n: "length args = arity c" by (rule command_arity(1) [OF assms(3)])
  show "snd (strtol (args ! 1)) = [] \<and> snd (strtol (args ! 2)) = []" if "c = Resize_internal"
  proof -
    have "length args = 3" using n that by simp
    then obtain x a b where "args = [x, a, b]" by (auto simp: length_Suc_conv numeral_eq_Suc)
    then show ?thesis using assms that number_entries(1) [of name] by (simp add: numbers_ok_def)
  qed
  show "snd (strtol (args ! 1)) = []" if "c = Cycle"
  proof -
    have "length args = 2" using n that by simp
    then obtain x a where "args = [x, a]" by (auto simp: length_Suc_conv numeral_eq_Suc)
    then show ?thesis using assms that number_entries(2) [of name] by (simp add: numbers_ok_def)
  qed
qed

lemma control_call_replies:
  assumes "load_commands = Inr (p_c p)" "CHR 0x00 \<notin> set line" "numbers_ok line" "d \<Longrightarrow> texts_ok p" "d \<Longrightarrow> newline \<notin> set line"
  shows "replies d (sk_out sk) (control_call g line (p, sk))"
proof (cases "line_words line")
  case Nil
  then show ?thesis by (simp add: empty_line) (intro reply_rules refl)
next
  case (Cons name args)
  show ?thesis
  proof (cases "MAX_ARGC \<le> length args")
    case True
    then have "split_line 0 line = None" using Cons by (simp add: split_line_words)
    then show ?thesis by (auto simp: control_call_def one_line_def intro!: reply_rules)
  next
    case False
    have words: "newline \<notin> set w" if "w \<in> set (name # args)" "d" for w
      using words_in_line [of w line] that Cons assms(5) by auto
    have "replies d (sk_out sk) (run_command g c args (p, sk))" if "map_of control_commands name = Some (c, length args, usage)" for c usage
      using assms(1,4) words numbers_okD [OF assms(3) Cons that] command_arity(1) [OF that] by (intro run_command_replies) auto
    then show ?thesis
      using control_call_words [OF assms(1,2) Cons, of g sk] False words
      by (auto intro!: reply_rules simp: one_line_def split: option.split prod.split dest: command_arity(2))
  qed
qed

lemma answer_unlockD: "answer_unlock e pc wr = Inr ((p', sk'), ret) \<Longrightarrow> wr (snd pc) = (sk', ret)"
  by (auto simp: answer_unlock_def res_simps split: prod.splits dest!: unlock_conn_sock)

text \<open>A number that cannot be parsed makes the handler of \<open>cycle\<close> answer twice.\<close>

lemma bad_cycle_answers_twice:
  assumes "find_entry (argv ! 0) (p_sv p) = Inr (sv, Some e)" "snd (strtol (argv ! 1)) \<noteq> []"
    "control_cycle g argv (p, sk) = Inr ((p', sk'), 0)"
  shows "\<exists>err lines. sk_out sk' = sk_out sk @ reply True [''unable to parse ->'' @ argv ! 1 @ ''<-'', []] @ reply err lines"
proof -
  let ?msg = "''unable to parse ->'' @ argv ! 1 @ ''<-'' @ [newline]"
  obtain sk1 ret where w: "control_write_complete 1 ?msg sk = (sk1, ret)" by fastforce
  then have pi: "parse_int (argv ! 1) sk = (sk1, ret, None)" using assms(2) by (simp add: parse_int_def case_prod_beta)
  have "ret = 0" using assms(1,3) pi by (auto simp: control_cycle_def with_entry_def Let_def res_simps split: if_splits)
  then have "sk_out sk1 = sk_out sk @ reply True [''unable to parse ->'' @ argv ! 1 @ ''<-'', []]"
    using write_complete_out [of 1 ?msg sk sk1] w by (simp add: reply_def joined_def status_text_def)
  moreover obtain e' msg where "control_write_complete e' msg sk1 = (sk', 0)"
    using assms(1,3) pi \<open>ret = 0\<close>
    by (auto simp: control_cycle_def with_entry_def Let_def res_simps split: if_splits dest!: answer_unlockD)
  moreover from this have "sk_out sk' = sk_out sk1 @ reply (e' \<noteq> 0) [msg]"
    using write_complete_out [of e' msg sk1 sk'] by (simp add: reply_def joined_def)
  ultimately show ?thesis by auto
qed

section \<open>Properties\<close>

text \<open>
  C16: a command that is carried out is answered exactly once: behind what was sent before there is one line OK or ERR, then
  lines of which none is the dot, then the line with the dot; two answers in a row do not have this form (\<open>two_answers\<close>).
  The command is one line; the exceptions are requests to resize or to cycle with something that is not a number
  (\<open>numbers_ok\<close>), which are answered twice. The texts that the server was given, that is its own mountpoint and version, the mountpoints
  that were set by clients and the names of the partitions, contain no newline, and the mountpoints and the version are not a
  dot (\<open>texts_ok\<close>): such a text is sent as it is.
\<close>

theorem command_is_answered_once:
  assumes "load_commands = Inr (p_c p)" "CHR 0x00 \<notin> set line" "newline \<notin> set line" "numbers_ok line" "texts_ok p"
    and "control_call g line (p, sk) = Inr ((p', sk'), 0)"
  shows "\<exists>err lines. answer_lines lines \<and> sk_out sk' = sk_out sk @ reply err lines"
  using control_call_replies [OF assms(1,2,4), of True sk g] assms(3,5,6) by (auto simp: replies_def one_answer_def)

theorem command_is_answered_once_witness:
  "\<exists>p' sk'. control_call demo_gcrypt ''check-data-integrity x'' (demo_priv, \<lparr>sk_out = [], sk_sends = [9, 99, 99]\<rparr>) = Inr ((p', sk'), 0) \<and>
    (\<exists>err lines. answer_lines lines \<and> sk_out sk' = reply err lines)"
proof -
  let ?line = "''check-data-integrity x''" and ?sk = "\<lparr>sk_out = [], sk_sends = [9, 99, 99 :: int]\<rparr>"
  have w: "line_words ?line = [''check-data-integrity'', ''x'']" by (simp add: line_words_def)
  have m: "map_of control_commands ''check-data-integrity'' = Some (Check_data_integrity, 1, '' NAME'')" by (simp add: control_commands_def)
  obtain sk' where call: "control_call demo_gcrypt ?line (demo_priv, ?sk) = Inr ((demo_priv, sk'), 0)"
    using control_call_words [OF demo_priv_commands _ w, of demo_gcrypt ?sk]
    by (simp add: m MAX_ARGC_def run_command_def control_check_data_integrity_def answer_def control_write_complete_def
        control_write_status_def control_vwrite_line_def control_write_string_def and_then_def)
  have "he_key (elts pair_tbl e) = [of_nat (e + 1)]" for e
    by (simp add: pair_tbl_def) (simp add: pair_base_def)
  moreover have "newline \<noteq> char_of k" if "k < 10" for k :: nat
  proof
    assume "newline = char_of k"
    then have "(of_char newline :: nat) = of_char (char_of k :: char)" by (rule arg_cong)
    with that show False by simp
  qed
  from this [of 1] this [of 3] have "newline \<noteq> char_of (Suc 0)" "newline \<noteq> char_of (3 :: nat)" by simp_all
  ultimately have "texts_ok demo_priv"
    unfolding texts_ok_def demo_priv_def
    by (auto simp: one_line_def pair_sv_def zero_entry_def pair_tbl_ok text_of_def)
  from command_is_answered_once [OF demo_priv_commands _ _ _ this call] w call show ?thesis by (simp add: numbers_ok_def)
qed

end
