(* ===== verification/Scubed3ctl.thy ===== *)
theory Scubed3ctl
  imports Control_Answers
begin

text \<open>
  Model of src/src/scubed3ctl.c, the client of the control socket: it reads commands from a terminal or from an option, runs the
  local ones (they ask for passphrases, check numbers, run programs) and sends the others to the server, whose answers it
  cuts into lines. Messages for the user are collected in \<open>c_printed\<close>; the messages of verbose.h have no effect. Memory
  is never exhausted. A function that ends the process has the result \<open>Inl\<close>.
\<close>

section \<open>State\<close>

text \<open>
  What a terminal delivers when a passphrase is asked for: it may not be a terminal at all, it may be at the end of the
  input, or there is a line, with the newline that ends it.
\<close>

datatype getpass = No_tty | Eof | Line string

text \<open>
  The environment: results of the coming calls of \<^verbatim>\<open>send\<close>, what has been sent, pieces that are going to be received (an empty
  one, or the end of the list: the connection is gone), coming input lines (the end of the list is the end of the input), coming
  passphrases, programs that were run and the results of the coming ones. Then the answer of the server (\<^verbatim>\<open>result_t\<close>): the
  lines are pointers into the buffer. Then the global variables and \<^verbatim>\<open>ctl_priv_t\<close>.
\<close>

record ctl =
  c_sends :: "int list"
  c_sent :: string
  c_recvs :: "string list"
  c_printed :: string
  c_lines :: "string list"
  c_tty :: "getpass list"
  c_systems :: "string list"
  c_rets :: "int list"
  r_buf :: string
  r_argv :: "nat option list"
  r_argc :: nat
  r_status :: int
  command_option :: "string option"
  kdf_salt :: string
  control_socket :: string
  kdf_iterations :: u64
  assume_yes :: nat
  exit_status :: nat
  c_quiet :: bool
  c_tbl :: hashtbl
  c_mountpoint :: string
  c_no_macroblocks :: int

definition CTL_BUF_SIZE :: nat where "CTL_BUF_SIZE = 1024"

definition MAX_RESULT_LINES :: nat where "MAX_RESULT_LINES = 128"

definition DEFAULT_KDF_ITERATIONS :: u64 where "DEFAULT_KDF_ITERATIONS = 16777216"

definition KDF_LENGTH :: nat where "KDF_LENGTH = 32"

definition print :: "string \<Rightarrow> ctl \<Rightarrow> ctl" where
  "print str c = c\<lparr>c_printed := c_printed c @ str\<rparr>"

definition fail :: "ctl \<Rightarrow> ctl" where
  "fail c = c\<lparr>exit_status := 1\<rparr>"

section \<open>Programs and the socket\<close>

text \<open>The formatted string is the argument. A program that is not in the list of results cannot be started.\<close>

definition var_system :: "string \<Rightarrow> ctl \<Rightarrow> ctl \<times> int" where
  "var_system str c =
     (let (ret, rets) = (case c_rets c of [] \<Rightarrow> (-1, []) | r # rs \<Rightarrow> (r, rs));
          c = c\<lparr>c_systems := c_systems c @ [str], c_rets := rets\<rparr>
      in (if ret \<noteq> 0 then fail c else c, ret))"

fun ctl_send :: "string \<Rightarrow> int list \<Rightarrow> string \<Rightarrow> (int list \<times> string) res" where
  "ctl_send str [] sent = Inl (Fatal ''send: error'')"
| "ctl_send str (n # ns) sent =
     (if n = 0 then Inl (Fatal ''send: connection reset by peer'')
      else if n < 0 then Inl (Fatal ''send: error'')
      else if nat n < length str then ctl_send (drop (nat n) str) ns (sent @ take (nat n) str)
      else Inr (ns, sent @ str))"

text \<open>The newline takes the place of the final zero byte.\<close>

definition vwrite_line :: "string \<Rightarrow> ctl \<Rightarrow> ctl res" where
  "vwrite_line str c =
     rbind (ctl_send (str @ [newline]) (c_sends c) (c_sent c)) (\<lambda>(ns, sent). Inr (c\<lparr>c_sends := ns, c_sent := sent\<rparr>))"

section \<open>The answer of the server\<close>

datatype progress = Going | Complete | Malformed

text \<open>
  The loop over the bytes at the positions \<open>is\<close>, which have just been received. A line begins at \<open>start\<close>; \<open>known\<close> tells
  whether the status has been seen.
\<close>

fun scan_result :: "bool \<Rightarrow> nat list \<Rightarrow> nat \<Rightarrow> bool \<Rightarrow> ctl \<Rightarrow> (ctl \<times> nat \<times> bool \<times> progress) res" where
  "scan_result echo [] start known c = Inr (c, start, known, Going)"
| "scan_result echo (i # is) start known c =
     (if r_buf c ! i = newline then
        let c = c\<lparr>r_buf := (r_buf c)[i := CHR 0x00]\<rparr>; line = c_string (drop start (r_buf c)) in
        if r_buf c ! start = CHR ''.'' \<and> i - start = 1 then Inr (c, start, known, Complete)
        else if known then
          let c = (if echo then print (line @ [newline]) c else c) in
          fatal_if (r_argc c = MAX_RESULT_LINES) ''too many lines in response'' (
          scan_result echo is (i + 1) known (c\<lparr>r_argv := (r_argv c)[r_argc c := Some start], r_argc := r_argc c + 1\<rparr>))
        else if line = ''ERR'' then scan_result echo is (i + 1) True (fail (c\<lparr>r_status := -1\<rparr>))
        else if line = ''OK'' then scan_result echo is (i + 1) True c
        else Inr (c, start, known, Malformed)
      else scan_result echo is start known c)"

text \<open>
  Receiving: \<^verbatim>\<open>recv\<close> takes as much of the next piece as fits; the rest stays in the socket. Bytes behind the end of
  the answer in the same piece are dropped. The variable that holds -1 after ERR is not returned.
\<close>

function recv_loop :: "bool \<Rightarrow> string list \<Rightarrow> nat \<Rightarrow> nat \<Rightarrow> bool \<Rightarrow> ctl \<Rightarrow> (ctl \<times> int) res" where
  "recv_loop echo [] buf_len start known c =
     fatal_if (buf_len = CTL_BUF_SIZE) ''response too long'' (Inl (Fatal ''recv: error''))"
| "recv_loop echo (got # gots) buf_len start known c =
     fatal_if (buf_len \<ge> CTL_BUF_SIZE) ''response too long'' (
     fatal_if (got = []) ''recv: connection reset by peer'' (
     let now = take (CTL_BUF_SIZE - buf_len) got; n = length now;
         gots = (if n < length got then drop n got # gots else gots);
         c = c\<lparr>c_recvs := gots, r_buf := blit buf_len now (r_buf c)\<rparr> in
     rbind (scan_result echo [buf_len..<buf_len + n] start known c) (\<lambda>(c, start, known, p).
     case p of
       Complete \<Rightarrow> Inr (c, 0)
     | Malformed \<Rightarrow> Inr (c, -1)
     | Going \<Rightarrow> recv_loop echo gots (buf_len + n) start known c)))"
  by pat_completeness auto
termination
  by (relation "measure (\<lambda>(echo, gots, _). size_list length gots)") auto

declare recv_loop.simps [simp del]

definition do_server_command :: "bool \<Rightarrow> string \<Rightarrow> ctl \<Rightarrow> (ctl \<times> int) res" where
  "do_server_command echo str c =
     rbind (vwrite_line str c) (\<lambda>c.
     recv_loop echo (c_recvs c) 0 0 False (c\<lparr>r_status := 0, r_argc := 0\<rparr>))"

text \<open>
  The text of a line of the answer. The pointers of earlier answers are still there; one that was never set is null.
\<close>

definition result_line :: "nat \<Rightarrow> ctl \<Rightarrow> string res" where
  "result_line k c =
     (case r_argv c ! k of
        None \<Rightarrow> Inl (Assert ''NULL dereference: result.argv'')
      | Some off \<Rightarrow> Inr (c_string (drop off (r_buf c))))"

section \<open>Arguments of a local command\<close>

text \<open>
  The loop that cuts the arguments; \<open>None\<close> when there are too many. A piece of spaces at the end counts as one more
  argument until it is found to be empty.
\<close>

function split_args :: "nat \<Rightarrow> string \<Rightarrow> string list option" where
  "split_args argc s =
     (if s = [] then Some []
      else
        let s = skip_spaces s; argc = argc + 1 in
        if argc > MAX_ARGC then None
        else if word_of s = [] then Some []
        else map_option ((#) (word_of s)) (split_args argc (tl (dropWhile (\<lambda>c. c \<noteq> CHR '' '') s))))"
  by pat_completeness auto
termination
proof (relation "measure (\<lambda>(argc, s). length s)")
  fix argc and s t :: string and n :: nat
  assume "s \<noteq> []" "t = skip_spaces s"
  then show "((n, tl (dropWhile (\<lambda>c. c \<noteq> CHR '' '') t)), (argc, s)) \<in> measure (\<lambda>(argc, s). length s)"
    using length_dropWhile_le [of "\<lambda>c. c = CHR '' ''" s] length_dropWhile_le [of "\<lambda>c. c \<noteq> CHR '' ''" "skip_spaces s"]
    by (cases s) (auto simp: skip_spaces_def)
qed simp

declare split_args.simps [simp del]

datatype ctl_command = Ctl_help | Ctl_create | Ctl_open | Ctl_resize | Ctl_mke2fs | Ctl_mount | Ctl_chown | Ctl_umount

definition ctl_commands :: "(string \<times> ctl_command \<times> nat \<times> string) list" where
  "ctl_commands =
     [(''help'', Ctl_help, 0, []), (''create'', Ctl_create, 1, '' NAME''), (''open'', Ctl_open, 1, '' NAME''),
      (''resize'', Ctl_resize, 2, '' NAME MACROBLOCKS''), (''mke2fs'', Ctl_mke2fs, 1, '' NAME''),
      (''mount'', Ctl_mount, 2, '' NAME MOUNTPOINT''), (''chown'', Ctl_chown, 2, '' OWNER.GROUP NAME|MOUNTPOINT''),
      (''umount'', Ctl_umount, 1, '' NAME|MOUNTPOINT'')]"

type_synonym handler = "string list \<Rightarrow> ctl \<Rightarrow> (ctl \<times> int) res"

text \<open>The handlers are the first argument; \<open>i\<close> is the address of the command.\<close>

definition do_local_command :: "(ctl_command \<Rightarrow> handler) \<Rightarrow> nat \<Rightarrow> string \<Rightarrow> ctl \<Rightarrow> (ctl \<times> int) res" where
  "do_local_command run i args c =
     (let (key, cmnd, argc, usage) = ctl_commands ! i in
      case split_args 0 args of
        None \<Rightarrow> Inr (print (''too many arguments, discarding command'' @ [newline]) c, 0)
      | Some argv \<Rightarrow>
          if (if argv \<noteq> [] \<and> hd argv = [] then length argv - 1 else length argv) \<noteq> argc
          then Inr (print (''usage: '' @ key @ usage @ [newline]) c, 0)
          else run cmnd argv c)"

section \<open>Passphrases\<close>

text \<open>
  The line and its length, which at the end of the input is the return value -1 of \<^verbatim>\<open>getline\<close> as a \<^verbatim>\<open>size_t\<close>.
\<close>

definition my_getpass :: "ctl \<Rightarrow> ctl \<times> (string \<times> u64) option" where
  "my_getpass c =
     (case c_tty c of
        [] \<Rightarrow> (c, None)
      | No_tty # ls \<Rightarrow> (c\<lparr>c_tty := ls\<rparr>, None)
      | Eof # ls \<Rightarrow> (print [newline] (c\<lparr>c_tty := ls\<rparr>), Some ([], -1))
      | Line l # ls \<Rightarrow> (print [newline] (c\<lparr>c_tty := ls\<rparr>), Some (l, of_nat (length l))))"

text \<open>libgcrypt derives \<open>KDF_LENGTH\<close> bytes from a passphrase, a salt and a number of iterations, or fails.\<close>

type_synonym kdf = "bytes \<Rightarrow> bytes \<Rightarrow> u64 \<Rightarrow> bytes option"

definition hash_text :: "bytes \<Rightarrow> string" where
  "hash_text hash = text_of (base16 False hash)"

text \<open>
  The key: all bytes of the line but the last one. Reading or wiping more bytes than the line has runs out of the memory. An
  exception has no handler in this program.
\<close>

definition derive_key :: "kdf \<Rightarrow> string \<Rightarrow> u64 \<Rightarrow> ctl \<Rightarrow> bytes res" where
  "derive_key kdf pw pw_len c =
     asserting (pw_len > 0) ''ctl_open_create_common: pw_len > 0'' (
     asserting (unat pw_len \<le> length pw) ''gcry_kdf_derive: past the end of the passphrase'' (
     case kdf (ascii (take (unat (pw_len - 1)) pw)) (ascii (kdf_salt c)) (kdf_iterations c) of
       None \<Rightarrow> Inl (Fatal ''BUG:unhandled exception: gcry_kdf_derive'')
     | Some hash \<Rightarrow> Inr hash))"

text \<open>
  The last \<^verbatim>\<open>snprintf\<close> puts its zero byte one position behind the array of 64 characters; that byte is not part of the model.
\<close>

definition ctl_open_create_common :: "kdf \<Rightarrow> bool \<Rightarrow> handler" where
  "ctl_open_create_common kdf create argv c =
     rbind (do_server_command True (''check-available '' @ argv ! 0) c) (\<lambda>(c, ret).
     if ret \<noteq> 0 then Inr (c, -1)
     else if r_status c = -1 then Inr (c, 0)
     else
       let (c, pw) = my_getpass (print ''Enter passphrase: '' c) in
       case pw of
         None \<Rightarrow> Inr (c, -1)
       | Some (pw, pw_len) \<Rightarrow>
           let go = (\<lambda>c.
                 rbind (derive_key kdf pw pw_len c) (\<lambda>hash.
                 do_server_command True ((if create then ''create'' else ''open'') @ ''-internal '' @ argv ! 0 @
                   '' CBC_ESSIV(AES256) '' @ take 64 (hash_text (take KDF_LENGTH hash))) c)) in
           if create then
             let (c, pw2) = my_getpass (print ''Verify passphrase: '' c) in
             case pw2 of
               None \<Rightarrow> asserting (unat pw_len \<le> length pw) ''wipememory: past the end of the passphrase'' (Inr (c, -1))
             | Some (pw2, pw2_len) \<Rightarrow>
                 asserting (unat pw2_len \<le> length pw2) ''wipememory: past the end of the passphrase'' (
                 if pw_len \<noteq> pw2_len \<or> c_string pw \<noteq> c_string pw2 then
                   asserting (unat pw_len \<le> length pw) ''wipememory: past the end of the passphrase'' (
                   Inr (fail (print (''passphrases do not match'' @ [newline]) c), 0))
                 else go c)
           else go c)"

definition ctl_open :: "kdf \<Rightarrow> handler" where
  "ctl_open kdf = ctl_open_create_common kdf False"

definition ctl_create :: "kdf \<Rightarrow> handler" where
  "ctl_create kdf = ctl_open_create_common kdf True"

definition ctl_help :: handler where
  "ctl_help argv c =
     Inr (print (''Internal commands:'' @ [newline, newline] @ ''create NAME'' @ [newline] @ ''open NAME'' @ [newline] @
       ''close NAME'' @ [newline] @ ''mount NAME MOUNTPOINT'' @ [newline] @ ''umount NAME'' @ [newline]) c, 0)"

section \<open>Questions and numbers\<close>

text \<open>
  The end of the input is a null pointer, which is dereferenced; a pointer behind leading spaces is not one that may be freed.
\<close>

fun yesno_loop :: "string list \<Rightarrow> string list \<times> bool res" where
  "yesno_loop [] = ([], Inl (Assert ''NULL dereference: answer''))"
| "yesno_loop (l # ls) =
     (let answer = skip_spaces l in
      if answer \<noteq> l then (ls, Inl (Assert ''free: invalid pointer''))
      else if answer = [] \<or> answer = ''No'' then (ls, Inr False)
      else if answer \<noteq> ''Yes'' then yesno_loop ls
      else (ls, Inr True))"

definition yesno :: "string \<Rightarrow> ctl \<Rightarrow> (ctl \<times> bool) res" where
  "yesno prompt c =
     (if assume_yes c \<ge> 3 then Inr (print (prompt @ '' Yes (assumed)'' @ [newline]) c, True)
      else let (ls, r) = yesno_loop (c_lines c) in rbind r (\<lambda>yes. Inr (c\<lparr>c_lines := ls\<rparr>, yes)))"

definition warning :: "ctl \<Rightarrow> ctl" where
  "warning = print (''---WARNING---WARNING---WARNING---WARNING---WARNING---WARNING---WARNING---'' @ [newline])"

text \<open>As in the server, the comparison with the limits of \<^verbatim>\<open>long\<close> never succeeds.\<close>

definition ctl_parse_int :: "string \<Rightarrow> ctl \<Rightarrow> ctl \<times> int option" where
  "ctl_parse_int inp c =
     (let (v, end) = strtol inp in
      if end \<noteq> [] then (fail (print (''unable to parse ->'' @ inp @ ''<-'' @ [newline]) c), None)
      else (c, Some (sint (word_of_int v :: u32))))"

text \<open>
  The variables that \<^verbatim>\<open>parse_info\<close> fills: names with values, \<open>None\<close> as long as a variable is not set. One line \<open>key=val\<close> of
  the answer goes through all of them.
\<close>

fun info_names :: "string \<Rightarrow> string \<Rightarrow> (string \<times> int option) list \<Rightarrow> ctl \<Rightarrow> ctl \<times> (string \<times> int option) list option" where
  "info_names key val [] c = (c, Some [])"
| "info_names key val ((name, v) # vs) c =
     (if key \<noteq> name then (let (c, r) = info_names key val vs c in (c, map_option ((#) (name, v)) r))
      else if v \<noteq> None then (fail (print ''double response from the server'' c), None)
      else
        (case ctl_parse_int val c of
           (c, None) \<Rightarrow> (c, None)
         | (c, Some n) \<Rightarrow> let (c, r) = info_names key val vs c in (c, map_option ((#) (name, Some n)) r)))"

fun info_loop :: "nat list \<Rightarrow> (string \<times> int option) list \<Rightarrow> ctl \<Rightarrow> (ctl \<times> (string \<times> int option) list option) res" where
  "info_loop [] vs c = Inr (c, Some vs)"
| "info_loop (j # js) vs c =
     rbind (result_line j c) (\<lambda>line.
     if CHR ''='' \<notin> set line then Inr (fail (print (''malformed response from server'' @ [newline]) c), None)
     else
       let key = takeWhile (\<lambda>x. x \<noteq> CHR ''='') line; val = drop (length key + 1) line;
           c = c\<lparr>r_buf := (r_buf c)[the (r_argv c ! j) + length key := CHR 0x00]\<rparr> in
       case info_names key val vs c of (c, None) \<Rightarrow> Inr (c, None) | (c, Some vs) \<Rightarrow> info_loop js vs c)"

definition parse_info :: "string list \<Rightarrow> ctl \<Rightarrow> (ctl \<times> (string \<times> int option) list option) res" where
  "parse_info names c = info_loop [0..<r_argc c] (map (\<lambda>n. (n, None)) names) c"

section \<open>Local commands\<close>

text \<open>After ERR the first line of the answer is shown.\<close>

definition show_result :: "ctl \<Rightarrow> (ctl \<times> int) res" where
  "show_result c = rbind (result_line 0 c) (\<lambda>line. Inr (print (line @ [newline]) c, 0))"

text \<open>The warning and the question, which are left out only if both options say so; \<open>n\<close> is the number of blocks now.\<close>

definition confirm_resize :: "string \<Rightarrow> int \<Rightarrow> int \<Rightarrow> ctl \<Rightarrow> (ctl \<times> bool) res" where
  "confirm_resize name new n c =
     (if \<not> c_quiet c \<or> assume_yes c < 3 then
        if new > n then
          yesno ''only safe if ALL your scubed3 partitions are open, continue? [No] ''
            (print (''allocating '' @ show_int (new - n) @ '' blocks for '' @ name @ '' from the unclaimed pool, this is'' @ [newline]) (warning c))
        else
          asserting (n > new) ''ctl_resize: no_macroblocks > new'' (
          yesno ''you must resize it before typing Yes, continue? [No] ''
            (print (''removing '' @ show_int (n - new) @ '' blocks from the end of '' @ name @ '', those blocks'' @ [newline] @
              ''will be added to the unclaimed pool, if you have a filesystem on it'' @ [newline]) (warning c)))
      else Inr (c, True))"

definition ctl_resize :: handler where
  "ctl_resize argv c =
     rbind (do_server_command False (''info '' @ argv ! 0) c) (\<lambda>(c, ret).
     if ret \<noteq> 0 then Inr (c, -1)
     else if r_status c \<noteq> 0 then show_result c
     else
       rbind (parse_info [''no_macroblocks''] c) (\<lambda>(c, info).
       case info of
         None \<Rightarrow> Inr (c, 0)
       | Some vs \<Rightarrow>
           (case ctl_parse_int (argv ! 1) c of
              (c, None) \<Rightarrow> Inr (c, 0)
            | (c, Some new) \<Rightarrow>
                let reserved = (if new > 0 then (new - 1) div 4 + 1 else 0) in
                case snd (vs ! 0) of
                  None \<Rightarrow> Inl (Assert ''ctl_resize: no_macroblocks is not initialised'')
                | Some n \<Rightarrow>
                    if new = n then Inr (print (''size already is '' @ show_int new @ [newline]) c, 0)
                    else if new < 0 then Inr (print (''you cannot resize below 0'' @ [newline]) c, 0)
                    else if new > c_no_macroblocks c then
                      Inr (print (''can't resize to '' @ show_int new @ '' macroblocks because there are only '' @
                        show_int (c_no_macroblocks c) @ '' macroblocks in total'' @ [newline]) c, 0)
                    else
                      rbind (confirm_resize (argv ! 0) new n c) (\<lambda>(c, yes).
                      if \<not> yes then Inr (c, 0)
                      else do_server_command True (''resize-internal '' @ argv ! 0 @ '' '' @ show_int new @ '' '' @ show_int reserved) c))))"

definition ctl_mke2fs :: handler where
  "ctl_mke2fs argv c =
     rbind (do_server_command False (''info '' @ argv ! 0) c) (\<lambda>(c, ret).
     if ret \<noteq> 0 then Inr (c, -1)
     else if r_status c \<noteq> 0 then show_result c
     else
       rbind (do_server_command False (''get-aux '' @ argv ! 0 @ '' mountpoint'') c) (\<lambda>(c, ret).
       if ret \<noteq> 0 then Inr (c, -1)
       else if r_status c = 0 then
         rbind (result_line 0 c) (\<lambda>line.
         Inr (print (''partition '' @ [CHR 0x22] @ argv ! 0 @ [CHR 0x22] @ '' is mounted on '' @ line @ [newline]) c, 0))
       else Inr (fst (var_system (''mke2fs -F '' @ c_mountpoint c @ ''/'' @ argv ! 0) c), 0)))"

definition ctl_chown :: handler where
  "ctl_chown argv c =
     (if argv ! 1 \<noteq> [] \<and> hd (argv ! 1) = CHR ''/'' then Inr (print (''only partition name is allowed'' @ [newline]) c, 0)
      else
        rbind (do_server_command False (''get-aux '' @ argv ! 1 @ '' mountpoint'') c) (\<lambda>(c, ret).
        if ret \<noteq> 0 then Inr (c, -1)
        else if r_status c \<noteq> 0 then
          Inr (print (''no mountpoint known for '' @ [CHR 0x22] @ argv ! 1 @ [CHR 0x22] @ [newline]) c, 0)
        else rbind (result_line 0 c) (\<lambda>line. Inr (fst (var_system (''chown '' @ argv ! 0 @ '' '' @ line) c), 0))))"

definition ctl_umount :: handler where
  "ctl_umount argv c =
     (if \<not> (argv ! 0 \<noteq> [] \<and> hd (argv ! 0) = CHR ''/'') then
        rbind (do_server_command False (''get-aux '' @ argv ! 0 @ '' mountpoint'') c) (\<lambda>(c, ret).
        if ret \<noteq> 0 then Inr (c, -1)
        else if r_status c \<noteq> 0 then show_result c
        else rbind (result_line 0 c) (\<lambda>line. Inr (fst (var_system (''umount '' @ line) c), 0)))
      else Inr (fst (var_system (''umount '' @ argv ! 0) c), 0))"

text \<open>The handlers, with the one of the command mount as an argument.\<close>

definition run_local :: "kdf \<Rightarrow> handler \<Rightarrow> ctl_command \<Rightarrow> handler" where
  "run_local kdf mount cmnd =
     (case cmnd of
        Ctl_help \<Rightarrow> ctl_help | Ctl_create \<Rightarrow> ctl_create kdf | Ctl_open \<Rightarrow> ctl_open kdf | Ctl_resize \<Rightarrow> ctl_resize
      | Ctl_mke2fs \<Rightarrow> ctl_mke2fs | Ctl_mount \<Rightarrow> mount | Ctl_chown \<Rightarrow> ctl_chown | Ctl_umount \<Rightarrow> ctl_umount)"

text \<open>
  Mounting a partition that is not open runs the command open from the table first; the result of that is the status of
  the last answer. The table never leads back to mount here.
\<close>

definition mount_open :: "kdf \<Rightarrow> handler" where
  "mount_open kdf argv c =
     rbind (hashtbl_find_element_bykey (ascii ''open'') (c_tbl c)) (\<lambda>(tbl, r).
     case r of
       None \<Rightarrow> Inl (Assert ''NULL dereference: cmnd'')
     | Some i \<Rightarrow> do_local_command (run_local kdf (\<lambda>_ _. Inl Diverges)) i (argv ! 0) (c\<lparr>c_tbl := tbl\<rparr>))"

definition ctl_mount :: "kdf \<Rightarrow> handler" where
  "ctl_mount kdf argv c =
     (if \<not> (argv ! 1 \<noteq> [] \<and> hd (argv ! 1) = CHR ''/'') then Inr (print ''mountpoint must start with a slash'' c, 0)
      else
        rbind (do_server_command False (''info '' @ argv ! 0) c) (\<lambda>(c, ret).
        if ret \<noteq> 0 then Inr (c, -1)
        else
          let go = (\<lambda>c.
                let (c, ret) = var_system (''mount -o loop '' @ c_mountpoint c @ ''/'' @ argv ! 0 @ '' '' @ argv ! 1) c in
                if ret \<noteq> 0 then Inr (c, 0)
                else
                  rbind (do_server_command False (''set-aux '' @ argv ! 0 @ '' mountpoint '' @ argv ! 1) c) (\<lambda>(c, ret).
                  Inr (c, if ret \<noteq> 0 then -1 else 0))) in
          if r_status c = 0 then go c
          else
            rbind (mount_open kdf argv (c\<lparr>exit_status := 0\<rparr>)) (\<lambda>(c, _).
            if r_status c \<noteq> 0 then Inr (c, 0)
            else
              rbind (do_server_command False (''set-close-on-release '' @ argv ! 0 @ '' 1'') c) (\<lambda>(c, ret).
              if ret \<noteq> 0 then Inr (c, -1) else if r_status c \<noteq> 0 then Inr (c, 0) else go c))))"

text \<open>A command: local if its first word is in the table; the arguments then begin with the space behind it.\<close>

definition ctl_call :: "kdf \<Rightarrow> string \<Rightarrow> ctl \<Rightarrow> (ctl \<times> int) res" where
  "ctl_call kdf command c =
     (let command = skip_spaces command; tmp = dropWhile (\<lambda>x. x \<noteq> CHR '' '') command in
      rbind (hashtbl_find_element_bykey (ascii (word_of command)) (c_tbl c)) (\<lambda>(tbl, r).
      let c = c\<lparr>c_tbl := tbl\<rparr> in
      case r of
        Some i \<Rightarrow> do_local_command (run_local kdf (ctl_mount kdf)) i tmp c
      | None \<Rightarrow> do_server_command True command c))"

section \<open>What a command leaves alone\<close>

text \<open>
  Every operation only takes lines from the input, only adds to what was sent and printed, and does not change the options and what
  is known about the server.
\<close>

definition steady :: "ctl \<Rightarrow> ctl \<Rightarrow> bool" where
  "steady c c' \<longleftrightarrow> suffix (c_lines c') (c_lines c) \<and> prefix (c_sent c) (c_sent c') \<and> prefix (c_printed c) (c_printed c') \<and>
     prefix (c_systems c) (c_systems c') \<and> command_option c' = command_option c \<and> kdf_salt c' = kdf_salt c \<and>
     kdf_iterations c' = kdf_iterations c \<and> assume_yes c' = assume_yes c \<and> c_quiet c' = c_quiet c \<and>
     c_mountpoint c' = c_mountpoint c \<and> c_no_macroblocks c' = c_no_macroblocks c"

lemma steady_refl [simp]: "steady c c"
  by (simp add: steady_def)

lemma steady_trans: "steady a b \<Longrightarrow> steady b c \<Longrightarrow> steady a c"
  by (auto simp: steady_def intro: suffix_order.trans prefix_order.trans)

lemma steady_print [simp]: "steady c (print str c')" if "steady c c'"
  using that by (auto simp: steady_def print_def intro: prefix_order.trans)

lemma steady_fail [simp]: "steady c (fail c') = steady c c'"
  by (simp add: steady_def fail_def)

lemma steady_result [simp]:
  "steady c (c'\<lparr>r_buf := b\<rparr>) = steady c c'" "steady c (c'\<lparr>r_argv := v\<rparr>) = steady c c'" "steady c (c'\<lparr>r_argc := n\<rparr>) = steady c c'"
  "steady c (c'\<lparr>r_status := s\<rparr>) = steady c c'" "steady c (c'\<lparr>exit_status := e\<rparr>) = steady c c'" "steady c (c'\<lparr>c_tbl := t\<rparr>) = steady c c'"
  "steady c (c'\<lparr>c_recvs := gs\<rparr>) = steady c c'" "steady c (c'\<lparr>c_sends := ns\<rparr>) = steady c c'" "steady c (c'\<lparr>c_tty := ls\<rparr>) = steady c c'"
  "steady (c\<lparr>r_status := s\<rparr>) c' = steady c c'" "steady (c\<lparr>r_argc := n\<rparr>) c' = steady c c'" "steady (c\<lparr>c_tbl := t\<rparr>) c' = steady c c'"
  "steady (c\<lparr>r_buf := b\<rparr>) c' = steady c c'" "steady (c\<lparr>c_recvs := gs\<rparr>) c' = steady c c'" "steady (c\<lparr>exit_status := e\<rparr>) c' = steady c c'"
  "steady (c\<lparr>r_argv := v\<rparr>) c' = steady c c'" "steady (fail c) c' = steady c c'"
  by (simp_all add: steady_def fail_def)

lemma print_fail_simps [simp]:
  "c_sent (print str c) = c_sent c" "c_sent (fail c) = c_sent c" "c_lines (print str c) = c_lines c" "c_lines (fail c) = c_lines c"
  "c_recvs (print str c) = c_recvs c" "c_recvs (fail c) = c_recvs c" "c_systems (print str c) = c_systems c" "c_systems (fail c) = c_systems c"
  "r_buf (print str c) = r_buf c" "r_argv (print str c) = r_argv c" "r_argc (print str c) = r_argc c" "r_status (print str c) = r_status c"
  "r_buf (fail c) = r_buf c" "r_argv (fail c) = r_argv c" "r_argc (fail c) = r_argc c" "r_status (fail c) = r_status c"
  "exit_status (print str c) = exit_status c" "exit_status (fail c) = 1" "c_tty (print str c) = c_tty c" "c_tty (fail c) = c_tty c"
  "c_sends (print str c) = c_sends c" "c_sends (fail c) = c_sends c"
  by (simp_all add: print_def fail_def)

lemma steady_printed: "steady (print str c) c' \<Longrightarrow> steady c c'"
  by (rule steady_trans [OF steady_print]) simp_all

lemma steady_var_system: "steady c (fst (var_system str c))"
  by (auto simp: var_system_def Let_def steady_def fail_def split: list.split)

lemma ctl_send_prefix: "ctl_send str ns sent = Inr (ns', sent') \<Longrightarrow> sent' = sent @ str"
  by (induction str ns sent rule: ctl_send.induct) (auto split: if_splits)

lemma vwrite_line_steady: "vwrite_line str c = Inr c' \<Longrightarrow> steady c c' \<and> c_sent c' = c_sent c @ str @ [newline] \<and> c_recvs c' = c_recvs c"
  by (auto simp: vwrite_line_def res_simps steady_def dest!: ctl_send_prefix)

lemma scan_result_steady: "scan_result echo is start known c = Inr (c', start', known', p) \<Longrightarrow> steady c c' \<and> c_sent c' = c_sent c"
proof (induction "is" arbitrary: echo start known c)
  case (Cons i "is")
  show ?case
    using Cons.prems by (auto simp: Let_def res_simps split: if_splits dest!: Cons.IH steady_printed)
qed simp

text \<open>One round of receiving, when there is room and something arrives.\<close>

lemma recv_round:
  assumes "buf_len < CTL_BUF_SIZE" "got \<noteq> []" "now = take (CTL_BUF_SIZE - buf_len) got"
    "rest = (if length now < length got then drop (length now) got # gots else gots)"
  shows "recv_loop echo (got # gots) buf_len start known c =
    rbind (scan_result echo [buf_len..<buf_len + length now] start known (c\<lparr>c_recvs := rest, r_buf := blit buf_len now (r_buf c)\<rparr>))
      (\<lambda>(c, start, known, p).
        case p of Complete \<Rightarrow> Inr (c, 0) | Malformed \<Rightarrow> Inr (c, -1) | Going \<Rightarrow> recv_loop echo rest (buf_len + length now) start known c)"
proof -
  have "(buf_len \<ge> CTL_BUF_SIZE) = False" "(got = []) = False" using assms(1,2) by simp_all
  then show ?thesis unfolding recv_loop.simps(2) Let_def assms(3,4) by (simp only: fatal_if_False)
qed

lemma recv_loop_steady: "recv_loop echo gots buf_len start known c = Inr (c', ret) \<Longrightarrow> steady c c' \<and> c_sent c' = c_sent c"
proof (induction echo gots buf_len start known c rule: recv_loop.induct)
  case (1 echo buf_len start known c)
  then show ?case by (simp add: recv_loop.simps res_simps)
next
  case (2 echo got gots buf_len start known c)
  define now gots1 where "now = take (CTL_BUF_SIZE - buf_len) got" and "gots1 = (if length now < length got then drop (length now) got # gots else gots)"
  define c1 where "c1 = c\<lparr>c_recvs := gots1, r_buf := blit buf_len now (r_buf c)\<rparr>"
  have g: "\<not> buf_len \<ge> CTL_BUF_SIZE" "\<not> got = []" using "2.prems" by (simp_all add: recv_loop.simps(2) res_simps)
  obtain c2 start2 known2 p where r: "scan_result echo [buf_len..<buf_len + length now] start known c1 = Inr (c2, start2, known2, p)"
    "(case p of Complete \<Rightarrow> Inr (c2, 0) | Malformed \<Rightarrow> Inr (c2, -1)
      | Going \<Rightarrow> recv_loop echo gots1 (buf_len + length now) start2 known2 c2) = Inr (c', ret)"
    using "2.prems" recv_round [OF _ g(2) now_def gots1_def] g(1) by (auto simp: res_simps c1_def)
  have s: "steady c c2" "c_sent c2 = c_sent c" using scan_result_steady [OF r(1)] by (simp_all add: c1_def)
  show ?case
  proof (cases p)
    case Going
    have "steady c2 c' \<and> c_sent c' = c_sent c2"
      using "2.IH" [OF g now_def refl gots1_def c1_def r(1) refl refl refl Going] r(2) Going by simp
    with s show ?thesis using steady_trans by metis
  qed (use r(2) s in auto)
qed

lemma do_server_command_steady:
  "do_server_command echo str c = Inr (c', ret) \<Longrightarrow> steady c c' \<and> c_sent c' = c_sent c @ str @ [newline]"
  by (auto simp: do_server_command_def res_simps dest!: vwrite_line_steady recv_loop_steady intro: steady_trans)

lemma my_getpass_steady: "my_getpass c = (c', r) \<Longrightarrow> steady c c'"
  by (auto simp: my_getpass_def split: list.splits getpass.splits)

lemma yesno_loop_suffix: "yesno_loop ls = (ls', Inr yes) \<Longrightarrow> suffix ls' ls"
  by (induction ls arbitrary: ls') (auto simp: Let_def suffix_ConsI split: if_splits)

lemma yesno_steady: "yesno prompt c = Inr (c', yes) \<Longrightarrow> steady c c'"
  by (auto simp: yesno_def res_simps steady_def print_def dest!: yesno_loop_suffix split: if_splits prod.splits)

lemma ctl_parse_int_steady: "ctl_parse_int inp c = (c', r) \<Longrightarrow> steady c c'"
  by (auto simp: ctl_parse_int_def Let_def split: prod.splits if_splits)

lemma info_names_steady: "info_names key val vs c = (c', r) \<Longrightarrow> steady c c'"
proof (induction vs arbitrary: c r)
  case (Cons nv vs)
  then show ?case
    by (cases nv) (auto simp: Let_def split: if_splits prod.splits option.splits dest!: ctl_parse_int_steady intro: steady_trans)
qed simp

lemma info_loop_steady: "info_loop js vs c = Inr (c', r) \<Longrightarrow> steady c c'"
proof (induction js arbitrary: vs c)
  case (Cons j js)
  then show ?case
    by (fastforce simp: Let_def res_simps split: if_splits prod.splits option.splits dest!: info_names_steady intro: steady_trans)
qed simp

text \<open>The same for computations: rules that follow their structure.\<close>

definition keeps :: "ctl \<Rightarrow> (ctl \<times> 'a) res \<Rightarrow> bool" where
  "keeps c m \<longleftrightarrow> (\<forall>c' r. m = Inr (c', r) \<longrightarrow> steady c c')"

named_theorems keeps_rules \<open>structural rules for computations that leave the options and the consumed input alone\<close>

lemma keepsD: "keeps c m \<Longrightarrow> m = Inr (c', r) \<Longrightarrow> steady c c'"
  by (simp add: keeps_def)

lemma keeps_return [keeps_rules]: "steady c c' \<Longrightarrow> keeps c (Inr (c', r))" "keeps c (Inl e)"
  by (simp_all add: keeps_def)

lemma keeps_bind [keeps_rules]:
  assumes "keeps c m" "\<And>c' r. steady c c' \<Longrightarrow> keeps c (f (c', r))"
  shows "keeps c (rbind m f)"
  using assms unfolding keeps_def rbind_eq_Inr by (metis prod.collapse)

lemma keeps_read [keeps_rules]:
  "(\<And>x. keeps c (fs x)) \<Longrightarrow> keeps c (rbind (ms :: string res) fs)" "(\<And>x. keeps c (fb x)) \<Longrightarrow> keeps c (rbind (mb :: bytes res) fb)"
  "(\<And>x. keeps c (fh x)) \<Longrightarrow> keeps c (rbind (mh :: (hashtbl \<times> nat option) res) fh)"
  by (auto simp: keeps_def res_simps)

lemma keeps_asserting [keeps_rules]: "keeps c m \<Longrightarrow> keeps c (asserting b msg m)"
  by (simp add: keeps_def res_simps)

lemma keeps_primitive [keeps_rules]:
  assumes "steady c0 c"
  shows "keeps c0 (do_server_command echo str c)" "keeps c0 (show_result c)" "keeps c0 (yesno prompt c)" "keeps c0 (parse_info names c)"
  using assms
  by (auto simp: keeps_def parse_info_def show_result_def res_simps dest: do_server_command_steady yesno_steady info_loop_steady intro: steady_trans)

lemma steady_steps [keeps_rules]:
  assumes "steady c0 c"
  shows "steady c0 (print str c)" "steady c0 (fst (var_system str c))" "steady c0 (fst (my_getpass c))" "steady c0 (fst (ctl_parse_int inp c))" "steady c0 (warning c)"
  using assms steady_trans [OF _ steady_var_system] steady_trans [OF _ my_getpass_steady [OF prod.collapse [symmetric]]]
    steady_trans [OF _ ctl_parse_int_steady [OF prod.collapse [symmetric]]] by (simp_all add: warning_def)

lemma ctl_open_create_keeps [keeps_rules]: "steady c0 c \<Longrightarrow> keeps c0 (ctl_open_create_common kdf create argv c)"
  unfolding ctl_open_create_common_def Let_def case_prod_beta
  by (auto intro!: keeps_rules split: option.split)

lemma ctl_resize_keeps [keeps_rules]: "steady c0 c \<Longrightarrow> keeps c0 (ctl_resize argv c)"
  unfolding ctl_resize_def confirm_resize_def Let_def case_prod_beta
  by (auto intro!: keeps_rules split: option.split)

lemma ctl_programs_keep [keeps_rules]:
  assumes "steady c0 c"
  shows "keeps c0 (ctl_mke2fs argv c)" "keeps c0 (ctl_chown argv c)" "keeps c0 (ctl_umount argv c)" "keeps c0 (ctl_help argv c)"
  unfolding ctl_mke2fs_def ctl_chown_def ctl_umount_def ctl_help_def case_prod_beta using assms
  by (auto intro!: keeps_rules)

lemma do_local_keeps:
  assumes "\<And>cmnd argv. keeps c0 (run cmnd argv c)" "steady c0 c"
  shows "keeps c0 (do_local_command run i args c)"
  unfolding do_local_command_def Let_def case_prod_beta using assms
  by (auto intro!: keeps_rules split: option.split)

lemma run_local_keeps:
  assumes "\<And>argv. keeps c0 (mount argv c)" "steady c0 c"
  shows "keeps c0 (run_local kdf mount cmnd argv c)"
  using assms by (cases cmnd) (auto simp: run_local_def ctl_open_def ctl_create_def intro!: keeps_rules)

lemma mount_open_keeps [keeps_rules]: "steady c0 c \<Longrightarrow> keeps c0 (mount_open kdf argv c)"
  unfolding mount_open_def case_prod_beta
  by (auto intro!: keeps_rules do_local_keeps run_local_keeps split: option.split)

lemma ctl_mount_keeps [keeps_rules]: "steady c0 c \<Longrightarrow> keeps c0 (ctl_mount kdf argv c)"
  unfolding ctl_mount_def Let_def case_prod_beta
  by (auto intro!: keeps_rules)

lemma ctl_call_keeps: "keeps c (ctl_call kdf command c)"
  unfolding ctl_call_def Let_def case_prod_beta
  by (auto intro!: keeps_rules do_local_keeps run_local_keeps split: option.split)

section \<open>The program\<close>

text \<open>The value of \<^verbatim>\<open>strtoul\<close> with base ten, a 64 bit \<^verbatim>\<open>unsigned long\<close>, and what is left of the string.\<close>

definition strtoul :: "string \<Rightarrow> u64 \<times> string" where
  "strtoul inp =
     (let s = dropWhile isspace inp;
          neg = (s \<noteq> [] \<and> hd s = CHR ''-'');
          s = (if s \<noteq> [] \<and> hd s \<in> {CHR ''-'', CHR ''+''} then tl s else s);
          ds = takeWhile isdigit s; v = digits_value ds
      in if ds = [] then (0, inp)
         else (if v > 2 ^ 64 - 1 then -1 else if neg then word_of_int (- v) else word_of_int v, drop (length ds) s))"

text \<open>
  The options as \<^verbatim>\<open>getopt\<close> delivers them, with their arguments. The result tells whether the program ends at once, which
  it does after the help text (that text is not part of the model).
\<close>

fun ctl_options :: "(char \<times> string) list \<Rightarrow> ctl \<Rightarrow> (ctl \<times> bool) res" where
  "ctl_options [] c = Inr (c, False)"
| "ctl_options ((opt, optarg) # os) c =
     (if opt = CHR ''q'' then ctl_options os (c\<lparr>c_quiet := True\<rparr>)
      else if opt = CHR ''v'' \<or> opt = CHR ''d'' then ctl_options os c
      else if opt = CHR ''h'' then Inr (c, True)
      else if opt = CHR ''c'' then
        fatal_if (command_option c \<noteq> None) ''only one -c option may be specified'' (
        fatal_if (optarg = []) ''command may not be empty'' (
        ctl_options os (c\<lparr>command_option := Some optarg\<rparr>)))
      else if opt = CHR ''a'' then
        fatal_if (optarg = []) ''socket address may not be empty'' (ctl_options os (c\<lparr>control_socket := optarg\<rparr>))
      else if opt = CHR ''s'' then
        fatal_if (optarg = []) ''salt must not be empty'' (ctl_options os (c\<lparr>kdf_salt := optarg\<rparr>))
      else if opt = CHR ''i'' then
        let (v, end) = strtoul optarg in
        fatal_if (end \<noteq> []) ''error in converting to unsigned long'' (ctl_options os (c\<lparr>kdf_iterations := v\<rparr>))
      else if opt = CHR ''Y'' then ctl_options os (c\<lparr>assume_yes := assume_yes c + 1\<rparr>)
      else if opt = CHR ''?'' then Inl (Fatal ''unrecognized option, use -h for help'')
      else Inl (Assert ''main: 0''))"

definition exit_words :: "string list" where
  "exit_words = [''exit'', ''quit'', ''q'', ''x'', ''bye'', ''kthxbye'', ''thanks'']"

definition next_line :: "ctl \<Rightarrow> ctl \<times> string option" where
  "next_line c =
     (case command_option c of
        Some line \<Rightarrow> (c, Some line)
      | None \<Rightarrow> (case c_lines c of [] \<Rightarrow> (c, None) | l # ls \<Rightarrow> (c\<lparr>c_lines := ls\<rparr>, Some l)))"

function main_loop :: "kdf \<Rightarrow> ctl \<Rightarrow> ctl res" where
  "main_loop kdf c =
     (case next_line c of
        (c1, None) \<Rightarrow> rbind (do_server_command True ''exit'' (print (''^D'' @ [newline]) c1)) (\<lambda>(c, _). Inr c)
      | (c1, Some line) \<Rightarrow>
          if line \<in> set exit_words then rbind (do_server_command True ''exit'' c1) (\<lambda>(c, _). Inr c)
          else
            rbind (ctl_call kdf line c1) (\<lambda>(c2, ret).
            if command_option c2 \<noteq> None then rbind (do_server_command True ''exit'' c2) (\<lambda>(c, _). Inr c)
            else if ret = 0 then main_loop kdf c2 else Inr c2))"
  by pat_completeness auto
termination
proof (relation "measure (\<lambda>(kdf, c). length (c_lines c))")
  fix kdf and c c1 c2 :: ctl and r :: "string option" and line and x :: "ctl \<times> int" and ret
  assume n: "(c1, r) = next_line c" "r = Some line" and call: "ctl_call kdf line c1 = Inr x" "(c2, ret) = x"
    and go: "\<not> command_option c2 \<noteq> None"
  have "steady c1 c2" using keepsD [OF ctl_call_keeps] call by auto
  then have s: "command_option c1 = None" "length (c_lines c2) \<le> length (c_lines c1)"
    using go by (auto simp: steady_def dest: suffix_length_le)
  then have "length (c_lines c1) < length (c_lines c)" using n by (auto simp: next_line_def split: option.splits list.splits)
  with s(2) show "((kdf, c2), (kdf, c)) \<in> measure (\<lambda>(kdf, c). length (c_lines c))" by simp
qed simp

declare main_loop.simps [simp del]

text \<open>
  The program as a whole: the options, whether there are further arguments, whether the socket could be made and connected. The
  result is the state at the end and the exit status. A path that does not fit \<^verbatim>\<open>sun_path\<close> is written past its end.
\<close>

definition SUN_PATH :: nat where "SUN_PATH = 108"

definition ctl_main :: "kdf \<Rightarrow> (char \<times> string) list \<Rightarrow> bool \<Rightarrow> bool \<Rightarrow> bool \<Rightarrow> ctl \<Rightarrow> (ctl \<times> nat) res" where
  "ctl_main kdf opts extra socket_ok connect_ok c =
     rbind (ctl_options opts c) (\<lambda>(c, stop).
     if stop then Inr (c, 0)
     else
       fatal_if extra ''unrecognized argument(s), use -h for help'' (
       rbind (load_table (map fst ctl_commands)) (\<lambda>tbl.
       fatal_if (\<not> socket_ok) ''socket: error'' (
       asserting (length (control_socket c) < SUN_PATH) ''strcpy: past the end of sun_path'' (
       fatal_if (\<not> connect_ok) ''connecting to socket'' (
       rbind (do_server_command False ''static-info'' (c\<lparr>c_tbl := tbl\<rparr>)) (\<lambda>(c, ret).
       fatal_if (ret \<noteq> 0) ''unable to request mountpoint'' (
       fatal_if (r_argc c \<noteq> 3 \<or> r_status c = -1) ''unexpected reply from server'' (
       rbind (result_line 0 c) (\<lambda>mp.
       rbind (result_line 1 c) (\<lambda>blocks.
       (case ctl_parse_int blocks (c\<lparr>c_mountpoint := mp\<rparr>) of
          (c, None) \<Rightarrow> Inl (Fatal ''unable to read the number of macroblocks from the server'')
        | (c, Some n) \<Rightarrow>
            rbind (main_loop kdf (c\<lparr>c_no_macroblocks := n\<rparr>)) (\<lambda>c.
            Inr (c, if command_option c = None then 0 else exit_status c))))))))))))))"

end
