(* ===== verification/Scubed3ctl_Session.thy ===== *)
theory Scubed3ctl_Session
  imports Scubed3ctl
begin

text \<open>
  The protocol between the client and the server. An answer is a line OK or ERR, lines of text, and a line with a dot. The
  theory shows that the client reads the lines of an answer however the bytes arrive, that the answers of the server (theory
  Control_Answers) have this form, and how the words of a line that a client types reach its own table of commands.
\<close>

section \<open>Reading an answer\<close>

text \<open>A line that is stored: its position, and the newline behind it.\<close>

definition line_at :: "string \<Rightarrow> nat \<Rightarrow> string \<Rightarrow> bool" where
  "line_at t off l \<longleftrightarrow> off + length l < length t \<and> bslice off (length l + 1) t = l @ [newline]"

lemma line_at_extend: "line_at t off l \<Longrightarrow> line_at (t @ u) off l"
  by (simp add: line_at_def bslice_def)

text \<open>The bytes as they are in the buffer after they were scanned.\<close>

definition scanned :: "string \<Rightarrow> string" where
  "scanned t = map (\<lambda>x. if x = newline then CHR 0x00 else x) t"

lemma read_line_at:
  assumes "line_at t off l" "newline \<notin> set l" "CHR 0x00 \<notin> set l" "take (length t) buf = scanned t"
  shows "c_string (drop off buf) = l"
proof -
  have len: "off + length l < length t" using assms(1) by (simp add: line_at_def)
  have "take (length l + 1) (drop off buf) = take (length l + 1) (drop off (take (length t) buf))"
    using len by (simp add: drop_take)
  also have "\<dots> = scanned (bslice off (length l + 1) t)" by (simp add: assms(4) scanned_def bslice_def drop_map take_map)
  also have "bslice off (length l + 1) t = l @ [newline]" using assms(1) by (simp add: line_at_def)
  also have "scanned (l @ [newline]) = l @ [CHR 0x00]" using assms(2) by (auto simp: scanned_def intro!: map_idI)
  finally have "drop off buf = l @ CHR 0x00 # drop (length l + 1) (drop off buf)"
    by (metis append.assoc append_Cons append_Nil append_take_drop_id)
  then show ?thesis using assms(3) by (metis c_string_line)
qed

text \<open>What the answer of the server does not touch.\<close>

definition settings :: "ctl \<Rightarrow> ctl" where
  "settings c = c\<lparr>c_recvs := [], r_buf := [], r_argv := [], r_argc := 0, r_status := 0, exit_status := 0, c_printed := []\<rparr>"

lemma settings_simps [simp]:
  "settings (c\<lparr>c_recvs := gs\<rparr>) = settings c" "settings (c\<lparr>r_buf := b\<rparr>) = settings c" "settings (c\<lparr>r_argv := v\<rparr>) = settings c"
  "settings (c\<lparr>r_argc := n\<rparr>) = settings c" "settings (c\<lparr>r_status := s\<rparr>) = settings c" "settings (c\<lparr>exit_status := e\<rparr>) = settings c"
  "settings (c\<lparr>c_printed := str\<rparr>) = settings c" "settings (print str c) = settings c" "settings (fail c) = settings c"
  by (simp_all add: settings_def print_def fail_def)

lemma printed_simps [simp]: "c_printed (print str c) = c_printed c @ str" "c_printed (fail c) = c_printed c"
  by (simp_all add: print_def fail_def)

definition outcome :: "bool \<Rightarrow> ctl \<Rightarrow> bool \<Rightarrow> string list \<Rightarrow> ctl \<Rightarrow> bool" where
  "outcome echo c0 err lines c \<longleftrightarrow>
     r_argc c = length lines \<and> r_status c = (if err then -1 else 0) \<and> exit_status c = (if err then 1 else exit_status c0) \<and>
     c_printed c = c_printed c0 @ (if echo then joined lines else []) \<and> settings c = settings c0 \<and>
     length (r_buf c) = CTL_BUF_SIZE \<and> length (r_argv c) = MAX_RESULT_LINES"

text \<open>
  The state after the text \<open>t\<close> of an answer was received and scanned: the first line is the status, the others are stored; \<open>c0\<close> is
  the state before.
\<close>

definition answer_so_far :: "bool \<Rightarrow> ctl \<Rightarrow> string \<Rightarrow> nat \<Rightarrow> bool \<Rightarrow> ctl \<Rightarrow> bool" where
  "answer_so_far echo c0 t start known c \<longleftrightarrow>
     (let ls = fst (nl_cut t); r = snd (nl_cut t) in
      start + length r = length t \<and> take (length t) (r_buf c) = scanned t \<and> known = (ls \<noteq> []) \<and>
      (\<forall>k<length (tl ls). \<exists>off. r_argv c ! k = Some off \<and> line_at t off (tl ls ! k)) \<and>
      outcome echo c0 (ls \<noteq> [] \<and> hd ls = ''ERR'') (tl ls) c)"

definition good_lines :: "string list \<Rightarrow> bool" where
  "good_lines lines \<longleftrightarrow> (\<forall>l\<in>set lines. newline \<notin> set l \<and> CHR 0x00 \<notin> set l \<and> l \<noteq> ''.'') \<and> length lines \<le> MAX_RESULT_LINES"

text \<open>The state after the whole answer.\<close>

definition answered :: "bool \<Rightarrow> ctl \<Rightarrow> bool \<Rightarrow> string list \<Rightarrow> ctl \<Rightarrow> bool" where
  "answered echo c0 err lines c \<longleftrightarrow> outcome echo c0 err lines c \<and> (\<forall>k<length lines. result_line k c = Inr (lines ! k))"

lemma reply_cut:
  assumes "good_lines lines"
  shows "nl_cut (reply err lines) = (status_text err # lines @ [''.''], [])"
  unfolding reply_def using assms by (intro cut_joined) (auto simp: good_lines_def status_text_def)

text \<open>An ordinary character of a line.\<close>

lemma scan_char:
  assumes inv: "answer_so_far echo c0 t start known c" and x: "r_buf c ! length t = x" "x \<noteq> newline" "length t < CTL_BUF_SIZE"
  shows "scan_result echo [length t] start known c = Inr (c, start, known, Going)" "answer_so_far echo c0 (t @ [x]) start known c"
proof -
  show "scan_result echo [length t] start known c = Inr (c, start, known, Going)" using x by simp
  have "take (length (t @ [x])) (r_buf c) = scanned (t @ [x])"
    using inv x by (auto simp: answer_so_far_def outcome_def Let_def scanned_def take_Suc_conv_app_nth)
  then show "answer_so_far echo c0 (t @ [x]) start known c"
    using inv x(2) by (auto simp: answer_so_far_def Let_def cut_snoc cut_step_def intro: line_at_extend)
qed

text \<open>The end of a line: what the scan sees there.\<close>

lemma scan_line:
  assumes inv: "answer_so_far echo c0 t start known c" and i: "r_buf c ! length t = newline" "length t < CTL_BUF_SIZE"
    and nul: "CHR 0x00 \<notin> set (snd (nl_cut t))"
  shows "c_string (drop start ((r_buf c)[length t := CHR 0x00])) = snd (nl_cut t)"
    "(r_buf c)[length t := CHR 0x00] ! start = CHR ''.'' \<and> length t - start = 1 \<longleftrightarrow> snd (nl_cut t) = ''.''"
    "take (length (t @ [newline])) ((r_buf c)[length t := CHR 0x00]) = scanned (t @ [newline])"
    "line_at (t @ [newline]) start (snd (nl_cut t))"
proof -
  let ?r = "snd (nl_cut t)" and ?buf = "(r_buf c)[length t := CHR 0x00]"
  have st: "start + length ?r = length t" "length ?buf = CTL_BUF_SIZE" "take (length t) (r_buf c) = scanned t"
    using inv by (simp_all add: answer_so_far_def outcome_def Let_def)
  have start: "start = length (joined (fst (nl_cut t)))" using st(1) arg_cong [OF cut_text, of length t] by simp
  have "bslice start (length ?r + 1) (t @ [newline]) = ?r @ [newline]"
    using arg_cong [OF cut_text, of "drop start" t] start st(1) by (simp add: bslice_def)
  then show l: "line_at (t @ [newline]) start ?r" using st(1) by (simp add: line_at_def)
  show b: "take (length (t @ [newline])) ?buf = scanned (t @ [newline])"
    using st i(2) by (simp add: scanned_def take_Suc_conv_app_nth)
  have nn: "newline \<notin> set ?r"
  proof (induction t rule: rev_induct)
    case (snoc x xs)
    then show ?case by (simp add: cut_snoc cut_step_def)
  qed (simp add: nl_cut_def)
  show c: "c_string (drop start ?buf) = ?r" by (rule read_line_at [OF l nn nul b])
  have "?buf ! start = hd (drop start ?buf)" using st i(2) by (simp add: hd_drop_conv_nth)
  moreover have "hd (drop start ?buf) = hd ?r" if "?r \<noteq> []"
    using c that by (cases "drop start ?buf") (auto simp: c_string_def split: if_splits simp flip: c)
  moreover have "length t - start = length ?r" using st(1) by simp
  ultimately show "?buf ! start = CHR ''.'' \<and> length t - start = 1 \<longleftrightarrow> ?r = ''.''"
    by (cases ?r) auto
qed

lemma answer_line:
  assumes inv: "answer_so_far echo c0 t start known c" and i: "r_buf c ! length t = newline" "length t < CTL_BUF_SIZE"
    and good: "good_lines lines" and pre: "prefix (t @ [newline]) (reply err lines)"
  shows "if t @ [newline] = reply err lines
    then \<exists>c'. scan_result echo [length t] start known c = Inr (c', start, known, Complete) \<and> answered echo c0 err lines c' \<and> c_recvs c' = c_recvs c
    else \<exists>c' start'. scan_result echo [length t] start known c = Inr (c', start', True, Going) \<and>
      answer_so_far echo c0 (t @ [newline]) start' True c' \<and> c_recvs c' = c_recvs c \<and> drop (length t + 1) (r_buf c') = drop (length t + 1) (r_buf c)"
proof -
  define ls r where "ls = fst (nl_cut t)" and "r = snd (nl_cut t)"
  define buf where "buf = (r_buf c)[length t := CHR 0x00]"
  have cut: "nl_cut (t @ [newline]) = (ls @ [r], [])" by (simp add: cut_snoc cut_step_def ls_def r_def)
  have "prefix (ls @ [r]) (status_text err # lines @ [''.''])" using cut_prefix [OF pre] reply_cut [OF good, of err] cut by simp
  then obtain more where all: "ls @ r # more = status_text err # lines @ [''.'']" by (auto simp: prefix_def)
  have r: "r \<in> set (status_text err # lines @ [''.''])" unfolding all [symmetric] by simp
  have nul: "CHR 0x00 \<notin> set (snd (nl_cut t))" using r good by (auto simp: r_def good_lines_def status_text_def split: if_splits)
  note sl = scan_line [OF inv i nul, folded buf_def r_def]
  have inv': "known = (ls \<noteq> [])" "\<forall>k<length (tl ls). \<exists>off. r_argv c ! k = Some off \<and> line_at t off (tl ls ! k)"
    "outcome echo c0 (ls \<noteq> [] \<and> hd ls = ''ERR'') (tl ls) c"
    using inv by (simp_all add: answer_so_far_def Let_def ls_def)
  show ?thesis
  proof (cases more rule: rev_cases)
    case Nil
    then have ls: "ls = status_text err # lines" and dot: "r = ''.''" using all by simp_all
    let ?c = "c\<lparr>r_buf := buf\<rparr>"
    have T: "t @ [newline] = reply err lines"
      using cut_text [of t] by (simp add: reply_def joined_def ls dot flip: ls_def r_def)
    have scan: "scan_result echo [length t] start known c = Inr (?c, start, known, Complete)"
      using i(1) sl(2) dot by (simp add: Let_def buf_def)
    have "result_line k ?c = Inr (lines ! k)" if k: "k < length lines" for k
    proof -
      obtain off where off: "r_argv c ! k = Some off" "line_at (t @ [newline]) off (lines ! k)"
        using inv'(2) k ls line_at_extend by fastforce
      have "newline \<notin> set (lines ! k)" "CHR 0x00 \<notin> set (lines ! k)" using good k by (auto simp: good_lines_def)
      with off read_line_at [OF off(2) _ _ sl(3)] show ?thesis by (simp add: result_line_def)
    qed
    moreover have "outcome echo c0 err lines ?c" using inv'(3) ls by (auto simp: outcome_def buf_def status_text_def split: if_splits)
    ultimately have "answered echo c0 err lines ?c" by (simp add: answered_def)
    with T scan show ?thesis by auto
  next
    case (snoc m z)
    then have xs: "status_text err # lines = ls @ r # m" using all by (cases lines rule: rev_cases) (auto simp: append_eq_Cons_conv)
    then have nd: "r \<noteq> ''.''" using good by (auto simp: good_lines_def status_text_def append_eq_Cons_conv Cons_eq_append_conv split: if_splits)
    have T: "t @ [newline] \<noteq> reply err lines" using xs reply_cut [OF good, of err] cut by auto
    have d: "drop (length t + 1) buf = drop (length t + 1) (r_buf c)" by (simp add: buf_def)
    have len: "length t + 1 + 0 = length (t @ [newline])" by simp
    show ?thesis
    proof (cases "ls = []")
      case True
      then have st: "r = status_text err" using xs by simp
      let ?c = "if err then fail (c\<lparr>r_buf := buf, r_status := -1\<rparr>) else c\<lparr>r_buf := buf\<rparr>"
      have "scan_result echo [length t] start known c = Inr (?c, length t + 1, True, Going)"
        using i(1) sl(1,2) nd st True inv'(1) by (simp add: Let_def buf_def status_text_def)
      moreover have "answer_so_far echo c0 (t @ [newline]) (length t + 1) True ?c"
        using sl(3) True inv'(3) st by (simp add: answer_so_far_def Let_def cut outcome_def buf_def status_text_def)
      ultimately show ?thesis using T d by auto
    next
      case False
      then have r: "r \<in> set lines" "length (tl ls) < length lines" using arg_cong [OF xs, of tl] by (simp_all add: tl_append2)
      then have argc: "r_argc c \<noteq> MAX_RESULT_LINES" "length (tl ls) < MAX_RESULT_LINES"
        using good inv'(3) by (auto simp: good_lines_def outcome_def)
      let ?c1 = "if echo then print (r @ [newline]) (c\<lparr>r_buf := buf\<rparr>) else c\<lparr>r_buf := buf\<rparr>"
      let ?c = "?c1\<lparr>r_argv := (r_argv c)[r_argc c := Some start], r_argc := r_argc c + 1\<rparr>"
      have "scan_result echo [length t] start known c = Inr (?c, length t + 1, True, Going)"
        using i(1) sl(1,2) nd False inv'(1) argc(1) by (auto simp: Let_def buf_def)
      moreover have lines: "\<exists>off. (r_argv c)[r_argc c := Some start] ! k = Some off \<and> line_at (t @ [newline]) off ((tl ls @ [r]) ! k)"
        if k: "k < length (tl ls) + 1" for k
      proof (cases "k = length (tl ls)")
        case True
        then show ?thesis using inv'(3) sl(4) argc(2) by (simp add: outcome_def nth_append)
      next
        case False
        then have "k < length (tl ls)" using k by simp
        then obtain off where "r_argv c ! k = Some off" "line_at t off (tl ls ! k)" using inv'(2) by blast
        then show ?thesis using False k inv'(3) line_at_extend by (simp add: outcome_def nth_append)
      qed
      moreover have "answer_so_far echo c0 (t @ [newline]) (length t + 1) True ?c"
        using lines sl(3) False inv'(3) by (simp add: answer_so_far_def Let_def cut outcome_def buf_def joined_def)
      ultimately show ?thesis using T d by auto
    qed
  qed
qed

lemma bslice_Cons:
  assumes "bslice a (Suc n) b = x # xs"
  shows "b ! a = x" "bslice (Suc a) n b = xs"
proof -
  obtain ys where ys: "drop a b = x # ys" "take n ys = xs" using assms by (cases "drop a b") (auto simp: bslice_def)
  show "b ! a = x" by (rule nth_via_drop [OF ys(1)])
  have "drop (Suc a) b = tl (drop a b)" by (simp add: drop_Suc tl_drop)
  with ys show "bslice (Suc a) n b = xs" by (simp add: bslice_def)
qed

lemma scan_cons:
  "scan_result echo (i # is) start known c =
    rbind (scan_result echo [i] start known c) (\<lambda>(c, start, known, p).
      if p = Going then scan_result echo is start known c else Inr (c, start, known, p))"
  by (auto simp: Let_def fatal_if_def)

text \<open>A piece of the answer: the scan goes on unless the piece ends the answer.\<close>

lemma scan_piece:
  assumes "answer_so_far echo c0 t start known c" "good_lines lines" "length (t @ now) \<le> CTL_BUF_SIZE" "prefix (t @ now) (reply err lines)"
    "bslice (length t) (length now) (r_buf c) = now" "t \<noteq> reply err lines"
  shows "if t @ now = reply err lines
    then \<exists>c' start' known'. scan_result echo [length t..<length (t @ now)] start known c = Inr (c', start', known', Complete) \<and>
      answered echo c0 err lines c' \<and> c_recvs c' = c_recvs c
    else \<exists>c' start' known'. scan_result echo [length t..<length (t @ now)] start known c = Inr (c', start', known', Going) \<and>
      answer_so_far echo c0 (t @ now) start' known' c' \<and> c_recvs c' = c_recvs c"
  using assms
proof (induction now arbitrary: t start known c)
  case Nil
  then show ?case by auto
next
  case (Cons x now)
  let ?T = "reply err lines"
  have x: "r_buf c ! length t = x" "length t < CTL_BUF_SIZE" "prefix (t @ [x]) ?T"
    and now: "bslice (length (t @ [x])) (length now) (r_buf c) = now"
    using Cons.prems(3,4) bslice_Cons [of "length t" "length now" "r_buf c" x now] Cons.prems(5) by (auto simp: prefix_def)
  have upt: "[length t..<length (t @ x # now)] = length t # [length (t @ [x])..<length ((t @ [x]) @ now)]" by (simp add: upt_conv_Cons del: upt_Suc)
  have step: "scan_result echo [length t..<length (t @ x # now)] start known c =
      scan_result echo [length (t @ [x])..<length ((t @ [x]) @ now)] start' known' c'"
    if sc: "scan_result echo [length t] start known c = Inr (c', start', known', Going)" for c' start' known'
    unfolding upt by (subst scan_cons) (simp only: sc rbind_Inr prod.case if_True refl)
  have len: "length ((t @ [x]) @ now) \<le> CTL_BUF_SIZE" "prefix ((t @ [x]) @ now) ?T" using Cons.prems(3,4) by simp_all
  show ?case
  proof (cases "x = newline")
    case False
    note sc = scan_char [OF Cons.prems(1) x(1) False x(2)]
    have "t @ [x] \<noteq> ?T" using False by (auto simp: reply_def joined_def)
    from Cons.IH [OF sc(2) Cons.prems(2) len now this] show ?thesis
      unfolding step [OF sc(1)] by (simp only: append.assoc append_Cons append_Nil)
  next
    case True
    note al = answer_line [OF Cons.prems(1) x(1) [unfolded True] x(2) Cons.prems(2) x(3) [unfolded True]]
    show ?thesis
    proof (cases "t @ [newline] = ?T")
      case T': True
      then have nil: "now = []" using Cons.prems(4) True by (auto simp: prefix_def dest: sym)
      then have whole: "t @ x # now = ?T" using T' True by simp
      have upt1: "[length t..<length (t @ x # now)] = [length t]" unfolding nil by simp
      show ?thesis using al unfolding if_P [OF whole] if_P [OF T'] upt1 by blast
    next
      case T': False
      then obtain c' start' where sc: "scan_result echo [length t] start known c = Inr (c', start', True, Going)"
        "answer_so_far echo c0 (t @ [newline]) start' True c'" "c_recvs c' = c_recvs c"
        "drop (length t + 1) (r_buf c') = drop (length t + 1) (r_buf c)" using al by auto
      have "bslice (length (t @ [newline])) (length now) (r_buf c') = now" using now sc(4) True by (simp add: bslice_def)
      from Cons.IH [OF sc(2) Cons.prems(2) len [unfolded True] this T'] show ?thesis
        unfolding step [OF sc(1), unfolded True] sc(3) True by (simp only: append.assoc append_Cons append_Nil)
    qed
  qed
qed

lemma blit_scanned:
  assumes "take n buf = s" "n + length d \<le> length buf"
  shows "take n (blit n d buf) = s" "bslice n (length d) (blit n d buf) = d" "length (blit n d buf) = length buf"
proof -
  have "length (take n buf) = n" using assms(2) by simp
  then show "take n (blit n d buf) = s" "bslice n (length d) (blit n d buf) = d" using assms(1) by (simp_all add: blit_def bslice_def)
  show "length (blit n d buf) = length buf" by (rule length_blit [OF assms(2)])
qed

text \<open>The rest of the answer arrives in any pieces.\<close>

lemma recv_pieces:
  assumes "answer_so_far echo c0 t start known c" "good_lines lines" "length (reply err lines) \<le> CTL_BUF_SIZE"
    "t @ concat gots = reply err lines" "[] \<notin> set gots" "gots \<noteq> []"
  shows "\<exists>c'. recv_loop echo (gots @ rest) (length t) start known c = Inr (c', 0) \<and> answered echo c0 err lines c' \<and> c_recvs c' = rest"
  using assms
proof (induction gots arbitrary: t start known c)
  case (Cons got gots)
  let ?T = "reply err lines" and ?c = "c\<lparr>c_recvs := gots @ rest, r_buf := blit (length t) got (r_buf c)\<rparr>"
  have got: "got \<noteq> []" using Cons.prems(5) by auto
  have len: "length t + length got \<le> CTL_BUF_SIZE" "length t < CTL_BUF_SIZE"
    using Cons.prems(3) got unfolding Cons.prems(4) [symmetric] by (simp, cases got) simp_all
  have now: "got = take (CTL_BUF_SIZE - length t) got" using len(1) by simp
  have b: "length (r_buf c) = CTL_BUF_SIZE" "take (length t) (r_buf c) = scanned t"
    using Cons.prems(1) by (simp_all add: answer_so_far_def Let_def outcome_def)
  note bl = blit_scanned [OF b(2), of got, unfolded b(1), OF len(1)]
  have inv: "answer_so_far echo c0 t start known ?c"
    using Cons.prems(1) bl(1,3) by (simp add: answer_so_far_def Let_def outcome_def)
  have "t \<noteq> ?T" "prefix (t @ got) ?T" using got by (auto simp: Cons.prems(4) [symmetric])
  then have sc: "if t @ got = ?T
    then \<exists>c' start' known'. scan_result echo [length t..<length (t @ got)] start known ?c = Inr (c', start', known', Complete) \<and>
      answered echo c0 err lines c' \<and> c_recvs c' = c_recvs ?c
    else \<exists>c' start' known'. scan_result echo [length t..<length (t @ got)] start known ?c = Inr (c', start', known', Going) \<and>
      answer_so_far echo c0 (t @ got) start' known' c' \<and> c_recvs c' = c_recvs ?c"
    using len(1) bl(2) by (intro scan_piece [OF inv Cons.prems(2)]) simp_all
  have round: "recv_loop echo (got # gots @ rest) (length t) start known c =
    rbind (scan_result echo [length t..<length (t @ got)] start known ?c)
      (\<lambda>(c, start, known, p).
        case p of Complete \<Rightarrow> Inr (c, 0) | Malformed \<Rightarrow> Inr (c, -1) | Going \<Rightarrow> recv_loop echo (gots @ rest) (length (t @ got)) start known c)"
  proof -
    have "gots @ rest = (if length got < length got then drop (length got) got # gots @ rest else gots @ rest)" by simp
    from recv_round [OF len(2) got now this] show ?thesis by (simp only: length_append)
  qed
  show ?case
  proof (cases "t @ got = ?T")
    case True
    then have "gots = []" using Cons.prems(4,5) by (cases gots) (auto simp: True [symmetric])
    with sc True round show ?thesis by auto
  next
    case False
    then have "gots \<noteq> []" using Cons.prems(4) by auto
    with sc False round Cons.IH [OF _ Cons.prems(2,3)] Cons.prems(4,5) show ?thesis by fastforce
  qed
qed simp

definition ctl_ok :: "ctl \<Rightarrow> bool" where
  "ctl_ok c \<longleftrightarrow> length (r_buf c) = CTL_BUF_SIZE \<and> length (r_argv c) = MAX_RESULT_LINES"

text \<open>An answer that is on its way: the pieces, then what comes after it.\<close>

definition arrives :: "string \<Rightarrow> string list \<Rightarrow> ctl \<Rightarrow> bool" where
  "arrives txt rest c \<longleftrightarrow> (\<exists>gots. c_recvs c = gots @ rest \<and> concat gots = txt \<and> [] \<notin> set gots)"

text \<open>The command can be sent, with these results of the coming calls left.\<close>

definition sendable :: "string \<Rightarrow> int list \<Rightarrow> ctl \<Rightarrow> bool" where
  "sendable cmd ns c \<longleftrightarrow> ctl_send (cmd @ [newline]) (c_sends c) (c_sent c) = Inr (ns, c_sent c @ cmd @ [newline])"

definition sent :: "string \<Rightarrow> int list \<Rightarrow> ctl \<Rightarrow> ctl" where
  "sent cmd ns c = c\<lparr>c_sends := ns, c_sent := c_sent c @ cmd @ [newline]\<rparr>"

lemma server_answer:
  assumes "ctl_ok c" "sendable cmd ns c" "arrives (reply err lines) rest c" "good_lines lines" "length (reply err lines) \<le> CTL_BUF_SIZE"
  shows "\<exists>c'. do_server_command echo cmd c = Inr (c', 0) \<and> answered echo (sent cmd ns c) err lines c' \<and> c_recvs c' = rest"
proof -
  let ?c = "(sent cmd ns c)\<lparr>r_status := 0, r_argc := 0\<rparr>"
  obtain gots where gots: "c_recvs c = gots @ rest" "concat gots = reply err lines" "[] \<notin> set gots"
    using assms(3) by (auto simp: arrives_def)
  have "gots \<noteq> []" using gots(2) by (auto simp: reply_def joined_def)
  have "answer_so_far echo (sent cmd ns c) [] 0 False ?c"
    using assms(1) by (simp add: answer_so_far_def outcome_def nl_cut_def scanned_def ctl_ok_def sent_def joined_def)
  from recv_pieces [OF this assms(4,5) _ gots(3) \<open>gots \<noteq> []\<close>] gots(2)
  obtain c' where "recv_loop echo (gots @ rest) 0 0 False ?c = Inr (c', 0)" "answered echo (sent cmd ns c) err lines c'" "c_recvs c' = rest"
    by auto
  then show ?thesis using assms(2) gots(1) by (auto simp: do_server_command_def vwrite_line_def sendable_def sent_def)
qed

lemma answeredD:
  assumes "answered echo c0 err lines c"
  shows "ctl_ok c" "r_argc c = length lines" "r_status c = (if err then -1 else 0)" "exit_status c = (if err then 1 else exit_status c0)"
    "c_printed c = c_printed c0 @ (if echo then joined lines else [])" "settings c = settings c0"
    "\<forall>k<length lines. result_line k c = Inr (lines ! k)"
  using assms by (simp_all add: answered_def outcome_def ctl_ok_def)

section \<open>Arguments\<close>

lemma split_args_words:
  "if argc + length (line_words s) < MAX_ARGC then split_args argc s = Some (line_words s)
   else argc + length (line_words s) > MAX_ARGC \<and> argc \<le> MAX_ARGC \<longrightarrow> split_args argc s = None"
proof (induction argc s rule: split_args.induct)
  case (1 argc s)
  let ?s = "skip_spaces s" and ?r = "tl (dropWhile (\<lambda>c. c \<noteq> CHR '' '') (skip_spaces s))"
  show ?case
  proof (cases "?s = []")
    case True
    then have "line_words s = []" using words_skip [of s] by simp
    moreover have "split_args argc s = (if s = [] \<or> argc < MAX_ARGC then Some [] else None)"
      using True by (subst split_args.simps) (simp add: Let_def word_of_def Suc_le_eq)
    ultimately show ?thesis by auto
  next
    case False
    have "line_words (after_word ?s) = line_words ?r"
      unfolding after_word_def words_skip words_rest by (simp del: dropWhile_eq_Nil_conv split: list.split)
    then have w: "line_words s = word_of ?s # line_words ?r"
      using words_first [OF False skip_spaces_hd [OF False]] by (simp add: words_skip)
    have "s \<noteq> []" "word_of ?s \<noteq> []" using False skip_spaces_hd [OF False] by (auto simp: skip_spaces_def word_of_def takeWhile_eq_Nil_iff)
    then have "split_args argc s = (if argc + 1 > MAX_ARGC then None else map_option ((#) (word_of ?s)) (split_args (argc + 1) ?r))"
      by (subst split_args.simps) (simp add: Let_def)
    with "1.IH" [OF \<open>s \<noteq> []\<close> refl refl _ \<open>word_of ?s \<noteq> []\<close>] w show ?thesis by (auto split: if_splits)
  qed
qed

interpretation lc: name_table "map fst ctl_commands"
  by unfold_locales (simp_all add: ctl_commands_def less_Suc_eq numeral_eq_Suc, auto)

text \<open>The reference: find the first word in the list of commands, and count the others.\<close>

lemma ctl_call_words:
  assumes "load_table (map fst ctl_commands) = Inr (c_tbl c)" "CHR 0x00 \<notin> set command" "line_words command = name # args" "length args < MAX_ARGC"
  shows "ctl_call kdf command c =
    (case map_of ctl_commands name of
       None \<Rightarrow> do_server_command True (skip_spaces command) c
     | Some (cmnd, argc, usage) \<Rightarrow>
         if length args = argc then run_local kdf (ctl_mount kdf) cmnd args c
         else Inr (print (''usage: '' @ name @ usage @ [newline]) c, 0))"
proof -
  let ?s = "skip_spaces command" and ?tmp = "dropWhile (\<lambda>x. x \<noteq> CHR '' '') (skip_spaces command)"
  have ne: "?s \<noteq> []" using assms(3) words_skip [of command] by auto
  have w: "name = word_of ?s" "args = line_words ?tmp"
    using words_first [OF ne skip_spaces_hd [OF ne]] assms(3) by (simp_all add: words_skip after_word_def)
  have "name \<in> set (line_words command)" using assms(3) by simp
  then have nul: "CHR 0x00 \<notin> set name" using words_in_line assms(2) by blast
  have look: "hashtbl_find_element_bykey (ascii name) (c_tbl c) = Inr (c_tbl c, position (map fst ctl_commands) name)"
    by (rule lc.table_lookup [OF lc.table_holds [OF assms(1)] nul])
  have sp: "split_args 0 ?tmp = Some args" using split_args_words [of 0 ?tmp] assms(4) by (simp add: w(2))
  have hd: "argv \<noteq> [] \<Longrightarrow> hd argv \<noteq> []" if "argv = args" for argv
    using that w(2) by (auto simp: line_words_def dest: hd_in_set)
  have c: "c\<lparr>c_tbl := c_tbl c\<rparr> = c" by simp
  show ?thesis
    unfolding position_map_of [OF lc.names_differ] ctl_call_def Let_def w(1) [symmetric] look using sp hd
    by (auto simp: do_local_command_def c Let_def split: option.split prod.split dest!: position_Some)
qed

end
