(* ===== verification/Scubed3ctl_Requests.thy ===== *)
theory Scubed3ctl_Requests
  imports Scubed3ctl_Session
begin

text \<open>
  What the commands of the client do: which commands are local, that a command is answered and the answer understood, that a
  passphrase arrives at the server as the key that was derived from it, which resize requests are sent, and what the exit status is.
\<close>

section \<open>A client for the examples\<close>

definition demo_ctl :: ctl where
  "demo_ctl = \<lparr>c_sends = [99, 99, 999, 99], c_sent = [], c_recvs = [], c_printed = [], c_lines = [], c_tty = [], c_systems = [], c_rets = [],
     r_buf = replicate CTL_BUF_SIZE CHR 0x00, r_argv = replicate MAX_RESULT_LINES None, r_argc = 0, r_status = 0, command_option = None,
     kdf_salt = ''scubed3_prod'', control_socket = ''/tmp/scubed3'', kdf_iterations = DEFAULT_KDF_ITERATIONS, assume_yes = 0, exit_status = 0,
     c_quiet = False, c_tbl = (case load_table (map fst ctl_commands) of Inl e \<Rightarrow> demo_tbl | Inr h \<Rightarrow> h), c_mountpoint = ''/mnt'',
     c_no_macroblocks = 100\<rparr>"

definition demo_kdf :: kdf where
  "demo_kdf pw salt n = Some (take KDF_LENGTH (pw @ salt @ replicate KDF_LENGTH 0))"

lemma demo_ctl_table: "load_table (map fst ctl_commands) = Inr (c_tbl demo_ctl)"
  using lc.table_loaded by (auto simp: demo_ctl_def)

lemma demo_ctl_ok: "ctl_ok (demo_ctl\<lparr>c_recvs := gs\<rparr>)" "ctl_ok demo_ctl"
  by (simp_all add: ctl_ok_def demo_ctl_def)

section \<open>Properties\<close>

text \<open>
  C25: a line that the user types goes to the local command that its first word names, with the other words as arguments if
  their number is right, and to the server otherwise; the in place splitter and the table are word splitting and lookup in a list.
\<close>

theorem ctl_call_dispatches:
  assumes "load_table (map fst ctl_commands) = Inr (c_tbl c)" "CHR 0x00 \<notin> set command" "line_words command = name # args" "length args < MAX_ARGC"
  shows "ctl_call kdf command c =
    (case map_of ctl_commands name of
       None \<Rightarrow> do_server_command True (skip_spaces command) c
     | Some (cmnd, argc, usage) \<Rightarrow>
         if length args = argc then run_local kdf (ctl_mount kdf) cmnd args c
         else Inr (print (''usage: '' @ name @ usage @ [newline]) c, 0))"
  by (rule ctl_call_words [OF assms])

theorem ctl_call_dispatches_witness:
  "ctl_call demo_kdf '' resize  x 4 '' demo_ctl = ctl_resize [''x'', ''4''] demo_ctl"
proof -
  have w: "line_words '' resize  x 4 '' = [''resize'', ''x'', ''4'']" by (simp add: line_words_def)
  have m: "map_of ctl_commands ''resize'' = Some (Ctl_resize, 2, '' NAME MACROBLOCKS'')" by (simp add: ctl_commands_def)
  show ?thesis using ctl_call_dispatches [OF demo_ctl_table _ w] by (simp add: m MAX_ARGC_def run_local_def)
qed

text \<open>
  C17: a command and its answer: what the server writes for a command, cut into pieces in any way on its way, is
  understood by the client: it gets the status and exactly the lines, and nothing of the next answer. The numbers in the command must be
  numbers (\<open>numbers_ok\<close>; otherwise requests to resize and to cycle are answered twice), the lines must not contain zero bytes, none
  of them may be a dot, there may be at most 128 of them, and the answer must fit the buffer.
\<close>

theorem request_and_answer:
  assumes "load_commands = Inr (p_c p)" "CHR 0x00 \<notin> set cmd" "numbers_ok cmd"
    "control_call g cmd (p, \<lparr>sk_out = [], sk_sends = ss\<rparr>) = Inr ((p', sk'), 0)"
    "ctl_ok c" "sendable cmd ns c" "arrives (sk_out sk') rest c" "length (sk_out sk') \<le> CTL_BUF_SIZE"
  shows "\<exists>err lines. plain_lines lines \<and> sk_out sk' = reply err lines \<and>
    (good_lines lines \<longrightarrow>
      (\<exists>c'. do_server_command echo cmd c = Inr (c', 0) \<and> r_status c' = (if err then -1 else 0) \<and> r_argc c' = length lines \<and>
        (\<forall>k<length lines. result_line k c' = Inr (lines ! k)) \<and> c_recvs c' = rest \<and>
        c_printed c' = c_printed c @ (if echo then joined lines else [])))"
proof -
  obtain err lines where r: "plain_lines lines" "sk_out sk' = reply err lines"
    using control_call_replies [OF assms(1-3), of False "\<lparr>sk_out = [], sk_sends = ss\<rparr>" g] assms(4) by (auto simp: replies_def one_answer_def)
  have "\<exists>c'. do_server_command echo cmd c = Inr (c', 0) \<and> r_status c' = (if err then -1 else 0) \<and> r_argc c' = length lines \<and>
      (\<forall>k<length lines. result_line k c' = Inr (lines ! k)) \<and> c_recvs c' = rest \<and>
      c_printed c' = c_printed c @ (if echo then joined lines else [])" if good: "good_lines lines"
  proof -
    obtain c' where c': "do_server_command echo cmd c = Inr (c', 0)" "answered echo (sent cmd ns c) err lines c'" "c_recvs c' = rest"
      using server_answer [OF assms(5,6) assms(7) [unfolded r(2)] good] assms(8) r(2) by auto
    show ?thesis using c' answeredD [OF c'(2)] by (intro exI [of _ c']) (simp add: sent_def)
  qed
  with r show ?thesis by blast
qed

lemma reply_inj:
  assumes "plain_lines ls" "plain_lines ms" "reply e ls = reply f ms"
  shows "ls = ms" "e = f"
proof -
  have "nl_cut (reply e ls) = (status_text e # ls @ [''.''], [])" if "plain_lines ls" for e ls
    unfolding reply_def using that by (intro cut_joined) (auto simp: plain_lines_def status_text_def)
  from this [OF assms(1), of e] this [OF assms(2), of f] assms(3)
  have eq: "status_text e = status_text f" "ls @ [''.''] = ms @ [''.'']" by simp_all
  show "ls = ms" using eq(2) by simp
  show "e = f" using eq(1) by (cases e; cases f) (simp_all add: status_text_def)
qed

theorem request_and_answer_witness:
  "\<exists>c'. do_server_command True ''check-data-integrity x'' (demo_ctl\<lparr>c_recvs := [''ERR'' @ [newline] @ ''not impl'', ''emented'' @ [newline] @ ''.'' @ [newline], ''OK'']\<rparr>)
    = Inr (c', 0) \<and> r_status c' = -1 \<and> result_line 0 c' = Inr ''not implemented'' \<and> c_recvs c' = [''OK'']"
proof -
  let ?cmd = "''check-data-integrity x''" and ?sk = "\<lparr>sk_out = [], sk_sends = [9, 99, 99 :: int]\<rparr>"
  define c where "c = demo_ctl\<lparr>c_recvs := [''ERR'' @ [newline] @ ''not impl'', ''emented'' @ [newline] @ ''.'' @ [newline], ''OK'']\<rparr>"
  have w: "line_words ?cmd = [''check-data-integrity'', ''x'']" by (simp add: line_words_def)
  have m: "map_of control_commands ''check-data-integrity'' = Some (Check_data_integrity, 1, '' NAME'')" by (simp add: control_commands_def)
  obtain sk' where call: "control_call demo_gcrypt ?cmd (demo_priv, ?sk) = Inr ((demo_priv, sk'), 0)" "sk_out sk' = reply True [''not implemented'']"
    using control_call_words [OF demo_priv_commands _ w, of demo_gcrypt ?sk]
    by (simp add: m MAX_ARGC_def run_command_def control_check_data_integrity_def answer_def control_write_complete_def
        control_write_status_def control_vwrite_line_def control_write_string_def and_then_def reply_def joined_def status_text_def)
  have send: "sendable ?cmd [99, 999, 99] c" by (simp add: sendable_def demo_ctl_def c_def)
  have arr: "arrives (sk_out sk') [''OK''] c"
    unfolding arrives_def call(2) c_def
    by (intro exI [of _ "[''ERR'' @ [newline] @ ''not impl'', ''emented'' @ [newline] @ ''.'' @ [newline]]"])
      (simp add: reply_def joined_def status_text_def)
  have len: "length (sk_out sk') \<le> CTL_BUF_SIZE" by (simp add: call(2) reply_def joined_def status_text_def CTL_BUF_SIZE_def)
  have ok: "ctl_ok c" unfolding c_def by (rule demo_ctl_ok)
  have "CHR 0x00 \<notin> set ?cmd" "numbers_ok ?cmd" by (simp_all add: numbers_ok_def w)
  then obtain err lines where r: "plain_lines lines" "sk_out sk' = reply err lines"
    "good_lines lines \<Longrightarrow> \<exists>c'. do_server_command True ?cmd c = Inr (c', 0) \<and> r_status c' = (if err then -1 else 0) \<and>
      (\<forall>k<length lines. result_line k c' = Inr (lines ! k)) \<and> c_recvs c' = [''OK'']"
    using request_and_answer [OF demo_priv_commands _ _ call(1) ok send arr len, of True] by blast
  have "plain_lines [''not implemented'']" by (simp add: plain_lines_def)
  then have "lines = [''not implemented'']" "err" using reply_inj [OF r(1) _ r(2) [symmetric, unfolded call(2)]] by auto
  moreover have "good_lines [''not implemented'']" by (simp add: good_lines_def MAX_RESULT_LINES_def)
  ultimately show ?thesis using r(3) unfolding c_def by fastforce
qed

section \<open>Opening a partition\<close>

lemma settings_fields:
  assumes "settings c' = settings c"
  shows "c_sends c' = c_sends c" "c_sent c' = c_sent c" "c_lines c' = c_lines c" "c_tty c' = c_tty c" "c_systems c' = c_systems c"
    "kdf_salt c' = kdf_salt c" "kdf_iterations c' = kdf_iterations c" "c_tbl c' = c_tbl c" "command_option c' = command_option c"
    "c_no_macroblocks c' = c_no_macroblocks c" "c_mountpoint c' = c_mountpoint c" "assume_yes c' = assume_yes c" "c_quiet c' = c_quiet c"
  using arg_cong [OF assms, of c_sends] arg_cong [OF assms, of c_sent] arg_cong [OF assms, of c_lines] arg_cong [OF assms, of c_tty] arg_cong [OF assms, of c_systems]
    arg_cong [OF assms, of kdf_salt] arg_cong [OF assms, of kdf_iterations] arg_cong [OF assms, of c_tbl] arg_cong [OF assms, of command_option]
    arg_cong [OF assms, of c_no_macroblocks] arg_cong [OF assms, of c_mountpoint] arg_cong [OF assms, of assume_yes] arg_cong [OF assms, of c_quiet]
  by (simp_all add: settings_def)

definition key_request :: "bool \<Rightarrow> string \<Rightarrow> bytes \<Rightarrow> string" where
  "key_request create name hash =
     (if create then ''create'' else ''open'') @ ''-internal '' @ name @ '' CBC_ESSIV(AES256) '' @ hash_text hash"

lemma hash_text_ascii: "ascii (hash_text hash) = base16 False hash"
proof -
  have "(of_char (char_of (unat b) :: char) :: u8) = b" for b :: u8
  proof -
    have "(of_char (char_of (unat b) :: char) :: u8) = of_nat (of_char (char_of (unat b) :: char))" by (simp only: of_nat_of_char)
    also have "\<dots> = of_nat (unat b mod 256)" by simp
    also have "unat b mod 256 = unat b" using unsigned_less [of b, where 'a = nat] by simp
    finally show ?thesis by simp
  qed
  then have "map (of_char \<circ> (\<lambda>b. char_of (unat b))) bs = (bs :: bytes)" for bs by (intro map_idI) simp
  then show ?thesis by (simp add: hash_text_def text_of_def ascii_def)
qed

lemma length_hash_text: "length (hash_text hash) = 2 * length hash"
  by (simp add: hash_text_def text_of_def even_base16)

text \<open>A word that may stand in a command: it is not empty and contains no space and no end of a line.\<close>

definition plain_word :: "string \<Rightarrow> bool" where
  "plain_word w \<longleftrightarrow> w \<noteq> [] \<and> CHR '' '' \<notin> set w"

lemma words_append:
  assumes "plain_word w"
  shows "line_words (w @ CHR '' '' # s) = w # line_words s" "line_words w = [w]"
proof -
  have "word_of (w @ CHR '' '' # s) = w" "dropWhile (\<lambda>c. c \<noteq> CHR '' '') (w @ CHR '' '' # s) = CHR '' '' # s" for s
  proof -
    have "CHR '' '' \<notin> set w" using assms by (simp add: plain_word_def)
    then show "word_of (w @ CHR '' '' # s) = w" "dropWhile (\<lambda>c. c \<noteq> CHR '' '') (w @ CHR '' '' # s) = CHR '' '' # s"
      by (induction w) (auto simp: word_of_def)
  qed
  then show "line_words (w @ CHR '' '' # s) = w # line_words s"
    using assms words_first [of "w @ CHR '' '' # s"] by (cases w) (auto simp: plain_word_def after_word_def words_skip)
  have "word_of w = w" "dropWhile (\<lambda>c. c \<noteq> CHR '' '') w = []" using assms by (auto simp: word_of_def plain_word_def)
  moreover have "after_word w = []" using calculation(2) unfolding after_word_def by (simp only: skip_spaces_def dropWhile.simps(1))
  ultimately show "line_words w = [w]" using assms words_first [of w] by (cases w) (auto simp: plain_word_def)
qed

lemma key_request_words:
  assumes "plain_word name" "hash \<noteq> []"
  shows "line_words (key_request create name hash) = [if create then ''create-internal'' else ''open-internal'', name, ''CBC_ESSIV(AES256)'', hash_text hash]"
proof -
  have "even (length (base16 False hash))" by (simp add: even_base16)
  then have "\<forall>c\<in>set (ascii (hash_text hash)). nibble c \<noteq> None"
    unfolding hash_text_ascii using decode_digits [of "base16 False hash"] by (simp add: decode_base16)
  moreover have "nibble (of_char (CHR '' ''))  = None" by (simp add: nibble_def)
  ultimately have "CHR '' '' \<notin> set (hash_text hash)" by (auto simp: ascii_def)
  moreover have "hash_text hash \<noteq> []" using length_hash_text [of hash] assms(2) by (cases "hash_text hash") auto
  ultimately have "plain_word (hash_text hash)" by (simp add: plain_word_def)
  moreover have "plain_word ''create-internal''" "plain_word ''open-internal''" "plain_word ''CBC_ESSIV(AES256)''" by (simp_all add: plain_word_def)
  moreover have "key_request create name hash = (if create then ''create-internal'' else ''open-internal'') @ CHR '' '' # name @ CHR '' '' #
      ''CBC_ESSIV(AES256)'' @ CHR '' '' # hash_text hash" by (simp add: key_request_def)
  ultimately show ?thesis using assms(1) words_append by (simp only: split: if_split) simp
qed

lemma request_answer:
  assumes "ctl_ok c" "c_sends c = c_sends d" "c_sent c = c_sent d" "c_recvs c = c_recvs d"
    "sendable cmd ns d" "arrives (reply err lines) rest d" "good_lines lines" "length (reply err lines) \<le> CTL_BUF_SIZE"
  shows "\<exists>c'. do_server_command echo cmd c = Inr (c', 0) \<and> answered echo (sent cmd ns c) err lines c' \<and> c_recvs c' = rest"
  using assms(2-6) by (intro server_answer [OF assms(1) _ _ assms(7,8)]) (simp_all add: sendable_def arrives_def)

lemma ready_key:
  assumes "kdf (ascii pw) (ascii (kdf_salt c)) (kdf_iterations c) = Some hash" "length pw < 2 ^ 64 - 1"
  shows "derive_key kdf (pw @ [newline]) (of_nat (length (pw @ [newline]))) c = Inr hash"
proof -
  have "unat (of_nat (length (pw @ [newline])) :: u64) = length pw + 1" using assms(2) by (subst unat_of_nat_small) simp_all
  moreover have "unat (of_nat (length pw) :: u64) = length pw" using assms(2) by (subst unat_of_nat_small) simp_all
  ultimately show ?thesis using assms by (simp add: derive_key_def word_less_nat_alt)
qed

text \<open>
  C18: a passphrase becomes a key: the request that the client sends when a partition is opened or created (in the second case after the
  passphrase was typed twice) is split by the server into the command, the name, the cipher and the hexadecimal notation of what was derived from
  the passphrase without its newline, and the server decodes that to the derived bytes.
\<close>

theorem passphrase_becomes_key:
  assumes "ctl_ok c" "plain_word name" "c_tty c = Line (pw @ [newline]) # (if create then [Line (pw @ [newline])] else []) @ tty" "length pw < 2 ^ 64 - 1"
    "kdf (ascii pw) (ascii (kdf_salt c)) (kdf_iterations c) = Some hash" "length hash = KDF_LENGTH"
    "sendable (''check-available '' @ name) ns c" "arrives (reply False []) rest c"
    "sendable (key_request create name hash) ns' (sent (''check-available '' @ name) ns c)" "arrives (reply err lines) rest' (c\<lparr>c_recvs := rest\<rparr>)"
    "good_lines lines" "length (reply err lines) \<le> CTL_BUF_SIZE"
  shows "(\<exists>c'. ctl_open_create_common kdf create [name] c = Inr (c', 0) \<and> r_status c' = (if err then -1 else 0) \<and> c_tty c' = tty \<and>
      c_sent c' = c_sent c @ ''check-available '' @ name @ [newline] @ key_request create name hash @ [newline]) \<and>
    line_words (key_request create name hash) = [if create then ''create-internal'' else ''open-internal'', name, ''CBC_ESSIV(AES256)'', hash_text hash] \<and>
    (\<exists>buf. unbase16 (ascii (hash_text hash)) (length (hash_text hash)) = Inr (buf, 0) \<and> take KDF_LENGTH buf = hash)"
proof (intro conjI)
  let ?cmd = "''check-available '' @ name" and ?l = "pw @ [newline]"
  have "good_lines []" "length (reply False []) \<le> CTL_BUF_SIZE" by (simp_all add: good_lines_def reply_def joined_def status_text_def CTL_BUF_SIZE_def)
  then obtain c1 where c1: "do_server_command True ?cmd c = Inr (c1, 0)" "answered True (sent ?cmd ns c) False [] c1" "c_recvs c1 = rest"
    using server_answer [OF assms(1,7,8)] by blast
  note a1 = answeredD [OF c1(2)] and f1 = settings_fields [OF answeredD(6) [OF c1(2)]]
  define c2 where "c2 = print [newline] ((print ''Enter passphrase: '' c1)\<lparr>c_tty := (if create then [Line ?l] else []) @ tty\<rparr>)"
  define c3 where "c3 = (if create then print [newline] ((print ''Verify passphrase: '' c2)\<lparr>c_tty := tty\<rparr>) else c2)"
  have g1: "my_getpass (print ''Enter passphrase: '' c1) = (c2, Some (?l, of_nat (length ?l)))"
    using assms(3) f1 by (simp add: my_getpass_def c2_def sent_def)
  have g2: "my_getpass (print ''Verify passphrase: '' c2) = (c3, Some (?l, of_nat (length ?l)))" if create
    using that by (simp add: my_getpass_def c2_def c3_def)
  have k: "derive_key kdf ?l (of_nat (length ?l)) c3 = Inr hash"
    using f1 assms(5) by (intro ready_key [OF _ assms(4)]) (simp add: c3_def c2_def sent_def print_def)
  have key: "take 64 (hash_text (take KDF_LENGTH hash)) = hash_text hash" using length_hash_text [of hash] assms(6) by (simp add: KDF_LENGTH_def)
  have c3: "ctl_ok c3" "c_sends c3 = c_sends (sent ?cmd ns c)" "c_sent c3 = c_sent (sent ?cmd ns c)" "c_recvs c3 = rest" "c_tty c3 = tty"
    using a1(1) f1 c1(3) by (simp_all add: c3_def c2_def ctl_ok_def print_def)
  obtain c' where c': "do_server_command True (key_request create name hash) c3 = Inr (c', 0)"
    "answered True (sent (key_request create name hash) ns' c3) err lines c'"
    using server_answer [OF c3(1) _ _ assms(11,12), of _ ns' rest' True] assms(9,10) c3(2-4) by (auto simp: sendable_def arrives_def)
  have bound: "unat (of_nat (length ?l) :: u64) \<le> length ?l" using assms(4) by (subst unat_of_nat_small) simp_all
  have run: "ctl_open_create_common kdf create [name] c = Inr (c', 0)"
  proof (cases create)
    case True
    then show ?thesis
      using c1(1) a1(3) g1 g2 [OF True] k key bound c'(1) unfolding ctl_open_create_common_def
      by (simp add: key_request_def del: length_append)
  next
    case False
    then have "c3 = c2" by (simp add: c3_def)
    with False show ?thesis
      using c1(1) a1(3) g1 k key c'(1) unfolding ctl_open_create_common_def by (simp add: key_request_def del: length_append)
  qed
  note a2 = answeredD [OF c'(2)] and f2 = settings_fields [OF answeredD(6) [OF c'(2)]]
  show "\<exists>c'. ctl_open_create_common kdf create [name] c = Inr (c', 0) \<and> r_status c' = (if err then -1 else 0) \<and> c_tty c' = tty \<and>
      c_sent c' = c_sent c @ ''check-available '' @ name @ [newline] @ key_request create name hash @ [newline]"
    using run a2(3) f2 c3 by (intro exI [of _ c']) (simp add: sent_def)
  show "line_words (key_request create name hash) = [if create then ''create-internal'' else ''open-internal'', name, ''CBC_ESSIV(AES256)'', hash_text hash]"
    using assms(6) by (intro key_request_words [OF assms(2)]) (auto simp: KDF_LENGTH_def)
  show "\<exists>buf. unbase16 (ascii (hash_text hash)) (length (hash_text hash)) = Inr (buf, 0) \<and> take KDF_LENGTH buf = hash"
    using unbase16_decode [of "base16 False hash" "[]"] assms(6) by (auto simp: hash_text_ascii even_base16 decode_base16 length_hash_text)
qed

theorem passphrase_becomes_key_witness:
  "\<exists>c' hash. demo_kdf (ascii ''ab'') (ascii ''scubed3_prod'') DEFAULT_KDF_ITERATIONS = Some hash \<and>
    ctl_open demo_kdf [''x''] (demo_ctl\<lparr>c_tty := [Line (''ab'' @ [newline])], c_recvs := [reply False [], reply False []]\<rparr>) = Inr (c', 0) \<and>
    r_status c' = 0 \<and> c_sent c' = ''check-available x'' @ [newline] @ key_request False ''x'' hash @ [newline]"
proof -
  define c where "c = demo_ctl\<lparr>c_tty := [Line (''ab'' @ [newline])], c_recvs := [reply False [], reply False []]\<rparr>"
  define hash where "hash = take KDF_LENGTH (ascii ''ab'' @ ascii ''scubed3_prod'' @ replicate KDF_LENGTH 0)"
  have h: "length hash = KDF_LENGTH" by (simp add: hash_def KDF_LENGTH_def)
  have c: "ctl_ok c" "c_tty c = Line (''ab'' @ [newline]) # (if False then [Line (''ab'' @ [newline])] else []) @ []" "c_sends c = [99, 99, 999, 99]"
    "c_sent c = []" "kdf_salt c = ''scubed3_prod''" "kdf_iterations c = DEFAULT_KDF_ITERATIONS" "c_recvs c = [reply False [], reply False []]"
    by (simp_all add: c_def demo_ctl_def ctl_ok_def)
  have k: "demo_kdf (ascii ''ab'') (ascii (kdf_salt c)) (kdf_iterations c) = Some hash" by (simp add: demo_kdf_def c hash_def)
  have s1: "sendable (''check-available '' @ ''x'') [99, 999, 99] c" by (simp add: sendable_def c)
  have "length (key_request False ''x'' hash @ [newline]) = 99" using h by (simp add: key_request_def length_hash_text KDF_LENGTH_def)
  then have s2: "sendable (key_request False ''x'' hash) [999, 99] (sent (''check-available '' @ ''x'') [99, 999, 99] c)"
    by (simp add: sendable_def sent_def c)
  have ne: "reply False [] \<noteq> []" by (simp add: reply_def joined_def)
  have a1: "arrives (reply False []) [reply False []] c" unfolding arrives_def c using ne by (intro exI [of _ "[reply False []]"]) simp
  have a2: "arrives (reply False []) [] (c\<lparr>c_recvs := [reply False []]\<rparr>)" unfolding arrives_def using ne by (intro exI [of _ "[reply False []]"]) simp
  have g: "good_lines []" "length (reply False []) \<le> CTL_BUF_SIZE"
    by (simp_all add: good_lines_def reply_def joined_def status_text_def CTL_BUF_SIZE_def)
  have "plain_word ''x''" "length ''ab'' < 2 ^ 64 - 1" by (simp_all add: plain_word_def)
  then have "\<exists>c'. ctl_open_create_common demo_kdf False [''x''] c = Inr (c', 0) \<and> r_status c' = 0 \<and>
      c_sent c' = ''check-available x'' @ [newline] @ key_request False ''x'' hash @ [newline]"
    using passphrase_becomes_key [of c "''x''" "''ab''" False "[]" demo_kdf hash "[99, 999, 99]" "[reply False []]" "[999, 99]" False "[]" "[]"]
      c(1,2,4) k h s1 a1 s2 a2 g by auto
  with k c(5,6) show ?thesis unfolding c_def [symmetric] ctl_open_def by auto
qed

section \<open>Resizing\<close>

text \<open>What is left of the socket by the operations that only read the answer or ask the user.\<close>

lemma ctl_parse_int_sent: "ctl_parse_int inp c = (c', r) \<Longrightarrow> c_sent c' = c_sent c \<and> (\<forall>n. r = Some n \<longrightarrow> snd (strtol inp) = [] \<and> n = sint (word_of_int (fst (strtol inp)) :: u32))"
  by (auto simp: ctl_parse_int_def Let_def split: prod.splits if_splits)

lemma info_names_sent: "info_names key val vs c = (c', r) \<Longrightarrow> c_sent c' = c_sent c"
proof (induction vs arbitrary: c r)
  case (Cons nv vs)
  then show ?case
    by (cases nv) (auto simp: Let_def split: if_splits prod.splits option.splits dest!: ctl_parse_int_sent)
qed simp

lemma info_loop_sent: "info_loop js vs c = Inr (c', r) \<Longrightarrow> c_sent c' = c_sent c"
proof (induction js arbitrary: vs c)
  case (Cons j js)
  then show ?case by (fastforce simp: Let_def res_simps split: if_splits prod.splits option.splits dest!: info_names_sent)
qed simp

lemma yesno_loop_Yes: "yesno_loop ls = (ls', Inr True) \<Longrightarrow> ''Yes'' \<in> set ls"
  by (induction ls) (auto simp: Let_def split: if_splits)

lemma yesno_sent: "yesno prompt c = Inr (c', yes) \<Longrightarrow> c_sent c' = c_sent c \<and> (yes \<longrightarrow> assume_yes c \<ge> 3 \<or> ''Yes'' \<in> set (c_lines c))"
  by (auto simp: yesno_def res_simps dest!: yesno_loop_Yes split: if_splits prod.splits)

definition reserved_for :: "int \<Rightarrow> int" where
  "reserved_for new = (if new > 0 then (new - 1) div 4 + 1 else 0)"

lemma reserved_bounds: "0 \<le> new \<Longrightarrow> 0 \<le> reserved_for new \<and> reserved_for new \<le> new \<and> new \<le> 4 * reserved_for new"
  by (simp add: reserved_for_def) presburger

definition resize_request :: "string \<Rightarrow> int \<Rightarrow> string" where
  "resize_request name new = ''resize-internal '' @ name @ '' '' @ show_int new @ '' '' @ show_int (reserved_for new)"

lemma show_int_word: "plain_word (show_int i)"
proof -
  have "c \<noteq> CHR '' ''" if "isdigit c" for c using that by (auto simp: isdigit_def)
  then have "CHR '' '' \<notin> set (show_nat n)" for n using show_nat_digits(2) [of n] by (auto simp: list_all_iff)
  then show ?thesis using show_nat_digits(1) by (auto simp: plain_word_def show_int_def)
qed

lemma resize_request_numbers:
  assumes "plain_word name"
  shows "line_words (resize_request name new) = [''resize-internal'', name, show_int new, show_int (reserved_for new)]" "numbers_ok (resize_request name new)"
proof -
  have "resize_request name new = ''resize-internal'' @ CHR '' '' # name @ CHR '' '' # show_int new @ CHR '' '' # show_int (reserved_for new)"
    by (simp add: resize_request_def)
  moreover have "plain_word ''resize-internal''" by (simp add: plain_word_def)
  ultimately show w: "line_words (resize_request name new) = [''resize-internal'', name, show_int new, show_int (reserved_for new)]"
    using assms show_int_word words_append by (simp only:)
  show "numbers_ok (resize_request name new)" by (simp add: numbers_ok_def w strtol_show_int)
qed

lemma confirm_resize_sent:
  assumes "confirm_resize name new n c = Inr (c', yes)"
  shows "c_sent c' = c_sent c" "yes \<Longrightarrow> assume_yes c \<ge> 3 \<or> ''Yes'' \<in> set (c_lines c)"
  using assms by (auto simp: confirm_resize_def warning_def res_simps print_def dest!: yesno_sent split: if_splits)

text \<open>
  C19: resize requests: whatever the server answers and the user types, the client asks for the state of the partition and then sends at most one resize
  request. It sends one only with consent, only for a size between zero and the size of the base device, with at least a quarter
  of the blocks reserved and not more than all of them; its numbers are read by the server as they were meant, so it is answered once.
\<close>

theorem resize_request_is_sane:
  assumes "ctl_resize [name, num] c = Inr (c', ret)" "plain_word name"
  shows "c_sent c' = c_sent c @ ''info '' @ name @ [newline] \<or>
    (\<exists>new. c_sent c' = c_sent c @ ''info '' @ name @ [newline] @ resize_request name new @ [newline] \<and>
      snd (strtol num) = [] \<and> new = sint (word_of_int (fst (strtol num)) :: u32) \<and> 0 \<le> new \<and> new \<le> c_no_macroblocks c \<and>
      0 \<le> reserved_for new \<and> reserved_for new \<le> new \<and> new \<le> 4 * reserved_for new \<and>
      (assume_yes c \<ge> 3 \<or> ''Yes'' \<in> set (c_lines c)) \<and> numbers_ok (resize_request name new))"
proof -
  let ?info = "c_sent c @ ''info '' @ name @ [newline]"
  obtain c1 r1 where c1: "do_server_command False (''info '' @ name) c = Inr (c1, r1)"
    using assms(1) by (auto simp: ctl_resize_def res_simps)
  have s1: "steady c c1" "c_sent c1 = ?info" using do_server_command_steady [OF c1] by simp_all
  show ?thesis
  proof (cases "r1 = 0 \<and> r_status c1 = 0")
    case False
    then show ?thesis using assms(1) c1 s1(2) by (auto simp: ctl_resize_def show_result_def res_simps split: if_splits)
  next
    case ok: True
    obtain c2 info where c2: "parse_info [''no_macroblocks''] c1 = Inr (c2, info)"
      using assms(1) c1 ok by (auto simp: ctl_resize_def res_simps)
    have s2: "steady c1 c2" "c_sent c2 = ?info" using c2 info_loop_steady info_loop_sent s1(2) by (auto simp: parse_info_def)
    obtain c3 r3 where c3: "ctl_parse_int num c2 = (c3, r3)" by (cases "ctl_parse_int num c2")
    have s3: "steady c2 c3" "c_sent c3 = ?info" using ctl_parse_int_steady [OF c3] ctl_parse_int_sent [OF c3] s2(2) by simp_all
    have st: "steady c c3" by (rule steady_trans [OF s1(1) steady_trans [OF s2(1) s3(1)]])
    show ?thesis
    proof (cases "info = None \<or> r3 = None")
      case True
      then show ?thesis using assms(1) c1 c2 c3 ok s2(2) s3(2) by (auto simp: ctl_resize_def res_simps split: option.splits)
    next
      case False
      then obtain vs new where some: "info = Some vs" "r3 = Some new" by auto
      note parsed = ctl_parse_int_sent [OF c3, unfolded some(2)]
      show ?thesis
      proof (cases "c_sent c' = ?info")
        case False
        obtain n where n: "snd (vs ! 0) = Some n"
          using assms(1) c1 c2 c3 ok some by (cases "snd (vs ! 0)") (auto simp: ctl_resize_def)
        note steps = c1 c2 c3 ok some n
        have lim: "new \<noteq> n" "0 \<le> new" "new \<le> c_no_macroblocks c3"
          using assms(1) False s3(2) steps by (auto simp: ctl_resize_def split: if_splits)
        obtain c4 yes where c4: "confirm_resize name new n c3 = Inr (c4, yes)"
          "(if \<not> yes then Inr (c4, 0) else do_server_command True (''resize-internal '' @ [name, num] ! 0 @ '' '' @ show_int new @ '' '' @
            show_int (if 0 < new then (new - 1) div 4 + 1 else 0)) c4) = Inr (c', ret)"
          using assms(1) lim steps by (auto simp: ctl_resize_def res_simps)
        have yes: yes using c4 False confirm_resize_sent(1) [OF c4(1)] s3(2) by (auto split: if_splits)
        then have req: "do_server_command True (resize_request name new) c4 = Inr (c', ret)"
          using c4(2) by (simp add: resize_request_def reserved_for_def)
        have "c_sent c4 = ?info" "assume_yes c3 \<ge> 3 \<or> ''Yes'' \<in> set (c_lines c3)" using confirm_resize_sent [OF c4(1)] yes s3(2) by simp_all
        moreover have "assume_yes c3 = assume_yes c" "c_no_macroblocks c3 = c_no_macroblocks c" "set (c_lines c3) \<subseteq> set (c_lines c)"
          using st set_mono_suffix by (auto simp: steady_def)
        ultimately show ?thesis
          using do_server_command_steady [OF req] lim(2,3) parsed reserved_bounds [OF lim(2)] resize_request_numbers(2) [OF assms(2), of new]
          by (intro disjI2 exI [of _ new]) auto
      qed simp
    qed
  qed
qed

theorem resize_request_is_sane_witness:
  "\<exists>c'. ctl_resize [''x'', ''8''] (demo_ctl\<lparr>assume_yes := 3, c_recvs := [reply False [''no_macroblocks=4''], reply False []]\<rparr>) = Inr (c', 0) \<and>
    c_sent c' = ''info x'' @ [newline] @ resize_request ''x'' 8 @ [newline] \<and> reserved_for 8 = 2"
proof -
  define c where "c = demo_ctl\<lparr>assume_yes := 3, c_recvs := [reply False [''no_macroblocks=4''], reply False []]\<rparr>"
  have c: "ctl_ok c" "c_sends c = [99, 99, 999, 99]" "c_sent c = []" "c_recvs c = [reply False [''no_macroblocks=4''], reply False []]"
    "assume_yes c = 3" "\<not> c_quiet c" "c_no_macroblocks c = 100" by (simp_all add: c_def demo_ctl_def ctl_ok_def)
  have ne: "[] \<noteq> reply False ls" for ls by (simp add: reply_def joined_def)
  have g: "good_lines [''no_macroblocks=4'']" "length (reply False [''no_macroblocks=4'']) \<le> CTL_BUF_SIZE" "good_lines []" "length (reply False []) \<le> CTL_BUF_SIZE"
    by (simp_all add: good_lines_def reply_def joined_def status_text_def CTL_BUF_SIZE_def MAX_RESULT_LINES_def)
  have "sendable ''info x'' [99, 999, 99] c" by (simp add: sendable_def c)
  moreover have "arrives (reply False [''no_macroblocks=4'']) [reply False []] c"
    unfolding arrives_def c using ne by (intro exI [of _ "[reply False [''no_macroblocks=4'']]"]) simp
  ultimately obtain c1 where c1: "do_server_command False ''info x'' c = Inr (c1, 0)"
    "answered False (sent ''info x'' [99, 999, 99] c) False [''no_macroblocks=4''] c1" "c_recvs c1 = [reply False []]"
    using server_answer [OF c(1) _ _ g(1,2)] by blast
  note a1 = answeredD [OF c1(2)] and f1 = settings_fields [OF answeredD(6) [OF c1(2)]]
  have f1: "c_sends c1 = [99, 999, 99]" "c_sent c1 = ''info x'' @ [newline]" "assume_yes c1 = 3" "\<not> c_quiet c1" "c_no_macroblocks c1 = 100"
    using f1 c by (simp_all add: sent_def)
  have num: "strtol ''4'' = (4, [])" "strtol ''8'' = (8, [])" by (simp_all add: strtol_def isspace_def isdigit_def digits_value_def)
  obtain b where info: "parse_info [''no_macroblocks''] c1 = Inr (c1\<lparr>r_buf := b\<rparr>, Some [(''no_macroblocks'', Some 4)])" "length b = CTL_BUF_SIZE"
    using a1(1,2,7) num by (simp add: parse_info_def ctl_parse_int_def ctl_ok_def)
  have "\<exists>c4. confirm_resize ''x'' 8 4 (c1\<lparr>r_buf := b\<rparr>) = Inr (c4, True) \<and> ctl_ok c4 \<and> c_sends c4 = [99, 999, 99] \<and> c_sent c4 = ''info x'' @ [newline] \<and> c_recvs c4 = [reply False []]"
    using f1 a1(1) info(2) c1(3) by (simp add: confirm_resize_def yesno_def warning_def ctl_ok_def print_def)
  then obtain c4 where c4: "confirm_resize ''x'' 8 4 (c1\<lparr>r_buf := b\<rparr>) = Inr (c4, True)" "ctl_ok c4" "c_sends c4 = [99, 999, 99]"
    "c_sent c4 = ''info x'' @ [newline]" "c_recvs c4 = [reply False []]" by blast
  have digits: "char_of (56 :: nat) = CHR ''8''" "char_of (50 :: nat) = CHR ''2''" by code_simp+
  have req: "resize_request ''x'' 8 = ''resize-internal x 8 2''" by (simp add: resize_request_def reserved_for_def show_int_def show_nat.simps digits)
  have "sendable ''resize-internal x 8 2'' [999, 99] c4" by (simp add: sendable_def c4)
  moreover have "arrives (reply False []) [] c4" unfolding arrives_def c4 using ne by (intro exI [of _ "[reply False []]"]) simp
  ultimately obtain c' where c': "do_server_command True ''resize-internal x 8 2'' c4 = Inr (c', 0)"
    using server_answer [OF c4(2) _ _ g(3,4)] by blast
  have "ctl_resize [''x'', ''8''] c = Inr (c', 0)"
    using c1(1) a1(3) info(1) num c4(1) f1(5) c' by (simp add: ctl_resize_def ctl_parse_int_def show_int_def show_nat.simps digits)
  with resize_request_is_sane [of "''x''" "''8''" c c' 0] do_server_command_steady [OF c'] c(3) c4(4) show ?thesis
    unfolding c_def [symmetric] by (auto simp: plain_word_def req num reserved_for_def)
qed

section \<open>The exit status\<close>

text \<open>
  C20: a local command with a wrong number of arguments that is given as an option only shows how it is used: nothing but the end of the session
  is sent, and the program exits with the status that it had before, which is success.
\<close>

theorem refused_command_exits_with_success:
  assumes "load_table (map fst ctl_commands) = Inr (c_tbl c)" "command_option c = Some line" "line \<notin> set exit_words" "CHR 0x00 \<notin> set line"
    "line_words line = name # args" "length args < MAX_ARGC" "map_of ctl_commands name = Some (cmnd, argc, usage)" "length args \<noteq> argc"
    "ctl_ok c" "sendable ''exit'' ns c" "arrives (reply False []) rest c"
  shows "\<exists>c'. main_loop kdf c = Inr c' \<and> exit_status c' = exit_status c \<and> c_sent c' = c_sent c @ ''exit'' @ [newline] \<and>
    c_printed c' = c_printed c @ ''usage: '' @ name @ usage @ [newline]"
proof -
  let ?c = "print (''usage: '' @ name @ usage @ [newline]) c"
  have call: "ctl_call kdf line c = Inr (?c, 0)" using ctl_call_words [OF assms(1,4,5,6)] assms(7,8) by simp
  have "good_lines []" "length (reply False []) \<le> CTL_BUF_SIZE" by (simp_all add: good_lines_def reply_def joined_def status_text_def CTL_BUF_SIZE_def)
  then obtain c' where c': "do_server_command True ''exit'' ?c = Inr (c', 0)" "answered True (sent ''exit'' ns ?c) False [] c'"
    using server_answer [of ?c "''exit''" ns False "[]" rest True] assms(9-11) by (auto simp: ctl_ok_def sendable_def arrives_def)
  have "command_option ?c = Some line" using assms(2) by (simp add: print_def)
  then have "main_loop kdf c = Inr c'" using assms(2,3) call c'(1) by (subst main_loop.simps) (simp add: next_line_def)
  then show ?thesis using answeredD [OF c'(2)] settings_fields(2) [OF answeredD(6) [OF c'(2)]] by (simp add: sent_def joined_def)
qed

theorem refused_command_exits_with_success_witness:
  "\<exists>c'. main_loop demo_kdf (demo_ctl\<lparr>command_option := Some ''mount x'', c_recvs := [reply False []]\<rparr>) = Inr c' \<and> exit_status c' = 0"
proof -
  define c where "c = demo_ctl\<lparr>command_option := Some ''mount x'', c_recvs := [reply False []]\<rparr>"
  have c: "load_table (map fst ctl_commands) = Inr (c_tbl c)" "command_option c = Some ''mount x''" "ctl_ok c" "exit_status c = 0"
    "sendable ''exit'' [99, 999, 99] c" using demo_ctl_table by (simp_all add: c_def demo_ctl_def ctl_ok_def sendable_def)
  have w: "line_words ''mount x'' = [''mount'', ''x'']" by (simp add: line_words_def)
  have m: "map_of ctl_commands ''mount'' = Some (Ctl_mount, 2, '' NAME MOUNTPOINT'')" by (simp add: ctl_commands_def)
  have "[] \<noteq> reply False []" by (simp add: reply_def joined_def)
  then have a: "arrives (reply False []) [] c" unfolding arrives_def by (intro exI [of _ "[reply False []]"]) (simp add: c_def)
  have "''mount x'' \<notin> set exit_words" "CHR 0x00 \<notin> set ''mount x''" "length [''x''] < MAX_ARGC" "length [''x''] \<noteq> 2"
    by (simp_all add: exit_words_def MAX_ARGC_def)
  from refused_command_exits_with_success [OF c(1,2) this(1,2) w this(3) m this(4) c(3,5) a, of demo_kdf] c(4) show ?thesis
    unfolding c_def [symmetric] by auto
qed

end
