(* ===== verification/Service.thy ===== *)
theory Service
  imports Control
begin

text \<open>
  The server as a process: the options of main in scubed3.c, start and stop of the service, and the thread of control.c that accepts connections. The
  theorems show that a client that sends one line at a time is served command by command, and what the options do to
  the memory in which they are stored.
\<close>

section \<open>Options\<close>

text \<open>
  The options as the library finds them on the command line, in their order. The structure has a pointer, then one byte for the logarithm of the size of a mesoblock, one for
  that of a macroblock, and padding; the eight bytes behind the pointer are \<open>o_tail\<close>.
\<close>

datatype scubed3_opt = Opt_b string | Opt_m int | Opt_M int

record options_s =
  o_base :: "string option"
  o_tail :: bytes

text \<open>The conversion %d stores an \<^verbatim>\<open>int\<close>: four bytes, the lowest one first.\<close>

definition int_bytes :: "int \<Rightarrow> bytes" where
  "int_bytes v = (let w = word_of_int v :: u32 in [ucast w, ucast (drop_bit 8 w), ucast (drop_bit 16 w), ucast (drop_bit 24 w)])"

definition store_option :: "scubed3_opt \<Rightarrow> options_s \<Rightarrow> options_s" where
  "store_option opt ops =
     (case opt of
        Opt_b base \<Rightarrow> ops\<lparr>o_base := Some base\<rparr>
      | Opt_m v \<Rightarrow> ops\<lparr>o_tail := blit 0 (int_bytes v) (o_tail ops)\<rparr>
      | Opt_M v \<Rightarrow> ops\<lparr>o_tail := blit 1 (int_bytes v) (o_tail ops)\<rparr>)"

definition default_options :: options_s where
  "default_options = \<lparr>o_base = None, o_tail = [14, 22, 0, 0, 0, 0, 0, 0]\<rparr>"

text \<open>
  The main program up to the point where the file system library takes over; \<open>None\<close>: the library reports an error in the options. \<open>back\<close> is what a
  path refers to.
\<close>

definition scubed3_main :: "(string \<Rightarrow> backing) \<Rightarrow> bool \<Rightarrow> scubed3_opt list option \<Rightarrow> service res" where
  "scubed3_main back ec opts =
     (case opts of
        None \<Rightarrow> Inl (Fatal ''error parsing options'')
      | Some os \<Rightarrow>
          let ops = fold store_option os default_options in
          case o_base ops of
            None \<Rightarrow> Inl (Fatal ''argument -b FILE is required'')
          | Some base \<Rightarrow>
              rbind (blockio_init_file (back base) (unat (o_tail ops ! 1)) (unat (o_tail ops ! 0))) (\<lambda>b. fuse_io_start b ec))"

section \<open>Connections\<close>

text \<open>
  The control thread: whether the socket could be made, bound, restricted to its owner and put to use, and then the connections one after the other. A connection
  has what the buffer contains when it begins, the results of sending, and the packets of the peer. Without a further connection the call of
  accept fails.
\<close>

fun accept_loop :: "gcrypt \<Rightarrow> (string \<times> int list \<times> string list) list \<Rightarrow> control_thread_priv \<Rightarrow> control_thread_priv res" where
  "accept_loop g [] p = Inl (Fatal ''accept: error'')"
| "accept_loop g ((buf, sends, packets) # cs) p =
     rbind (serve g packets (buf, 0) (p, \<lparr>sk_out = [], sk_sends = sends\<rparr>)) (\<lambda>(p, _). accept_loop g cs p)"

definition control_thread ::
    "gcrypt \<Rightarrow> bool \<Rightarrow> bool \<Rightarrow> bool \<Rightarrow> bool \<Rightarrow> (string \<times> int list \<times> string list) list \<Rightarrow> control_thread_priv \<Rightarrow> control_thread_priv res" where
  "control_thread g socket_ok bind_ok chmod_ok listen_ok cs p =
     rbind load_commands (\<lambda>c.
     fatal_if (\<not> socket_ok) ''socket: error'' (
     fatal_if (\<not> bind_ok) ''bind()ing: error'' (
     fatal_if (\<not> chmod_ok) ''chmod: error'' (
     fatal_if (\<not> listen_ok) ''listen: error'' (
     accept_loop g cs (p\<lparr>p_c := c\<rparr>))))))"

section \<open>The paranoia level manager\<close>

text \<open>
  The other thread (plmgr.c): it creates its mutex and its condition variable, and then waits again and again; \<open>wakeups\<close> is how often it is woken. \<open>ms\<close> are
  the mutexes that it holds. When it is cancelled the mutex, which it holds again then, is unlocked by the cleanup handler, and both are destroyed.
\<close>

datatype plmgr_mutex = Pleasewrite_mutex

definition plmgr_thread :: "bool \<Rightarrow> int \<Rightarrow> nat \<Rightarrow> plmgr_mutex set \<Rightarrow> plmgr_mutex set res" where
  "plmgr_thread clock_ok cond_err wakeups ms =
     (let ms = pthd_mutex_init Pleasewrite_mutex ms in
      rbind (pthd_cond_init cond_err) (\<lambda>_.
      fatal_if (\<not> clock_ok) ''unable to read CLOCK_MONOTONIC_RAW'' (
      rbind (pthd_mutex_lock Pleasewrite_mutex ms) (
      rfold (\<lambda>_. pthd_cond_wait Pleasewrite_mutex) [0..<wakeups]))))"

definition plmgr_thread_cancel_join_cleanup :: "int \<Rightarrow> plmgr_mutex set \<Rightarrow> plmgr_mutex set res" where
  "plmgr_thread_cancel_join_cleanup destroy_err ms =
     (let ms = ms - {Pleasewrite_mutex} in
      rbind (pthd_cond_destroy destroy_err) (\<lambda>_. pthd_mutex_destroy Pleasewrite_mutex ms))"

lemma plmgr_life:
  "\<exists>ms. plmgr_thread True 0 wakeups {} = Inr ms \<and> ms = {Pleasewrite_mutex} \<and> plmgr_thread_cancel_join_cleanup 0 ms = Inr {}"
proof -
  have "rfold (\<lambda>_. pthd_cond_wait Pleasewrite_mutex) ns {Pleasewrite_mutex} = Inr {Pleasewrite_mutex}" for ns :: "nat list"
    by (induction ns) simp_all
  then show ?thesis by (simp add: plmgr_thread_def plmgr_thread_cancel_join_cleanup_def pthd_cond_init_def pthd_cond_destroy_def)
qed

section \<open>One command at a time\<close>

text \<open>The reference: the commands are carried out in order, until one asks to end the connection.\<close>

fun serve_lines :: "gcrypt \<Rightarrow> string list \<Rightarrow> conn \<Rightarrow> conn res" where
  "serve_lines g [] pc = Inr pc"
| "serve_lines g (l # ls) pc = rbind (control_call g l pc) (\<lambda>(pc, ret). if ret \<noteq> 0 then Inr pc else serve_lines g ls pc)"

definition plain_line :: "string \<Rightarrow> bool" where
  "plain_line l \<longleftrightarrow> CHR 0x0A \<notin> set l \<and> CHR 0x00 \<notin> set l \<and> length l < BUF_SIZE"

lemma scan_one_line:
  assumes "plain_line l" "buf = l @ CHR 0x0A # rest" "length buf = BUF_SIZE"
  shows "scan_buffer g [0..<length l + 1] 0 buf pc =
    rbind (control_call g l pc) (\<lambda>(pc, ret).
      let buf = blit 0 (replicate (length l) CHR 0x00) (buf[length l := CHR 0x00]) in
      if ret \<noteq> 0 then Inr (pc, buf, 0, True) else Inr (pc, buf, length l + 1, False))"
proof -
  have upt: "[0..<length l + 1] = [0..<length l] @ [length l]" by simp
  have "\<forall>i\<in>set [0..<length l]. buf ! i \<noteq> CHR 0x0A" using assms(1,2) nth_mem by (fastforce simp: plain_line_def nth_append)
  then have "scan_buffer g [0..<length l + 1] 0 buf pc = scan_buffer g [length l] 0 buf pc" unfolding upt by (rule scan_skip)
  moreover have "c_string (drop 0 (buf[length l := CHR 0x00])) = l" using assms(1,2) c_string_line [of l rest] by (simp add: plain_line_def)
  moreover have "buf ! length l = CHR 0x0A" "length l \<le> BUF_SIZE" using assms by (auto simp: plain_line_def)
  ultimately show ?thesis by (simp add: Let_def cong: if_cong)
qed

lemma serve_one_line:
  assumes l: "plain_line l" and buf: "length buf = BUF_SIZE"
  shows "\<exists>buf'. length buf' = BUF_SIZE \<and> serve g ((l @ [CHR 0x0A]) # packets) (buf, 0) pc =
    rbind (control_call g l pc) (\<lambda>(pc, ret). if ret \<noteq> 0 then Inr pc else serve g packets (buf', 0) pc)"
proof -
  let ?buf = "blit 0 (l @ [CHR 0x0A]) buf"
  define buf' where "buf' = blit 0 (replicate (length l) CHR 0x00) (?buf[length l := CHR 0x00])"
  have len: "length (l @ [CHR 0x0A]) \<le> BUF_SIZE" using l by (simp add: plain_line_def)
  have eq: "?buf = l @ CHR 0x0A # drop (length l + 1) buf" by (simp add: blit_def)
  have lb: "length ?buf = BUF_SIZE" using len buf by (subst length_blit) simp_all
  have "length buf' = BUF_SIZE" unfolding buf'_def using l lb by (subst length_blit) (simp_all add: plain_line_def)
  moreover have "blit 0 (bslice n 0 buf') buf' = buf'" for n by (simp add: blit_def bslice_def)
  moreover have "take (BUF_SIZE - 0) (l @ [CHR 0x0A]) = l @ [CHR 0x0A]" using len by simp
  ultimately show ?thesis
    using scan_one_line [OF l eq lb, of g pc] unfolding Let_def buf'_def [symmetric]
    by (intro exI [of _ buf']) (cases "control_call g l pc"; force simp: receive_def Let_def BUF_SIZE_def split: prod.splits)
qed

section \<open>The bytes of the options\<close>

lemma int_bytes_small:
  assumes "0 \<le> v" "v < 256"
  shows "int_bytes v = [word_of_int v, 0, 0, 0]"
proof -
  let ?w = "word_of_int v :: u32"
  have w: "unat ?w = nat v" using assms by (simp add: nat_eq_iff unsigned_of_int take_bit_int_eq_self)
  have z: "drop_bit k ?w = 0" if "8 \<le> k" for k
  proof -
    have "(2 :: nat) ^ 8 \<le> 2 ^ k" using that by (intro power_increasing) simp_all
    moreover have "unat (drop_bit k ?w) = nat v div 2 ^ k" by (simp only: unat_drop_bit_eq w drop_bit_eq_div [of k "nat v"])
    moreover have "nat v < 2 ^ 8" using assms by simp
    ultimately have "unat (drop_bit k ?w) = 0" by (metis div_less order_less_le_trans)
    then show ?thesis by (simp add: unat_eq_zero)
  qed
  have "(ucast ?w :: u8) = word_of_int v" by transfer simp
  with z [of 8] z [of 16] z [of 24] show ?thesis by (simp add: int_bytes_def Let_def)
qed

lemma options_fold:
  "length (o_tail (fold store_option os ops)) = length (o_tail ops)" if "length (o_tail ops) = 8"
  using that
proof (induction os arbitrary: ops)
  case (Cons opt os)
  have "length (o_tail (store_option opt ops)) = 8"
    using Cons.prems by (simp add: store_option_def length_blit int_bytes_def Let_def split: scubed3_opt.split)
  with Cons show ?case by simp
qed simp

lemma options_base: "(o_base (fold store_option os ops) = None) \<longleftrightarrow> o_base ops = None \<and> (\<forall>base. Opt_b base \<notin> set os)"
  by (induction os arbitrary: ops) (auto simp: store_option_def split: scubed3_opt.splits)

section \<open>Properties\<close>

text \<open>
  C21: a client that sends one line at a time is served as it means to be: the commands are carried out in order, each exactly once, until one of them
  ends the connection. (The command line client does this; several lines in one packet are another matter.)
\<close>

theorem one_line_at_a_time:
  assumes "\<forall>l\<in>set lines. plain_line l" "length buf = BUF_SIZE"
  shows "serve g (map (\<lambda>l. l @ [CHR 0x0A]) lines) (buf, 0) pc = serve_lines g lines pc"
  using assms
proof (induction lines arbitrary: buf pc)
  case (Cons l ls)
  obtain buf' where "length buf' = BUF_SIZE" "serve g ((l @ [CHR 0x0A]) # map (\<lambda>l. l @ [CHR 0x0A]) ls) (buf, 0) pc =
    rbind (control_call g l pc) (\<lambda>(pc, ret). if ret \<noteq> 0 then Inr pc else serve g (map (\<lambda>l. l @ [CHR 0x0A]) ls) (buf', 0) pc)"
    using serve_one_line [of l buf g "map (\<lambda>l. l @ [CHR 0x0A]) ls" pc] Cons.prems by auto
  with Cons.IH Cons.prems show ?case by (simp cong: if_cong del: serve.simps)
qed simp

theorem one_line_at_a_time_witness:
  "serve demo_gcrypt [''p'' @ [CHR 0x0A], ''exit'' @ [CHR 0x0A]] (replicate BUF_SIZE CHR 0x00, 0) (demo_priv, \<lparr>sk_out = [], sk_sends = [9, 9]\<rparr>) =
    serve_lines demo_gcrypt [''p'', ''exit''] (demo_priv, \<lparr>sk_out = [], sk_sends = [9, 9]\<rparr>)"
  using one_line_at_a_time [of "[''p'', ''exit'']" "replicate BUF_SIZE CHR 0x00"] by (simp add: plain_line_def BUF_SIZE_def)

text \<open>
  C22: the order of the options matters: the size of a mesoblock is stored with four bytes where there is room for one, so the option clears the
  size of the macroblocks, the default as well as one that was given before. Given last (without being zero) it keeps the server from starting; followed by the
  size of the macroblocks both have the values that were given.
\<close>

theorem mesoblock_option_clears_macroblock_size:
  assumes "0 < m" "m < 256" "0 \<le> n" "n < 256"
  shows "scubed3_main back ec (Some (os @ [Opt_m m])) =
      (if \<exists>base. Opt_b base \<in> set os then Inl (Assert ''blockio_init_file: undefined shift'') else Inl (Fatal ''argument -b FILE is required'')) \<and>
    scubed3_main back ec (Some [Opt_b base, Opt_m m, Opt_M n]) = rbind (blockio_init_file (back base) (nat n) (nat m)) (\<lambda>b. fuse_io_start b ec)"
proof
  have u: "unat (word_of_int v :: u8) = nat v" if "0 \<le> v" "v < 256" for v
    using that by (simp add: nat_eq_iff unsigned_of_int take_bit_int_eq_self)
  let ?ops = "fold store_option os default_options"
  have "length (o_tail ?ops) = 8" using options_fold [of default_options os] by (simp add: default_options_def)
  then have t: "o_tail (store_option (Opt_m m) ?ops) ! 0 = word_of_int m" "o_tail (store_option (Opt_m m) ?ops) ! 1 = 0"
    using assms by (simp_all add: store_option_def int_bytes_small blit_def)
  have "o_base (store_option (Opt_m m) ?ops) = o_base ?ops" by (simp add: store_option_def)
  with options_base [of os default_options] t assms show "scubed3_main back ec (Some (os @ [Opt_m m])) =
      (if \<exists>base. Opt_b base \<in> set os then Inl (Assert ''blockio_init_file: undefined shift'') else Inl (Fatal ''argument -b FILE is required''))"
    by (auto simp: scubed3_main_def Let_def u blockio_init_file_def default_options_def split: option.split)
  have "fold store_option [Opt_b base, Opt_m m, Opt_M n] default_options =
      \<lparr>o_base = Some base, o_tail = [word_of_int m, word_of_int n, 0, 0, 0, 0, 0, 0]\<rparr>"
    using assms by (simp add: store_option_def default_options_def int_bytes_small blit_def)
  then show "scubed3_main back ec (Some [Opt_b base, Opt_m m, Opt_M n]) = rbind (blockio_init_file (back base) (nat n) (nat m)) (\<lambda>b. fuse_io_start b ec)"
    using assms by (simp add: scubed3_main_def Let_def u)
qed

theorem mesoblock_option_clears_macroblock_size_witness:
  "scubed3_main (\<lambda>_. Regular (replicate 5000 0)) True (Some [Opt_b ''f'', Opt_M 10, Opt_m 9]) = Inl (Assert ''blockio_init_file: undefined shift'') \<and>
   scubed3_main (\<lambda>_. Regular (replicate 5000 0)) True (Some [Opt_b ''f'', Opt_m 9, Opt_M 10]) =
     rbind (blockio_init_file (Regular (replicate 5000 0)) 10 9) (\<lambda>b. fuse_io_start b True)"
  using mesoblock_option_clears_macroblock_size [of 9 10 "\<lambda>_. Regular (replicate 5000 0)" True "[Opt_b ''f'', Opt_M 10]" "''f''"] by auto

end
