(* ===== verification/Ecch.thy ===== *)
theory Ecch
  imports Prelude "HOL-Library.Multiset"
begin

text \<open>
  Model of src/src/ecch.c and the macros of ecch.h: exceptions by setjmp and longjmp, with a list of cleanup routines per
  handler. The contexts of the running try blocks are the list \<open>x_contexts\<close>, the innermost first; the innermost one is what
  the thread specific key refers to, once the key was created. A small language stands for the code that uses the macros. The theorems show that every object that was
  initialised in a try block is freed exactly once when the block is left in any way, in reverse order, and what happens if the
  key was never created.
\<close>

section \<open>State\<close>

text \<open>A registered object, with the level of the scope in which it was initialised.\<close>

record ecch_cleanup_s =
  cl_arg :: nat
  cl_level :: int

record ecch_context_s =
  x_last :: "ecch_cleanup_s list"
  x_level :: int
  x_msg :: string

text \<open>The thread: besides the contexts, the objects that were registered and those whose cleanup routine ran, in order.\<close>

record ecch_thread =
  x_key :: bool
  x_contexts :: "ecch_context_s list"
  x_inited :: "nat list"
  x_freed :: "nat list"

definition ECCH_MSG_SIZE :: nat where "ECCH_MSG_SIZE = 256"

section \<open>Operations\<close>

definition ecch_global_init :: "bool \<Rightarrow> ecch_thread \<Rightarrow> ecch_thread res" where
  "ecch_global_init created t = fatal_if (\<not> created) ''unable to allocate pthread key for ecch context'' (Inr (t\<lparr>x_key := True\<rparr>))"

text \<open>Reading a key that was not created gives the null pointer, as long as no other library has stored a value under the key zero.\<close>

definition ecch_context_cur :: "ecch_thread \<Rightarrow> ecch_context_s option" where
  "ecch_context_cur t = (if x_key t then (case x_contexts t of [] \<Rightarrow> None | c # _ \<Rightarrow> Some c) else None)"

definition ecch_try_common :: "ecch_thread \<Rightarrow> ecch_thread" where
  "ecch_try_common t = t\<lparr>x_contexts := \<lparr>x_last = [], x_level = 0, x_msg = []\<rparr> # x_contexts t\<rparr>"

text \<open>The routines of the registered objects run, the last one first, down to the given level.\<close>

fun ecch_cleanup :: "ecch_cleanup_s list \<Rightarrow> int \<Rightarrow> ecch_cleanup_s list \<times> nat list" where
  "ecch_cleanup [] level = ([], [])"
| "ecch_cleanup (p # ps) level =
     (if cl_level p \<ge> level then let (rest, done) = ecch_cleanup ps level in (rest, cl_arg p # done) else (p # ps, []))"

definition ecch_cleanup_levels :: "int \<Rightarrow> ecch_thread \<Rightarrow> ecch_thread res" where
  "ecch_cleanup_levels level t =
     (case x_contexts t of
        [] \<Rightarrow> Inl (Assert ''ecch_cleanup_levels: c'')
      | c # cs \<Rightarrow>
          let (rest, done) = ecch_cleanup (x_last c) level in
          Inr (t\<lparr>x_contexts := c\<lparr>x_last := rest\<rparr> # cs, x_freed := x_freed t @ done\<rparr>))"

definition ecch_pop :: "ecch_thread \<Rightarrow> ecch_thread" where
  "ecch_pop t = t\<lparr>x_contexts := tl (x_contexts t)\<rparr>"

text \<open>The end of a thread that is cancelled.\<close>

fun cleanup_thread_loop :: "ecch_context_s list \<Rightarrow> nat list" where
  "cleanup_thread_loop [] = []"
| "cleanup_thread_loop (c # cs) = snd (ecch_cleanup (x_last c) 0) @ cleanup_thread_loop cs"

definition ecch_cleanup_thread :: "ecch_thread \<Rightarrow> ecch_thread" where
  "ecch_cleanup_thread t =
     (if x_key t then t\<lparr>x_contexts := [], x_freed := x_freed t @ cleanup_thread_loop (x_contexts t)\<rparr> else t)"

definition ecch_context_add :: "nat \<Rightarrow> ecch_thread \<Rightarrow> ecch_thread res" where
  "ecch_context_add arg t =
     (case x_contexts t of
        [] \<Rightarrow> Inl (Assert ''NULL dereference: ecch_contextp'')
      | c # cs \<Rightarrow>
          Inr (t\<lparr>x_contexts := c\<lparr>x_last := \<lparr>cl_arg = arg, cl_level = x_level c\<rparr> # x_last c\<rparr> # cs, x_inited := x_inited t @ [arg]\<rparr>))"

definition add_level :: "int \<Rightarrow> ecch_thread \<Rightarrow> ecch_thread" where
  "add_level n t = t\<lparr>x_contexts := (case x_contexts t of [] \<Rightarrow> [] | c # cs \<Rightarrow> c\<lparr>x_level := x_level c + n\<rparr> # cs)\<rparr>"

definition ecch_start :: "ecch_thread \<Rightarrow> ecch_thread res" where
  "ecch_start t = asserting (ecch_context_cur t \<noteq> None) ''ecch_start: ecch_contextp'' (Inr (add_level 1 t))"

definition ecch_end :: "ecch_thread \<Rightarrow> ecch_thread res" where
  "ecch_end t =
     (case x_contexts t of
        [] \<Rightarrow> Inl (Assert ''NULL dereference: ecch_contextp'')
      | c # _ \<Rightarrow> rbind (ecch_cleanup_levels (x_level c) t) (\<lambda>t. Inr (add_level (-1) t)))"

text \<open>
  The message is cut to the size of its buffer. The second result is what setjmp returns in the handler, and zero is the
  result of code that was not left by an exception; longjmp turns zero into one.
\<close>

definition ecch_throw :: "u32 \<Rightarrow> string \<Rightarrow> ecch_thread \<Rightarrow> (ecch_thread \<times> u32) res" where
  "ecch_throw a msg t =
     (case ecch_context_cur t of
        None \<Rightarrow> Inl (Fatal (''BUG:unhandled exception: '' @ msg))
      | Some c \<Rightarrow>
          rbind (ecch_cleanup_levels 0 (t\<lparr>x_contexts := c\<lparr>x_msg := take (ECCH_MSG_SIZE - 1) msg\<rparr> # tl (x_contexts t)\<rparr>)) (\<lambda>t.
          Inr (t, if a = 0 then 1 else a)))"

text \<open>
  The wrappers of gcry.c: an error of libgcrypt, and memory that it cannot get, are exceptions of the default type. \<open>strerror\<close> is the text of an error, which
  the library gives.
\<close>

definition ECCH_DEFAULT :: u32 where "ECCH_DEFAULT = 1"

definition GCRY_MSG_LEN :: nat where "GCRY_MSG_LEN = 128"

definition gcry_fatal :: "(int \<Rightarrow> string) \<Rightarrow> int \<Rightarrow> string \<Rightarrow> ecch_thread \<Rightarrow> (ecch_thread \<times> u32) res" where
  "gcry_fatal strerror err postfix t = ecch_throw ECCH_DEFAULT (''gcry_'' @ postfix @ '': '' @ take (GCRY_MSG_LEN - 2) (strerror err)) t"

definition gcry_outofcore_handler :: "string \<Rightarrow> ecch_thread \<Rightarrow> (ecch_thread \<times> u32) res" where
  "gcry_outofcore_handler size_text t = ecch_throw ECCH_DEFAULT (''libgcrypt out of memory allocating '' @ size_text @ '' bytes'') t"

section \<open>Code that uses the macros\<close>

datatype ecch_pattern = Catch u32 | Catch_type u32 | Catch_all

definition catches :: "ecch_pattern \<Rightarrow> u32 \<Rightarrow> bool" where
  "catches p type = (case p of Catch a \<Rightarrow> type = a | Catch_type a \<Rightarrow> drop_bit 16 type = a | Catch_all \<Rightarrow> type \<noteq> 0)"

text \<open>
  \<open>Init\<close> registers an object and then runs its constructor, \<open>Scope\<close> is the code between ecch_start and ecch_end, \<open>Try\<close> has its body and the
  handlers in their order.
\<close>

datatype ecch_code = Skip | Init nat ecch_code | Throw u32 string | Seq ecch_code ecch_code | Scope ecch_code
  | Try ecch_code "(ecch_pattern \<times> ecch_code) list"

text \<open>An exception that no handler catches is thrown again, with the same message.\<close>

fun exec :: "ecch_code \<Rightarrow> ecch_thread \<Rightarrow> (ecch_thread \<times> u32) res"
  and ecch_catch :: "(ecch_pattern \<times> ecch_code) list \<Rightarrow> u32 \<Rightarrow> string \<Rightarrow> ecch_thread \<Rightarrow> (ecch_thread \<times> u32) res" where
  "exec Skip t = Inr (t, 0)"
| "exec (Init arg init) t = rbind (ecch_context_add arg t) (exec init)"
| "exec (Throw a msg) t = ecch_throw a msg t"
| "exec (Seq p q) t = rbind (exec p t) (\<lambda>(t, type). if type = 0 then exec q t else Inr (t, type))"
| "exec (Scope p) t =
     rbind (ecch_start t) (\<lambda>t.
     rbind (exec p t) (\<lambda>(t, type).
     if type = 0 then rbind (ecch_end t) (\<lambda>t. Inr (t, 0)) else Inr (t, type)))"
| "exec (Try p hs) t =
     rbind (exec p (ecch_try_common t)) (\<lambda>(t, type).
     if type = 0 then rbind (ecch_cleanup_levels 0 t) (\<lambda>t. Inr (ecch_pop t, 0))
     else ecch_catch hs type (x_msg (hd (x_contexts t))) (ecch_pop t))"
| "ecch_catch [] type msg t = ecch_throw type msg t"
| "ecch_catch ((pat, h) # hs) type msg t = (if catches pat type then exec h t else ecch_catch hs type msg t)"

text \<open>
  Objects are initialised in the body of a try block or in a scope: there the pointer to the context refers to the innermost one. (In a
  handler it refers to the context that was just left.)
\<close>

fun code_ok :: "bool \<Rightarrow> ecch_code \<Rightarrow> bool" where
  "code_ok b Skip = True"
| "code_ok b (Init arg init) = (b \<and> code_ok False init)"
| "code_ok b (Throw a msg) = True"
| "code_ok b (Seq p q) = (code_ok b p \<and> code_ok b q)"
| "code_ok b (Scope p) = code_ok True p"
| "code_ok b (Try p hs) = (code_ok True p \<and> list_all (\<lambda>(_, h). code_ok False h) hs)"

section \<open>Cleaning up\<close>

lemma cleanup_split:
  assumes "\<forall>e\<in>set new. level \<le> cl_level e" "\<forall>e\<in>set old. cl_level e < level"
  shows "ecch_cleanup (new @ old) level = (old, map cl_arg new)"
  using assms
proof (induction new)
  case Nil
  then show ?case by (cases old) auto
qed simp

definition ctx_ok :: "ecch_context_s \<Rightarrow> bool" where
  "ctx_ok c \<longleftrightarrow> 0 \<le> x_level c \<and> (\<forall>e\<in>set (x_last c). 0 \<le> cl_level e \<and> cl_level e \<le> x_level c)"

lemma cleanup_all: "ctx_ok c \<Longrightarrow> ecch_cleanup (x_last c) 0 = ([], map cl_arg (x_last c))"
  using cleanup_split [of "x_last c" 0 "[]"] by (simp add: ctx_ok_def)

definition registered :: "ecch_thread \<Rightarrow> nat list" where
  "registered t = concat (map (\<lambda>c. map cl_arg (x_last c)) (x_contexts t))"

text \<open>Every object that was initialised was freed or is still registered.\<close>

definition thread_ok :: "ecch_thread \<Rightarrow> bool" where
  "thread_ok t \<longleftrightarrow> x_key t \<and> list_all ctx_ok (x_contexts t) \<and> mset (x_inited t) = mset (x_freed t) + mset (registered t)"

text \<open>
  What running a piece of code does to the contexts: the outer ones are not touched; the innermost one has gained objects of its own level (none, unless
  the code may initialise some) or, after an exception, is empty.
\<close>

definition kept :: "bool \<Rightarrow> ecch_thread \<Rightarrow> ecch_thread \<Rightarrow> u32 \<Rightarrow> bool" where
  "kept b t t' type \<longleftrightarrow> thread_ok t' \<and> tl (x_contexts t') = tl (x_contexts t) \<and> (x_contexts t' = [] \<longleftrightarrow> x_contexts t = []) \<and>
     (type = 0 \<longrightarrow> x_contexts t \<noteq> [] \<longrightarrow>
       x_level (hd (x_contexts t')) = x_level (hd (x_contexts t)) \<and>
       (\<exists>new. x_last (hd (x_contexts t')) = new @ x_last (hd (x_contexts t)) \<and> (\<forall>e\<in>set new. cl_level e = x_level (hd (x_contexts t))) \<and> (\<not> b \<longrightarrow> new = []))) \<and>
     (type \<noteq> 0 \<longrightarrow> x_contexts t \<noteq> [] \<and> x_last (hd (x_contexts t')) = [])"

lemma kept_weaken: "kept False t t' type \<Longrightarrow> kept b t t' type"
  by (auto simp: kept_def)

lemma kept_throw: "ecch_throw a msg t = Inr (t', type) \<Longrightarrow> thread_ok t \<Longrightarrow> kept b t t' type \<and> type \<noteq> 0 \<and>
    x_freed t' = x_freed t @ map cl_arg (x_last (hd (x_contexts t))) \<and> x_msg (hd (x_contexts t')) = take (ECCH_MSG_SIZE - 1) msg"
  by (auto simp: ecch_throw_def ecch_context_cur_def ecch_cleanup_levels_def thread_ok_def kept_def registered_def cleanup_all res_simps Let_def
      split: list.splits if_splits option.splits) (auto simp: ctx_ok_def cleanup_all)

lemma kept_seq:
  assumes a: "kept b t t1 0" and b: "kept b t1 t2 type"
  shows "kept b t t2 type"
proof (cases "x_contexts t = []")
  case True
  then show ?thesis using a b by (simp add: kept_def)
next
  case False
  then obtain new1 where n1: "x_contexts t1 \<noteq> []" "x_last (hd (x_contexts t1)) = new1 @ x_last (hd (x_contexts t))"
    "\<forall>e\<in>set new1. cl_level e = x_level (hd (x_contexts t))" "\<not> b \<longrightarrow> new1 = []" "x_level (hd (x_contexts t1)) = x_level (hd (x_contexts t))"
    using a unfolding kept_def by blast
  have "\<exists>new. x_last (hd (x_contexts t2)) = new @ x_last (hd (x_contexts t)) \<and> (\<forall>e\<in>set new. cl_level e = x_level (hd (x_contexts t))) \<and> (\<not> b \<longrightarrow> new = [])"
    if z: "type = 0"
  proof -
    obtain new2 where "x_last (hd (x_contexts t2)) = new2 @ x_last (hd (x_contexts t1))" "\<forall>e\<in>set new2. cl_level e = x_level (hd (x_contexts t1))"
      "\<not> b \<longrightarrow> new2 = []" using b z n1(1) unfolding kept_def by blast
    then show ?thesis using n1 by (intro exI [of _ "new2 @ new1"]) auto
  qed
  then show ?thesis using False a b n1 unfolding kept_def by simp
qed

lemma ctx_ok_up: "ctx_ok c \<Longrightarrow> ctx_ok (c\<lparr>x_level := x_level c + 1\<rparr>)"
  by (force simp: ctx_ok_def)

lemma kept_add:
  assumes "ecch_context_add arg t = Inr t1" "thread_ok t" "kept False t1 t' type"
  shows "kept True t t' type"
proof -
  obtain c cs where t: "x_contexts t = c # cs" using assms(1) by (auto simp: ecch_context_add_def split: list.splits)
  then have "t1 = t\<lparr>x_contexts := c\<lparr>x_last := \<lparr>cl_arg = arg, cl_level = x_level c\<rparr> # x_last c\<rparr> # cs, x_inited := x_inited t @ [arg]\<rparr>"
    using assms(1) by (simp add: ecch_context_add_def)
  with assms(3) t show ?thesis by (auto simp: kept_def intro: exI [of _ "[\<lparr>cl_arg = arg, cl_level = x_level c\<rparr>]"])
qed

lemma thread_ok_add: "ecch_context_add arg t = Inr t1 \<Longrightarrow> thread_ok t \<Longrightarrow> thread_ok t1"
  by (auto simp: ecch_context_add_def thread_ok_def registered_def ctx_ok_def split: list.splits)

lemma thread_ok_start: "ecch_start t = Inr t1 \<Longrightarrow> thread_ok t \<Longrightarrow> thread_ok t1 \<and> x_contexts t1 \<noteq> []"
  by (auto simp: ecch_start_def add_level_def ecch_context_cur_def thread_ok_def registered_def res_simps split: list.splits if_splits intro: ctx_ok_up)

text \<open>A scope: what was initialised in it is freed at its end, in reverse order.\<close>

lemma kept_scope:
  assumes start: "ecch_start t = Inr t1" and ok: "thread_ok t" and body: "kept True t1 t2 type"
  shows "type \<noteq> 0 \<Longrightarrow> kept b t t2 type" "type = 0 \<Longrightarrow> ecch_end t2 = Inr t3 \<Longrightarrow> kept b t t3 0"
proof -
  obtain c cs where t: "x_contexts t = c # cs" and t1: "x_contexts t1 = c\<lparr>x_level := x_level c + 1\<rparr> # cs"
    using start by (auto simp: ecch_start_def ecch_context_cur_def add_level_def res_simps split: if_splits list.splits)
  show "kept b t t2 type" if "type \<noteq> 0" using body that t t1 by (simp add: kept_def)
  assume z: "type = 0" and e: "ecch_end t2 = Inr t3"
  obtain c2 new where t2: "x_contexts t2 = c2 # cs" "x_level c2 = x_level c + 1" "x_last c2 = new @ x_last c" "\<forall>e\<in>set new. cl_level e = x_level c + 1"
    using body z t1 by (cases "x_contexts t2") (auto simp: kept_def)
  have c: "ctx_ok c" using ok t by (simp add: thread_ok_def)
  then have "ecch_cleanup (x_last c2) (x_level c2) = (x_last c, map cl_arg new)"
    using t2 by (simp only: t2(3)) (intro cleanup_split, auto simp: ctx_ok_def)
  then have t3: "x_contexts t3 = c2\<lparr>x_last := x_last c, x_level := x_level c\<rparr> # cs" "x_freed t3 = x_freed t2 @ map cl_arg new"
    "x_inited t3 = x_inited t2" "x_key t3 = x_key t2"
    using e t2 by (auto simp: ecch_end_def ecch_cleanup_levels_def add_level_def)
  have "thread_ok t2" using body by (simp add: kept_def)
  then have "thread_ok t3" using c t2 t3 by (simp add: thread_ok_def registered_def ctx_ok_def)
  then show "kept b t t3 0" using t t3 by (simp add: kept_def)
qed

text \<open>A try block that is left: its context has no objects.\<close>

lemma kept_try:
  assumes ok: "thread_ok t" and body: "kept True (ecch_try_common t) t1 type"
  shows "type \<noteq> 0 \<Longrightarrow> thread_ok (ecch_pop t1) \<and> x_contexts (ecch_pop t1) = x_contexts t"
    "type = 0 \<Longrightarrow> ecch_cleanup_levels 0 t1 = Inr t2 \<Longrightarrow> thread_ok (ecch_pop t2) \<and> x_contexts (ecch_pop t2) = x_contexts t"
proof -
  obtain c where t1: "x_contexts t1 = c # x_contexts t" using body unfolding kept_def ecch_try_common_def by (cases "x_contexts t1") auto
  have "thread_ok t1" using body by (simp add: kept_def)
  moreover have "ctx_ok c" using calculation t1 by (simp add: thread_ok_def)
  ultimately have ok1: "thread_ok t1" "ctx_ok c" .
  show "thread_ok (ecch_pop t1) \<and> x_contexts (ecch_pop t1) = x_contexts t" if "type \<noteq> 0"
    using body ok1 t1 that by (simp add: ecch_pop_def kept_def thread_ok_def registered_def)
  show "thread_ok (ecch_pop t2) \<and> x_contexts (ecch_pop t2) = x_contexts t" if "type = 0" "ecch_cleanup_levels 0 t1 = Inr t2"
    using that(2) ok1 t1 by (auto simp: ecch_cleanup_levels_def cleanup_all ecch_pop_def thread_ok_def registered_def)
qed

lemma kept_same: "thread_ok t' \<Longrightarrow> x_contexts t' = x_contexts t \<Longrightarrow> kept b t t' 0"
  by (simp add: kept_def)

lemma kept_from: "x_contexts t1 = x_contexts t \<Longrightarrow> kept b t1 t' type \<Longrightarrow> kept b t t' type"
  by (simp add: kept_def)

lemma exec_keeps:
  "exec p t = Inr (t', type) \<Longrightarrow> thread_ok t \<Longrightarrow> code_ok b p \<Longrightarrow> (b \<longrightarrow> x_contexts t \<noteq> []) \<Longrightarrow> kept b t t' type"
  "ecch_catch hs ty msg t = Inr (t', type) \<Longrightarrow> thread_ok t \<Longrightarrow> list_all (\<lambda>(_, h). code_ok False h) hs \<Longrightarrow> kept False t t' type"
proof (induction p t and hs ty msg t arbitrary: t' type b and t' type rule: exec_ecch_catch.induct)
  case (1 t)
  then show ?case by (simp add: kept_same)
next
  case (2 arg init t)
  then obtain t1 where t1: "ecch_context_add arg t = Inr t1" "exec init t1 = Inr (t', type)" by (auto simp: res_simps)
  with "2.IH" [OF t1(1) t1(2), of False] "2.prems" show ?case using kept_add [OF t1(1)] thread_ok_add [OF t1(1)] by simp
next
  case (3 a msg t)
  then show ?case using kept_throw by simp
next
  case (4 p q t)
  then obtain t1 type1 where t1: "exec p t = Inr (t1, type1)" "(if type1 = 0 then exec q t1 else Inr (t1, type1)) = Inr (t', type)"
    by (auto simp: res_simps)
  have k: "kept b t t1 type1" using "4.IH"(1) [OF t1(1)] "4.prems" by simp
  show ?case
  proof (cases "type1 = 0")
    case True
    then have "kept b t1 t' type" using "4.IH"(2) [OF t1(1) refl] t1(2) k "4.prems" by (auto simp: kept_def)
    with k True show ?thesis by (auto intro: kept_seq)
  qed (use k t1(2) in simp)
next
  case (5 p t)
  then obtain t1 t2 type2 where t1: "ecch_start t = Inr t1" "exec p t1 = Inr (t2, type2)"
    "(if type2 = 0 then rbind (ecch_end t2) (\<lambda>t. Inr (t, 0)) else Inr (t2, type2)) = Inr (t', type)" by (auto simp: res_simps)
  have "kept True t1 t2 type2" using "5.IH" [OF t1(1,2)] thread_ok_start [OF t1(1)] "5.prems" by simp
  note sc = kept_scope [OF t1(1) "5.prems"(2) this]
  show ?case using sc t1(3) by (cases "type2 = 0") (auto simp: res_simps)
next
  case (6 p hs t)
  then obtain t1 type1 where t1: "exec p (ecch_try_common t) = Inr (t1, type1)"
    "(if type1 = 0 then rbind (ecch_cleanup_levels 0 t1) (\<lambda>t. Inr (ecch_pop t, 0))
      else ecch_catch hs type1 (x_msg (hd (x_contexts t1))) (ecch_pop t1)) = Inr (t', type)" by (auto simp: res_simps)
  have "thread_ok (ecch_try_common t)" using "6.prems"(2) by (simp add: thread_ok_def ecch_try_common_def registered_def ctx_ok_def)
  then have "kept True (ecch_try_common t) t1 type1" using "6.IH"(1) [OF t1(1), of True] "6.prems" by (simp add: ecch_try_common_def)
  note tr = kept_try [OF "6.prems"(2) this]
  show ?case
  proof (cases "type1 = 0")
    case True
    then show ?thesis using tr(2) t1(2) by (auto simp: res_simps intro: kept_same)
  next
    case False
    then have "kept False (ecch_pop t1) t' type" using "6.IH"(2) [OF t1(1) refl False] t1(2) tr(1) "6.prems"(3) by simp
    then show ?thesis using tr(1) False by (auto intro: kept_weaken kept_from)
  qed
next
  case (7 ty msg t)
  then show ?case using kept_throw by simp
next
  case (8 pat h hs ty msg t)
  then show ?case by (auto split: if_splits)
qed

section \<open>Properties\<close>

text \<open>
  C23: no leak and no double free: when a try block of the outermost level is left, in whatever way, no context is left, no exception is pending, and the objects that were
  initialised while it ran, nested blocks, scopes and failed constructors included, are exactly the ones that were freed, each once.
\<close>

theorem try_frees_every_object:
  assumes "exec (Try p hs) t = Inr (t', type)" "x_key t" "x_contexts t = []" "mset (x_inited t) = mset (x_freed t)" "code_ok b (Try p hs)"
  shows "type = 0 \<and> x_contexts t' = [] \<and> mset (x_inited t') = mset (x_freed t')"
proof -
  have "thread_ok t" using assms(2-4) by (simp add: thread_ok_def registered_def)
  then have "kept False t t' type" using exec_keeps(1) [OF assms(1), of False] assms(5) by simp
  then show ?thesis using assms(3) by (auto simp: kept_def thread_ok_def registered_def)
qed

definition demo_code :: ecch_code where
  "demo_code = Try (Seq (Init 1 Skip) (Seq (Scope (Init 2 Skip)) (Try (Init 3 (Throw 1 ''full'')) [(Catch 7, Skip)]))) [(Catch_all, Skip)]"

definition demo_thread :: ecch_thread where
  "demo_thread = \<lparr>x_key = True, x_contexts = [], x_inited = [], x_freed = []\<rparr>"

theorem try_frees_every_object_witness:
  "\<exists>t'. exec demo_code demo_thread = Inr (t', 0) \<and> x_freed t' = [2, 3, 1] \<and> mset (x_inited t') = mset (x_freed t')"
proof -
  obtain t' where t': "exec demo_code demo_thread = Inr (t', 0)" "x_freed t' = [2, 3, 1]"
    by (simp add: demo_code_def demo_thread_def ecch_try_common_def ecch_context_add_def ecch_throw_def ecch_cleanup_levels_def ecch_context_cur_def
        ecch_pop_def ecch_start_def ecch_end_def add_level_def catches_def)
  from try_frees_every_object [OF t'(1) [unfolded demo_code_def], of True] t' show ?thesis by (auto simp: demo_thread_def)
qed

text \<open>
  C24: an exception frees what the innermost try block has registered, the last object first, and nothing else; its message reaches the handler, cut to 255
  characters. But if the key for the contexts was never created, which is the state of a process that does not call ecch_global_init,
  any exception ends the process, whatever the handlers are.
\<close>

theorem throw_frees_in_reverse:
  "(thread_ok t \<and> x_contexts t = c # cs \<longrightarrow>
     (\<exists>t' type. exec (Throw a msg) t = Inr (t', type) \<and> type \<noteq> 0 \<and> (a \<noteq> 0 \<longrightarrow> type = a) \<and> x_freed t' = x_freed t @ map cl_arg (x_last c) \<and>
       tl (x_contexts t') = cs \<and> x_last (hd (x_contexts t')) = [] \<and> x_msg (hd (x_contexts t')) = take 255 msg)) \<and>
   (\<not> x_key t \<longrightarrow> exec (Try (Throw a msg) hs) t = Inl (Fatal (''BUG:unhandled exception: '' @ msg)))"
proof (intro conjI impI)
  assume t: "thread_ok t \<and> x_contexts t = c # cs"
  then obtain t' type where t': "ecch_throw a msg t = Inr (t', type)" "a \<noteq> 0 \<longrightarrow> type = a"
    by (auto simp: ecch_throw_def ecch_context_cur_def ecch_cleanup_levels_def thread_ok_def cleanup_all)
  note k = kept_throw [OF t'(1), of False]
  have "kept False t t' type" "type \<noteq> 0" "x_freed t' = x_freed t @ map cl_arg (x_last c)" "x_msg (hd (x_contexts t')) = take 255 msg"
    using k t by (simp_all add: ECCH_MSG_SIZE_def)
  then show "\<exists>t' type. exec (Throw a msg) t = Inr (t', type) \<and> type \<noteq> 0 \<and> (a \<noteq> 0 \<longrightarrow> type = a) \<and> x_freed t' = x_freed t @ map cl_arg (x_last c) \<and>
       tl (x_contexts t') = cs \<and> x_last (hd (x_contexts t')) = [] \<and> x_msg (hd (x_contexts t')) = take 255 msg"
    using t t' by (intro exI [of _ t'] exI [of _ type]) (simp add: kept_def)
qed (simp add: ecch_throw_def ecch_context_cur_def ecch_try_common_def)

theorem throw_frees_in_reverse_witness:
  "exec (Try (Throw 1 ''x'') [(Catch_all, Skip)]) (demo_thread\<lparr>x_key := False\<rparr>) = Inl (Fatal ''BUG:unhandled exception: x'') \<and>
   (\<exists>t' type. exec (Throw 1 ''x'') (demo_thread\<lparr>x_contexts := [\<lparr>x_last = [\<lparr>cl_arg = 5, cl_level = 0\<rparr>], x_level = 0, x_msg = []\<rparr>], x_inited := [5]\<rparr>) =
     Inr (t', type) \<and> x_freed t' = [5] \<and> type = 1)"
proof -
  let ?c = "\<lparr>x_last = [\<lparr>cl_arg = 5, cl_level = 0\<rparr>], x_level = 0, x_msg = []\<rparr>"
  have "thread_ok (demo_thread\<lparr>x_contexts := [?c], x_inited := [5]\<rparr>)" by (simp add: thread_ok_def demo_thread_def registered_def ctx_ok_def)
  then show ?thesis
    using throw_frees_in_reverse [of "demo_thread\<lparr>x_contexts := [?c], x_inited := [5]\<rparr>" ?c "[]" 1 "''x''"]
      throw_frees_in_reverse [of "demo_thread\<lparr>x_key := False\<rparr>" ?c "[]" 1 "''x''" "[(Catch_all, Skip)]"] by (auto simp: demo_thread_def)
qed

end
