(* ===== verification/Spec2Isabelle.thy ===== *)
theory Spec2Isabelle
  imports Scubed3_Durable Scubed3ctl_Requests Service Ecch
begin

text \<open>
  Verification of scubed3, a deniable, log structured, encrypted block device in user space (C sources under src/src).

  \<^bold>\<open>The program.\<close> A backing file is cut into macroblocks; a macroblock holds a header mesoblock and a number of data
  mesoblocks. Several devices, each with its own key, share the file. A device appends new versions of its mesoblocks to the
  macroblock that is being filled in memory; when that one is full it is encrypted and written, and a random choice (the juggler)
  decides which macroblock is written next. Before a macroblock is reused its live mesoblocks are copied to the current
  one. The open devices are files in a file system (fuse), and a socket takes commands that open, create, resize and close them.

  \<^bold>\<open>Theories and sources.\<close>
  \<^item> \<open>Prelude\<close>: widths of the C types, errors (failed assertions, fatal errors, exceptions), sequencing of fallible
    steps, slices of and copies into byte buffers.
  \<^item> \<open>Binio\<close> (binio.c), \<open>Bitmap\<close> (bitmap.c), \<open>Random_Source\<close> (random.c), \<open>Dllarr\<close> (dllarr.c), \<open>Util\<close> (util.c), \<open>Pthd\<close> (pthd.c):
    the helpers. The list of dllarr.c is modelled with its pointers, on a heap; the interface \<open>indexed_list\<close> says what it
    promises and is interpreted on the pointer operations, and \<open>flag_set\<close> does the same for the bitmap.
  \<^item> \<open>Juggler\<close> (juggler.c and the descriptor of blockio.h): the schedule of macroblocks, one definition per function.
  \<^item> \<open>Cipher\<close> (cipher.c, cipher_cbc.c, cipher_null.c): the modes over a memory in which input and output may overlap.
  \<^item> \<open>Blockio\<close> (blockio.c): layout, headers, scanning, allocation, opening and closing of devices.
  \<^item> \<open>Scubed3_Device\<close> (scubed3.c): the operations of the log structured device. \<open>Scubed3_View\<close> has the invariant of the device and the
    array that it stands for (\<open>flat\<close>); \<open>Scubed3_Log\<close> has the invariant of what is on disk; \<open>Scubed3_Ops\<close> shows what every
    operation keeps; \<open>Scubed3_Array\<close> has the requests of arbitrary position and size, the interface \<open>byte_store\<close> with
    its interpretation on the device, and the properties of an open device.
  \<^item> \<open>Scubed3_Replay\<close>, \<open>Scubed3_Scan\<close>, \<open>Scubed3_Reopen\<close>, \<open>Scubed3_Durable\<close>: closing a device and opening it again
    (\<^verbatim>\<open>replay\<close> and \<^verbatim>\<open>scubed3_init\<close> of scubed3.c, \<^verbatim>\<open>blockio_dev_init\<close> and \<^verbatim>\<open>blockio_dev_free\<close> of blockio.c).
  \<^item> \<open>Hashtbl\<close> (hashtbl.c): the thread safe table, with every mutex operation; the interface \<open>registry\<close> (a finite map from keys to
    elements) is interpreted on it. \<open>Command_Table\<close>: the use that both programs make of it, as the interface \<open>name_table\<close>.
  \<^item> \<open>Fuse_Io\<close> (fuse_io.c): the table of open devices and the file handlers. \<open>Control\<close> (control.c): the answers, the line
    splitter, the command table, every command handler, and the loop that cuts the received bytes into commands.
    \<open>Control_Answers\<close> shows which texts the handlers send.
  \<^item> \<open>Service\<close> (\<^verbatim>\<open>main\<close> of scubed3.c, \<^verbatim>\<open>control_thread\<close> of control.c, plmgr.c): options, start and end of the threads, and the
    connections that are accepted one after the other.
  \<^item> \<open>Scubed3ctl\<close> (scubed3ctl.c): the client, from its options to its exit status. \<open>Scubed3ctl_Session\<close> shows how it reads an
    answer, \<open>Scubed3ctl_Requests\<close> what its commands ask of the server.
  \<^item> \<open>Ecch\<close> (ecch.c, ecch.h, gcry.c): the exceptions with their cleanup lists. In the other theories an exception is a value of the
    result type.

  The state of a component is a record with the fields of the C structure under the same names (prefixed where a field name
  occurs twice), an operation is a definition under the name of the function. Loops of the code that have a part of the
  state as their argument are separate functions; all of them are total. A result \<open>Inl\<close> stands for the end of the process (assertion,
  \<^verbatim>\<open>FATAL\<close>) or for an exception of ecch.h.

  \<^bold>\<open>What the theorems show.\<close>
  \<^item> A device is an array: a write request changes exactly the addressed bytes, a read returns them, any sequence of writes
    reads back in order, growing appends zeros, and garbage collection, cycling and the writes of other devices are invisible.
  \<^item> A device that is closed and opened again has the contents that it had, however its versions are spread over the file, if
    the last macroblock was written at the close. The flag that decides this is cleared too early, so the write that opens
    a new macroblock is lost; that has its own theorem.
  \<^item> A macroblock that was written is recognised by a scan and its header and mesoblocks are read back; nothing else on disk changes;
    the layout computed at the start leaves room for every header.
  \<^item> The juggler keeps its schedule consistent, hands out a block exactly at the number it was promised for, never gets
    stuck, and is rebuilt from what is on disk.
  \<^item> The helpers implement sets, lists, encodings and uniform choice; encryption in place is undone by decryption.
  \<^item> The hash table is a finite map, no reachable table can make an operation fail, and every operation returns with
    exactly the mutexes that it documents.
  \<^item> Files are independent of each other and read back what was written; a line of text reaches the handler of the command that it names.
  \<^item> A command is answered exactly once, unless it has a number that cannot be parsed or the server keeps a text that looks like the
    end of an answer, and the client recovers status and lines of the answer, whatever pieces the bytes arrive in.
    A passphrase reaches the server as the key derived from it, and a resize is requested only with consent and with numbers
    that make sense. A client that sends one line at a time is served command by command.
  \<^item> Every object that was registered in a try block is freed exactly once, in reverse order, in whatever way the block is left.
  \<^item> Where the code does something else than it means to do, a theorem shows what it does (crash on a bad key, lost commands, sizes
    modulo 4 GiB, an option that overwrites its neighbour, an exit status that hides a refusal, decryption out of place, and others).

  \<^bold>\<open>Inputs from outside.\<close> What the environment delivers is part of the state, as a finite list: the values read from
  /dev/urandom, the results of \<^verbatim>\<open>send\<close>, the packets that the peer sends, the addresses of allocated entries, the lines that are
  typed, the options in their order, the accepted connections. At the
  end of the list the call fails as the code says. So no fuel is needed, and a theorem about a loop that waits for a good random
  value says that it returns as soon as the list contains one. libgcrypt is the record \<open>gcrypt\<close> of the functions
  that are called, with their documented behaviour as \<open>gcrypt_ok\<close>; the witnesses use a concrete instance. Device theorems
  about writes assume for requests that find the current macroblock full (\<open>req_calm\<close>) that the juggler does not hand out the
  same block twice in a row, and that the mutexes are not of the error checking kind; the code handles neither case, and each has
  its own theorem; the theorem about cycles has the first of these assumptions. With error checking mutexes, which is how the program is built, the theorems cover the writes that
  find room in the current macroblock.

  \<^bold>\<open>Not modelled.\<close> The interleaving of threads: a thread is seen with the mutexes that it holds (an operation on a device runs
  under the lock of its entry, an operation on the shared pool under the lock of the pool, so both are atomic). The library
  fuse, the parsing of options by getopt and fuse, and readline, whose results are inputs. The mechanism of setjmp and longjmp, of
  which only the effect is modelled. verbose.c, the help texts and the functions that print a state for debugging. The
  allocation wrappers of util.c, which only end the process when there is no memory, and the functions that only release
  memory. An invariant of the whole service that every command and every file operation keeps is not stated.
\<close>

end
